(* ===== verification/Ptrtd_Prelude.thy ===== *)
theory Ptrtd_Prelude
  imports Main "HOL-Library.Word" "HOL-Library.Monad_Syntax"
begin

text \<open>
  The types, the memory primitives and the lemma collections every component shares.

  C values: a byte is an \<open>8 word\<close>, an \<open>unsigned int\<close> a \<open>32 word\<close>, an
  \<open>unsigned long\<close> or a pointer a \<open>64 word\<close> (0 is NULL); an \<open>int\<close> is an
  \<open>int\<close>, and the places where the code converts between the two write the
  conversion out (\<open>sint\<close>, \<open>word_of_int\<close>).

  Undefined behaviour is a value: an operation that can dereference a NULL or dangling
  pointer, or read or write outside an object, returns an \<open>option\<close> and \<open>None\<close>
  stands for that fault. Sequencing is \<open>Option.bind\<close> in do-notation, so a theorem that an
  operation returns \<open>Some\<close> is a theorem that it is memory safe (and, for the loops that are
  \<open>partial_function\<close>s, that it terminates).
\<close>

unbundle bit_operations_syntax

type_synonym byte = "8 word"
type_synonym u32 = "32 word"
type_synonym ptr = "64 word"

named_theorems mem_simps "reading and writing byte memory"
named_theorems pack_simps "packed parent pointer and colour words"

subsection \<open>Byte memory\<close>

definition mem_get :: "'a list \<Rightarrow> nat \<Rightarrow> 'a option" where
  "mem_get m i = (if i < length m then Some (m ! i) else None)"

definition mem_sub :: "'a list \<Rightarrow> nat \<Rightarrow> nat \<Rightarrow> 'a list option" where
  "mem_sub m i n = (if i + n \<le> length m then Some (take n (drop i m)) else None)"

definition mem_put :: "'a list \<Rightarrow> nat \<Rightarrow> 'a list \<Rightarrow> 'a list option" where
  "mem_put m i d =
     (if i + length d \<le> length m then Some (take i m @ d @ drop (i + length d) m) else None)"

text \<open>
  \<open>memcpy (dst + doff, src + soff, n)\<close> with the C library's unsigned size argument: a negative
  \<open>int\<close> converts to a size far beyond any object, so it faults.
\<close>

definition memcpy :: "'a list \<Rightarrow> int \<Rightarrow> 'a list \<Rightarrow> int \<Rightarrow> int \<Rightarrow> 'a list option" where
  "memcpy dst doff src soff n =
     (if 0 \<le> n \<and> 0 \<le> doff \<and> 0 \<le> soff
      then do { d \<leftarrow> mem_sub src (nat soff) (nat n); mem_put dst (nat doff) d }
      else None)"

subsection \<open>The PUT and GET macros of defs.h\<close>

definition PUT_16 :: "byte list \<Rightarrow> nat \<Rightarrow> int \<Rightarrow> byte list option" where
  "PUT_16 p i v =
     mem_put p i [word_of_int (drop_bit 8 v AND 0xff), word_of_int (v AND 0xff)]"

definition PUT_32 :: "byte list \<Rightarrow> nat \<Rightarrow> u32 \<Rightarrow> byte list option" where
  "PUT_32 p i v =
     mem_put p i [ucast (drop_bit 24 v AND 0xff), ucast (drop_bit 16 v AND 0xff),
                  ucast (drop_bit 8 v AND 0xff), ucast (v AND 0xff)]"

definition GET_16 :: "byte list \<Rightarrow> nat \<Rightarrow> int option" where
  "GET_16 p i = do {
     b0 \<leftarrow> mem_get p i;
     b1 \<leftarrow> mem_get p (i + 1);
     Some (push_bit 8 (uint b0) OR uint b1)
   }"

definition GET_32 :: "byte list \<Rightarrow> nat \<Rightarrow> u32 option" where
  "GET_32 p i = do {
     b0 \<leftarrow> mem_get p i;
     b1 \<leftarrow> mem_get p (i + 1);
     b2 \<leftarrow> mem_get p (i + 2);
     b3 \<leftarrow> mem_get p (i + 3);
     Some (push_bit 24 (ucast b0) OR push_bit 16 (ucast b1) OR push_bit 8 (ucast b2) OR ucast b3)
   }"

subsection \<open>Lemmas on memory\<close>

lemma mem_get_Some [mem_simps]: "i < length m \<Longrightarrow> mem_get m i = Some (m ! i)"
  by (simp add: mem_get_def)

lemma mem_put_Some [mem_simps]:
  "i + length d \<le> length m \<Longrightarrow> mem_put m i d = Some (take i m @ d @ drop (i + length d) m)"
  by (simp add: mem_put_def)

lemma mem_sub_Some [mem_simps]: "i + n \<le> length m \<Longrightarrow> mem_sub m i n = Some (take n (drop i m))"
  by (simp add: mem_sub_def)

lemma mem_put_eq_Some:
  "mem_put m i d = Some m' \<longleftrightarrow>
     i + length d \<le> length m \<and> m' = take i m @ d @ drop (i + length d) m"
  by (auto simp: mem_put_def)

lemma length_mem_put: "mem_put m i d = Some m' \<Longrightarrow> length m' = length m"
  by (auto simp: mem_put_eq_Some)

lemma nth_mem_put:
  "mem_put m i d = Some m' \<Longrightarrow> k < length m \<Longrightarrow>
     m' ! k = (if i \<le> k \<and> k < i + length d then d ! (k - i) else m ! k)"
  by (auto simp: mem_put_eq_Some nth_append min_def)

lemma mem_sub_put_same: "mem_put m i d = Some m' \<Longrightarrow> mem_sub m' i (length d) = Some d"
  by (auto simp: mem_put_eq_Some mem_sub_def)

lemma mem_put_get_same:
  "mem_put m i d = Some m' \<Longrightarrow> k < length d \<Longrightarrow> mem_get m' (i + k) = Some (d ! k)"
  by (frule length_mem_put) (auto simp: mem_get_def nth_mem_put mem_put_eq_Some)

lemma mem_put_get_other:
  "mem_put m i d = Some m' \<Longrightarrow> k < i \<or> i + length d \<le> k \<Longrightarrow> mem_get m' k = mem_get m k"
  by (auto simp: mem_get_def length_mem_put nth_mem_put)

lemma PUT_16_Some: "i + 2 \<le> length p \<Longrightarrow> \<exists>p'. PUT_16 p i v = Some p' \<and> length p' = length p"
  by (simp add: PUT_16_def mem_put_def)

lemma length_PUT_16: "PUT_16 p i v = Some p' \<Longrightarrow> length p' = length p"
  by (auto simp: PUT_16_def dest: length_mem_put)

lemma length_PUT_32: "PUT_32 p i v = Some p' \<Longrightarrow> length p' = length p"
  by (auto simp: PUT_32_def dest: length_mem_put)

lemma memcpy_eq_Some:
  "memcpy dst i src j n = Some m \<longleftrightarrow>
     0 \<le> n \<and> 0 \<le> i \<and> 0 \<le> j \<and> nat j + nat n \<le> length src \<and> nat i + nat n \<le> length dst \<and>
     m = take (nat i) dst @ take (nat n) (drop (nat j) src) @ drop (nat i + nat n) dst"
proof (cases "nat j + nat n \<le> length src")
  case True
  then have "length (take (nat n) (drop (nat j) src)) = nat n"
    by simp
  then show ?thesis
    using True by (auto simp: memcpy_def mem_sub_def mem_put_def simp del: length_take length_drop)
qed (auto simp: memcpy_def mem_sub_def)

lemma memcpy_Some:
  "0 \<le> n \<Longrightarrow> 0 \<le> i \<Longrightarrow> 0 \<le> j \<Longrightarrow> nat j + nat n \<le> length src \<Longrightarrow> nat i + nat n \<le> length dst \<Longrightarrow>
     memcpy dst i src j n =
       Some (take (nat i) dst @ take (nat n) (drop (nat j) src) @ drop (nat i + nat n) dst)"
  by (simp add: memcpy_eq_Some)

lemma memcpy_negative: "n < 0 \<Longrightarrow> memcpy dst i src j n = None"
  by (simp add: memcpy_def)

lemma nth_splice:
  "i + length d \<le> length m \<Longrightarrow> k < length m \<Longrightarrow>
     (take i m @ d @ drop (i + length d) m) ! k =
       (if i \<le> k \<and> k < i + length d then d ! (k - i) else m ! k)"
  by (auto simp: nth_append min_def)

lemma mod_window:
  fixes x n :: int
  assumes "- n \<le> x" and "x < n"
  shows "x mod n = (if x < 0 then x + n else x)"
  using assms mod_pos_pos_trivial [of "x + n" n] by auto

lemma those_map_Some [simp]: "those (map Some xs) = Some xs"
  by (induction xs) auto

lemma those_map_Some_comp [simp]: "those (map (\<lambda>x. Some (f x)) xs) = Some (map f xs)"
  by (induction xs) auto

lemma sorted_wrt_change: "sorted_wrt R xs \<Longrightarrow> (\<And>x y. x \<in> set xs \<Longrightarrow> y \<in> set xs \<Longrightarrow> R x y \<Longrightarrow> R' x y) \<Longrightarrow> sorted_wrt R' xs"
  by (induction xs) auto

lemma sorted_wrt_remove1: "sorted_wrt R xs \<Longrightarrow> sorted_wrt R (remove1 x xs)"
  by (induction xs) (auto dest: notin_set_remove1 set_remove1_subset [THEN subsetD])

subsection \<open>Round trips of the PUT and GET macros\<close>

lemma get16_value: "push_bit 8 (uint (a :: byte)) OR uint (b :: byte) = 256 * uint a + uint b"
proof -
  have "push_bit 8 (uint a) AND uint b = 0"
  proof (rule bit_eqI)
    fix n
    show "bit (push_bit 8 (uint a) AND uint b) n = bit (0 :: int) n"
      by (auto simp: bit_simps dest: bit_imp_le_length)
  qed
  then show ?thesis
    by (simp add: disjunctive_add_eq_or [symmetric] push_bit_eq_mult mult.commute)
qed

lemma and_0xff: "(v :: int) AND 0xff = v mod 256"
  using take_bit_eq_mask [of 8 v] by (simp add: mask_eq_exp_minus_1 take_bit_eq_mod)

lemma uint_byte_of_int [simp]: "uint (word_of_int v :: byte) = v mod 256"
  by (simp add: uint_word_of_int)

lemma PUT_GET_16:
  assumes "PUT_16 p i v = Some p'"
  shows "GET_16 p' i = Some (v mod 65536)"
proof -
  let ?d = "[word_of_int (drop_bit 8 v AND 0xff), word_of_int (v AND 0xff) :: byte]"
  have p: "mem_put p i ?d = Some p'"
    using assms by (simp add: PUT_16_def)
  have g: "mem_get p' i = Some (?d ! 0)" "mem_get p' (i + 1) = Some (?d ! 1)"
    using mem_put_get_same [OF p, of 0] mem_put_get_same [OF p, of 1] by simp_all
  have "256 * (v div 256 mod 256) + v mod 256 = v mod 65536"
    using mod_mult2_eq' [of v 256 256] by simp
  then show ?thesis
    unfolding GET_16_def
    by (simp only: g Option.bind.simps nth_Cons_0 nth_Cons_numeral get16_value)
       (simp add: get16_value and_0xff drop_bit_eq_div)
qed

lemma split32_bytes:
  fixes v :: u32
  shows "push_bit 24 (ucast (ucast (drop_bit 24 v AND 0xff) :: byte)) OR
    push_bit 16 (ucast (ucast (drop_bit 16 v AND 0xff) :: byte)) OR
    push_bit 8 (ucast (ucast (drop_bit 8 v AND 0xff) :: byte)) OR
    ucast (ucast (v AND 0xff) :: byte) = v" (is "?l = v")
proof -
  have m: "(0xff :: u32) = mask 8"
    by (simp add: mask_eq_exp_minus_1)
  show ?thesis
    unfolding m
  proof (rule bit_word_eqI)
    fix n
    assume "n < LENGTH(32)"
    then consider "n < 8" | "8 \<le> n" "n < 16" | "16 \<le> n" "n < 24" | "24 \<le> n" "n < 32"
      by fastforce
    then show "bit (push_bit 24 (ucast (ucast (drop_bit 24 v AND mask 8) :: byte) :: u32) OR
      push_bit 16 (ucast (ucast (drop_bit 16 v AND mask 8) :: byte)) OR
      push_bit 8 (ucast (ucast (drop_bit 8 v AND mask 8) :: byte)) OR
      ucast (ucast (v AND mask 8) :: byte)) n = bit v n"
      by cases (auto simp: bit_simps)
  qed
qed

lemma PUT_GET_32:
  assumes "PUT_32 p i v = Some p'"
  shows "GET_32 p' i = Some v"
proof -
  let ?d = "[ucast (drop_bit 24 v AND 0xff), ucast (drop_bit 16 v AND 0xff),
             ucast (drop_bit 8 v AND 0xff), ucast (v AND 0xff) :: byte]"
  have p: "mem_put p i ?d = Some p'"
    using assms by (simp add: PUT_32_def)
  have g: "mem_get p' i = Some (?d ! 0)" "mem_get p' (i + 1) = Some (?d ! 1)"
    "mem_get p' (i + 2) = Some (?d ! 2)" "mem_get p' (i + 3) = Some (?d ! 3)"
    using mem_put_get_same [OF p, of 0] mem_put_get_same [OF p, of 1]
      mem_put_get_same [OF p, of 2] mem_put_get_same [OF p, of 3] by simp_all
  show ?thesis
    unfolding GET_32_def g using split32_bytes [of v] by simp
qed

end
