(* ===== verification/Ringbuf.thy ===== *)
theory Ringbuf
  imports Ptrtd_Prelude
begin

text \<open>
  The sequence-numbered ring buffer of \<^verbatim>\<open>src/buffer.c\<close>. One \<open>ringbuf\<close> holds the last
  \<open>used\<close> bytes of a byte stream; the byte after the last one has sequence number
  \<open>w_seq\<close>. The array cells are \<open>byte option\<close>s, \<open>None\<close> being a byte that
  \<open>malloc\<close> returned and nobody has written, so a read of uninitialised memory is a fault.

  The theory gives the operations, the representation invariant \<open>ringbuf_ok\<close>, the abstraction
  \<open>content\<close> to the list of buffered bytes, and what every operation does to it.
\<close>

subsection \<open>State and operations\<close>

record ringbuf =
  buf_p :: "byte option list option"
  buf_size :: int
  w_seq :: u32
  w_pos :: int
  used :: int

definition rb_new :: "int \<Rightarrow> ringbuf" where
  "rb_new s = \<lparr>buf_p = None, buf_size = s, w_seq = 0, w_pos = 0, used = 0\<rparr>"

definition rb_set :: "ringbuf \<Rightarrow> u32 \<Rightarrow> ringbuf" where
  "rb_set r s = r\<lparr>w_seq := s\<rparr>"

definition rb_advance :: "ringbuf \<Rightarrow> u32 \<Rightarrow> ringbuf" where
  "rb_advance r s =
     (let r = r\<lparr>used := sint (w_seq r - s)\<rparr>;
          r = (if used r \<le> 0 then r\<lparr>used := 0, w_seq := s\<rparr> else r)
      in if used r = 0 then r\<lparr>buf_p := None, w_pos := 0\<rparr> else r)"

definition rb_left :: "ringbuf \<Rightarrow> int" where
  "rb_left r = buf_size r - used r"

definition rb_used :: "ringbuf \<Rightarrow> int" where
  "rb_used r = used r"

definition rb_avail :: "ringbuf \<Rightarrow> u32 \<Rightarrow> int" where
  "rb_avail r seq = (let d = sint (w_seq r - seq) in if d > used r then 0 else d)"

text \<open>The lazy allocation at the start of a write.\<close>

definition rb_alloc :: "ringbuf \<Rightarrow> ringbuf" where
  "rb_alloc r =
     (if buf_p r = None
      then r\<lparr>buf_p := Some (replicate (nat (buf_size r)) None), w_pos := 0, used := 0\<rparr>
      else r)"

definition rb_write :: "ringbuf \<Rightarrow> byte list \<Rightarrow> int \<Rightarrow> (int \<times> ringbuf) option" where
  "rb_write r data len =
     (if len = 0 then Some (0, r)
      else
        let r = rb_alloc r;
            len = (if rb_left r < len then rb_left r else len);
            cnt = buf_size r - w_pos r;
            cnt = (if len < cnt then len else cnt)
        in do {
          p \<leftarrow> buf_p r;
          p \<leftarrow> memcpy p (w_pos r) (map Some data) 0 cnt;
          let len = len - cnt;
          let done = cnt;
          let r = r\<lparr>buf_p := Some p, used := used r + cnt, w_pos := w_pos r + cnt\<rparr>;
          (done, r) \<leftarrow>
            (if w_pos r = buf_size r
             then (if len > 0
                   then do {
                     p \<leftarrow> memcpy p 0 (map Some data) done len;
                     Some (done + len, r\<lparr>buf_p := Some p, used := used r + len, w_pos := len\<rparr>)
                   }
                   else Some (done, r\<lparr>w_pos := 0\<rparr>))
             else Some (done, r));
          Some (done, r\<lparr>w_seq := w_seq r + word_of_int done\<rparr>)
        })"

text \<open>The bytes \<open>memcpy\<close> would copy out of the array, which must all have been written.\<close>

definition cells_read :: "ringbuf \<Rightarrow> int \<Rightarrow> int \<Rightarrow> byte list option" where
  "cells_read r pos cnt =
     (if 0 \<le> pos \<and> 0 \<le> cnt
      then do { p \<leftarrow> buf_p r; c \<leftarrow> mem_sub p (nat pos) (nat cnt); those c }
      else None)"

definition rb_read :: "ringbuf \<Rightarrow> u32 \<Rightarrow> int \<Rightarrow> (int \<times> byte list) option" where
  "rb_read r seq mx =
     (let back = sint (w_seq r - seq) in
      if back = 0 \<or> used r < back \<or> mx = 0 then Some (0, [])
      else
        let mx = (if back < mx then back else mx) in do {
          (data, mx, done, back) \<leftarrow>
            (if back > w_pos r
             then let cnt = back - w_pos r;
                      pos = buf_size r - cnt;
                      cnt = (if cnt > mx then mx else cnt)
                  in do {
                    d \<leftarrow> cells_read r pos cnt;
                    Some (d, mx - cnt, cnt, back - cnt)
                  }
             else Some ([], mx, 0, back));
          (if mx > 0
           then do {
             d \<leftarrow> cells_read r (w_pos r - back) mx;
             Some (done + mx, data @ d)
           }
           else Some (done, data))
        })"

subsection \<open>Invariant and abstraction\<close>

definition slot :: "ringbuf \<Rightarrow> int \<Rightarrow> nat" where
  "slot r i = nat ((w_pos r - used r + i) mod buf_size r)"

definition ringbuf_ok :: "ringbuf \<Rightarrow> bool" where
  "ringbuf_ok r \<longleftrightarrow>
     0 < buf_size r \<and> buf_size r < 2 ^ 31 \<and> 0 \<le> used r \<and> used r \<le> buf_size r \<and>
     0 \<le> w_pos r \<and> w_pos r < buf_size r \<and>
     (case buf_p r of
        None \<Rightarrow> used r = 0
      | Some p \<Rightarrow> int (length p) = buf_size r \<and>
          (\<forall>i \<in> {0..<nat (used r)}. p ! slot r (int i) \<noteq> None))"

definition content :: "ringbuf \<Rightarrow> byte list" where
  "content r =
     (case buf_p r of
        None \<Rightarrow> []
      | Some p \<Rightarrow> map (\<lambda>i. the (p ! slot r (int i))) [0..<nat (used r)])"

text \<open>The sequence number of the oldest byte still held.\<close>

definition r_seq :: "ringbuf \<Rightarrow> u32" where
  "r_seq r = w_seq r - word_of_int (used r)"

subsection \<open>The abstract byte queue\<close>

text \<open>
  What the transport layer does with a buffer is append (\<open>Put\<close>) and take from the front
  (\<open>Get\<close>). \<open>fifo_run\<close> is the specification: a queue with a capacity. A \<open>Put\<close> answers how
  many bytes were accepted, a \<open>Get\<close> answers the bytes.
\<close>

datatype fifo_op = Put "byte list" | Get nat

datatype fifo_ans = Accepted int | Taken "byte list"

fun fifo_run :: "int \<Rightarrow> byte list \<Rightarrow> fifo_op list \<Rightarrow> fifo_ans list \<times> byte list" where
  "fifo_run cap q [] = ([], q)"
| "fifo_run cap q (Put d # ops) =
     (let k = min (int (length d)) (cap - int (length q));
          (a, q') = fifo_run cap (q @ take (nat k) d) ops
      in (Accepted k # a, q'))"
| "fifo_run cap q (Get n # ops) =
     (let (a, q') = fifo_run cap (drop n q) ops in (Taken (take n q) # a, q'))"

text \<open>
  The same on a sequence-numbered buffer, the way \<^verbatim>\<open>tcp.c\<close> uses it: the client remembers the
  sequence number \<open>una\<close> of the front, reads there and advances past what it has read.
\<close>

fun buf_run :: "('b \<Rightarrow> byte list \<Rightarrow> int \<Rightarrow> (int \<times> 'b) option) \<Rightarrow> ('b \<Rightarrow> u32 \<Rightarrow> int \<Rightarrow> (int \<times> byte list) option) \<Rightarrow>
    ('b \<Rightarrow> u32 \<Rightarrow> 'b) \<Rightarrow> 'b \<Rightarrow> u32 \<Rightarrow> fifo_op list \<Rightarrow> (fifo_ans list \<times> 'b \<times> u32) option" where
  "buf_run wr rd adv b una [] = Some ([], b, una)"
| "buf_run wr rd adv b una (Put d # ops) = do {
     (k, b) \<leftarrow> wr b d (int (length d));
     (a, r) \<leftarrow> buf_run wr rd adv b una ops;
     Some (Accepted k # a, r)
   }"
| "buf_run wr rd adv b una (Get n # ops) = do {
     (k, d) \<leftarrow> rd b una (int n);
     (a, r) \<leftarrow> buf_run wr rd adv (adv b (una + word_of_int k)) (una + word_of_int k) ops;
     Some (Taken d # a, r)
   }"

subsection \<open>Writing cells\<close>

text \<open>
  What the one or two \<open>memcpy\<close> calls of a write leave in the array: the bytes \<open>xs\<close> from
  cell \<open>k\<close> on, wrapping around, and every other cell as it was.
\<close>

definition wrote :: "byte option list \<Rightarrow> byte option list \<Rightarrow> nat \<Rightarrow> byte list \<Rightarrow> bool" where
  "wrote p p' k xs \<longleftrightarrow>
     length p' = length p \<and>
     (\<forall>j < length xs. p' ! ((k + j) mod length p) = Some (xs ! j)) \<and>
     (\<forall>i < length p. (\<forall>j < length xs. i \<noteq> (k + j) mod length p) \<longrightarrow> p' ! i = p ! i)"

lemma wrote_one:
  assumes "k + length xs \<le> length p" and "k < length p"
  shows "wrote p (take k p @ map Some xs @ drop (k + length xs) p) k xs"
proof -
  let ?p' = "take k p @ map Some xs @ drop (k + length xs) p"
  have n: "?p' ! i = (if k \<le> i \<and> i < k + length xs then Some (xs ! (i - k)) else p ! i)"
    if "i < length p" for i
    using nth_splice [of k "map Some xs" p i] assms that by (auto simp: nth_map)
  have m: "(k + j) mod length p = k + j" if "j < length xs" for j
    using that assms by simp
  show ?thesis
    unfolding wrote_def
  proof (intro conjI allI impI)
    show "length ?p' = length p"
      using assms by simp
  next
    fix j
    assume "j < length xs"
    then show "?p' ! ((k + j) mod length p) = Some (xs ! j)"
      using assms by (subst n) (auto simp: m)
  next
    fix i
    assume i: "i < length p" and out: "\<forall>j < length xs. i \<noteq> (k + j) mod length p"
    have "\<not> (k \<le> i \<and> i < k + length xs)"
    proof
      assume "k \<le> i \<and> i < k + length xs"
      then have "i - k < length xs" and "i = k + (i - k)"
        by auto
      then show False
        using out m by fastforce
    qed
    then show "?p' ! i = p ! i"
      using n [OF i] by auto
  qed
qed

lemma wrote_two:
  assumes "k + length xs = length p" and "length ys \<le> k" and "k < length p"
  shows "wrote p (map Some ys @ drop (length ys) (take k p @ map Some xs)) k (xs @ ys)"
proof -
  let ?p' = "map Some ys @ drop (length ys) (take k p @ map Some xs)"
  have l: "length (take k p @ map Some xs) = length p"
    using assms by simp
  have n: "?p' ! i = (if i < length ys then Some (ys ! i)
      else if k \<le> i then Some (xs ! (i - k)) else p ! i)" if "i < length p" for i
    using that assms l by (auto simp: nth_append)
  have m: "(k + j) mod length p = (if j < length xs then k + j else j - length xs)"
    if "j < length xs + length ys" for j
    using that assms by (auto simp: mod_if)
  show ?thesis
    unfolding wrote_def
  proof (intro conjI allI impI)
    show "length ?p' = length p"
      using l assms by simp
  next
    fix j
    assume "j < length (xs @ ys)"
    then show "?p' ! ((k + j) mod length p) = Some ((xs @ ys) ! j)"
      using assms by (subst n) (auto simp: m nth_append)
  next
    fix i
    assume i: "i < length p" and out: "\<forall>j < length (xs @ ys). i \<noteq> (k + j) mod length p"
    have "\<not> i < length ys"
      using out [rule_format, of "length xs + i"] m [of "length xs + i"] by auto
    moreover have "\<not> k \<le> i"
    proof
      assume "k \<le> i"
      then have j: "i - k < length xs" and "i = k + (i - k)"
        using i assms by auto
      then have "i = (k + (i - k)) mod length p"
        using m [of "i - k"] by simp
      then show False
        using out j by (metis length_append trans_less_add1)
    qed
    ultimately show "?p' ! i = p ! i"
      using n [OF i] by simp
  qed
qed

lemma slot_bound: "ringbuf_ok r \<Longrightarrow> int (slot r i) < buf_size r"
  by (simp add: slot_def ringbuf_ok_def)

lemma length_content: "ringbuf_ok r \<Longrightarrow> int (length (content r)) = used r"
  by (auto simp: content_def ringbuf_ok_def split: option.splits)

lemma nth_content:
  "buf_p r = Some p \<Longrightarrow> i < nat (used r) \<Longrightarrow> content r ! i = the (p ! slot r (int i))"
  by (simp add: content_def)

lemma cell_content:
  "ringbuf_ok r \<Longrightarrow> buf_p r = Some p \<Longrightarrow> i < nat (used r) \<Longrightarrow>
     p ! slot r (int i) = Some (content r ! i)"
  by (simp add: nth_content ringbuf_ok_def)

text \<open>The position of the byte \<open>j\<close> places after the write position, as a cell index.\<close>

lemma slot_wrap:
  assumes "ringbuf_ok r" and "int (length p) = buf_size r"
  shows "slot r (used r + int j) = (nat (w_pos r) + j) mod length p"
proof -
  have "(w_pos r + int j) mod int (length p) = int ((nat (w_pos r) + j) mod length p)"
    using assms by (simp add: ringbuf_ok_def zmod_int)
  then show ?thesis
    using assms by (simp add: slot_def)
qed

lemma slot_inj:
  assumes ok: "ringbuf_ok r" and "0 \<le> i" "i < buf_size r" "0 \<le> j" "j < buf_size r"
    and "slot r i = slot r j"
  shows "i = j"
proof -
  let ?b = "w_pos r - used r"
  have "0 < buf_size r"
    using ok by (simp add: ringbuf_ok_def)
  then have "(?b + i) mod buf_size r = (?b + j) mod buf_size r"
    using assms by (simp add: slot_def nat_eq_iff)
  then have "(?b + i - ?b) mod buf_size r = (?b + j - ?b) mod buf_size r"
    by (rule mod_diff_cong) simp
  then show ?thesis
    using assms by simp
qed

lemma wrote_content:
  assumes ok: "ringbuf_ok r" and p: "buf_p r = Some p"
    and w: "wrote p p' (nat (w_pos r)) xs" and fits: "used r + int (length xs) \<le> buf_size r"
    and r': "r' = r\<lparr>buf_p := Some p', used := used r + int (length xs),
                    w_pos := (w_pos r + int (length xs)) mod buf_size r, w_seq := s\<rparr>"
  shows "ringbuf_ok r' \<and> content r' = content r @ xs"
proof -
  have len: "int (length p) = buf_size r"
    using ok p by (simp add: ringbuf_ok_def)
  have slot': "slot r' i = slot r i" for i
  proof -
    have "((w_pos r + int (length xs)) mod buf_size r - (used r + int (length xs)) + i) mod buf_size r
      = (w_pos r + int (length xs) - (used r + int (length xs)) + i) mod buf_size r"
      by (metis mod_add_left_eq mod_diff_left_eq)
    then show ?thesis
      by (simp add: slot_def r')
  qed
  have new: "p' ! slot r' (int i) = Some ((content r @ xs) ! i)"
    if i: "i < nat (used r) + length xs" for i
  proof (cases "i < nat (used r)")
    case True
    then have "int i < used r"
      by simp
    then have "slot r (int i) \<noteq> (nat (w_pos r) + j) mod length p" if "j < length xs" for j
      using slot_inj [OF ok, of "int i" "used r + int j"] slot_wrap [OF ok len, of j] that True fits ok
      by (auto simp: ringbuf_ok_def)
    moreover have "slot r (int i) < length p"
      using slot_bound [OF ok, of "int i"] len by simp
    ultimately have "p' ! slot r (int i) = p ! slot r (int i)"
      using w by (simp add: wrote_def)
    then show ?thesis
      using cell_content [OF ok p True] True length_content [OF ok]
      by (auto simp: slot' nth_append)
  next
    case False
    define j where "j = i - nat (used r)"
    have "int i = used r + int j"
      using False ok by (simp add: j_def ringbuf_ok_def)
    then have "slot r (int i) = (nat (w_pos r) + j) mod length p"
      using slot_wrap [OF ok len, of j] by simp
    moreover have "j < length xs"
      using i False by (auto simp: j_def)
    ultimately have "p' ! slot r' (int i) = Some (xs ! j)"
      using w by (simp add: wrote_def slot')
    moreover have "length (content r) = nat (used r)"
      using length_content [OF ok] by simp
    ultimately show ?thesis
      using False by (simp add: nth_append j_def)
  qed
  have "length p' = length p"
    using w by (simp add: wrote_def)
  then have "ringbuf_ok r'"
    using ok fits len new by (auto simp: ringbuf_ok_def r' nat_add_distrib)
  moreover have "content r' = content r @ xs"
    using new length_content [OF ok] ok
    by (intro nth_equalityI) (auto simp: content_def r' nat_add_distrib ringbuf_ok_def)
  ultimately show ?thesis ..
qed

subsection \<open>What the operations do to the content\<close>

lemma rb_new_ok: "0 < s \<Longrightarrow> s < 2 ^ 31 \<Longrightarrow> ringbuf_ok (rb_new s) \<and> content (rb_new s) = []"
  by (simp add: rb_new_def ringbuf_ok_def content_def)

lemma rb_set_ok: "ringbuf_ok r \<Longrightarrow> ringbuf_ok (rb_set r s) \<and> content (rb_set r s) = content r"
  by (auto simp: rb_set_def ringbuf_ok_def content_def slot_def split: option.splits)

lemma rb_alloc_ok:
  assumes "ringbuf_ok r"
  shows "ringbuf_ok (rb_alloc r)" "content (rb_alloc r) = content r"
    "buf_size (rb_alloc r) = buf_size r" "used (rb_alloc r) = used r"
    "w_seq (rb_alloc r) = w_seq r" "buf_p (rb_alloc r) \<noteq> None"
  using assms by (auto simp: rb_alloc_def ringbuf_ok_def content_def split: option.splits)

lemma rb_alloc_Some: "buf_p r \<noteq> None \<Longrightarrow> rb_alloc r = r"
  unfolding rb_alloc_def by (rule if_not_P)

lemma rb_write_alloc:
  assumes ok: "ringbuf_ok r" and p: "buf_p r = Some p" and len: "0 < len" "nat len \<le> length data"
  defines "n \<equiv> min len (rb_left r)"
  shows "\<exists>p'. wrote p p' (nat (w_pos r)) (take (nat n) data) \<and>
    rb_write r data len = Some (n, r\<lparr>buf_p := Some p', used := used r + n,
      w_pos := (w_pos r + n) mod buf_size r, w_seq := w_seq r + word_of_int n\<rparr>)"
proof -
  let ?k = "nat (w_pos r)" and ?xs = "take (nat n) data"
  have b: "0 \<le> w_pos r" "w_pos r < buf_size r" "0 \<le> used r" "used r \<le> buf_size r"
    "int (length p) = buf_size r"
    using ok p by (auto simp: ringbuf_ok_def)
  have n: "0 \<le> n" "n \<le> len" "n \<le> buf_size r - used r"
    using b len by (auto simp: n_def rb_left_def)
  have lx: "length ?xs = nat n"
    using n len by simp
  have len_n: "(if rb_left r < len then rb_left r else len) = n"
    by (auto simp: n_def)
  show ?thesis
  proof (cases "n < buf_size r - w_pos r")
    case True
    let ?p' = "take ?k p @ map Some ?xs @ drop (?k + length ?xs) p"
    have fit: "?k + nat n \<le> length p" "?k < length p" "nat n \<le> length data"
      using b n len True by linarith+
    have "wrote p ?p' ?k ?xs"
      using fit lx by (intro wrote_one) auto
    moreover have "memcpy p (w_pos r) (map Some data) 0 n = Some ?p'"
      using fit n b lx by (subst memcpy_Some) (auto simp: take_map)
    moreover have "(w_pos r + n) mod buf_size r = w_pos r + n"
      using b n True by simp
    ultimately show ?thesis
      using p True len by (intro exI [of _ ?p']) (simp add: rb_write_def rb_alloc_Some len_n)
  next
    case False
    define cnt where "cnt = buf_size r - w_pos r"
    let ?ys = "take (nat cnt) data" and ?zs = "take (nat (n - cnt)) (drop (nat cnt) data)"
    define p1 where "p1 = take ?k p @ map Some ?ys"
    define p' where "p' = map Some ?zs @ drop (length ?zs) p1"
    have c: "0 < cnt" "cnt \<le> n" "n - cnt \<le> w_pos r" "w_pos r + cnt = buf_size r"
      using b n False by (auto simp: cnt_def)
    have fit: "?k + nat cnt = length p" "?k < length p" "nat cnt \<le> length data"
      "nat (n - cnt) \<le> ?k" "nat cnt + nat (n - cnt) \<le> length data"
      using b c n len by (auto simp: cnt_def nat_add_distrib [symmetric] nat_diff_distrib)
    have lz: "length ?ys = nat cnt" "length ?zs = nat (n - cnt)" "length p1 = length p"
      using fit by (simp_all add: min_def p1_def) linarith
    have xs: "?xs = ?ys @ ?zs"
      using c by (simp add: take_add [symmetric] nat_add_distrib [symmetric])
    have "wrote p p' ?k ?xs"
      unfolding xs p'_def p1_def using fit lz by (intro wrote_two) auto
    moreover have "memcpy p (w_pos r) (map Some data) 0 cnt = Some p1"
      using fit c b by (subst memcpy_Some) (auto simp: take_map p1_def)
    moreover have "memcpy p1 0 (map Some data) cnt (n - cnt) = Some p'"
      using fit lz c by (subst memcpy_Some) (auto simp: take_map drop_map p'_def)
    moreover have "p' = p1" if "cnt = n"
      using that by (simp add: p'_def)
    moreover have "(w_pos r + n) mod buf_size r = n - cnt"
    proof -
      have "w_pos r + n = (n - cnt) + buf_size r"
        by (simp add: cnt_def)
      then have "(w_pos r + n) mod buf_size r = (n - cnt) mod buf_size r"
        by (simp only: mod_add_self2)
      moreover have "n - cnt < buf_size r" "0 \<le> n - cnt"
        using b c by linarith+
      ultimately show ?thesis
        by simp
    qed
    ultimately show ?thesis
      using p False len c by (intro exI [of _ p'], cases "cnt = n")
        (simp_all add: rb_write_def rb_alloc_Some len_n cnt_def [symmetric] Let_def)
  qed
qed

lemma rb_write_ok:
  assumes ok: "ringbuf_ok r" and len: "0 \<le> len" "nat len \<le> length data"
  shows "\<exists>r'. rb_write r data len = Some (min len (rb_left r), r') \<and> ringbuf_ok r' \<and>
    content r' = content r @ take (nat (min len (rb_left r))) data \<and>
    w_seq r' = w_seq r + word_of_int (min len (rb_left r)) \<and> buf_size r' = buf_size r"
proof (cases "len = 0")
  case True
  then show ?thesis
    using ok by (simp add: rb_write_def rb_left_def ringbuf_ok_def min_def)
next
  case False
  let ?r = "rb_alloc r" and ?n = "min len (rb_left r)"
  note a = rb_alloc_ok [OF ok]
  have left: "rb_left ?r = rb_left r"
    using a by (simp add: rb_left_def)
  obtain p where p: "buf_p ?r = Some p"
    using a(6) by auto
  obtain p' where w: "wrote p p' (nat (w_pos ?r)) (take (nat ?n) data)"
    and e: "rb_write ?r data len = Some (?n, ?r\<lparr>buf_p := Some p', used := used ?r + ?n,
      w_pos := (w_pos ?r + ?n) mod buf_size ?r, w_seq := w_seq ?r + word_of_int ?n\<rparr>)"
    using rb_write_alloc [OF a(1) p, of len data] False len by (auto simp: left)
  let ?r' = "?r\<lparr>buf_p := Some p', used := used ?r + ?n,
      w_pos := (w_pos ?r + ?n) mod buf_size ?r, w_seq := w_seq ?r + word_of_int ?n\<rparr>"
  have n: "int (length (take (nat ?n) data)) = ?n" "used ?r + ?n \<le> buf_size ?r"
    using ok len a by (auto simp: ringbuf_ok_def rb_left_def min_def)
  have "ringbuf_ok ?r' \<and> content ?r' = content ?r @ take (nat ?n) data"
    using wrote_content [OF a(1) p w, of ?r'] n by (simp only: n)
  moreover have "rb_write r data len = rb_write ?r data len"
    using a(6) False by (simp add: rb_write_def rb_alloc_Some)
  ultimately show ?thesis
    using a e by simp
qed

subsection \<open>Reading\<close>

text \<open>
  A run of \<open>n\<close> cells starting at cell \<open>pos\<close> that holds the bytes from index \<open>i\<close> of
  the content on reads as exactly those bytes.
\<close>

lemma cells_read_content:
  assumes ok: "ringbuf_ok r" and p: "buf_p r = Some p" and "0 \<le> n" "0 \<le> pos" "pos + n \<le> buf_size r"
    and i: "0 \<le> i" "i + n \<le> used r"
    and s: "\<And>k. 0 \<le> k \<Longrightarrow> k < n \<Longrightarrow> slot r (i + k) = nat (pos + k)"
  shows "cells_read r pos n = Some (take (nat n) (drop (nat i) (content r)))"
proof -
  have len: "int (length p) = buf_size r" "int (length (content r)) = used r"
    using ok p length_content [OF ok] by (auto simp: ringbuf_ok_def)
  have "take (nat n) (drop (nat pos) p) = map Some (take (nat n) (drop (nat i) (content r)))"
  proof (rule nth_equalityI)
    have "nat pos + nat n \<le> length p" "nat i + nat n \<le> length (content r)"
      using assms(3-7) len by linarith+
    then show "length (take (nat n) (drop (nat pos) p)) =
        length (map Some (take (nat n) (drop (nat i) (content r))))"
      by (simp add: min_def) linarith
  next
    fix k
    assume "k < length (take (nat n) (drop (nat pos) p))"
    then have k: "int k < n" "nat i + k < nat (used r)"
      using i by auto
    then have "p ! slot r (i + int k) = Some (content r ! (nat i + k))"
      using cell_content [OF ok p k(2)] i by simp
    moreover have "slot r (i + int k) = nat pos + k"
      using s [of "int k"] k assms by (simp add: nat_add_distrib)
    ultimately show "take (nat n) (drop (nat pos) p) ! k =
        map Some (take (nat n) (drop (nat i) (content r))) ! k"
      using k i len assms by auto
  qed
  then show ?thesis
    using assms len by (simp add: cells_read_def mem_sub_def)
qed

lemma rb_read_ok:
  assumes ok: "ringbuf_ok r" and bk: "back = sint (w_seq r - seq)" "0 < back" "back \<le> used r"
    and mx: "0 \<le> mx"
  shows "rb_read r seq mx = Some (min back mx,
    take (nat (min back mx)) (drop (nat (used r - back)) (content r)))"
proof -
  let ?i = "used r - back"
  have b: "0 \<le> w_pos r" "w_pos r < buf_size r" "used r \<le> buf_size r"
    using ok by (auto simp: ringbuf_ok_def)
  obtain p where p: "buf_p r = Some p"
    using ok bk by (cases "buf_p r") (auto simp: ringbuf_ok_def)
  have slot_i: "slot r (?i + k) = nat (if w_pos r - back + k < 0 then w_pos r - back + k + buf_size r
      else w_pos r - back + k)" if "0 \<le> k" "k < back" for k
  proof -
    have "w_pos r - used r + (?i + k) = w_pos r - back + k"
      by simp
    then show ?thesis
      unfolding slot_def using mod_window [of "buf_size r" "w_pos r - back + k"] b bk(2,3) that
      by (simp only:)
  qed
  show ?thesis
  proof (cases "mx = 0")
    case True
    then show ?thesis
      using bk by (simp add: rb_read_def min_def)
  next
    case mx0: False
    define m where "m = min back mx"
    have m: "(if back < mx then back else mx) = m" "0 < m" "m \<le> back"
      using mx mx0 bk by (auto simp: m_def)
    show ?thesis
    proof (cases "back > w_pos r")
      case False
      have "cells_read r (w_pos r - back) m = Some (take (nat m) (drop (nat ?i) (content r)))"
        using ok p m(2,3) b bk(2,3) False by (intro cells_read_content) (auto simp: slot_i)
      then show ?thesis
        using bk(2,3) mx0 m False
        by (simp add: rb_read_def bk(1) [symmetric] Let_def m_def [symmetric])
    next
      case True
      define c where "c = min m (back - w_pos r)"
      have c: "(if back - w_pos r > m then m else back - w_pos r) = c" "0 < c" "c \<le> m"
        using m True by (auto simp: c_def)
      have r1: "cells_read r (buf_size r - (back - w_pos r)) c =
          Some (take (nat c) (drop (nat ?i) (content r)))"
        using ok p m(2,3) b bk(2,3) True c(2,3)
        by (intro cells_read_content) (auto simp: slot_i c_def)
      have r2: "cells_read r (w_pos r - (back - c)) (m - c) =
          Some (take (nat (m - c)) (drop (nat (?i + c)) (content r)))" if "c < m"
      proof (rule cells_read_content [OF ok p])
        have ce: "c = back - w_pos r"
          using that by (auto simp: c_def)
        show "slot r (?i + c + k) = nat (w_pos r - (back - c) + k)" if "0 \<le> k" "k < m - c" for k
        proof -
          have "slot r (?i + (c + k)) = nat (w_pos r - back + (c + k))"
            using slot_i [of "c + k"] that m(2,3) c(2,3) ce by (simp del: add_diff_eq diff_add_eq)
          then show ?thesis
            by (simp only: algebra_simps)
        qed
      qed (use that m(2,3) b bk(2,3) c(2,3) in \<open>auto simp: c_def\<close>)
      have dd: "drop (nat c) (drop (nat ?i) (content r)) = drop (nat (?i + c)) (content r)"
        using c bk(2,3) by (simp add: nat_add_distrib add.commute)
      have "nat m = nat c + nat (m - c)"
        using c by (simp add: nat_add_distrib [symmetric])
      then have tk: "take (nat m) (drop (nat ?i) (content r)) = take (nat c) (drop (nat ?i) (content r)) @
          take (nat (m - c)) (drop (nat (?i + c)) (content r))"
        by (simp only: take_add dd)
      show ?thesis
      proof (cases "c < m")
        case True
        have "rb_read r seq mx = Some (m, take (nat c) (drop (nat ?i) (content r)) @
            take (nat (m - c)) (drop (nat (?i + c)) (content r)))"
          using bk(2,3) mx0 m c True \<open>back > w_pos r\<close> r1 r2 [OF True]
          by (simp add: rb_read_def bk(1) [symmetric] Let_def)
        then show ?thesis
          by (simp only: m_def [symmetric] tk)
      next
        case False
        then have "c = m"
          using c by simp
        then show ?thesis
          using bk(2,3) mx0 m c \<open>back > w_pos r\<close> r1
          by (simp add: rb_read_def bk(1) [symmetric] Let_def m_def [symmetric])
      qed
    qed
  qed
qed

lemma rb_read_none:
  assumes ok: "ringbuf_ok r" and bk: "sint (w_seq r - seq) \<le> 0 \<or> used r < sint (w_seq r - seq)"
  shows "rb_read r seq mx = Some (0, [])"
proof -
  have "0 \<le> w_pos r"
    using ok by (simp add: ringbuf_ok_def)
  then show ?thesis
    using bk by (auto simp: rb_read_def Let_def)
qed

subsection \<open>Advancing\<close>

lemma sint_diff_nat: "0 \<le> n \<Longrightarrow> n < 2 ^ 31 \<Longrightarrow> sint ((word_of_int n) :: u32) = n"
  by (simp add: sint_sbintrunc' signed_take_bit_int_eq_self)

lemma rb_advance_inside:
  assumes ok: "ringbuf_ok r" and d: "d = sint (w_seq r - s)" "0 < d" "d \<le> used r"
  shows "ringbuf_ok (rb_advance r s)" "content (rb_advance r s) = drop (nat (used r - d)) (content r)"
    "w_seq (rb_advance r s) = w_seq r" "buf_size (rb_advance r s) = buf_size r"
    "used (rb_advance r s) = d"
proof -
  have adv: "rb_advance r s = r\<lparr>used := d\<rparr>"
    using d(2) by (simp add: rb_advance_def Let_def d(1))
  obtain p where p: "buf_p r = Some p"
    using ok d by (cases "buf_p r") (auto simp: ringbuf_ok_def)
  have u: "0 \<le> used r" "used r \<le> buf_size r"
    using ok by (auto simp: ringbuf_ok_def)
  have sl: "slot (r\<lparr>used := d\<rparr>) (int i) = slot r (int (nat (used r - d) + i))" for i
    using d(3) by (simp add: slot_def algebra_simps)
  have cell: "p ! slot (r\<lparr>used := d\<rparr>) (int i) = Some (content r ! (nat (used r - d) + i))"
    if "i < nat d" for i
    using that d(3) by (subst sl, intro cell_content [OF ok p]) linarith
  show "ringbuf_ok (rb_advance r s)"
    using ok p u d(2,3) cell unfolding adv by (auto simp: ringbuf_ok_def)
  show "content (rb_advance r s) = drop (nat (used r - d)) (content r)"
  proof (rule nth_equalityI)
    have "int (length (content r)) = used r"
      by (rule length_content [OF ok])
    then show "length (content (rb_advance r s)) = length (drop (nat (used r - d)) (content r))"
      using p d(2,3) unfolding adv by (simp add: content_def)
    fix i
    assume "i < length (content (rb_advance r s))"
    then show "content (rb_advance r s) ! i = drop (nat (used r - d)) (content r) ! i"
      using p cell \<open>int (length (content r)) = used r\<close> d(2,3) unfolding adv
      by (simp add: content_def)
  qed
qed (use d in \<open>simp_all add: rb_advance_def Let_def\<close>)

lemma rb_advance_beyond:
  assumes ok: "ringbuf_ok r" and d: "sint (w_seq r - s) \<le> 0"
  shows "ringbuf_ok (rb_advance r s)" "content (rb_advance r s) = []" "w_seq (rb_advance r s) = s"
    "buf_size (rb_advance r s) = buf_size r" "used (rb_advance r s) = 0"
  using assms by (auto simp: rb_advance_def Let_def ringbuf_ok_def content_def)

subsection \<open>The interface the transport layer relies on\<close>

text \<open>
  A buffer of a numbered byte stream: \<open>bytes\<close> are the bytes held, \<open>nxt\<close> the sequence number
  after the last of them, \<open>left\<close> the room for more. A position in the stream is given as a
  distance \<open>k\<close> back from \<open>nxt\<close>.
\<close>

locale seq_buffer =
  fixes wr :: "'b \<Rightarrow> byte list \<Rightarrow> int \<Rightarrow> (int \<times> 'b) option"
    and rd :: "'b \<Rightarrow> u32 \<Rightarrow> int \<Rightarrow> (int \<times> byte list) option"
    and adv :: "'b \<Rightarrow> u32 \<Rightarrow> 'b"
    and avail :: "'b \<Rightarrow> u32 \<Rightarrow> int"
    and left :: "'b \<Rightarrow> int"
    and bytes :: "'b \<Rightarrow> byte list"
    and nxt :: "'b \<Rightarrow> u32"
    and ok :: "'b \<Rightarrow> bool"
  assumes left_nonneg: "ok b \<Longrightarrow> 0 \<le> left b"
    and small: "ok b \<Longrightarrow> int (length (bytes b)) + left b < 2 ^ 31"
    and write_law: "ok b \<Longrightarrow> 0 \<le> n \<Longrightarrow> nat n \<le> length d \<Longrightarrow>
      \<exists>b'. wr b d n = Some (min n (left b), b') \<and> ok b' \<and>
        bytes b' = bytes b @ take (nat (min n (left b))) d \<and>
        nxt b' = nxt b + word_of_int (min n (left b)) \<and> left b' = left b - min n (left b)"
    and read_law: "ok b \<Longrightarrow> k \<le> length (bytes b) \<Longrightarrow> 0 \<le> n \<Longrightarrow>
      rd b (nxt b - of_nat k) n =
        Some (min (int k) n, take (nat n) (drop (length (bytes b) - k) (bytes b)))"
    and avail_law: "ok b \<Longrightarrow> k \<le> length (bytes b) \<Longrightarrow> avail b (nxt b - of_nat k) = int k"
    and advance_law: "ok b \<Longrightarrow> k \<le> length (bytes b) \<Longrightarrow>
      ok (adv b (nxt b - of_nat k)) \<and>
      bytes (adv b (nxt b - of_nat k)) = drop (length (bytes b) - k) (bytes b) \<and>
      nxt (adv b (nxt b - of_nat k)) = nxt b \<and>
      left (adv b (nxt b - of_nat k)) = left b + (int (length (bytes b)) - int k)"
begin

text \<open>What is written is what is read back from the old end of the stream.\<close>

lemma write_then_read:
  assumes "ok b" and "int (length d) \<le> left b"
  shows "\<exists>b'. wr b d (int (length d)) = Some (int (length d), b') \<and> ok b' \<and>
    rd b' (nxt b) (int (length d)) = Some (int (length d), d)"
proof -
  obtain b' where w: "wr b d (int (length d)) = Some (int (length d), b')" and ok': "ok b'"
    and bs: "bytes b' = bytes b @ d" and n: "nxt b' = nxt b + of_nat (length d)"
    using write_law [of b "int (length d)" d] assms by (auto simp: min_def)
  have "rd b' (nxt b' - of_nat (length d)) (int (length d)) = Some (int (length d), d)"
    using read_law [OF ok', of "length d" "int (length d)"] bs by simp
  then show ?thesis
    using w ok' n by simp
qed

text \<open>
  Reading at the front and then advancing past what was read splits the held bytes: nothing is
  lost and nothing is seen twice.
\<close>

lemma consume:
  assumes ok: "ok b" and n: "0 \<le> n"
  defines "s \<equiv> nxt b - of_nat (length (bytes b))"
  shows "\<exists>d. rd b s n = Some (int (length d), d) \<and> d = take (nat n) (bytes b) \<and>
    ok (adv b (s + of_nat (length d))) \<and> bytes b = d @ bytes (adv b (s + of_nat (length d))) \<and>
    nxt (adv b (s + of_nat (length d))) = nxt b"
proof -
  define d where "d = take (nat n) (bytes b)"
  define k where "k = length (bytes b) - length d"
  have k: "length (bytes b) - k = length d" "k \<le> length (bytes b)" "length d \<le> length (bytes b)"
    by (simp_all add: k_def d_def)
  have r: "rd b s n = Some (int (length d), d)"
    using read_law [OF ok order_refl n] n by (auto simp: s_def d_def min_def)
  have s: "s + of_nat (length d) = nxt b - of_nat k"
    using k(3) by (simp add: s_def k_def of_nat_diff)
  have split: "bytes b = d @ drop (length d) (bytes b)"
    by (cases "nat n \<le> length (bytes b)") (simp_all add: d_def min_def)
  note a = advance_law [OF ok k(2), folded s, unfolded k(1)]
  show ?thesis
  proof (intro exI conjI)
    show "bytes b = d @ bytes (adv b (s + of_nat (length d)))"
      using split a by simp
  qed (use r a in \<open>simp_all add: d_def\<close>)
qed

text \<open>
  Any sequence of appends and takes on the buffer answers like the bounded queue, never faults, and
  leaves the queue's bytes in the buffer.
\<close>

lemma simulates_fifo:
  assumes "ok b" and "una = nxt b - of_nat (length (bytes b))" and "left b = cap - int (length (bytes b))"
  shows "\<exists>b' una'. buf_run wr rd adv b una ops = Some (fst (fifo_run cap (bytes b) ops), b', una') \<and>
    ok b' \<and> bytes b' = snd (fifo_run cap (bytes b) ops) \<and> una' = nxt b' - of_nat (length (bytes b'))"
  using assms
proof (induction ops arbitrary: b una)
  case (Cons op ops)
  note ok = Cons.prems(1) and una = Cons.prems(2) and cap = Cons.prems(3)
  show ?case
  proof (cases op)
    case (Put d)
    define k where "k = min (int (length d)) (left b)"
    obtain b1 where b1: "wr b d (int (length d)) = Some (k, b1)" "ok b1"
      "bytes b1 = bytes b @ take (nat k) d" "nxt b1 = nxt b + word_of_int k" "left b1 = left b - k"
      using write_law [OF ok, of "int (length d)" d] by (auto simp: k_def)
    have k: "0 \<le> k" "k \<le> int (length d)"
      using left_nonneg [OF ok] by (auto simp: k_def)
    then have l: "int (length (bytes b1)) = int (length (bytes b)) + k"
      using b1(3) by (auto simp: min_def)
    then have "of_nat (length (bytes b1)) = (of_nat (length (bytes b)) + word_of_int k :: u32)"
      using k by (metis of_int_add of_int_of_nat_eq)
    then have "una = nxt b1 - of_nat (length (bytes b1))"
      using una b1(4) by simp
    moreover have "left b1 = cap - int (length (bytes b1))"
      using cap l b1(5) by simp
    ultimately obtain b' una' where "buf_run wr rd adv b1 una ops = Some (fst (fifo_run cap (bytes b1) ops), b', una')"
      "ok b'" "bytes b' = snd (fifo_run cap (bytes b1) ops)" "una' = nxt b' - of_nat (length (bytes b'))"
      using Cons.IH [OF b1(2)] by blast
    moreover have "min (int (length d)) (cap - int (length (bytes b))) = k"
      using cap by (simp add: k_def)
    ultimately show ?thesis
      using b1(1,3) by (simp add: Put Let_def split: prod.splits)
  next
    case (Get n)
    obtain d where d_def: "d = take n (bytes b)" and r: "rd b una (int n) = Some (int (length d), d)" "ok (adv b (una + of_nat (length d)))"
      "bytes b = d @ bytes (adv b (una + of_nat (length d)))"
      "nxt (adv b (una + of_nat (length d))) = nxt b"
      using consume [OF ok of_nat_0_le_iff, of n, folded una, unfolded nat_int] by blast
    define b1 where "b1 = adv b (una + of_nat (length d))"
    have lb: "length (bytes b) = length d + length (bytes b1)"
      using arg_cong [OF r(3), of length] by (simp add: b1_def)
    have nb: "una + of_nat (length d) = nxt b - of_nat (length (bytes b1))"
      by (simp add: una lb)
    then have "b1 = adv b (nxt b - of_nat (length (bytes b1)))"
      unfolding b1_def by simp
    moreover have "left (adv b (nxt b - of_nat (length (bytes b1)))) =
        left b + (int (length (bytes b)) - int (length (bytes b1)))"
      using advance_law [OF ok, of "length (bytes b1)"] lb by simp
    ultimately have "left b1 = cap - int (length (bytes b1))"
      using cap by simp
    moreover have "una + of_nat (length d) = nxt b1 - of_nat (length (bytes b1))"
      using nb r(4) unfolding b1_def by simp
    ultimately obtain b' una' where run: "buf_run wr rd adv b1 (una + of_nat (length d)) ops =
        Some (fst (fifo_run cap (bytes b1) ops), b', una')"
      "ok b'" "bytes b' = snd (fifo_run cap (bytes b1) ops)" "una' = nxt b' - of_nat (length (bytes b'))"
      using Cons.IH [OF r(2) [folded b1_def]] by blast
    have "bytes b1 = drop n (bytes b)"
      using r(3) by (metis append_take_drop_id b1_def d_def same_append_eq)
    then show ?thesis
      using r(1) run by (simp add: Get d_def [symmetric] b1_def [symmetric] split: prod.splits)
  qed
qed simp

end

text \<open>A distance of at most \<open>2 ^ 31 - 1\<close> survives the conversion from \<open>uint\<close> to \<open>int\<close>.\<close>

lemma sint_of_nat: "int k < 2 ^ 31 \<Longrightarrow> sint ((of_nat k) :: u32) = int k"
  using sint_diff_nat [of "int k"] by simp

interpretation rbuf: seq_buffer rb_write rb_read rb_advance rb_avail rb_left content w_seq ringbuf_ok
proof
  fix b :: ringbuf
  assume ok: "ringbuf_ok b"
  note u = length_content [OF ok]
  show "0 \<le> rb_left b"
    using ok by (simp add: rb_left_def ringbuf_ok_def)
  show "int (length (content b)) + rb_left b < 2 ^ 31"
    using ok u by (simp add: rb_left_def ringbuf_ok_def)
  show "\<exists>b'. rb_write b d n = Some (min n (rb_left b), b') \<and> ringbuf_ok b' \<and>
      content b' = content b @ take (nat (min n (rb_left b))) d \<and>
      w_seq b' = w_seq b + word_of_int (min n (rb_left b)) \<and>
      rb_left b' = rb_left b - min n (rb_left b)" if n: "0 \<le> n" "nat n \<le> length d" for n d
  proof -
    obtain b' where b': "rb_write b d n = Some (min n (rb_left b), b')" "ringbuf_ok b'"
      "content b' = content b @ take (nat (min n (rb_left b))) d"
      "w_seq b' = w_seq b + word_of_int (min n (rb_left b))" "buf_size b' = buf_size b"
      using rb_write_ok [OF ok n] by auto
    have "used b' = used b + min n (rb_left b)"
      using length_content [OF b'(2)] u b'(3) n \<open>0 \<le> rb_left b\<close> by auto
    then show ?thesis
      using b' by (simp add: rb_left_def)
  qed
  fix k
  assume k: "k \<le> length (content b)"
  have kk: "sint (w_seq b - (w_seq b - of_nat k)) = int k" "int k \<le> used b"
    using k u ok sint_of_nat [of k] by (auto simp: ringbuf_ok_def)
  show "rb_avail b (w_seq b - of_nat k) = int k"
    using kk by (simp add: rb_avail_def)
  show "rb_read b (w_seq b - of_nat k) n =
      Some (min (int k) n, take (nat n) (drop (length (content b) - k) (content b)))"
    if "0 \<le> n" for n
  proof (cases "k = 0")
    case True
    then show ?thesis
      using rb_read_none [OF ok, of "w_seq b"] that by (simp add: min_def)
  next
    case False
    have "nat (used b - int k) = length (content b) - k"
      using u kk by simp
    moreover have "take (nat (min (int k) n)) (drop (length (content b) - k) (content b)) =
        take (nat n) (drop (length (content b) - k) (content b))"
      using k that by (auto simp: min_def)
    ultimately show ?thesis
      using rb_read_ok [OF ok kk(1) [symmetric] _ kk(2) that] False by simp
  qed
  show "ringbuf_ok (rb_advance b (w_seq b - of_nat k)) \<and>
      content (rb_advance b (w_seq b - of_nat k)) = drop (length (content b) - k) (content b) \<and>
      w_seq (rb_advance b (w_seq b - of_nat k)) = w_seq b \<and>
      rb_left (rb_advance b (w_seq b - of_nat k)) = rb_left b + (int (length (content b)) - int k)"
  proof (cases "k = 0")
    case True
    then show ?thesis
      using rb_advance_beyond [OF ok, of "w_seq b"] u by (simp add: rb_left_def)
  next
    case False
    have "nat (used b - int k) = length (content b) - k"
      using u kk by simp
    then show ?thesis
      using rb_advance_inside [OF ok kk(1) [symmetric] _ kk(2)] False u by (simp add: rb_left_def)
  qed
qed

subsection \<open>Properties\<close>

text \<open>
  A write to a well-formed ring buffer never faults: it accepts as many bytes as there is room
  for, appends exactly those to the buffered bytes, moves the write sequence number by that many
  (modulo \<open>2 ^ 32\<close>) and keeps the buffer well formed, whether or not the array wraps around.
\<close>

theorem rb_write_appends:
  assumes "ringbuf_ok r" and "0 \<le> len" and "nat len \<le> length data"
  shows "\<exists>r'. rb_write r data len = Some (min len (rb_left r), r') \<and> ringbuf_ok r' \<and>
    content r' = content r @ take (nat (min len (rb_left r))) data \<and>
    w_seq r' = w_seq r + word_of_int (min len (rb_left r)) \<and>
    rb_left r' = rb_left r - min len (rb_left r)"
  using assms by (rule rbuf.write_law)

theorem rb_write_appends_witness:
  "\<exists>r'. rb_write (rb_new 4) [1, 2, 3] 3 = Some (3, r') \<and> content r' = [1, 2, 3] \<and> rb_left r' = 1"
  using rb_write_appends [of "rb_new 4" 3 "[1, 2, 3]"] rb_new_ok [of 4]
  by (auto simp: rb_left_def rb_new_def)

text \<open>
  C6. The ring buffer refines a bounded byte queue: any sequence of appends and of
  read-then-advance steps at the front, started on a fresh buffer of \<open>s\<close> bytes whose stream
  starts at an arbitrary sequence number, runs without a fault, answers exactly like the queue and
  leaves the queue's bytes in the buffer.
\<close>

theorem ringbuf_refines_fifo:
  assumes "0 < s" and "s < 2 ^ 31"
  shows "\<exists>r' una'. buf_run rb_write rb_read rb_advance (rb_set (rb_new s) seq) seq ops =
      Some (fst (fifo_run s [] ops), r', una') \<and>
    ringbuf_ok r' \<and> content r' = snd (fifo_run s [] ops) \<and> una' = r_seq r'"
proof -
  have "ringbuf_ok (rb_set (rb_new s) seq)" "content (rb_set (rb_new s) seq) = []"
    using rb_new_ok [OF assms] rb_set_ok [of "rb_new s" seq] by simp_all
  from rbuf.simulates_fifo [OF this(1), of seq s ops] this(2) show ?thesis
    by (auto simp: rb_set_def rb_new_def rb_left_def r_seq_def length_content [symmetric])
qed

theorem ringbuf_refines_fifo_witness:
  "\<exists>r' una'. buf_run rb_write rb_read rb_advance (rb_set (rb_new 3) 0xfffffffe) 0xfffffffe
      [Put [1, 2, 3, 4], Get 2, Put [5, 6]] =
      Some ([Accepted 3, Taken [1, 2], Accepted 2], r', una') \<and> content r' = [3, 5, 6] \<and> una' = r_seq r'"
  using ringbuf_refines_fifo [of 3 "0xfffffffe" "[Put [1, 2, 3, 4], Get 2, Put [5, 6]]"]
  by (auto simp: eval_nat_numeral)

text \<open>
  Reading needs no trust in the sequence number: a read at any position returns without a fault;
  at \<open>k\<close> bytes before the end, \<open>0 < k \<le> used\<close>, it returns the first \<open>min k mx\<close> bytes
  from there on, and at a position outside the held window it returns no bytes.
\<close>

theorem rb_read_window:
  assumes "ringbuf_ok r" and "0 \<le> mx"
  shows "rb_read r seq mx =
    (let k = sint (w_seq r - seq) in
     Some (if 0 < k \<and> k \<le> used r
           then (min k mx, take (nat (min k mx)) (drop (nat (used r - k)) (content r)))
           else (0, [])))"
  using rb_read_ok [OF assms(1) refl _ _ assms(2), of seq] rb_read_none [OF assms(1), of seq mx]
  by (auto simp: Let_def not_le)

theorem rb_read_window_witness:
  "rb_read (rb_new 8) 5 3 = Some (0, [])"
  using rb_read_window [of "rb_new 8" 3 5] rb_new_ok [of 8] by (simp add: rb_new_def)

text \<open>
  C31. Advancing to a sequence number that lies further back than the buffer is long, as a forged
  acknowledgement can make \<^verbatim>\<open>handle_tcp\<close> do, destroys the invariant: more bytes count as
  used than the array has, the room left becomes negative, and the next write of any data calls
  \<open>memcpy\<close> with a negative size.
\<close>

theorem rb_advance_stale_breaks:
  assumes "ringbuf_ok r" and "buf_p r \<noteq> None" and "buf_size r < sint (w_seq r - s)" and "0 < len"
  shows "\<not> ringbuf_ok (rb_advance r s) \<and> rb_left (rb_advance r s) < 0 \<and>
    rb_write (rb_advance r s) data len = None"
proof -
  let ?d = "sint (w_seq r - s)"
  have d: "0 < ?d" "w_pos r < buf_size r"
    using assms by (auto simp: ringbuf_ok_def)
  have a: "rb_advance r s = r\<lparr>used := ?d\<rparr>"
    using d by (simp add: rb_advance_def Let_def)
  then have l: "rb_left (rb_advance r s) = buf_size r - ?d"
    by (simp add: rb_left_def)
  have "rb_alloc (rb_advance r s) = r\<lparr>used := ?d\<rparr>"
    using assms(2) a by (auto simp: rb_alloc_def)
  then have "rb_write (rb_advance r s) data len = None"
    using assms d l a by (auto simp: rb_write_def Let_def memcpy_negative)
  then show ?thesis
    using l assms(3) a by (auto simp: ringbuf_ok_def)
qed

theorem rb_advance_stale_breaks_witness:
  "\<exists>r'. rb_write (rb_new 4) [1, 2] 2 = Some (2, r') \<and> rb_write (rb_advance r' (- 100)) [7] 1 = None"
proof -
  obtain r' where r': "rb_write (rb_new 4) [1, 2] 2 = Some (2, r')" "ringbuf_ok r'" "content r' = [1, 2]"
    "w_seq r' = 2" "buf_size r' = 4"
    using rb_write_ok [of "rb_new 4" 2 "[1, 2]"] rb_new_ok [of 4]
    by (auto simp: rb_left_def rb_new_def)
  have "buf_p r' \<noteq> None"
    using r'(3) by (cases "buf_p r'") (auto simp: content_def)
  then show ?thesis
    using rb_advance_stale_breaks [of r' "- 100" 1 "[7]"] r' by simp
qed

end
