(* ===== verification/Util.thy ===== *)
theory Util
  imports Ptrtd_Prelude
begin

text \<open>
  The Internet checksum of \<^verbatim>\<open>src/util.c\<close>. The packet starts with an IPv6 header; the sum runs
  over the payload length and next header fields (the pseudo header) and every byte from the source
  address on. The sum is a C \<open>int\<close>: that it does not overflow for any packet of at most \<open>65535\<close>
  bytes is part of the theorem below.
\<close>

definition max_int :: "int \<Rightarrow> int \<Rightarrow> int" where
  "max_int a b = (if a > b then a else b)"

text \<open>The summing loop, from index \<open>i\<close> for \<open>n\<close> more bytes.\<close>

fun cksum_add :: "byte list \<Rightarrow> nat \<Rightarrow> nat \<Rightarrow> int \<Rightarrow> int option" where
  "cksum_add p i 0 c = Some c"
| "cksum_add p i (Suc n) c = do {
     b \<leftarrow> mem_get p i;
     cksum_add p (Suc i) n (c + (if i mod 2 \<noteq> 0 then uint b else push_bit 8 (uint b)))
   }"

text \<open>The folding loop.\<close>

function cksum_fold :: "int \<Rightarrow> int" where
  "cksum_fold c = (if c > 0xffff then cksum_fold (drop_bit 16 c + (c AND 0xffff)) else c)"
  by auto

definition make_cksum :: "byte list \<Rightarrow> int \<Rightarrow> int option" where
  "make_cksum p len = do {
     g \<leftarrow> GET_16 p 4;
     b \<leftarrow> mem_get p 6;
     c \<leftarrow> cksum_add p 8 (nat (len - 8)) (g + uint b);
     Some (cksum_fold c)
   }"

subsection \<open>Folding\<close>

lemma and_0xffff: "(c :: int) AND 0xffff = c mod 65536"
  using take_bit_eq_mask [of 16 c] by (simp add: mask_eq_exp_minus_1 take_bit_eq_mod)

lemma fold_step: "drop_bit 16 (c :: int) + (c AND 0xffff) = c - 65535 * (c div 65536)"
proof -
  have "c = 65536 * (c div 65536) + c mod 65536"
    by simp
  then show ?thesis
    unfolding and_0xffff drop_bit_eq_div by (simp add: field_simps)
qed

termination cksum_fold
proof (relation "measure nat")
  fix c :: int
  assume c: "0xffff < c"
  have "0 < c div 65536 \<or> c = 65535"
    using c by auto
  then show "(drop_bit 16 c + (c AND 0xffff), c) \<in> measure nat"
    using c by (auto simp: fold_step)
qed simp

declare cksum_fold.simps [simp del]

lemma cksum_fold_range: "0 \<le> c \<Longrightarrow> 0 \<le> cksum_fold c \<and> cksum_fold c \<le> 0xffff \<and> (cksum_fold c = 0 \<longleftrightarrow> c = 0)"
proof (induction c rule: cksum_fold.induct)
  case (1 c)
  show ?case
  proof (cases "c > 0xffff")
    case True
    have nn: "0 \<le> drop_bit 16 c + (c AND 0xffff)"
      using 1(2) by simp
    moreover have "0 < drop_bit 16 c + (c AND 0xffff)"
    proof -
      have "0 < c div 65536"
        using True by (simp add: pos_imp_zdiv_pos_iff)
      then show ?thesis
        by (simp add: drop_bit_eq_div and_0xffff add_pos_nonneg)
    qed
    ultimately show ?thesis
      using 1(1) [OF True] True by (subst (1 2 3) cksum_fold.simps) simp
  next
    case False
    then show ?thesis
      using 1(2) by (subst (1 2 3) cksum_fold.simps) simp
  qed
qed

lemma cksum_fold_mod: "cksum_fold c mod 65535 = c mod 65535"
proof (induction c rule: cksum_fold.induct)
  case (1 c)
  show ?case
  proof (cases "c > 0xffff")
    case True
    have "(drop_bit 16 c + (c AND 0xffff)) mod 65535 = c mod 65535"
      unfolding fold_step by (simp add: mod_diff_eq [symmetric])
    then show ?thesis
      using 1 [OF True] True by (subst cksum_fold.simps) simp
  qed (subst cksum_fold.simps, simp)
qed

subsection \<open>The sum\<close>

definition cell :: "byte list \<Rightarrow> nat \<Rightarrow> int" where
  "cell p i = (if odd i then uint (p ! i) else 256 * uint (p ! i))"

definition word_sum :: "byte list \<Rightarrow> nat \<Rightarrow> int" where
  "word_sum p n = 256 * uint (p ! 4) + uint (p ! 5) + uint (p ! 6) + (\<Sum>i = 8..<n. cell p i)"

lemma cksum_add_eq:
  "i + n \<le> length p \<Longrightarrow> cksum_add p i n c = Some (c + (\<Sum>j = i..<i + n. cell p j))"
proof (induction n arbitrary: i c)
  case (Suc n)
  have "(\<Sum>j = i..<i + Suc n. cell p j) = cell p i + (\<Sum>j = Suc i..<Suc i + n. cell p j)"
    by (simp add: sum.atLeast_Suc_lessThan)
  moreover have "(if i mod 2 \<noteq> 0 then uint (p ! i) else push_bit 8 (uint (p ! i))) = cell p i"
    by (auto simp: cell_def push_bit_eq_mult odd_iff_mod_2_eq_one)
  ultimately show ?case
    using Suc by (simp add: mem_simps add.assoc)
qed simp

lemma make_cksum_eq:
  assumes "8 \<le> len" and "nat len \<le> length p"
  shows "make_cksum p len = Some (cksum_fold (word_sum p (nat len)))"
proof -
  have l: "8 + nat (len - 8) = nat len" "8 \<le> length p"
    using assms by simp_all
  have "GET_16 p 4 = Some (256 * uint (p ! 4) + uint (p ! 5))"
    using l(2) by (simp add: GET_16_def mem_simps get16_value)
  moreover have "cksum_add p 8 (nat (len - 8)) c = Some (c + (\<Sum>j = 8..<nat len. cell p j))" for c
    using cksum_add_eq [of 8 "nat (len - 8)" p c] l assms by simp
  ultimately show ?thesis
    using l(2) by (simp add: make_cksum_def mem_simps word_sum_def)
qed

lemma byte_bound: "0 \<le> uint (b :: byte)" "uint (b :: byte) < 256"
  using uint_bounded [of b] by simp_all

lemma byte_le: "uint (b :: byte) \<le> 255"
  using byte_bound(2) [of b] by linarith

lemma cell_bound: "0 \<le> cell p i" "cell p i \<le> (if odd i then 255 else 65280)"
  using byte_bound [of "p ! i"] by (auto simp: cell_def)

lemma cells_bound: "8 \<le> n \<Longrightarrow> 2 * (\<Sum>i = 8..<n. cell p i) \<le> 65535 * (int n - 7)"
proof (induction n rule: less_induct)
  case (less n)
  show ?case
  proof (cases "n < 10")
    case True
    then have "n = 8 \<or> n = 9"
      using less.prems by auto
    moreover have "{8..<9} = {8 :: nat}"
      by auto
    ultimately show ?thesis
      using cell_bound(2) [of p 8] by auto
  next
    case False
    then obtain m where m: "n = Suc (Suc m)" "8 \<le> m"
      using False by (intro that [of "n - 2"]) auto
    then have "(\<Sum>i = 8..<n. cell p i) = (\<Sum>i = 8..<m. cell p i) + cell p m + cell p (Suc m)"
      by (simp add: sum.atLeastLessThan_Suc)
    moreover have "cell p m + cell p (Suc m) \<le> 65535"
      using cell_bound(2) [of p m] cell_bound(2) [of p "Suc m"] by (cases "odd m") auto
    moreover have "2 * (\<Sum>i = 8..<m. cell p i) \<le> 65535 * (int m - 7)"
      using less.IH [of m] m by auto
    ultimately show ?thesis
      using m by simp
  qed
qed

lemma word_sum_nonneg: "0 \<le> word_sum p n"
  unfolding word_sum_def
  using byte_bound [of "p ! 4"] byte_bound [of "p ! 5"] byte_bound [of "p ! 6"]
  by (intro add_nonneg_nonneg sum_nonneg cell_bound(1)) simp_all

text \<open>Storing a 16-bit value over two zero bytes at an even offset adds that value to the sum.\<close>

lemma word_sum_put:
  assumes k: "even k" "8 \<le> k" "k + 2 \<le> n" "n \<le> length p" and z: "p ! k = 0" "p ! Suc k = 0"
    and p': "PUT_16 p k v = Some p'"
  shows "word_sum p' n = word_sum p n + v mod 65536" "length p' = length p"
proof -
  let ?d = "[word_of_int (drop_bit 8 v AND 0xff), word_of_int (v AND 0xff) :: byte]"
  have put: "mem_put p k ?d = Some p'"
    using p' by (simp add: PUT_16_def)
  show len: "length p' = length p"
    using length_PUT_16 [OF p'] .
  have nth: "p' ! i = (if i = k then ?d ! 0 else if i = Suc k then ?d ! 1 else p ! i)" if "i < length p" for i
    using nth_mem_put [OF put that] by (auto simp: nth_Cons less_Suc_eq split: nat.splits)
  have c: "cell p' i = cell p i" if "i \<noteq> k" "i \<noteq> Suc k" "i < n" for i
    using that nth [of i] k(4) by (simp add: cell_def)
  have two: "cell p' k + cell p' (Suc k) = v mod 65536"
    using nth [of k] nth [of "Suc k"] k mod_mult2_eq' [of v 256 256]
    by (simp add: cell_def and_0xff drop_bit_eq_div)
  have "(\<Sum>i = 8..<n. f i) = (\<Sum>i \<in> {8..<n} - {k, Suc k}. f i) + (f k + f (Suc k))" for f :: "nat \<Rightarrow> int"
    using k(2,3) by (subst sum.subset_diff [of "{k, Suc k}"]) auto
  note split = this
  have "(\<Sum>i \<in> {8..<n} - {k, Suc k}. cell p' i) = (\<Sum>i \<in> {8..<n} - {k, Suc k}. cell p i)"
    by (rule sum.cong) (auto simp: c)
  then have "(\<Sum>i = 8..<n. cell p' i) = (\<Sum>i = 8..<n. cell p i) + v mod 65536"
    using two split [of "cell p"] split [of "cell p'"] z by (simp add: cell_def)
  then show "word_sum p' n = word_sum p n + v mod 65536"
    using nth [of 4] nth [of 5] nth [of 6] k by (simp add: word_sum_def)
qed

lemma cksum_fold_full: "0 < c \<Longrightarrow> c mod 65535 = 0 \<Longrightarrow> cksum_fold c = 65535"
proof -
  assume c: "0 < c" "c mod 65535 = 0"
  have r: "0 < cksum_fold c" "cksum_fold c \<le> 65535" "cksum_fold c mod 65535 = 0"
    using cksum_fold_range [of c] cksum_fold_mod [of c] c by auto
  then show ?thesis
    using mod_pos_pos_trivial [of "cksum_fold c" 65535] by linarith
qed

text \<open>Storing the complement of the sum over two zero bytes makes the packet sum to all ones.\<close>

lemma cksum_stored:
  assumes "even k" and "8 \<le> k" and "int k + 2 \<le> len" and "nat len \<le> length p"
    and "p ! k = 0" and "p ! Suc k = 0"
    and "make_cksum p len = Some c" and "PUT_16 p k (NOT c) = Some p'"
  shows "make_cksum p' len = Some 0xffff"
proof -
  let ?n = "nat len"
  have k2: "k + 2 \<le> ?n" and len: "8 \<le> len"
    using assms(2,3) by linarith+
  have c: "c = cksum_fold (word_sum p ?n)"
    using make_cksum_eq [OF len assms(4)] assms(7) by simp
  have r: "0 \<le> c" "c \<le> 65535" "c = 0 \<longleftrightarrow> word_sum p ?n = 0" "c mod 65535 = word_sum p ?n mod 65535"
    using cksum_fold_range [OF word_sum_nonneg [of p ?n]] cksum_fold_mod by (auto simp: c)
  have "NOT c mod 65536 = (- c - 1) mod 65536"
    by (simp add: not_int_def)
  also have "\<dots> = 65535 - c"
    using r(1,2) mod_pos_pos_trivial [of "65535 - c" 65536] mod_add_self2 [of "- c - 1" 65536] by simp
  finally have s: "word_sum p' ?n = word_sum p ?n + (65535 - c)" and l: "length p' = length p"
    using word_sum_put [OF assms(1,2) k2 assms(4-6,8)] by simp_all
  have "(word_sum p ?n + (65535 - c)) mod 65535 = (word_sum p ?n - c) mod 65535"
    using mod_add_self2 [of "word_sum p ?n - c" 65535] by (simp add: algebra_simps)
  also have "\<dots> = 0"
    using r(4) by (metis mod_diff_cong mod_0 cancel_comm_monoid_add_class.diff_cancel)
  finally have "word_sum p' ?n mod 65535 = 0"
    by (simp add: s)
  moreover have "0 < word_sum p' ?n"
    using s r word_sum_nonneg [of p ?n] by (cases "c = 0") auto
  ultimately show ?thesis
    using make_cksum_eq [OF len, of p'] assms(4) l cksum_fold_full by simp
qed

subsection \<open>Properties\<close>

text \<open>
  C27. The checksum loop terminates with a 16-bit value that is congruent to the word sum of the
  pseudo header and the packet modulo \<open>65535\<close> (it is the ones' complement sum), and for every
  length up to \<open>65535\<close> the sum stays below \<open>2 ^ 31\<close>, so the \<open>int\<close> does not overflow.
\<close>

theorem make_cksum_sound:
  assumes "8 \<le> len" and "len \<le> 65535" and "nat len \<le> length p"
  shows "\<exists>c. make_cksum p len = Some c \<and> 0 \<le> c \<and> c \<le> 0xffff \<and>
    c mod 65535 = word_sum p (nat len) mod 65535 \<and> 0 \<le> word_sum p (nat len) \<and> word_sum p (nat len) < 2 ^ 31"
proof -
  have "8 \<le> nat len" "int (nat len) = len"
    using assms(1) by simp_all
  then have "2 * (\<Sum>i = 8..<nat len. cell p i) \<le> 65535 * (len - 7)"
    using cells_bound [of "nat len" p] by simp
  then have "2 * word_sum p (nat len) \<le> 2 * (65535 + 255) + 65535 * (len - 7)"
    using byte_le [of "p ! 4"] byte_le [of "p ! 5"] byte_le [of "p ! 6"]
    unfolding word_sum_def by simp
  then have "word_sum p (nat len) < 2 ^ 31"
    using assms by simp
  then show ?thesis
    using make_cksum_eq [of len p] assms cksum_fold_range [OF word_sum_nonneg] cksum_fold_mod word_sum_nonneg
    by auto
qed

theorem make_cksum_sound_witness:
  "\<exists>c. make_cksum (replicate 48 1) 48 = Some c \<and> c \<le> 0xffff"
  using make_cksum_sound [of 48 "replicate 48 1"] by auto

text \<open>
  C28. What the senders do with the checksum verifies at a receiver: if the two checksum bytes (at an
  even offset of the payload) are zero when the sum is taken and its complement is stored there,
  then summing the finished packet gives \<open>0xffff\<close>.
\<close>

theorem make_cksum_verifies:
  assumes "even k" and "8 \<le> k" and "int k + 2 \<le> len" and "nat len \<le> length p"
    and "p ! k = 0" and "p ! Suc k = 0"
    and "make_cksum p len = Some c" and "PUT_16 p k (NOT c) = Some p'"
  shows "make_cksum p' len = Some 0xffff"
  using assms by (rule cksum_stored)

theorem make_cksum_verifies_witness:
  "\<exists>c p'. make_cksum (replicate 48 0) 48 = Some c \<and> PUT_16 (replicate 48 0) 42 (NOT c) = Some p' \<and>
     make_cksum p' 48 = Some 0xffff"
proof -
  obtain c where c: "make_cksum (replicate 48 0) 48 = Some c"
    using make_cksum_eq [of 48 "replicate 48 0"] by auto
  obtain p' where "PUT_16 (replicate 48 0) 42 (NOT c) = Some p'"
    using PUT_16_Some [of 42 "replicate 48 0"] by auto
  then show ?thesis
    using make_cksum_verifies [of 42 48 "replicate 48 0" c p'] c by auto
qed

end
