(* ===== verification/Header.thy ===== *)
theory Header
  imports Util
begin

text \<open>
  Lemmas for code that fills in a packet header field by field. The rules \<open>put_simps\<close> execute a
  bounds-checked store on a memory whose first bytes are known, so a header function is evaluated by
  \<open>simp\<close> to the list of bytes it writes; \<open>finish_cksum\<close> is the last step every sender shares.
\<close>

named_theorems put_simps "executing stores on an explicit prefix"

lemma put_Cons [put_simps]: "0 < i \<Longrightarrow> mem_put (x # m) i d = map_option ((#) x) (mem_put m (i - 1) d)"
  by (cases i) (auto simp: mem_put_def)

lemma put_append [put_simps]: "length c \<le> i \<Longrightarrow> mem_put (c @ m) i d = map_option ((@) c) (mem_put m (i - length c) d)"
  by (auto simp: mem_put_def)

lemma put_front [put_simps]: "length d \<le> length m \<Longrightarrow> mem_put m 0 d = Some (d @ drop (length d) m)"
  by (simp add: mem_put_def)

lemma memcpy_front [put_simps]:
  "0 \<le> i \<Longrightarrow> 0 \<le> n \<Longrightarrow> nat n \<le> length src \<Longrightarrow> memcpy dst i src 0 n = mem_put dst (nat i) (take (nat n) src)"
  by (simp add: memcpy_def mem_sub_def)

text \<open>The two bytes of a 16-bit field and the four bytes of a 32-bit field.\<close>

definition be16 :: "int \<Rightarrow> byte list" where
  "be16 v = [word_of_int (drop_bit 8 v AND 0xff), word_of_int (v AND 0xff)]"

definition be32 :: "u32 \<Rightarrow> byte list" where
  "be32 v = [ucast (drop_bit 24 v AND 0xff), ucast (drop_bit 16 v AND 0xff), ucast (drop_bit 8 v AND 0xff), ucast (v AND 0xff)]"

lemma PUT_be [put_simps]: "PUT_16 p i v = mem_put p i (be16 v)" "PUT_32 p i u = mem_put p i (be32 u)"
  by (simp_all add: PUT_16_def PUT_32_def be16_def be32_def)

lemma length_be [simp]: "length (be16 v) = 2" "length (be32 u) = 4"
  by (simp_all add: be16_def be32_def)

lemma be16_0 [simp]: "be16 0 = [0, 0]"
  by (simp add: be16_def)

text \<open>Reading the fields back.\<close>

lemma GET_Some:
  "i + 2 \<le> length p \<Longrightarrow> \<exists>v. GET_16 p i = Some v" "i + 4 \<le> length p \<Longrightarrow> \<exists>u. GET_32 p i = Some u"
  by (auto simp: GET_16_def GET_32_def mem_get_def)

lemma GET_16_be: "length a = i \<Longrightarrow> GET_16 (a @ be16 v @ c) i = Some (v mod 65536)"
  by (rule PUT_GET_16 [of "a @ [0, 0] @ c"]) (simp add: PUT_be mem_put_def)

lemma GET_32_be: "length a = i \<Longrightarrow> GET_32 (a @ be32 v @ c) i = Some v"
  by (rule PUT_GET_32 [of "a @ [0, 0, 0, 0] @ c"]) (simp add: PUT_be mem_put_def)

lemma get_Cons:
  "0 < i \<Longrightarrow> mem_get (x # m) i = mem_get m (i - 1)" "mem_get (x # m) 0 = Some x"
  "length c \<le> i \<Longrightarrow> mem_get (c @ m) i = mem_get m (i - length c)"
  by (auto simp: mem_get_def nth_append)

lemma GET_skip:
  "length c \<le> i \<Longrightarrow> GET_16 (c @ m) i = GET_16 m (i - length c)" "0 < i \<Longrightarrow> GET_16 (x # m) i = GET_16 m (i - 1)"
  "length c \<le> i \<Longrightarrow> GET_32 (c @ m) i = GET_32 m (i - length c)" "0 < i \<Longrightarrow> GET_32 (x # m) i = GET_32 m (i - 1)"
  by (simp_all add: GET_16_def GET_32_def get_Cons Suc_diff_le)

lemma GET_here: "GET_16 (be16 v @ c) 0 = Some (v mod 65536)" "GET_32 (be32 u @ c) 0 = Some u"
  using GET_16_be [of "[]"] GET_32_be [of "[]"] by simp_all

lemma sub_skip:
  "length c \<le> i \<Longrightarrow> mem_sub (c @ m) i n = mem_sub m (i - length c) n" "0 < i \<Longrightarrow> mem_sub (x # m) i n = mem_sub m (i - 1) n"
  "n \<le> length m \<Longrightarrow> mem_sub m 0 n = Some (take n m)"
  by (auto simp: mem_sub_def drop_Cons')

lemmas get_simps = get_Cons GET_skip GET_here sub_skip

text \<open>
  Every sender ends by summing a header \<open>a @ [0, 0] @ b\<close> and a payload, and storing the complement of
  the sum over the two zero bytes; the finished packet sums to \<open>0xffff\<close>.
\<close>

lemma finish_cksum:
  assumes k: "even (length a)" "8 \<le> length a" and len: "int (length a) + 2 \<le> len" "nat len \<le> length a + 2 + length b"
  shows "\<exists>c. make_cksum (a @ [0, 0] @ b) len = Some c \<and> make_cksum (a @ be16 (NOT c) @ b) len = Some 0xffff"
proof -
  let ?p = "a @ [0, 0] @ b"
  obtain c where c: "make_cksum ?p len = Some c"
    using make_cksum_eq [of len ?p] k len by auto
  have put: "PUT_16 ?p (length a) (NOT c) = Some (a @ be16 (NOT c) @ b)"
    by (simp add: PUT_be mem_put_def)
  have "make_cksum (a @ be16 (NOT c) @ b) len = Some 0xffff"
    by (rule cksum_stored [OF k len(1) _ _ _ c put]) (use len in \<open>auto simp: nth_append\<close>)
  with c show ?thesis
    by blast
qed

lemma word_sum_take: "8 \<le> n \<Longrightarrow> n \<le> length p \<Longrightarrow> word_sum (take n p) n = word_sum p n"
  by (auto simp: word_sum_def cell_def intro!: sum.cong)

text \<open>The sum reads the packet and nothing behind it.\<close>

lemma make_cksum_take:
  "8 \<le> len \<Longrightarrow> nat len \<le> length p \<Longrightarrow> make_cksum (take (nat len) p) len = make_cksum p len"
  by (simp add: make_cksum_eq word_sum_take)

end
