(* ===== verification/Rbtree.thy ===== *)
theory Rbtree
  imports Ptrtd_Prelude
begin

text \<open>
  The intrusive red-black tree of \<^verbatim>\<open>src/rbtree.h\<close> and \<^verbatim>\<open>src/rbtree.c\<close>, at the
  level of pointers. A node keeps the address of its parent and its colour in one
  \<open>unsigned long\<close> (\<open>rb_parent_color\<close>); memory is a partial map from addresses to nodes, so
  following a NULL or dangling pointer is a fault (\<open>None\<close>). An \<open>rbs\<close> is that memory
  together with the \<open>struct rb_root\<close>. The child fields carry the names
  \<open>rb_lchild\<close> and \<open>rb_rchild\<close>, because \<open>rb_left\<close> is also a function of
  \<^verbatim>\<open>buffer.c\<close>.

  The loops are \<open>partial_function\<close>s: that they return is proved in
  \<^verbatim>\<open>Rbtree_Insert\<close> and \<^verbatim>\<open>Rbtree_Erase\<close>.
\<close>

subsection \<open>Nodes\<close>

record rb_node =
  rb_parent_color :: "64 word"
  rb_rchild :: ptr
  rb_lchild :: ptr

type_synonym rbheap = "ptr \<rightharpoonup> rb_node"

record rbs =
  nodes :: rbheap
  root :: ptr

abbreviation (input) RB_RED :: "64 word" where "RB_RED \<equiv> 0"
abbreviation (input) RB_BLACK :: "64 word" where "RB_BLACK \<equiv> 1"

definition rb_parent :: "rb_node \<Rightarrow> ptr" where
  "rb_parent r = rb_parent_color r AND NOT 3"

definition rb_color :: "rb_node \<Rightarrow> 64 word" where
  "rb_color r = rb_parent_color r AND 1"

definition rb_is_red :: "rb_node \<Rightarrow> bool" where
  "rb_is_red r \<longleftrightarrow> rb_color r = 0"

definition rb_is_black :: "rb_node \<Rightarrow> bool" where
  "rb_is_black r \<longleftrightarrow> rb_color r \<noteq> 0"

definition set_red :: "rb_node \<Rightarrow> rb_node" where
  "set_red r = r\<lparr>rb_parent_color := rb_parent_color r AND NOT 1\<rparr>"

definition set_black :: "rb_node \<Rightarrow> rb_node" where
  "set_black r = r\<lparr>rb_parent_color := rb_parent_color r OR 1\<rparr>"

definition set_parent :: "ptr \<Rightarrow> rb_node \<Rightarrow> rb_node" where
  "set_parent p r = r\<lparr>rb_parent_color := (rb_parent_color r AND 3) OR p\<rparr>"

definition set_color :: "64 word \<Rightarrow> rb_node \<Rightarrow> rb_node" where
  "set_color c r = r\<lparr>rb_parent_color := (rb_parent_color r AND NOT 1) OR c\<rparr>"

subsection \<open>Stores through a node pointer\<close>

definition upd :: "ptr \<Rightarrow> (rb_node \<Rightarrow> rb_node) \<Rightarrow> rbs \<Rightarrow> rbs option" where
  "upd p f s = do { n \<leftarrow> nodes s p; Some (s\<lparr>nodes := (nodes s)(p \<mapsto> f n)\<rparr>) }"

definition rb_set_red :: "ptr \<Rightarrow> rbs \<Rightarrow> rbs option" where
  "rb_set_red p = upd p set_red"

definition rb_set_black :: "ptr \<Rightarrow> rbs \<Rightarrow> rbs option" where
  "rb_set_black p = upd p set_black"

definition rb_set_parent :: "ptr \<Rightarrow> ptr \<Rightarrow> rbs \<Rightarrow> rbs option" where
  "rb_set_parent p q = upd p (set_parent q)"

definition rb_set_color :: "ptr \<Rightarrow> 64 word \<Rightarrow> rbs \<Rightarrow> rbs option" where
  "rb_set_color p c = upd p (set_color c)"

definition set_lchild :: "ptr \<Rightarrow> ptr \<Rightarrow> rbs \<Rightarrow> rbs option" where
  "set_lchild p q = upd p (\<lambda>n. n\<lparr>rb_lchild := q\<rparr>)"

definition set_rchild :: "ptr \<Rightarrow> ptr \<Rightarrow> rbs \<Rightarrow> rbs option" where
  "set_rchild p q = upd p (\<lambda>n. n\<lparr>rb_rchild := q\<rparr>)"

text \<open>\<open>rb_link_node (node, parent, &parent->rb_left)\<close> and its two sisters: the new node becomes a
  red leaf at the link.\<close>

datatype rb_link = At_root | Left_of ptr | Right_of ptr

definition store_link :: "rb_link \<Rightarrow> ptr \<Rightarrow> rbs \<Rightarrow> rbs option" where
  "store_link lnk node s =
     (case lnk of
        At_root \<Rightarrow> Some (s\<lparr>root := node\<rparr>)
      | Left_of p \<Rightarrow> set_lchild p node s
      | Right_of p \<Rightarrow> set_rchild p node s)"

definition rb_link_node :: "ptr \<Rightarrow> ptr \<Rightarrow> rb_link \<Rightarrow> rbs \<Rightarrow> rbs option" where
  "rb_link_node node parent lnk s = do {
     s \<leftarrow> upd node (\<lambda>n. n\<lparr>rb_parent_color := parent, rb_lchild := 0, rb_rchild := 0\<rparr>) s;
     store_link lnk node s
   }"

text \<open>\<open>if (p) rb_set_parent (p, q)\<close>.\<close>

definition adopt :: "ptr \<Rightarrow> ptr \<Rightarrow> rbs \<Rightarrow> rbs option" where
  "adopt p q s = (if p \<noteq> 0 then rb_set_parent p q s else Some s)"

text \<open>
  Redirecting the link that points to \<open>old\<close>: a child field of \<open>parent\<close>, or the root.
\<close>

definition relink :: "ptr \<Rightarrow> ptr \<Rightarrow> ptr \<Rightarrow> rbs \<Rightarrow> rbs option" where
  "relink parent old new s =
     (if parent \<noteq> 0
      then do {
        p \<leftarrow> nodes s parent;
        (if old = rb_lchild p then set_lchild parent new s else set_rchild parent new s)
      }
      else Some (s\<lparr>root := new\<rparr>))"

text \<open>The same with the tests of \<open>__rb_rotate_right\<close>, which looks at the right child first.\<close>

definition relink_r :: "ptr \<Rightarrow> ptr \<Rightarrow> ptr \<Rightarrow> rbs \<Rightarrow> rbs option" where
  "relink_r parent old new s =
     (if parent \<noteq> 0
      then do {
        p \<leftarrow> nodes s parent;
        (if old = rb_rchild p then set_rchild parent new s else set_lchild parent new s)
      }
      else Some (s\<lparr>root := new\<rparr>))"

subsection \<open>Rotations\<close>

definition rb_rotate_left :: "ptr \<Rightarrow> rbs \<Rightarrow> rbs option" where
  "rb_rotate_left node s = do {
     n \<leftarrow> nodes s node;
     let right = rb_rchild n;
     let parent = rb_parent n;
     r \<leftarrow> nodes s right;
     s \<leftarrow> set_rchild node (rb_lchild r) s;
     s \<leftarrow> adopt (rb_lchild r) node s;
     s \<leftarrow> set_lchild right node s;
     s \<leftarrow> rb_set_parent right parent s;
     s \<leftarrow> relink parent node right s;
     rb_set_parent node right s
   }"

definition rb_rotate_right :: "ptr \<Rightarrow> rbs \<Rightarrow> rbs option" where
  "rb_rotate_right node s = do {
     n \<leftarrow> nodes s node;
     let left = rb_lchild n;
     let parent = rb_parent n;
     l \<leftarrow> nodes s left;
     s \<leftarrow> set_lchild node (rb_rchild l) s;
     s \<leftarrow> adopt (rb_rchild l) node s;
     s \<leftarrow> set_rchild left node s;
     s \<leftarrow> rb_set_parent left parent s;
     s \<leftarrow> relink_r parent node left s;
     rb_set_parent node left s
   }"

subsection \<open>Rebalancing after an insertion\<close>

definition red_at :: "ptr \<Rightarrow> rbs \<Rightarrow> bool option" where
  "red_at p s = (if p = 0 then Some False else do { n \<leftarrow> nodes s p; Some (rb_is_red n) })"

text \<open>
  One round of the loop, \<open>parent\<close> being red: the left version for a \<open>parent\<close> that is the left
  child of \<open>gparent\<close>, and its mirror image. The result is the \<open>node\<close> of the next round.
\<close>

definition rb_insert_round_l :: "ptr \<Rightarrow> ptr \<Rightarrow> ptr \<Rightarrow> rbs \<Rightarrow> (ptr \<times> rbs) option" where
  "rb_insert_round_l node parent gparent s = do {
     g \<leftarrow> nodes s gparent;
     let uncle = rb_rchild g;
     ured \<leftarrow> red_at uncle s;
     if ured then do {
       s \<leftarrow> rb_set_black uncle s;
       s \<leftarrow> rb_set_black parent s;
       s \<leftarrow> rb_set_red gparent s;
       Some (gparent, s)
     }
     else do {
       p \<leftarrow> nodes s parent;
       (parent, node, s) \<leftarrow>
         (if rb_rchild p = node
          then do { s \<leftarrow> rb_rotate_left parent s; Some (node, parent, s) }
          else Some (parent, node, s));
       s \<leftarrow> rb_set_black parent s;
       s \<leftarrow> rb_set_red gparent s;
       s \<leftarrow> rb_rotate_right gparent s;
       Some (node, s)
     }
   }"

definition rb_insert_round_r :: "ptr \<Rightarrow> ptr \<Rightarrow> ptr \<Rightarrow> rbs \<Rightarrow> (ptr \<times> rbs) option" where
  "rb_insert_round_r node parent gparent s = do {
     g \<leftarrow> nodes s gparent;
     let uncle = rb_lchild g;
     ured \<leftarrow> red_at uncle s;
     if ured then do {
       s \<leftarrow> rb_set_black uncle s;
       s \<leftarrow> rb_set_black parent s;
       s \<leftarrow> rb_set_red gparent s;
       Some (gparent, s)
     }
     else do {
       p \<leftarrow> nodes s parent;
       (parent, node, s) \<leftarrow>
         (if rb_lchild p = node
          then do { s \<leftarrow> rb_rotate_right parent s; Some (node, parent, s) }
          else Some (parent, node, s));
       s \<leftarrow> rb_set_black parent s;
       s \<leftarrow> rb_set_red gparent s;
       s \<leftarrow> rb_rotate_left gparent s;
       Some (node, s)
     }
   }"

partial_function (option) rb_insert_loop :: "ptr \<Rightarrow> rbs \<Rightarrow> rbs option" where
  "rb_insert_loop node s = do {
     n \<leftarrow> nodes s node;
     let parent = rb_parent n;
     red \<leftarrow> red_at parent s;
     if \<not> red then Some s
     else do {
       p \<leftarrow> nodes s parent;
       let gparent = rb_parent p;
       g \<leftarrow> nodes s gparent;
       (node, s) \<leftarrow>
         (if parent = rb_lchild g then rb_insert_round_l node parent gparent s
          else rb_insert_round_r node parent gparent s);
       rb_insert_loop node s
     }
   }"

definition rb_insert_color :: "ptr \<Rightarrow> rbs \<Rightarrow> rbs option" where
  "rb_insert_color node s = do {
     s \<leftarrow> rb_insert_loop node s;
     rb_set_black (root s) s
   }"

subsection \<open>Rebalancing after a removal\<close>

definition black_or_null :: "ptr \<Rightarrow> rbs \<Rightarrow> bool option" where
  "black_or_null p s = (if p = 0 then Some True else do { n \<leftarrow> nodes s p; Some (rb_is_black n) })"

text \<open>
  One round of the loop for a \<open>node\<close> that is the left child of \<open>parent\<close>, in two steps (the red
  sibling, then the black one), and the mirror image of both. \<open>near\<close> and \<open>far\<close> say that the child of \<open>other\<close> on the side of \<open>node\<close>, or on
  the other side, is NULL or black. A round either climbs, with a new \<open>node\<close> and \<open>parent\<close>, or
  leaves the loop with a last \<open>node\<close>.
\<close>

datatype erase_next = Climb ptr ptr rbs | Break ptr rbs

definition rb_erase_sibling_l :: "ptr \<Rightarrow> rbs \<Rightarrow> (ptr \<times> rbs) option" where
  "rb_erase_sibling_l parent s = do {
     p \<leftarrow> nodes s parent;
     let other = rb_rchild p;
     n \<leftarrow> nodes s other;
     if rb_is_red n then do {
       s \<leftarrow> rb_set_black other s;
       s \<leftarrow> rb_set_red parent s;
       s \<leftarrow> rb_rotate_left parent s;
       p \<leftarrow> nodes s parent;
       Some (rb_rchild p, s)
     }
     else Some (other, s)
   }"

definition rb_erase_fix_l :: "ptr \<Rightarrow> ptr \<Rightarrow> rbs \<Rightarrow> erase_next option" where
  "rb_erase_fix_l parent other s = do {
     n \<leftarrow> nodes s other;
     near \<leftarrow> black_or_null (rb_lchild n) s;
     far \<leftarrow> black_or_null (rb_rchild n) s;
     if near \<and> far then do {
       s \<leftarrow> rb_set_red other s;
       p \<leftarrow> nodes s parent;
       Some (Climb parent (rb_parent p) s)
     }
     else do {
       (other, s) \<leftarrow>
         (if far then do {
            s \<leftarrow> rb_set_black (rb_lchild n) s;
            s \<leftarrow> rb_set_red other s;
            s \<leftarrow> rb_rotate_right other s;
            p \<leftarrow> nodes s parent;
            Some (rb_rchild p, s)
          }
          else Some (other, s));
       p \<leftarrow> nodes s parent;
       s \<leftarrow> rb_set_color other (rb_color p) s;
       s \<leftarrow> rb_set_black parent s;
       n \<leftarrow> nodes s other;
       s \<leftarrow> rb_set_black (rb_rchild n) s;
       s \<leftarrow> rb_rotate_left parent s;
       Some (Break (root s) s)
     }
   }"

definition rb_erase_sibling_r :: "ptr \<Rightarrow> rbs \<Rightarrow> (ptr \<times> rbs) option" where
  "rb_erase_sibling_r parent s = do {
     p \<leftarrow> nodes s parent;
     let other = rb_lchild p;
     n \<leftarrow> nodes s other;
     if rb_is_red n then do {
       s \<leftarrow> rb_set_black other s;
       s \<leftarrow> rb_set_red parent s;
       s \<leftarrow> rb_rotate_right parent s;
       p \<leftarrow> nodes s parent;
       Some (rb_lchild p, s)
     }
     else Some (other, s)
   }"

definition rb_erase_fix_r :: "ptr \<Rightarrow> ptr \<Rightarrow> rbs \<Rightarrow> erase_next option" where
  "rb_erase_fix_r parent other s = do {
     n \<leftarrow> nodes s other;
     near \<leftarrow> black_or_null (rb_rchild n) s;
     far \<leftarrow> black_or_null (rb_lchild n) s;
     if near \<and> far then do {
       s \<leftarrow> rb_set_red other s;
       p \<leftarrow> nodes s parent;
       Some (Climb parent (rb_parent p) s)
     }
     else do {
       (other, s) \<leftarrow>
         (if far then do {
            s \<leftarrow> rb_set_black (rb_rchild n) s;
            s \<leftarrow> rb_set_red other s;
            s \<leftarrow> rb_rotate_left other s;
            p \<leftarrow> nodes s parent;
            Some (rb_lchild p, s)
          }
          else Some (other, s));
       p \<leftarrow> nodes s parent;
       s \<leftarrow> rb_set_color other (rb_color p) s;
       s \<leftarrow> rb_set_black parent s;
       n \<leftarrow> nodes s other;
       s \<leftarrow> rb_set_black (rb_lchild n) s;
       s \<leftarrow> rb_rotate_right parent s;
       Some (Break (root s) s)
     }
   }"

partial_function (option) rb_erase_loop :: "ptr \<Rightarrow> ptr \<Rightarrow> rbs \<Rightarrow> (ptr \<times> rbs) option" where
  "rb_erase_loop node parent s = do {
     blk \<leftarrow> black_or_null node s;
     if \<not> (blk \<and> node \<noteq> root s) then Some (node, s)
     else do {
       p \<leftarrow> nodes s parent;
       r \<leftarrow> (if rb_lchild p = node
            then do { (other, s) \<leftarrow> rb_erase_sibling_l parent s; rb_erase_fix_l parent other s }
            else do { (other, s) \<leftarrow> rb_erase_sibling_r parent s; rb_erase_fix_r parent other s });
       (case r of
          Climb node parent s \<Rightarrow> rb_erase_loop node parent s
        | Break node s \<Rightarrow> Some (node, s))
     }
   }"

definition rb_erase_color :: "ptr \<Rightarrow> ptr \<Rightarrow> rbs \<Rightarrow> rbs option" where
  "rb_erase_color node parent s = do {
     (node, s) \<leftarrow> rb_erase_loop node parent s;
     (if node \<noteq> 0 then rb_set_black node s else Some s)
   }"

subsection \<open>Removal\<close>

text \<open>The loops that walk down one spine of the tree.\<close>

partial_function (option) leftmost :: "ptr \<Rightarrow> rbs \<Rightarrow> ptr option" where
  "leftmost p s = do {
     n \<leftarrow> nodes s p;
     (if rb_lchild n \<noteq> 0 then leftmost (rb_lchild n) s else Some p)
   }"

partial_function (option) rightmost :: "ptr \<Rightarrow> rbs \<Rightarrow> ptr option" where
  "rightmost p s = do {
     n \<leftarrow> nodes s p;
     (if rb_rchild n \<noteq> 0 then rightmost (rb_rchild n) s else Some p)
   }"

text \<open>The first part of \<open>rb_erase\<close>: unlinking. The result is \<open>child\<close>, \<open>parent\<close> and
  \<open>color\<close> at the label \<open>color:\<close>.\<close>

definition rb_unlink_two :: "ptr \<Rightarrow> rbs \<Rightarrow> (ptr \<times> ptr \<times> 64 word \<times> rbs) option" where
  "rb_unlink_two old s = do {
     d \<leftarrow> nodes s old;
     node \<leftarrow> leftmost (rb_rchild d) s;
     s \<leftarrow> relink (rb_parent d) old node s;
     n \<leftarrow> nodes s node;
     let child = rb_rchild n;
     let parent = rb_parent n;
     let color = rb_color n;
     (parent, s) \<leftarrow>
       (if parent = old then Some (node, s)
        else do {
          s \<leftarrow> adopt child parent s;
          s \<leftarrow> set_lchild parent child s;
          s \<leftarrow> set_rchild node (rb_rchild d) s;
          s \<leftarrow> rb_set_parent (rb_rchild d) node s;
          Some (parent, s)
        });
     s \<leftarrow> upd node (\<lambda>n. n\<lparr>rb_parent_color := rb_parent_color d, rb_lchild := rb_lchild d\<rparr>) s;
     s \<leftarrow> rb_set_parent (rb_lchild d) node s;
     Some (child, parent, color, s)
   }"

definition rb_unlink_one :: "ptr \<Rightarrow> ptr \<Rightarrow> rbs \<Rightarrow> (ptr \<times> ptr \<times> 64 word \<times> rbs) option" where
  "rb_unlink_one node child s = do {
     n \<leftarrow> nodes s node;
     let parent = rb_parent n;
     let color = rb_color n;
     s \<leftarrow> adopt child parent s;
     s \<leftarrow> relink parent node child s;
     Some (child, parent, color, s)
   }"

definition rb_erase :: "ptr \<Rightarrow> rbs \<Rightarrow> rbs option" where
  "rb_erase node s = do {
     n \<leftarrow> nodes s node;
     (child, parent, color, s) \<leftarrow>
       (if rb_lchild n = 0 then rb_unlink_one node (rb_rchild n) s
        else if rb_rchild n = 0 then rb_unlink_one node (rb_lchild n) s
        else rb_unlink_two node s);
     (if color = RB_BLACK then rb_erase_color child parent s else Some s)
   }"

subsection \<open>Traversal and replacement\<close>

definition rb_first :: "rbs \<Rightarrow> ptr option" where
  "rb_first s = (if root s = 0 then Some 0 else leftmost (root s) s)"

definition rb_last :: "rbs \<Rightarrow> ptr option" where
  "rb_last s = (if root s = 0 then Some 0 else rightmost (root s) s)"

partial_function (option) climb_right :: "ptr \<Rightarrow> rbs \<Rightarrow> ptr option" where
  "climb_right node s = do {
     n \<leftarrow> nodes s node;
     let parent = rb_parent n;
     if parent = 0 then Some 0
     else do {
       p \<leftarrow> nodes s parent;
       (if node = rb_rchild p then climb_right parent s else Some parent)
     }
   }"

partial_function (option) climb_left :: "ptr \<Rightarrow> rbs \<Rightarrow> ptr option" where
  "climb_left node s = do {
     n \<leftarrow> nodes s node;
     let parent = rb_parent n;
     if parent = 0 then Some 0
     else do {
       p \<leftarrow> nodes s parent;
       (if node = rb_lchild p then climb_left parent s else Some parent)
     }
   }"

definition rb_next :: "ptr \<Rightarrow> rbs \<Rightarrow> ptr option" where
  "rb_next node s = do {
     n \<leftarrow> nodes s node;
     if rb_parent n = node then Some 0
     else if rb_rchild n \<noteq> 0 then leftmost (rb_rchild n) s
     else climb_right node s
   }"

definition rb_prev :: "ptr \<Rightarrow> rbs \<Rightarrow> ptr option" where
  "rb_prev node s = do {
     n \<leftarrow> nodes s node;
     if rb_parent n = node then Some 0
     else if rb_lchild n \<noteq> 0 then rightmost (rb_lchild n) s
     else climb_left node s
   }"

definition rb_replace_node :: "ptr \<Rightarrow> ptr \<Rightarrow> rbs \<Rightarrow> rbs option" where
  "rb_replace_node victim new s = do {
     v \<leftarrow> nodes s victim;
     s \<leftarrow> relink (rb_parent v) victim new s;
     s \<leftarrow> adopt (rb_lchild v) new s;
     s \<leftarrow> adopt (rb_rchild v) new s;
     v \<leftarrow> nodes s victim;
     upd new (\<lambda>_. v) s
   }"

subsection \<open>The packed word\<close>

text \<open>
  A pointer to a node is a multiple of four (the structure is aligned to \<open>sizeof (long)\<close>), which
  is what makes packing the colour into it sound.
\<close>

definition aligned :: "ptr \<Rightarrow> bool" where
  "aligned p \<longleftrightarrow> p AND 3 = 0"

lemma aligned_0 [simp]: "aligned 0"
  by (simp add: aligned_def)

lemma bit_3: "bit (3 :: int) n \<longleftrightarrow> n < 2"
proof -
  have "(3 :: int) = mask 2"
    by (simp add: mask_eq_exp_minus_1)
  then show ?thesis
    by (simp only: bit_mask_iff) simp
qed

lemma aligned_bit: "aligned p \<Longrightarrow> n < 2 \<Longrightarrow> \<not> bit p n"
proof
  assume "aligned p" "n < 2" "bit p n"
  then have "bit (p AND 3) n"
    by (auto simp: bit_simps bit_3 dest: bit_imp_le_length)
  then show False
    using \<open>aligned p\<close> by (simp add: aligned_def)
qed

lemma bit_color: "c = 0 \<or> c = (1 :: 64 word) \<Longrightarrow> bit c n \<Longrightarrow> n = 0"
  by (auto simp: bit_simps)

lemma rb_parent_set_parent [pack_simps]:
  assumes "aligned p" shows "rb_parent (set_parent p n) = p"
  unfolding rb_parent_def set_parent_def
  by (rule bit_word_eqI) (use aligned_bit [OF assms] in \<open>auto simp: bit_simps bit_3\<close>)

lemma rb_color_set_parent [pack_simps]:
  assumes "aligned p" shows "rb_color (set_parent p n) = rb_color n"
  unfolding rb_color_def set_parent_def
  by (rule bit_word_eqI) (use aligned_bit [OF assms] in \<open>auto simp: bit_simps bit_3\<close>)

lemma rb_parent_set_red [pack_simps]: "rb_parent (set_red n) = rb_parent n"
  unfolding rb_parent_def set_red_def by (rule bit_word_eqI) (auto simp: bit_simps bit_3)

lemma rb_color_set_red [pack_simps]: "rb_color (set_red n) = RB_RED"
  unfolding rb_color_def set_red_def by (rule bit_word_eqI) (auto simp: bit_simps)

lemma rb_parent_set_black [pack_simps]: "rb_parent (set_black n) = rb_parent n"
  unfolding rb_parent_def set_black_def by (rule bit_word_eqI) (auto simp: bit_simps bit_3)

lemma rb_color_set_black [pack_simps]: "rb_color (set_black n) = RB_BLACK"
  unfolding rb_color_def set_black_def by (rule bit_word_eqI) (auto simp: bit_simps)

lemma rb_parent_set_color [pack_simps]:
  "c = RB_RED \<or> c = RB_BLACK \<Longrightarrow> rb_parent (set_color c n) = rb_parent n"
  unfolding rb_parent_def set_color_def by (rule bit_word_eqI) (auto simp: bit_simps bit_3)

lemma rb_color_set_color [pack_simps]:
  "c = RB_RED \<or> c = RB_BLACK \<Longrightarrow> rb_color (set_color c n) = c"
  unfolding rb_color_def set_color_def by (rule bit_word_eqI) (auto simp: bit_simps)

lemma rb_color_cases: "rb_color n = RB_RED \<or> rb_color n = RB_BLACK"
proof -
  have "rb_color n = take_bit 1 (rb_parent_color n)"
    by (simp add: rb_color_def take_bit_eq_mask mask_eq_exp_minus_1)
  then show ?thesis
    by (simp add: take_bit_Suc mod_2_eq_odd)
qed

lemma set_children [pack_simps]:
  "rb_lchild (set_parent p n) = rb_lchild n" "rb_rchild (set_parent p n) = rb_rchild n"
  "rb_lchild (set_red n) = rb_lchild n" "rb_rchild (set_red n) = rb_rchild n"
  "rb_lchild (set_black n) = rb_lchild n" "rb_rchild (set_black n) = rb_rchild n"
  "rb_lchild (set_color c n) = rb_lchild n" "rb_rchild (set_color c n) = rb_rchild n"
  by (simp_all add: set_parent_def set_red_def set_black_def set_color_def)

lemma child_updates [pack_simps]:
  "rb_parent (n\<lparr>rb_lchild := q\<rparr>) = rb_parent n" "rb_color (n\<lparr>rb_lchild := q\<rparr>) = rb_color n"
  "rb_parent (n\<lparr>rb_rchild := q\<rparr>) = rb_parent n" "rb_color (n\<lparr>rb_rchild := q\<rparr>) = rb_color n"
  by (simp_all add: rb_parent_def rb_color_def)

lemma fresh_leaf [pack_simps]:
  assumes "aligned p"
  shows "rb_parent (n\<lparr>rb_parent_color := p, rb_lchild := l, rb_rchild := r\<rparr>) = p"
    and "rb_color (n\<lparr>rb_parent_color := p, rb_lchild := l, rb_rchild := r\<rparr>) = RB_RED"
proof -
  have "p AND NOT 3 = p"
    by (rule bit_word_eqI) (use aligned_bit [OF assms] in \<open>auto simp: bit_simps bit_3\<close>)
  moreover have "p AND 1 = 0"
    by (rule bit_word_eqI) (use aligned_bit [OF assms, of 0] in \<open>auto simp: bit_simps intro!: gr0I\<close>)
  ultimately show "rb_parent (n\<lparr>rb_parent_color := p, rb_lchild := l, rb_rchild := r\<rparr>) = p"
    and "rb_color (n\<lparr>rb_parent_color := p, rb_lchild := l, rb_rchild := r\<rparr>) = RB_RED"
    by (simp_all add: rb_parent_def rb_color_def)
qed

lemma copied_color [pack_simps]:
  "rb_parent (n\<lparr>rb_parent_color := rb_parent_color d, rb_lchild := l\<rparr>) = rb_parent d"
  "rb_color (n\<lparr>rb_parent_color := rb_parent_color d, rb_lchild := l\<rparr>) = rb_color d"
  by (simp_all add: rb_parent_def rb_color_def)

end
