(* ===== verification/Pbuf.thy ===== *)
theory Pbuf
  imports Ptrtd_Prelude
begin

text \<open>
  Packet buffers (\<^verbatim>\<open>src/pbuf.c\<close>). A \<open>pbuf\<close> is one allocation of \<open>size\<close> bytes; the packet
  starts at \<open>offset\<close> (the pointer \<open>d\<close> of the code is \<open>buf + offset\<close>), \<open>max\<close> bytes are
  left from there to the end and \<open>dlen\<close> of them are packet. Headers are stripped with
  \<open>pbuf_drop\<close> and put back with \<open>pbuf_raise\<close>. The link fields \<open>next\<close> and \<open>prev\<close> only serve
  the queue of packets that wait for a neighbour, which is a list in the model.
\<close>

record pbuf =
  pb_size :: int
  pb_max :: int
  pb_offset :: int
  pb_dlen :: int
  pb_buf :: "byte list"

definition pbuf_new :: "int \<Rightarrow> pbuf" where
  "pbuf_new n =
     \<lparr>pb_size = n, pb_max = n, pb_offset = 0, pb_dlen = 0, pb_buf = replicate (nat n) 0\<rparr>"

definition pbuf_drop :: "pbuf \<Rightarrow> int \<Rightarrow> int \<times> pbuf" where
  "pbuf_drop pb len =
     (if pb_max pb < len then (- 1, pb)
      else let pb = pb\<lparr>pb_max := pb_max pb - len, pb_offset := pb_offset pb + len,
                       pb_dlen := pb_dlen pb - len\<rparr>
           in (pb_max pb, pb))"

definition pbuf_raise :: "pbuf \<Rightarrow> int \<Rightarrow> int \<times> pbuf" where
  "pbuf_raise pb len =
     (if pb_offset pb < len then (- 1, pb)
      else let pb = pb\<lparr>pb_max := pb_max pb + len, pb_offset := pb_offset pb - len,
                       pb_dlen := pb_dlen pb + len\<rparr>
           in (pb_max pb, pb))"

text \<open>The memory reachable from the pointer \<open>d\<close>, and writing it back.\<close>

definition pb_d :: "pbuf \<Rightarrow> byte list" where
  "pb_d pb = drop (nat (pb_offset pb)) (pb_buf pb)"

definition pb_set :: "pbuf \<Rightarrow> byte list \<Rightarrow> pbuf" where
  "pb_set pb m = pb\<lparr>pb_buf := take (nat (pb_offset pb)) (pb_buf pb) @ m\<rparr>"

subsection \<open>Invariant\<close>

definition pbuf_ok :: "pbuf \<Rightarrow> bool" where
  "pbuf_ok pb \<longleftrightarrow>
     0 \<le> pb_offset pb \<and> 0 \<le> pb_max pb \<and> pb_offset pb + pb_max pb = pb_size pb \<and>
     int (length (pb_buf pb)) = pb_size pb \<and> pb_dlen pb \<le> pb_max pb"

text \<open>The packet itself.\<close>

definition packet :: "pbuf \<Rightarrow> byte list" where
  "packet pb = take (nat (pb_dlen pb)) (pb_d pb)"

lemma pbuf_new_ok: "0 \<le> n \<Longrightarrow> pbuf_ok (pbuf_new n)"
  by (simp add: pbuf_ok_def pbuf_new_def)

lemma length_pb_d: "pbuf_ok pb \<Longrightarrow> int (length (pb_d pb)) = pb_max pb"
  by (auto simp: pbuf_ok_def pb_d_def)

lemma pbuf_drop_ok: "pbuf_ok pb \<Longrightarrow> 0 \<le> len \<Longrightarrow> pbuf_ok (snd (pbuf_drop pb len))"
  by (auto simp: pbuf_ok_def pbuf_drop_def Let_def)

lemma pbuf_raise_ok: "pbuf_ok pb \<Longrightarrow> 0 \<le> len \<Longrightarrow> pbuf_ok (snd (pbuf_raise pb len))"
  by (auto simp: pbuf_ok_def pbuf_raise_def Let_def)

lemma pb_set_ok:
  assumes "pbuf_ok pb" and "length m = length (pb_d pb)"
  shows "pbuf_ok (pb_set pb m)" "pb_d (pb_set pb m) = m" "pb_dlen (pb_set pb m) = pb_dlen pb"
    "pb_max (pb_set pb m) = pb_max pb" "pb_offset (pb_set pb m) = pb_offset pb"
  using assms by (auto simp: pbuf_ok_def pb_set_def pb_d_def)

lemma pbuf_drop_d: "pbuf_ok pb \<Longrightarrow> 0 \<le> len \<Longrightarrow> len \<le> pb_max pb \<Longrightarrow>
    pb_d (snd (pbuf_drop pb len)) = drop (nat len) (pb_d pb)"
  by (simp add: pbuf_drop_def pb_d_def Let_def pbuf_ok_def nat_add_distrib add.commute)

lemma packet_drop:
  assumes "pbuf_ok pb" "0 \<le> len" "len \<le> pb_max pb"
  shows "packet (snd (pbuf_drop pb len)) = drop (nat len) (packet pb)"
proof -
  have "packet (snd (pbuf_drop pb len)) = take (nat (pb_dlen pb - len)) (drop (nat len) (pb_d pb))"
    using assms by (simp add: packet_def pbuf_drop_d) (simp add: pbuf_drop_def Let_def)
  also have "\<dots> = drop (nat len) (packet pb)"
    using assms(2) by (cases "len \<le> pb_dlen pb") (simp_all add: packet_def drop_take nat_diff_distrib)
  finally show ?thesis .
qed

subsection \<open>Properties\<close>

text \<open>
  Stripping \<open>len\<close> bytes of header from a packet buffer and putting them back restores it
  exactly, contents included; in between, the packet is the old one without its first \<open>len\<close>
  bytes, and the buffer stays well formed. A request for more than the buffer holds is refused with
  \<open>- 1\<close> and changes nothing.
\<close>

theorem pbuf_drop_raise:
  assumes "pbuf_ok pb" and "0 \<le> len"
  shows "(if len \<le> pb_max pb
     then pbuf_ok (snd (pbuf_drop pb len)) \<and> packet (snd (pbuf_drop pb len)) = drop (nat len) (packet pb) \<and>
       fst (pbuf_drop pb len) = pb_max pb - len \<and> snd (pbuf_raise (snd (pbuf_drop pb len)) len) = pb
     else pbuf_drop pb len = (- 1, pb))"
proof (cases "len \<le> pb_max pb")
  case True
  then show ?thesis
    using assms pbuf_drop_ok [OF assms] packet_drop [OF assms]
    by (simp add: pbuf_drop_def pbuf_raise_def Let_def pbuf_ok_def)
qed (simp add: pbuf_drop_def)

theorem pbuf_drop_raise_witness:
  "snd (pbuf_raise (snd (pbuf_drop (pbuf_new 20) 14)) 14) = pbuf_new 20 \<and>
     pbuf_drop (pbuf_new 20) 21 = (- 1, pbuf_new 20)"
proof -
  have "pb_max (pbuf_new 20) = 20"
    by (simp add: pbuf_new_def)
  then show ?thesis
    using pbuf_drop_raise [OF pbuf_new_ok, of 20 14] pbuf_drop_raise [OF pbuf_new_ok, of 20 21] by simp
qed

end
