(* ===== verification/Event.thy ===== *)
theory Event
  imports Ptrtd_Prelude "HOL-Library.Signed_Division"
begin

text \<open>
  The event queue of \<^verbatim>\<open>src/event.c\<close>: three doubly linked lists of events (timers in order of
  time, file descriptors, and events run on every round of the loop), at the level of pointers. An
  event address is a natural number, 0 being NULL; \<open>ALLOC\<close> returns \<open>ev_fresh\<close>, which is sound
  because the code never frees an event. The callback with its data pointer is the parameter
  \<open>'cb\<close> of the types; the state is an extensible record, so the rest of the daemon's state is its
  \<open>more\<close> part.

  The theory gives the operations, the representation predicate that ties the three lists of
  pointers to lists of events, and the effect of every operation on those. The loop itself is in
  \<^verbatim>\<open>Event_Loop\<close>.
\<close>

subsection \<open>Time\<close>

record timeval =
  tv_sec :: int
  tv_usec :: int

text \<open>Conversion of a \<open>long\<close> to \<open>int\<close>.\<close>

definition int32 :: "int \<Rightarrow> int" where
  "int32 x = sint (word_of_int x :: 32 word)"

definition time_diff :: "timeval \<Rightarrow> timeval \<Rightarrow> int" where
  "time_diff tr_start tr_end =
     int32 (((tv_sec tr_end - tv_sec tr_start) * 1000000 + tv_usec tr_end - tv_usec tr_start + 500) sdiv 1000)"

text \<open>\<open>now\<close> is what \<open>gettimeofday\<close> returns.\<close>

definition time_ago :: "timeval \<Rightarrow> timeval \<Rightarrow> int" where
  "time_ago now tr = time_diff tr now"

definition time_add :: "timeval \<Rightarrow> int \<Rightarrow> timeval" where
  "time_add tr msec =
     \<lparr>tv_sec = tv_sec tr + msec sdiv 1000, tv_usec = tv_usec tr + (msec smod 1000) * 1000\<rparr>"

definition time_future :: "timeval \<Rightarrow> int \<Rightarrow> timeval" where
  "time_future now msec = time_add now msec"

subsection \<open>Events\<close>

type_synonym eptr = nat

abbreviation (input) EVENT_TIME :: int where "EVENT_TIME \<equiv> 1"
abbreviation (input) EVENT_FD :: int where "EVENT_FD \<equiv> 2"
abbreviation (input) EVENT_ALWAYS :: int where "EVENT_ALWAYS \<equiv> 3"

text \<open>The union \<open>ev\<close>; \<open>Ev_unset\<close> is an event whose union has not been written.\<close>

datatype ev_union = Ev_unset | Ev_time timeval | Ev_fd int int

record 'cb event =
  ev_prev :: eptr
  ev_next :: eptr
  ev_func :: 'cb
  ev_type :: int
  ev_remove :: int
  ev_ev :: ev_union

record 'cb evs =
  ev_heap :: "eptr \<rightharpoonup> 'cb event"
  ev_fresh :: eptr
  time_event_list :: eptr
  fd_event_list :: eptr
  always_event_list :: eptr

definition ev_upd :: "eptr \<Rightarrow> ('cb event \<Rightarrow> 'cb event) \<Rightarrow> ('cb, 'm) evs_scheme \<Rightarrow> ('cb, 'm) evs_scheme option" where
  "ev_upd p f s = do { e \<leftarrow> ev_heap s p; Some (s\<lparr>ev_heap := (ev_heap s)(p \<mapsto> f e)\<rparr>) }"

definition event_time :: "eptr \<Rightarrow> ('cb, 'm) evs_scheme \<Rightarrow> timeval option" where
  "event_time p s = do { e \<leftarrow> ev_heap s p; (case ev_ev e of Ev_time t \<Rightarrow> Some t | _ \<Rightarrow> None) }"

definition new_event :: "'cb \<Rightarrow> ('cb, 'm) evs_scheme \<Rightarrow> eptr \<times> ('cb, 'm) evs_scheme" where
  "new_event f s =
     (let e = ev_fresh s
      in (e, s\<lparr>ev_fresh := e + 1,
               ev_heap := (ev_heap s)(e \<mapsto> \<lparr>ev_prev = 0, ev_next = 0, ev_func = f, ev_type = 0,
                                            ev_remove = 0, ev_ev = Ev_unset\<rparr>)\<rparr>))"

definition del_event :: "eptr \<Rightarrow> eptr \<Rightarrow> ('cb, 'm) evs_scheme \<Rightarrow> (eptr \<times> ('cb, 'm) evs_scheme) option" where
  "del_event e list s = do {
     ev \<leftarrow> ev_heap s e;
     s \<leftarrow> (if ev_next ev \<noteq> 0 then ev_upd (ev_next ev) (\<lambda>n. n\<lparr>ev_prev := ev_prev ev\<rparr>) s else Some s);
     ev \<leftarrow> ev_heap s e;
     s \<leftarrow> (if ev_prev ev \<noteq> 0 then ev_upd (ev_prev ev) (\<lambda>p. p\<lparr>ev_next := ev_next ev\<rparr>) s else Some s);
     ev \<leftarrow> ev_heap s e;
     Some (if e = list then ev_next ev else list, s)
   }"

text \<open>The loop of \<open>resched_time_event\<close> that looks for the place of \<open>e\<close>.\<close>

partial_function (option) resched_from ::
    "eptr \<Rightarrow> eptr \<Rightarrow> ('cb, 'm) evs_scheme \<Rightarrow> ('cb, 'm) evs_scheme option" where
  "resched_from e t s =
     (if t = 0 then Some s
      else do {
        et \<leftarrow> event_time e s;
        tt \<leftarrow> event_time t s;
        te \<leftarrow> ev_heap s t;
        if time_diff et tt > 0 then do {
          s \<leftarrow> ev_upd e (\<lambda>ev. ev\<lparr>ev_next := t, ev_prev := ev_prev te\<rparr>) s;
          s \<leftarrow> ev_upd t (\<lambda>ev. ev\<lparr>ev_prev := e\<rparr>) s;
          (if ev_prev te \<noteq> 0 then ev_upd (ev_prev te) (\<lambda>ev. ev\<lparr>ev_next := e\<rparr>) s
           else Some (s\<lparr>time_event_list := e\<rparr>))
        }
        else if ev_next te = 0 then do {
          s \<leftarrow> ev_upd e (\<lambda>ev. ev\<lparr>ev_next := 0, ev_prev := t\<rparr>) s;
          ev_upd t (\<lambda>ev. ev\<lparr>ev_next := e\<rparr>) s
        }
        else resched_from e (ev_next te) s
      })"

definition resched_time_event :: "eptr \<Rightarrow> timeval \<Rightarrow> ('cb, 'm) evs_scheme \<Rightarrow> ('cb, 'm) evs_scheme option" where
  "resched_time_event e tr s = do {
     s \<leftarrow> ev_upd e (\<lambda>ev. ev\<lparr>ev_ev := Ev_time tr, ev_remove := 0\<rparr>) s;
     (l, s) \<leftarrow> del_event e (time_event_list s) s;
     let s = s\<lparr>time_event_list := l\<rparr>;
     (if l = 0 then Some (s\<lparr>time_event_list := e\<rparr>) else resched_from e l s)
   }"

definition add_time_event :: "timeval \<Rightarrow> 'cb \<Rightarrow> ('cb, 'm) evs_scheme \<Rightarrow> (eptr \<times> ('cb, 'm) evs_scheme) option" where
  "add_time_event t f s = do {
     let (e, s) = new_event f s;
     s \<leftarrow> ev_upd e (\<lambda>ev. ev\<lparr>ev_type := EVENT_TIME\<rparr>) s;
     s \<leftarrow> resched_time_event e t s;
     Some (e, s)
   }"

definition add_fd_event :: "int \<Rightarrow> int \<Rightarrow> 'cb \<Rightarrow> ('cb, 'm) evs_scheme \<Rightarrow> (eptr \<times> ('cb, 'm) evs_scheme) option" where
  "add_fd_event fd wr f s = do {
     let (e, s) = new_event f s;
     let nx = fd_event_list s;
     s \<leftarrow> ev_upd e (\<lambda>ev. ev\<lparr>ev_type := EVENT_FD, ev_ev := Ev_fd fd wr, ev_next := nx\<rparr>) s;
     s \<leftarrow> (if nx \<noteq> 0 then ev_upd nx (\<lambda>ev. ev\<lparr>ev_prev := e\<rparr>) s else Some s);
     Some (e, s\<lparr>fd_event_list := e\<rparr>)
   }"

definition add_always_event :: "'cb \<Rightarrow> ('cb, 'm) evs_scheme \<Rightarrow> (eptr \<times> ('cb, 'm) evs_scheme) option" where
  "add_always_event f s = do {
     let (e, s) = new_event f s;
     let nx = always_event_list s;
     s \<leftarrow> ev_upd e (\<lambda>ev. ev\<lparr>ev_type := EVENT_ALWAYS, ev_next := nx\<rparr>) s;
     s \<leftarrow> (if nx \<noteq> 0 then ev_upd nx (\<lambda>ev. ev\<lparr>ev_prev := e\<rparr>) s else Some s);
     Some (e, s\<lparr>always_event_list := e\<rparr>)
   }"

definition remove_event :: "eptr \<Rightarrow> ('cb, 'm) evs_scheme \<Rightarrow> ('cb, 'm) evs_scheme option" where
  "remove_event e s = do {
     ev \<leftarrow> ev_heap s e;
     if ev_type ev = EVENT_TIME
     then do { (l, s) \<leftarrow> del_event e (time_event_list s) s; Some (s\<lparr>time_event_list := l\<rparr>) }
     else if ev_type ev = EVENT_FD
     then do { (l, s) \<leftarrow> del_event e (fd_event_list s) s; Some (s\<lparr>fd_event_list := l\<rparr>) }
     else if ev_type ev = EVENT_ALWAYS
     then do { (l, s) \<leftarrow> del_event e (always_event_list s) s; Some (s\<lparr>always_event_list := l\<rparr>) }
     else Some s
   }"

subsection \<open>Linked segments\<close>

text \<open>
  \<open>dseg h pv p xs q\<close>: from \<open>p\<close> the \<open>next\<close> pointers run through \<open>xs\<close> to \<open>q\<close>, and every
  \<open>prev\<close> pointer names the node before, the first one \<open>pv\<close>.
\<close>

fun dseg :: "(eptr \<rightharpoonup> 'cb event) \<Rightarrow> eptr \<Rightarrow> eptr \<Rightarrow> eptr list \<Rightarrow> eptr \<Rightarrow> bool" where
  "dseg h pv p [] q \<longleftrightarrow> p = q"
| "dseg h pv p (x # xs) q \<longleftrightarrow>
     p = x \<and> x \<noteq> 0 \<and> (case h x of None \<Rightarrow> False | Some e \<Rightarrow> ev_prev e = pv \<and> dseg h x (ev_next e) xs q)"

declare fun_upd_apply [simp del]
declare fun_upd_same [simp] fun_upd_other [simp]

lemma dseg_append:
  "dseg h pv p (xs @ ys) q \<longleftrightarrow> (\<exists>m. dseg h pv p xs m \<and> dseg h (last (pv # xs)) m ys q)"
  by (induction xs arbitrary: pv p) (auto split: option.splits)

lemma dseg_upd: "a \<notin> set xs \<Longrightarrow> dseg (h(a := v)) pv p xs q = dseg h pv p xs q"
  by (induction xs arbitrary: pv p) (auto cong: option.case_cong)

lemma dseg_cong: "(\<And>x. x \<in> set xs \<Longrightarrow> h x = h' x) \<Longrightarrow> dseg h pv p xs q = dseg h' pv p xs q"
  by (induction xs arbitrary: pv p) (auto cong: option.case_cong)

lemma dseg_mem: "dseg h pv p xs q \<Longrightarrow> x \<in> set xs \<Longrightarrow> x \<noteq> 0 \<and> (\<exists>e. h x = Some e)"
  by (induction xs arbitrary: pv p) (auto split: option.splits)

lemma dseg_hd: "dseg h pv p (x # xs) q \<Longrightarrow> p = x \<and> x \<noteq> 0"
  by simp

text \<open>Redirecting the back pointer at the front, and the forward pointer at the end.\<close>

lemma dseg_set_prev:
  assumes "dseg h pv p (x # xs) q" "distinct (x # xs)" "h x = Some e"
  shows "dseg (h(x \<mapsto> e\<lparr>ev_prev := pv'\<rparr>)) pv' p (x # xs) q"
  using assms by (simp add: dseg_upd)

lemma dseg_set_next:
  assumes "dseg h pv p xs q" "xs \<noteq> []" "distinct xs" "h (last xs) = Some e"
  shows "dseg (h(last xs \<mapsto> e\<lparr>ev_next := q'\<rparr>)) pv p xs q'"
  using assms
proof (induction xs arbitrary: pv p)
  case (Cons x xs)
  show ?case
  proof (cases "xs = []")
    case True
    then show ?thesis
      using Cons.prems by simp
  next
    case False
    then have "last xs \<in> set xs" "x \<noteq> last xs"
      using Cons.prems(3) by (auto intro: last_in_set)
    then show ?thesis
      using Cons False by (auto split: option.splits)
  qed
qed simp

definition head :: "eptr list \<Rightarrow> eptr" where
  "head xs = (case xs of [] \<Rightarrow> 0 | x # _ \<Rightarrow> x)"

lemma head_simps [simp]: "head [] = 0" "head (x # xs) = x"
  by (simp_all add: head_def)

lemma head_append: "head (xs @ ys) = (if xs = [] then head ys else head xs)"
  by (cases xs) auto

lemma dseg_head: "dseg h pv p xs q \<Longrightarrow> p = (if xs = [] then q else head xs)"
  by (cases xs) auto

lemma dseg_0_head: "dseg h pv p xs 0 \<Longrightarrow> p = head xs"
  by (cases xs) auto

lemma last_0_iff: "dseg h pv p xs q \<Longrightarrow> last (0 # xs) = 0 \<longleftrightarrow> xs = []"
  using dseg_mem [of h pv p xs q "last xs"] by auto

text \<open>What an event carries besides its links, and heaps that differ in links only.\<close>

definition payload :: "'cb event \<Rightarrow> 'cb \<times> int \<times> int \<times> ev_union" where
  "payload e = (ev_func e, ev_type e, ev_remove e, ev_ev e)"

definition relinked :: "(eptr \<rightharpoonup> 'cb event) \<Rightarrow> (eptr \<rightharpoonup> 'cb event) \<Rightarrow> eptr set \<Rightarrow> bool" where
  "relinked h h' A \<longleftrightarrow>
     (\<forall>x. map_option payload (h' x) = map_option payload (h x)) \<and> (\<forall>x. x \<notin> A \<longrightarrow> h' x = h x)"

lemma relinked_refl: "relinked h h A"
  by (simp add: relinked_def)

lemma relinked_trans: "relinked h h1 A \<Longrightarrow> relinked h1 h2 B \<Longrightarrow> relinked h h2 (A \<union> B)"
  by (simp add: relinked_def)

lemma relinked_mono: "relinked h h' A \<Longrightarrow> A \<subseteq> B \<Longrightarrow> relinked h h' B"
  by (auto simp: relinked_def)

lemma relinked_one:
  assumes "h x = Some e" "payload e' = payload e"
  shows "relinked h (h(x \<mapsto> e')) {x}"
  using assms by (auto simp: relinked_def fun_upd_apply)

lemma payload_links [simp]:
  "payload (e\<lparr>ev_next := n\<rparr>) = payload e" "payload (e\<lparr>ev_prev := n\<rparr>) = payload e"
  "payload (e\<lparr>ev_prev := m, ev_next := n\<rparr>) = payload e"
  by (simp_all add: payload_def)

lemma relinked_payload:
  assumes "relinked h h' A" "h x = Some e"
  obtains e' where "h' x = Some e'" "payload e' = payload e"
  using assms unfolding relinked_def by (metis map_option_eq_Some)

lemma ev_upd_Some: "ev_heap s p = Some e \<Longrightarrow> ev_upd p f s = Some (s\<lparr>ev_heap := (ev_heap s)(p \<mapsto> f e)\<rparr>)"
  by (simp add: ev_upd_def)

subsection \<open>Unlinking\<close>

lemma del_event_ok:
  assumes l: "dseg (ev_heap s) 0 p (us @ e # vs) 0" and d: "distinct (us @ e # vs)"
  shows "\<exists>h'. del_event e p s = Some (head (us @ vs), s\<lparr>ev_heap := h'\<rparr>) \<and>
    dseg h' 0 (head (us @ vs)) (us @ vs) 0 \<and> relinked (ev_heap s) h' (set us \<union> set vs)"
proof -
  let ?h = "ev_heap s"
  obtain ev where us: "dseg ?h 0 p us e" and ev: "?h e = Some ev" "ev_prev ev = last (0 # us)"
      and vs: "dseg ?h e (ev_next ev) vs 0" and e: "e \<noteq> 0"
    using l by (auto simp: dseg_append split: option.splits)
  have nx: "ev_next ev = head vs"
    using dseg_0_head [OF vs] .
  obtain h1 where h1: "(if ev_next ev \<noteq> 0 then ev_upd (ev_next ev) (\<lambda>n. n\<lparr>ev_prev := ev_prev ev\<rparr>) s else Some s)
        = Some (s\<lparr>ev_heap := h1\<rparr>)"
      and vs1: "dseg h1 (ev_prev ev) (ev_next ev) vs 0" and r1: "relinked ?h h1 (set vs)"
  proof (cases vs)
    case Nil
    then show ?thesis
      using that [of ?h] nx by (simp add: relinked_refl)
  next
    case (Cons v ws)
    then obtain w where w: "?h v = Some w" "v \<noteq> 0"
      using vs by (auto split: option.splits)
    have "dseg (?h(v \<mapsto> w\<lparr>ev_prev := ev_prev ev\<rparr>)) (ev_prev ev) (ev_next ev) vs 0"
      unfolding Cons by (rule dseg_set_prev [OF vs [unfolded Cons] _ w(1)]) (use d Cons in auto)
    moreover have "relinked ?h (?h(v \<mapsto> w\<lparr>ev_prev := ev_prev ev\<rparr>)) (set vs)"
      using relinked_mono [OF relinked_one [of ?h v w], of "w\<lparr>ev_prev := ev_prev ev\<rparr>" "set vs"] w(1) Cons by auto
    ultimately show ?thesis
      using that nx w Cons by (simp add: ev_upd_Some)
  qed
  have ev1: "h1 e = Some ev"
    using r1 d ev(1) by (simp add: relinked_def)
  have "dseg h1 0 p us e = dseg ?h 0 p us e"
    by (rule dseg_cong) (use r1 d in \<open>auto simp: relinked_def\<close>)
  then have us1: "dseg h1 0 p us e"
    using us by simp
  obtain h2 where h2: "(if ev_prev ev \<noteq> 0 then ev_upd (ev_prev ev) (\<lambda>p. p\<lparr>ev_next := ev_next ev\<rparr>) (s\<lparr>ev_heap := h1\<rparr>)
        else Some (s\<lparr>ev_heap := h1\<rparr>)) = Some (s\<lparr>ev_heap := h2\<rparr>)"
      and us2: "dseg h2 0 (head (us @ vs)) us (ev_next ev)" and r2: "relinked h1 h2 (set us)"
  proof (cases "us = []")
    case True
    then show ?thesis
      using that [of h1] ev(2) nx by (simp add: relinked_refl)
  next
    case False
    then have la: "last us \<in> set us" "ev_prev ev = last us"
      using ev(2) by auto
    then obtain w where w: "h1 (last us) = Some w" "last us \<noteq> 0"
      using dseg_mem [OF us1] by blast
    have "p = head (us @ vs)"
      using dseg_head [OF us1] False by (simp add: head_append)
    then have "dseg (h1(last us \<mapsto> w\<lparr>ev_next := ev_next ev\<rparr>)) 0 (head (us @ vs)) us (ev_next ev)"
      using dseg_set_next [OF us1 False _ w(1)] d by simp
    moreover have "relinked h1 (h1(last us \<mapsto> w\<lparr>ev_next := ev_next ev\<rparr>)) (set us)"
      using relinked_mono [OF relinked_one [of h1 "last us" w], of "w\<lparr>ev_next := ev_next ev\<rparr>" "set us"] w(1) la(1) by auto
    ultimately show ?thesis
      using that w la(2) by (simp add: ev_upd_Some)
  qed
  have ev2: "h2 e = Some ev"
    using r2 d ev1 by (simp add: relinked_def)
  have "dseg h2 (ev_prev ev) (ev_next ev) vs 0 = dseg h1 (ev_prev ev) (ev_next ev) vs 0"
    by (rule dseg_cong) (use r2 d in \<open>auto simp: relinked_def\<close>)
  then have "dseg h2 0 (head (us @ vs)) (us @ vs) 0"
    using us2 vs1 ev(2) by (auto simp: dseg_append)
  moreover have "relinked ?h h2 (set us \<union> set vs)"
    using relinked_trans [OF r1 r2] by (simp add: Un_commute)
  moreover have "(if e = p then ev_next ev else p) = head (us @ vs)"
  proof (cases us)
    case Nil
    then show ?thesis
      using us nx by simp
  next
    case (Cons u ws)
    then show ?thesis
      using us d by auto
  qed
  then have "del_event e p s = Some (head (us @ vs), s\<lparr>ev_heap := h2\<rparr>)"
    using ev(1) h1 ev1 h2 ev2 by (simp add: del_event_def)
  ultimately show ?thesis
    by blast
qed

lemma del_event_unlinked:
  "ev_heap s e = Some ev \<Longrightarrow> ev_prev ev = 0 \<Longrightarrow> ev_next ev = 0 \<Longrightarrow> e \<noteq> p \<Longrightarrow> del_event e p s = Some (p, s)"
  by (simp add: del_event_def)

subsection \<open>Inserting by time\<close>

fun tins :: "(eptr \<Rightarrow> bool) \<Rightarrow> eptr \<Rightarrow> eptr list \<Rightarrow> eptr list" where
  "tins P e [] = [e]"
| "tins P e (t # ts) = (if P t then e # t # ts else t # tins P e ts)"

lemma set_tins [simp]: "set (tins P e ts) = insert e (set ts)"
  by (induction ts) auto

lemma distinct_tins [simp]: "distinct (tins P e ts) \<longleftrightarrow> distinct (e # ts)"
  by (induction ts) auto

lemma tins_neq [simp]: "tins P e ts \<noteq> []"
  by (cases ts) auto

lemma tins_cong: "(\<And>x. x \<in> set ts \<Longrightarrow> P x = Q x) \<Longrightarrow> tins P e ts = tins Q e ts"
  by (induction ts) auto

lemma link_before:
  assumes l: "dseg h 0 (time_event_list s) us t" "dseg h (last (0 # us)) t (t # ws) 0" and d: "distinct (us @ t # ws)"
    and e: "e \<notin> set (us @ t # ws)" "e \<noteq> 0" "h e = Some ev" and te: "h t = Some te"
  defines "h2 \<equiv> h(e \<mapsto> ev\<lparr>ev_next := t, ev_prev := ev_prev te\<rparr>, t \<mapsto> te\<lparr>ev_prev := e\<rparr>)"
  shows "\<exists>h'. (if ev_prev te \<noteq> 0
      then ev_upd (ev_prev te) (\<lambda>ev. ev\<lparr>ev_next := e\<rparr>) (s\<lparr>ev_heap := h2\<rparr>)
      else Some (s\<lparr>ev_heap := h2, time_event_list := e\<rparr>)) =
        Some (s\<lparr>ev_heap := h', time_event_list := head (us @ [e])\<rparr>) \<and>
    dseg h' 0 (head (us @ [e])) (us @ e # t # ws) 0 \<and> relinked h h' (insert e (set us \<union> set (t # ws)))"
proof -
  let ?p = "time_event_list s"
  have tp: "ev_prev te = last (0 # us)"
    using l(2) te by auto
  have r: "relinked h h2 {e, t}"
    unfolding h2_def using relinked_trans [OF relinked_one [of h e ev] relinked_one [of _ t te]] e te
    by (auto simp: insert_commute)
  have "dseg h2 0 ?p us t = dseg h 0 ?p us t"
    using e d by (intro dseg_cong) (auto simp: h2_def fun_upd_apply)
  then have us2: "dseg h2 0 ?p us t"
    using l(1) by simp
  have "dseg (h(t \<mapsto> te\<lparr>ev_prev := e\<rparr>)) e t (t # ws) 0"
    using dseg_set_prev [OF l(2) _ te] d by simp
  moreover have "h2 x = (h(t \<mapsto> te\<lparr>ev_prev := e\<rparr>)) x" if "x \<in> set (t # ws)" for x
    using that e(1) by (auto simp: h2_def fun_upd_apply)
  then have "dseg h2 e t (t # ws) 0 = dseg (h(t \<mapsto> te\<lparr>ev_prev := e\<rparr>)) e t (t # ws) 0"
    by (rule dseg_cong)
  ultimately have ws2: "dseg h2 e t (t # ws) 0"
    by simp
  have e2: "h2 e = Some (ev\<lparr>ev_next := t, ev_prev := last (0 # us)\<rparr>)"
    using e(1) tp by (simp add: h2_def)
  have mid: "dseg h2 (last (0 # us)) e (e # t # ws) 0"
    using e2 e(2) ws2 by simp
  show ?thesis
  proof (cases "us = []")
    case True
    then show ?thesis
      using tp mid relinked_mono [OF r, of "insert e (set (t # ws))"] by (intro exI [of _ h2]) auto
  next
    case False
    then obtain w where w: "h2 (last us) = Some w" "last us \<noteq> 0"
      using dseg_mem [OF us2] by (meson last_in_set)
    let ?h = "h2(last us \<mapsto> w\<lparr>ev_next := e\<rparr>)"
    have p: "?p = head us"
      using dseg_head [OF us2] False by simp
    have "last us \<in> set us"
      using False by simp
    have "dseg ?h 0 ?p us e"
      using dseg_set_next [OF us2 False _ w(1)] d by simp
    moreover have "last us \<notin> set (e # t # ws)"
      using d e(1) \<open>last us \<in> set us\<close> by auto
    then have "dseg ?h (last (0 # us)) e (e # t # ws) 0"
      using mid by (simp add: dseg_upd del: dseg.simps)
    ultimately have "dseg ?h 0 ?p (us @ e # t # ws) 0"
      by (auto simp: dseg_append)
    moreover have "relinked h ?h (insert e (set us \<union> set (t # ws)))"
      using relinked_mono [OF relinked_trans [OF r relinked_one [of h2 "last us" w]]] w(1) \<open>last us \<in> set us\<close> by auto
    ultimately show ?thesis
      using tp False w p by (intro exI [of _ ?h]) (simp add: ev_upd_Some head_append)
  qed
qed

lemma resched_from_ok:
  assumes "dseg (ev_heap s) 0 (time_event_list s) (us @ vs) 0" "vs \<noteq> []" "distinct (us @ vs)" "e \<notin> set (us @ vs)" "e \<noteq> 0"
    "ev_heap s e = Some ev" "event_time e s = Some et" "\<And>x. x \<in> set vs \<Longrightarrow> event_time x s = Some (tm x)"
  shows "\<exists>h'. resched_from e (head vs) s =
      Some (s\<lparr>ev_heap := h', time_event_list := head (us @ tins (\<lambda>x. time_diff et (tm x) > 0) e vs)\<rparr>) \<and>
    dseg h' 0 (head (us @ tins (\<lambda>x. time_diff et (tm x) > 0) e vs)) (us @ tins (\<lambda>x. time_diff et (tm x) > 0) e vs) 0 \<and>
    relinked (ev_heap s) h' (insert e (set us \<union> set vs))"
  using assms
proof (induction vs arbitrary: us)
  case (Cons t ws)
  let ?h = "ev_heap s"
  have l: "dseg ?h 0 (time_event_list s) us t" "dseg ?h (last (0 # us)) t (t # ws) 0"
    using Cons.prems(1) by (auto simp: dseg_append)
  obtain te where te: "?h t = Some te" "t \<noteq> 0" "dseg ?h t (ev_next te) ws 0"
    using l(2) by (auto split: option.splits)
  have tt: "event_time t s = Some (tm t)"
    using Cons.prems(8) by simp
  have nx: "ev_next te = head ws"
    using dseg_0_head [OF te(3)] .
  have et: "e \<noteq> t"
    using Cons.prems(4) by auto
  show ?case
  proof (cases "time_diff et (tm t) > 0")
    case True
    let ?h2 = "?h(e \<mapsto> ev\<lparr>ev_next := t, ev_prev := ev_prev te\<rparr>, t \<mapsto> te\<lparr>ev_prev := e\<rparr>)"
    obtain h' where h': "(if ev_prev te \<noteq> 0
        then ev_upd (ev_prev te) (\<lambda>ev. ev\<lparr>ev_next := e\<rparr>) (s\<lparr>ev_heap := ?h2\<rparr>)
        else Some (s\<lparr>ev_heap := ?h2, time_event_list := e\<rparr>)) =
          Some (s\<lparr>ev_heap := h', time_event_list := head (us @ [e])\<rparr>)"
      "dseg h' 0 (head (us @ [e])) (us @ e # t # ws) 0" "relinked ?h h' (insert e (set us \<union> set (t # ws)))"
      using link_before [OF l Cons.prems(3-6) te(1)] by blast
    have "resched_from e t s = Some (s\<lparr>ev_heap := h', time_event_list := head (us @ [e])\<rparr>)"
      using h'(1) te(1,2) tt Cons.prems(6,7) True et
      by (subst resched_from.simps) (simp add: ev_upd_Some)
    then show ?thesis
      using h'(2,3) True by (auto simp: head_append)
  next
    case no: False
    show ?thesis
    proof (cases "ws = []")
      case True
      let ?h1 = "?h(e \<mapsto> ev\<lparr>ev_next := 0, ev_prev := t\<rparr>)" and ?h2 = "?h(e \<mapsto> ev\<lparr>ev_next := 0, ev_prev := t\<rparr>, t \<mapsto> te\<lparr>ev_next := e\<rparr>)"
      have run: "resched_from e t s = Some (s\<lparr>ev_heap := ?h2\<rparr>)"
        using no True te(1,2) tt nx Cons.prems(6,7) et by (subst resched_from.simps) (simp add: ev_upd_Some)
      have hd: "time_event_list s = head (us @ [t])"
        using dseg_0_head [OF Cons.prems(1)] True by simp
      have "dseg ?h1 0 (time_event_list s) (us @ [t]) 0"
        using Cons.prems(1,4) True by (simp add: dseg_upd)
      from dseg_set_next [OF this, of te e] have "dseg ?h2 0 (time_event_list s) (us @ [t]) e"
        using Cons.prems(3) True te(1) et by simp
      then have "dseg ?h2 0 (time_event_list s) ((us @ [t]) @ [e]) 0"
        using Cons.prems(5) et by (subst dseg_append) simp
      moreover have "relinked ?h ?h2 (insert e (set us \<union> set (t # ws)))"
        using relinked_mono [OF relinked_trans [OF relinked_one [of ?h e ev] relinked_one [of _ t te]]]
          Cons.prems(6) te(1) et by auto
      ultimately show ?thesis
        using run no True hd by (intro exI [of _ ?h2]) (auto simp: head_append)
    next
      case False
      have "resched_from e t s = resched_from e (head ws) s"
        using no False te(1,2) tt nx Cons.prems(7) te(3) by (subst resched_from.simps) (cases ws; simp)
      then show ?thesis
        using Cons.IH [of "us @ [t]"] Cons.prems False no by simp
    qed
  qed
qed simp

subsection \<open>The three lists\<close>

definition is_time :: "'cb event \<Rightarrow> bool" where
  "is_time e \<longleftrightarrow> ev_type e = EVENT_TIME \<and> (case ev_ev e of Ev_time t \<Rightarrow> True | _ \<Rightarrow> False)"

definition is_fd :: "'cb event \<Rightarrow> bool" where
  "is_fd e \<longleftrightarrow> ev_type e = EVENT_FD \<and> (case ev_ev e of Ev_fd fd wr \<Rightarrow> True | _ \<Rightarrow> False)"

definition is_always :: "'cb event \<Rightarrow> bool" where
  "is_always e \<longleftrightarrow> ev_type e = EVENT_ALWAYS"

definition kind :: "('cb event \<Rightarrow> bool) \<Rightarrow> bool" where
  "kind Q \<longleftrightarrow> (\<forall>e e'. payload e' = payload e \<longrightarrow> Q e' = Q e)"

definition list_ok :: "('cb event \<Rightarrow> bool) \<Rightarrow> (eptr \<rightharpoonup> 'cb event) \<Rightarrow> eptr \<Rightarrow> eptr list \<Rightarrow> bool" where
  "list_ok Q h p xs \<longleftrightarrow> dseg h 0 p xs 0 \<and> (\<forall>x \<in> set xs. \<forall>e. h x = Some e \<longrightarrow> Q e)"

definition dom_ok :: "(eptr \<rightharpoonup> 'cb event) \<Rightarrow> eptr \<Rightarrow> bool" where
  "dom_ok h n \<longleftrightarrow> 0 < n \<and> (\<forall>x e. h x = Some e \<longrightarrow> 0 < x \<and> x < n)"

definition evs_rep :: "('cb, 'm) evs_scheme \<Rightarrow> eptr list \<Rightarrow> eptr list \<Rightarrow> eptr list \<Rightarrow> bool" where
  "evs_rep s ts fs as \<longleftrightarrow>
     list_ok is_time (ev_heap s) (time_event_list s) ts \<and> list_ok is_fd (ev_heap s) (fd_event_list s) fs \<and>
     list_ok is_always (ev_heap s) (always_event_list s) as \<and> distinct (ts @ fs @ as) \<and>
     dom_ok (ev_heap s) (ev_fresh s)"

lemma kinds [simp]: "kind is_time" "kind is_fd" "kind is_always"
  by (auto simp: kind_def payload_def is_time_def is_fd_def is_always_def)

lemma relinked_kind:
  assumes "relinked h h' A" "kind Q" "\<And>e. h x = Some e \<Longrightarrow> Q e" "h' x = Some e'"
  shows "Q e'"
proof -
  have "map_option payload (h' x) = map_option payload (h x)"
    using assms(1) by (simp add: relinked_def)
  then obtain e where "h x = Some e" "payload e' = payload e"
    using assms(4) by (cases "h x") auto
  then show ?thesis
    using assms(2,3) unfolding kind_def by blast
qed

lemma dseg_relinked:
  "dseg h pv p xs q \<Longrightarrow> relinked h h' A \<Longrightarrow> set xs \<inter> A = {} \<Longrightarrow> dseg h' pv p xs q"
  by (subst dseg_cong [of xs h' h]) (auto simp: relinked_def)

lemma list_ok_relinked:
  assumes "list_ok Q h p xs" "relinked h h' A" "kind Q" "dseg h' 0 p' ys 0" "set ys \<subseteq> set xs"
  shows "list_ok Q h' p' ys"
  unfolding list_ok_def
proof (intro conjI ballI allI impI)
  fix x e
  assume x: "x \<in> set ys" "h' x = Some e"
  show "Q e"
    by (rule relinked_kind [OF assms(2,3) _ x(2)]) (use assms(1,5) x(1) in \<open>auto simp: list_ok_def\<close>)
qed (rule assms(4))

lemma list_ok_other:
  "list_ok Q h p xs \<Longrightarrow> relinked h h' A \<Longrightarrow> kind Q \<Longrightarrow> set xs \<inter> A = {} \<Longrightarrow> list_ok Q h' p xs"
  by (rule list_ok_relinked) (auto simp: list_ok_def intro: dseg_relinked)

lemma dom_ok_relinked: "dom_ok h n \<Longrightarrow> relinked h h' A \<Longrightarrow> dom_ok h' n"
  unfolding dom_ok_def relinked_def by (metis map_option_eq_Some)

lemma split_mem: "x \<in> set xs \<Longrightarrow> distinct xs \<Longrightarrow> \<exists>us vs. xs = us @ x # vs \<and> remove1 x xs = us @ vs"
  by (induction xs) (fastforce simp: Cons_eq_append_conv)+

lemma list_ok_del:
  assumes l: "list_ok Q (ev_heap s) p xs" "kind Q" and d: "distinct xs" "e \<in> set xs"
  shows "\<exists>h'. del_event e p s = Some (head (remove1 e xs), s\<lparr>ev_heap := h'\<rparr>) \<and>
    list_ok Q h' (head (remove1 e xs)) (remove1 e xs) \<and> relinked (ev_heap s) h' (set xs - {e})"
proof -
  obtain us vs where xs: "xs = us @ e # vs" "remove1 e xs = us @ vs"
    using split_mem [OF d(2,1)] by blast
  obtain h' where h': "del_event e p s = Some (head (us @ vs), s\<lparr>ev_heap := h'\<rparr>)"
      "dseg h' 0 (head (us @ vs)) (us @ vs) 0" "relinked (ev_heap s) h' (set us \<union> set vs)"
    using del_event_ok [of s p us e vs] l(1) d xs(1) by (auto simp: list_ok_def)
  have "list_ok Q h' (head (us @ vs)) (us @ vs)"
    using list_ok_relinked [OF l(1) h'(3) l(2) h'(2)] xs(1) by auto
  moreover have "relinked (ev_heap s) h' (set xs - {e})"
    using relinked_mono [OF h'(3)] xs(1) d(1) by auto
  ultimately show ?thesis
    using h'(1) xs(2) by auto
qed

lemma remove_event_ok:
  assumes rep: "evs_rep s ts fs as" and e: "e \<in> set ts \<union> set fs \<union> set as"
  shows "\<exists>h'. remove_event e s = Some (s\<lparr>ev_heap := h', time_event_list := head (remove1 e ts),
        fd_event_list := head (remove1 e fs), always_event_list := head (remove1 e as)\<rparr>) \<and>
    evs_rep (s\<lparr>ev_heap := h', time_event_list := head (remove1 e ts), fd_event_list := head (remove1 e fs),
        always_event_list := head (remove1 e as)\<rparr>) (remove1 e ts) (remove1 e fs) (remove1 e as) \<and>
    relinked (ev_heap s) h' (set ts \<union> set fs \<union> set as - {e})"
proof -
  let ?h = "ev_heap s"
  have l: "list_ok is_time ?h (time_event_list s) ts" "list_ok is_fd ?h (fd_event_list s) fs"
      "list_ok is_always ?h (always_event_list s) as" and d: "distinct (ts @ fs @ as)" and f: "dom_ok ?h (ev_fresh s)"
    using rep by (auto simp: evs_rep_def)
  have hd: "time_event_list s = head ts" "fd_event_list s = head fs" "always_event_list s = head as"
    using l dseg_0_head by (auto simp: list_ok_def)
  obtain ev where ev: "?h e = Some ev"
    using e l dseg_mem unfolding list_ok_def by blast
  consider (t) "e \<in> set ts" "e \<notin> set fs" "e \<notin> set as" | (f) "e \<in> set fs" "e \<notin> set ts" "e \<notin> set as"
      | (a) "e \<in> set as" "e \<notin> set ts" "e \<notin> set fs"
    using e d by auto
  then show ?thesis
  proof cases
    case t
    then have ty: "ev_type ev = 1"
      using l(1) ev by (auto simp: list_ok_def is_time_def)
    obtain h' where h': "del_event e (time_event_list s) s = Some (head (remove1 e ts), s\<lparr>ev_heap := h'\<rparr>)"
        "list_ok is_time h' (head (remove1 e ts)) (remove1 e ts)" and r: "relinked ?h h' (set ts - {e})"
      using list_ok_del [OF l(1) kinds(1) _ t(1)] d by auto
    have dj: "set fs \<inter> (set ts - {e}) = {}" "set as \<inter> (set ts - {e}) = {}"
      using d by auto
    have "list_ok is_fd h' (head fs) fs" "list_ok is_always h' (head as) as"
      using list_ok_other [OF l(2) r kinds(2) dj(1)] list_ok_other [OF l(3) r kinds(3) dj(2)] hd by auto
    then have "evs_rep (s\<lparr>ev_heap := h', time_event_list := head (remove1 e ts), fd_event_list := head fs,
        always_event_list := head as\<rparr>) (remove1 e ts) fs as"
      using h'(2) d dom_ok_relinked [OF f r] by (auto simp: evs_rep_def)
    moreover have "remove_event e s = Some (s\<lparr>ev_heap := h', time_event_list := head (remove1 e ts)\<rparr>)"
      using ev ty h'(1) by (simp add: remove_event_def)
    ultimately show ?thesis
      using t hd relinked_mono [OF r, of "set ts \<union> set fs \<union> set as - {e}"]
      by (intro exI [of _ h']) (auto simp: remove1_idem)
  next
    case f
    then have ty: "ev_type ev = 2"
      using l(2) ev by (auto simp: list_ok_def is_fd_def)
    obtain h' where h': "del_event e (fd_event_list s) s = Some (head (remove1 e fs), s\<lparr>ev_heap := h'\<rparr>)"
        "list_ok is_fd h' (head (remove1 e fs)) (remove1 e fs)" and r: "relinked ?h h' (set fs - {e})"
      using list_ok_del [OF l(2) kinds(2) _ f(1)] d by auto
    have dj: "set ts \<inter> (set fs - {e}) = {}" "set as \<inter> (set fs - {e}) = {}"
      using d by auto
    have "list_ok is_time h' (head ts) ts" "list_ok is_always h' (head as) as"
      using list_ok_other [OF l(1) r kinds(1) dj(1)] list_ok_other [OF l(3) r kinds(3) dj(2)] hd by auto
    then have "evs_rep (s\<lparr>ev_heap := h', time_event_list := head ts, fd_event_list := head (remove1 e fs),
        always_event_list := head as\<rparr>) ts (remove1 e fs) as"
      using h'(2) d dom_ok_relinked [OF \<open>dom_ok ?h (ev_fresh s)\<close> r] by (auto simp: evs_rep_def)
    moreover have "remove_event e s = Some (s\<lparr>ev_heap := h', fd_event_list := head (remove1 e fs)\<rparr>)"
      using ev ty h'(1) by (simp add: remove_event_def)
    ultimately show ?thesis
      using f hd relinked_mono [OF r, of "set ts \<union> set fs \<union> set as - {e}"]
      by (intro exI [of _ h']) (auto simp: remove1_idem)
  next
    case a
    then have ty: "ev_type ev = 3"
      using l(3) ev by (auto simp: list_ok_def is_always_def)
    obtain h' where h': "del_event e (always_event_list s) s = Some (head (remove1 e as), s\<lparr>ev_heap := h'\<rparr>)"
        "list_ok is_always h' (head (remove1 e as)) (remove1 e as)" and r: "relinked ?h h' (set as - {e})"
      using list_ok_del [OF l(3) kinds(3) _ a(1)] d by auto
    have dj: "set ts \<inter> (set as - {e}) = {}" "set fs \<inter> (set as - {e}) = {}"
      using d by auto
    have "list_ok is_time h' (head ts) ts" "list_ok is_fd h' (head fs) fs"
      using list_ok_other [OF l(1) r kinds(1) dj(1)] list_ok_other [OF l(2) r kinds(2) dj(2)] hd by auto
    then have "evs_rep (s\<lparr>ev_heap := h', time_event_list := head ts, fd_event_list := head fs,
        always_event_list := head (remove1 e as)\<rparr>) ts fs (remove1 e as)"
      using h'(2) d dom_ok_relinked [OF f r] by (auto simp: evs_rep_def)
    moreover have "remove_event e s = Some (s\<lparr>ev_heap := h', always_event_list := head (remove1 e as)\<rparr>)"
      using ev ty h'(1) by (simp add: remove_event_def)
    ultimately show ?thesis
      using a hd relinked_mono [OF r, of "set ts \<union> set fs \<union> set as - {e}"]
      by (intro exI [of _ h']) (auto simp: remove1_idem)
  qed
qed

subsection \<open>Adding events\<close>

text \<open>\<open>keeps h h' e\<close>: every event but \<open>e\<close> carries what it carried.\<close>

definition keeps :: "(eptr \<rightharpoonup> 'cb event) \<Rightarrow> (eptr \<rightharpoonup> 'cb event) \<Rightarrow> eptr \<Rightarrow> bool" where
  "keeps h h' e \<longleftrightarrow> (\<forall>x. x \<noteq> e \<longrightarrow> map_option payload (h' x) = map_option payload (h x))"

lemma keeps_relinked: "relinked h h' A \<Longrightarrow> keeps h h' e"
  by (simp add: keeps_def relinked_def)

lemma keeps_trans: "keeps h h1 e \<Longrightarrow> keeps h1 h2 e \<Longrightarrow> keeps h h2 e"
  by (simp add: keeps_def)

lemma keeps_upd: "keeps h (h(e := v)) e"
  by (simp add: keeps_def)

lemma fresh_notin:
  assumes "evs_rep s ts fs as"
  shows "ev_fresh s \<notin> set ts \<union> set fs \<union> set as" "ev_fresh s \<noteq> 0" "ev_heap s (ev_fresh s) = None"
proof -
  show "ev_heap s (ev_fresh s) = None" "ev_fresh s \<noteq> 0"
    using assms by (cases "ev_heap s (ev_fresh s)"; auto simp: evs_rep_def dom_ok_def)+
  then have "ev_fresh s \<notin> set xs" if "list_ok Q (ev_heap s) p xs" for Q p xs
    using that dseg_mem [of "ev_heap s" 0 p xs 0 "ev_fresh s"] by (auto simp: list_ok_def)
  then show "ev_fresh s \<notin> set ts \<union> set fs \<union> set as"
    using assms unfolding evs_rep_def by blast
qed

lemma list_ok_upd: "list_ok Q h p xs \<Longrightarrow> e \<notin> set xs \<Longrightarrow> list_ok Q (h(e := v)) p xs"
  by (auto simp: list_ok_def dseg_upd fun_upd_apply)

lemma dom_ok_upd: "dom_ok h n \<Longrightarrow> dom_ok (h(n \<mapsto> v)) (n + 1)"
  by (auto simp: dom_ok_def fun_upd_apply less_Suc_eq split: if_splits)

lemma push_ok:
  assumes l: "list_ok Q h p xs" "kind Q" and d: "distinct (e # xs)" "e \<noteq> 0"
    and e: "h e = Some ev" "ev_prev ev = 0" "ev_next ev = p" "Q ev"
  shows "\<exists>h'. (if p \<noteq> 0 then ev_upd p (\<lambda>ev. ev\<lparr>ev_prev := e\<rparr>) (s\<lparr>ev_heap := h\<rparr>) else Some (s\<lparr>ev_heap := h\<rparr>)) =
      Some (s\<lparr>ev_heap := h'\<rparr>) \<and> list_ok Q h' e (e # xs) \<and> relinked h h' (set xs) \<and> h' e = Some ev"
proof (cases xs)
  case Nil
  then show ?thesis
    using l d e by (intro exI [of _ h]) (auto simp: list_ok_def relinked_refl)
next
  case (Cons x ys)
  obtain w where w: "h x = Some w" "p = x" "x \<noteq> 0"
    using l(1) Cons by (auto simp: list_ok_def split: option.splits)
  let ?h = "h(x \<mapsto> w\<lparr>ev_prev := e\<rparr>)"
  have "dseg ?h e p xs 0"
    using dseg_set_prev [of h 0 p x ys 0 w e] l(1) d w(1) Cons by (auto simp: list_ok_def)
  then have "dseg ?h 0 e (e # xs) 0"
    using e d Cons by auto
  moreover have r: "relinked h ?h (set xs)"
    using relinked_mono [OF relinked_one [of h x w], of "w\<lparr>ev_prev := e\<rparr>" "set xs"] w(1) Cons by auto
  moreover have he: "?h e = Some ev"
    using e(1) d Cons by auto
  ultimately have "list_ok Q ?h e (e # xs)"
    using relinked_kind [OF r l(2)] l(1) e(4) by (auto simp: list_ok_def simp del: dseg.simps)
  then show ?thesis
    using r he w by (intro exI [of _ ?h]) (auto simp: ev_upd_Some)
qed

lemma add_always_event_ok:
  assumes rep: "evs_rep s ts fs as"
  shows "\<exists>h' ev. add_always_event f s = Some (ev_fresh s,
        s\<lparr>ev_heap := h', ev_fresh := ev_fresh s + 1, always_event_list := ev_fresh s\<rparr>) \<and>
    evs_rep (s\<lparr>ev_heap := h', ev_fresh := ev_fresh s + 1, always_event_list := ev_fresh s\<rparr>) ts fs (ev_fresh s # as) \<and>
    keeps (ev_heap s) h' (ev_fresh s) \<and> h' (ev_fresh s) = Some ev \<and> ev_func ev = f"
proof -
  let ?h = "ev_heap s" and ?e = "ev_fresh s" and ?p = "always_event_list s"
  define ev where "ev = \<lparr>ev_prev = 0, ev_next = ?p, ev_func = f, ev_type = EVENT_ALWAYS, ev_remove = 0, ev_ev = Ev_unset\<rparr>"
  let ?h1 = "?h(?e \<mapsto> ev)"
  note fr = fresh_notin [OF rep]
  have l: "list_ok is_time ?h1 (time_event_list s) ts" "list_ok is_fd ?h1 (fd_event_list s) fs"
      "list_ok is_always ?h1 ?p as" and d: "distinct (ts @ fs @ as)" and dm: "dom_ok ?h1 (?e + 1)"
    using rep fr by (auto simp: evs_rep_def list_ok_upd intro: dom_ok_upd [simplified])
  have de: "distinct (?e # as)"
    using fr d by auto
  have ev: "?h1 ?e = Some ev" "ev_prev ev = 0" "ev_next ev = ?p" "is_always ev"
    by (simp_all add: ev_def is_always_def)
  obtain h' where h': "(if ?p \<noteq> 0 then ev_upd ?p (\<lambda>ev. ev\<lparr>ev_prev := ?e\<rparr>) (s\<lparr>ev_fresh := ?e + 1, ev_heap := ?h1\<rparr>)
        else Some (s\<lparr>ev_fresh := ?e + 1, ev_heap := ?h1\<rparr>)) = Some (s\<lparr>ev_fresh := ?e + 1, ev_heap := h'\<rparr>)"
      "list_ok is_always h' ?e (?e # as)" "relinked ?h1 h' (set as)" "h' ?e = Some ev"
    using push_ok [OF l(3) kinds(3) de fr(2) ev, of "s\<lparr>ev_fresh := ?e + 1\<rparr>"] by auto
  have "set ts \<inter> set as = {}" "set fs \<inter> set as = {}"
    using d by auto
  then have "list_ok is_time h' (time_event_list s) ts" "list_ok is_fd h' (fd_event_list s) fs"
    using list_ok_other [OF l(1) h'(3)] list_ok_other [OF l(2) h'(3)] by auto
  then have "evs_rep (s\<lparr>ev_heap := h', ev_fresh := ?e + 1, always_event_list := ?e\<rparr>) ts fs (?e # as)"
    using h'(2) d fr dom_ok_relinked [OF dm h'(3)] by (auto simp: evs_rep_def)
  moreover have "add_always_event f s = Some (?e, s\<lparr>ev_heap := h', ev_fresh := ?e + 1, always_event_list := ?e\<rparr>)"
    using h'(1) by (simp add: add_always_event_def new_event_def Let_def ev_upd_Some ev_def split: if_splits)
  moreover have "keeps ?h h' ?e"
    using keeps_trans [OF keeps_upd keeps_relinked [OF h'(3)]] .
  ultimately show ?thesis
    using h'(4) by (auto simp: ev_def)
qed

lemma add_fd_event_ok:
  assumes rep: "evs_rep s ts fs as"
  shows "\<exists>h' ev. add_fd_event fd wr f s = Some (ev_fresh s,
        s\<lparr>ev_heap := h', ev_fresh := ev_fresh s + 1, fd_event_list := ev_fresh s\<rparr>) \<and>
    evs_rep (s\<lparr>ev_heap := h', ev_fresh := ev_fresh s + 1, fd_event_list := ev_fresh s\<rparr>) ts (ev_fresh s # fs) as \<and>
    keeps (ev_heap s) h' (ev_fresh s) \<and> h' (ev_fresh s) = Some ev \<and> ev_func ev = f \<and> ev_ev ev = Ev_fd fd wr"
proof -
  let ?h = "ev_heap s" and ?e = "ev_fresh s" and ?p = "fd_event_list s"
  define ev where "ev = \<lparr>ev_prev = 0, ev_next = ?p, ev_func = f, ev_type = EVENT_FD, ev_remove = 0, ev_ev = Ev_fd fd wr\<rparr>"
  let ?h1 = "?h(?e \<mapsto> ev)"
  note fr = fresh_notin [OF rep]
  have l: "list_ok is_time ?h1 (time_event_list s) ts" "list_ok is_fd ?h1 ?p fs"
      "list_ok is_always ?h1 (always_event_list s) as" and d: "distinct (ts @ fs @ as)" and dm: "dom_ok ?h1 (?e + 1)"
    using rep fr by (auto simp: evs_rep_def list_ok_upd intro: dom_ok_upd [simplified])
  have de: "distinct (?e # fs)"
    using fr d by auto
  have ev: "?h1 ?e = Some ev" "ev_prev ev = 0" "ev_next ev = ?p" "is_fd ev"
    by (simp_all add: ev_def is_fd_def)
  obtain h' where h': "(if ?p \<noteq> 0 then ev_upd ?p (\<lambda>ev. ev\<lparr>ev_prev := ?e\<rparr>) (s\<lparr>ev_fresh := ?e + 1, ev_heap := ?h1\<rparr>)
        else Some (s\<lparr>ev_fresh := ?e + 1, ev_heap := ?h1\<rparr>)) = Some (s\<lparr>ev_fresh := ?e + 1, ev_heap := h'\<rparr>)"
      "list_ok is_fd h' ?e (?e # fs)" "relinked ?h1 h' (set fs)" "h' ?e = Some ev"
    using push_ok [OF l(2) kinds(2) de fr(2) ev, of "s\<lparr>ev_fresh := ?e + 1\<rparr>"] by auto
  have "set ts \<inter> set fs = {}" "set as \<inter> set fs = {}"
    using d by auto
  then have "list_ok is_time h' (time_event_list s) ts" "list_ok is_always h' (always_event_list s) as"
    using list_ok_other [OF l(1) h'(3)] list_ok_other [OF l(3) h'(3)] by auto
  then have "evs_rep (s\<lparr>ev_heap := h', ev_fresh := ?e + 1, fd_event_list := ?e\<rparr>) ts (?e # fs) as"
    using h'(2) d fr dom_ok_relinked [OF dm h'(3)] by (auto simp: evs_rep_def)
  moreover have "add_fd_event fd wr f s = Some (?e, s\<lparr>ev_heap := h', ev_fresh := ?e + 1, fd_event_list := ?e\<rparr>)"
    using h'(1) by (simp add: add_fd_event_def new_event_def Let_def ev_upd_Some ev_def split: if_splits)
  moreover have "keeps ?h h' ?e"
    using keeps_trans [OF keeps_upd keeps_relinked [OF h'(3)]] .
  ultimately show ?thesis
    using h'(4) by (auto simp: ev_def)
qed

subsection \<open>Timers\<close>

definition due :: "('cb, 'm) evs_scheme \<Rightarrow> eptr \<Rightarrow> timeval" where
  "due s x = the (event_time x s)"

lemma event_time_due:
  assumes "list_ok is_time (ev_heap s) p xs" "x \<in> set xs"
  shows "event_time x s = Some (due s x)"
proof -
  obtain e where "ev_heap s x = Some e" "is_time e"
    using assms dseg_mem [of "ev_heap s" 0 p xs 0 x] by (auto simp: list_ok_def)
  then show ?thesis
    by (auto simp: due_def event_time_def is_time_def split: ev_union.splits)
qed

lemma event_time_keeps:
  assumes "keeps (ev_heap s) (ev_heap s') e" "x \<noteq> e"
  shows "event_time x s' = event_time x s"
proof -
  have "map_option payload (ev_heap s' x) = map_option payload (ev_heap s x)"
    using assms by (simp add: keeps_def)
  then show ?thesis
    by (cases "ev_heap s x"; cases "ev_heap s' x") (auto simp: event_time_def payload_def)
qed

lemma dseg_payload:
  "h e = Some ev \<Longrightarrow> ev_prev ev' = ev_prev ev \<Longrightarrow> ev_next ev' = ev_next ev \<Longrightarrow>
     dseg (h(e \<mapsto> ev')) pv p xs q = dseg h pv p xs q"
proof (induction xs arbitrary: pv p)
  case (Cons x xs)
  then show ?case
    by (cases "x = e") (auto split: option.splits)
qed simp

text \<open>The place of \<open>e\<close>, at time \<open>tr\<close>, among the other timers.\<close>

definition place :: "('cb, 'm) evs_scheme \<Rightarrow> timeval \<Rightarrow> eptr \<Rightarrow> eptr list \<Rightarrow> eptr list" where
  "place s tr e ts = tins (\<lambda>x. time_diff tr (due s x) > 0) e (remove1 e ts)"

lemma resched_time_event_ok:
  assumes l: "list_ok is_time (ev_heap s) (time_event_list s) ts" "distinct ts"
    and e: "e \<noteq> 0" "ev_heap s e = Some ev" "ev_type ev = EVENT_TIME" "e \<in> set ts \<or> ev_prev ev = 0 \<and> ev_next ev = 0"
  shows "\<exists>h' ev'. resched_time_event e tr s = Some (s\<lparr>ev_heap := h', time_event_list := head (place s tr e ts)\<rparr>) \<and>
    list_ok is_time h' (head (place s tr e ts)) (place s tr e ts) \<and> keeps (ev_heap s) h' e \<and>
    (\<forall>x. x \<notin> insert e (set ts) \<longrightarrow> h' x = ev_heap s x) \<and> h' e = Some ev' \<and>
    payload ev' = (ev_func ev, EVENT_TIME, 0, Ev_time tr)"
proof -
  let ?h = "ev_heap s" and ?ev1 = "ev\<lparr>ev_ev := Ev_time tr, ev_remove := 0\<rparr>"
  let ?h1 = "?h(e \<mapsto> ?ev1)"
  define s1 where "s1 = s\<lparr>ev_heap := ?h1\<rparr>"
  define ts0 where "ts0 = remove1 e ts"
  have ev1: "is_time ?ev1" "payload ?ev1 = (ev_func ev, EVENT_TIME, 0, Ev_time tr)"
    using e(3) by (simp_all add: is_time_def payload_def)
  have l1: "list_ok is_time ?h1 (time_event_list s) ts"
    using l(1) ev1(1) dseg_payload [of ?h e ev ?ev1 0 "time_event_list s" ts 0] e(2) by (auto simp: list_ok_def fun_upd_apply)
  have u1: "ev_upd e (\<lambda>ev. ev\<lparr>ev_ev := Ev_time tr, ev_remove := 0\<rparr>) s = Some s1"
    using e(2) by (simp add: ev_upd_Some s1_def)
  have e0: "e \<notin> set ts0"
    using l(2) by (simp add: ts0_def)
  obtain h2 where h2: "del_event e (time_event_list s1) s1 = Some (head ts0, s1\<lparr>ev_heap := h2\<rparr>)"
      "list_ok is_time h2 (head ts0) ts0" "relinked ?h1 h2 (set ts - {e})"
  proof (cases "e \<in> set ts")
    case True
    then show ?thesis
      using list_ok_del [of is_time s1 "time_event_list s" ts e] l1 l(2) that by (auto simp: s1_def ts0_def)
  next
    case False
    then have "ts0 = ts" "head ts = time_event_list s"
      using l(1) dseg_0_head [of "ev_heap s" 0 "time_event_list s" ts] by (auto simp: ts0_def remove1_idem list_ok_def)
    moreover have "e \<noteq> time_event_list s"
      using False e(1) calculation by (cases ts) auto
    then have "del_event e (time_event_list s1) s1 = Some (time_event_list s, s1)"
      using del_event_unlinked [of s1 e ?ev1] e(4) False by (simp add: s1_def)
    ultimately show ?thesis
      using that [of ?h1] l1 by (simp add: s1_def relinked_refl)
  qed
  have ev2: "h2 e = Some ?ev1"
    using h2(3) by (simp add: relinked_def)
  define s2 where "s2 = s1\<lparr>ev_heap := h2, time_event_list := head ts0\<rparr>"
  have k2: "keeps ?h h2 e"
    using keeps_trans [OF keeps_upd keeps_relinked [OF h2(3)]] .
  have tm: "event_time x s2 = Some (due s x)" if "x \<in> set ts0" for x
  proof -
    have "x \<in> set ts" "x \<noteq> e"
      using that e0 set_remove1_subset [of e ts] by (auto simp: ts0_def)
    then show ?thesis
      using event_time_due [OF l(1)] event_time_keeps [of s s2 e x] k2 by (simp add: s2_def)
  qed
  have te: "event_time e s2 = Some tr"
    using ev2 by (simp add: event_time_def s2_def)
  have pl: "place s tr e ts = tins (\<lambda>x. time_diff tr (due s x) > 0) e ts0"
    by (simp add: place_def ts0_def)
  have run: "resched_time_event e tr s = (if head ts0 = 0 then Some (s2\<lparr>time_event_list := e\<rparr>) else resched_from e (head ts0) s2)"
    using u1 h2(1) by (simp add: resched_time_event_def s2_def Let_def)
  show ?thesis
  proof (cases "ts0 = []")
    case True
    have lk: "ev_prev ev = 0" "ev_next ev = 0"
    proof -
      have "ts = [] \<or> ts = [e]"
        using True by (cases ts) (auto simp: ts0_def split: if_splits)
      then show "ev_prev ev = 0" "ev_next ev = 0"
        using e(2,4) l(1) by (auto simp: list_ok_def)
    qed
    then have "list_ok is_time h2 e [e]"
      using ev2 ev1(1) e(1) by (auto simp: list_ok_def)
    moreover have "resched_time_event e tr s = Some (s\<lparr>ev_heap := h2, time_event_list := e\<rparr>)"
      using run True by (simp add: s2_def s1_def)
    moreover have "h2 x = ?h x" if "x \<notin> insert e (set ts)" for x
      using h2(3) that by (simp add: relinked_def)
    ultimately show ?thesis
      using ev2 ev1(2) k2 pl True by (intro exI [of _ h2] exI [of _ ?ev1]) simp
  next
    case False
    have hd: "head ts0 \<noteq> 0"
      using h2(2) False by (cases ts0) (auto simp: list_ok_def)
    have d0: "distinct ts0" "set ts0 \<subseteq> set ts"
      using l(2) set_remove1_subset [of e ts] by (simp_all add: ts0_def)
    obtain h3 where h3: "resched_from e (head ts0) s2 = Some (s2\<lparr>ev_heap := h3, time_event_list := head (place s tr e ts)\<rparr>)"
        "dseg h3 0 (head (place s tr e ts)) (place s tr e ts) 0" "relinked h2 h3 (insert e (set ts0))"
    proof -
      have "dseg (ev_heap s2) 0 (time_event_list s2) ([] @ ts0) 0" "ev_heap s2 e = Some ?ev1"
        using h2(2) ev2 by (simp_all add: s2_def list_ok_def)
      then show ?thesis
        using resched_from_ok [of s2 "[]" ts0 e ?ev1 tr "due s"] False d0(1) e0 e(1) te tm that
        unfolding pl by (auto simp: s2_def)
    qed
    obtain ev' where ev': "h3 e = Some ev'" "payload ev' = payload ?ev1"
      using relinked_payload [OF h3(3) ev2] by blast
    have "list_ok is_time h3 (head (place s tr e ts)) (place s tr e ts)"
      unfolding list_ok_def
    proof (intro conjI ballI allI impI)
      fix x w
      assume x: "x \<in> set (place s tr e ts)" "h3 x = Some w"
      show "is_time w"
        by (rule relinked_kind [OF h3(3) kinds(1) _ x(2)]) (use x(1) h2(2) ev2 ev1(1) in \<open>auto simp: list_ok_def pl\<close>)
    qed (rule h3(2))
    moreover have "resched_time_event e tr s = Some (s\<lparr>ev_heap := h3, time_event_list := head (place s tr e ts)\<rparr>)"
      using run hd h3(1) by (simp add: s2_def s1_def)
    moreover have "h3 x = ?h x" if "x \<notin> insert e (set ts)" for x
      using h2(3) h3(3) d0(2) that by (auto simp: relinked_def)
    ultimately show ?thesis
      using ev' ev1(2) keeps_trans [OF k2 keeps_relinked [OF h3(3)]] by (intro exI [of _ h3] exI [of _ ev']) simp
  qed
qed

lemma place_set: "set (place s tr e ts) = insert e (set (remove1 e ts))"
  by (simp add: place_def)

lemma resched_rep:
  assumes rep: "evs_rep s ts fs as" and ev: "ev_heap s e = Some ev" "ev_type ev = EVENT_TIME"
    and e: "e \<in> set ts \<or> ev_prev ev = 0 \<and> ev_next ev = 0" "e \<notin> set fs \<union> set as"
  shows "\<exists>h' l ev'. resched_time_event e tr s = Some (s\<lparr>ev_heap := h', time_event_list := l\<rparr>) \<and>
    evs_rep (s\<lparr>ev_heap := h', time_event_list := l\<rparr>) (place s tr e ts) fs as \<and>
    keeps (ev_heap s) h' e \<and> h' e = Some ev' \<and> payload ev' = (ev_func ev, EVENT_TIME, 0, Ev_time tr)"
proof -
  have l: "list_ok is_time (ev_heap s) (time_event_list s) ts" "list_ok is_fd (ev_heap s) (fd_event_list s) fs"
      "list_ok is_always (ev_heap s) (always_event_list s) as" and d: "distinct (ts @ fs @ as)"
      and dm: "dom_ok (ev_heap s) (ev_fresh s)"
    using rep by (auto simp: evs_rep_def)
  have "e \<noteq> 0" "distinct ts"
    using dm ev(1) d by (auto simp: dom_ok_def)
  from resched_time_event_ok [OF l(1) this(2,1) ev e(1), of tr]
  obtain h' ev' where h': "resched_time_event e tr s = Some (s\<lparr>ev_heap := h', time_event_list := head (place s tr e ts)\<rparr>)"
      "list_ok is_time h' (head (place s tr e ts)) (place s tr e ts)" "keeps (ev_heap s) h' e"
      "\<forall>x. x \<notin> insert e (set ts) \<longrightarrow> h' x = ev_heap s x" "h' e = Some ev'"
      "payload ev' = (ev_func ev, EVENT_TIME, 0, Ev_time tr)"
    by blast
  have dj: "x \<notin> insert e (set ts)" if "x \<in> set fs \<union> set as" for x
    using that d e by auto
  have o: "list_ok Q h' p xs" if "list_ok Q (ev_heap s) p xs" "set xs \<subseteq> set fs \<union> set as" for Q p xs
  proof -
    have "h' x = ev_heap s x" if "x \<in> set xs" for x
      using that \<open>set xs \<subseteq> _\<close> h'(4) dj by blast
    then show ?thesis
      using that(1) dseg_cong [of xs h' "ev_heap s"] by (auto simp: list_ok_def)
  qed
  have "x < ev_fresh s \<and> 0 < x" if "h' x = Some w" for x w
  proof (cases "x = e")
    case True
    then show ?thesis
      using dm ev(1) by (auto simp: dom_ok_def)
  next
    case False
    then have "map_option payload (ev_heap s x) = map_option payload (h' x)"
      using h'(3) by (simp add: keeps_def)
    then show ?thesis
      using dm that by (cases "ev_heap s x") (auto simp: dom_ok_def)
  qed
  then have "dom_ok h' (ev_fresh s)"
    using dm by (auto simp: dom_ok_def)
  moreover have "distinct (place s tr e ts @ fs @ as)"
    using d e set_remove1_subset [of e ts] by (auto simp: place_def)
  ultimately have "evs_rep (s\<lparr>ev_heap := h', time_event_list := head (place s tr e ts)\<rparr>) (place s tr e ts) fs as"
    using h'(2) o [OF l(2)] o [OF l(3)] by (simp add: evs_rep_def)
  then show ?thesis
    using h'(1,3,5,6) by blast
qed

lemma add_time_event_ok:
  assumes rep: "evs_rep s ts fs as"
  shows "\<exists>h' l ev'. add_time_event tr f s = Some (ev_fresh s, s\<lparr>ev_fresh := ev_fresh s + 1, ev_heap := h', time_event_list := l\<rparr>) \<and>
    evs_rep (s\<lparr>ev_fresh := ev_fresh s + 1, ev_heap := h', time_event_list := l\<rparr>) (place s tr (ev_fresh s) ts) fs as \<and>
    keeps (ev_heap s) h' (ev_fresh s) \<and> h' (ev_fresh s) = Some ev' \<and> payload ev' = (f, EVENT_TIME, 0, Ev_time tr)"
proof -
  let ?h = "ev_heap s" and ?e = "ev_fresh s"
  define ev where "ev = \<lparr>ev_prev = 0, ev_next = 0, ev_func = f, ev_type = EVENT_TIME, ev_remove = 0, ev_ev = Ev_unset\<rparr>"
  define s1 where "s1 = s\<lparr>ev_fresh := ?e + 1, ev_heap := ?h(?e \<mapsto> ev)\<rparr>"
  note fr = fresh_notin [OF rep]
  have rep1: "evs_rep s1 ts fs as"
    using rep fr by (auto simp: evs_rep_def s1_def list_ok_upd intro: dom_ok_upd [simplified])
  have "ev_heap s1 ?e = Some ev" "ev_type ev = EVENT_TIME" "ev_prev ev = 0 \<and> ev_next ev = 0" "?e \<notin> set fs \<union> set as"
    using fr by (auto simp: s1_def ev_def)
  then obtain h' l ev' where h': "resched_time_event ?e tr s1 = Some (s1\<lparr>ev_heap := h', time_event_list := l\<rparr>)"
      "evs_rep (s1\<lparr>ev_heap := h', time_event_list := l\<rparr>) (place s1 tr ?e ts) fs as"
      "keeps (ev_heap s1) h' ?e" "h' ?e = Some ev'" "payload ev' = (f, EVENT_TIME, 0, Ev_time tr)"
    using resched_rep [OF rep1, of ?e ev tr] by (auto simp: ev_def)
  have "due s1 x = due s x" if "x \<noteq> ?e" for x
    using that by (simp add: due_def event_time_def s1_def)
  then have "due s1 x = due s x" if "x \<in> set ts" for x
    using that fr(1) by (metis UnCI)
  then have "place s1 tr ?e ts = place s tr ?e ts"
    using fr(1) by (auto simp: place_def remove1_idem intro!: tins_cong)
  moreover have "add_time_event tr f s = Some (?e, s1\<lparr>ev_heap := h', time_event_list := l\<rparr>)"
    using h'(1) by (simp add: add_time_event_def new_event_def Let_def ev_upd_Some s1_def ev_def)
  moreover have "keeps ?h h' ?e"
    using keeps_trans [OF keeps_upd [of ?h ?e "Some ev"]] h'(3) by (simp add: s1_def)
  ultimately show ?thesis
    using h'(2,4,5) by (auto simp: s1_def)
qed

subsection \<open>Order of the timers\<close>

definition usec :: "timeval \<Rightarrow> int" where
  "usec t = tv_sec t * 1000000 + tv_usec t"

text \<open>
  The comparison rounds to milliseconds, so the order is exact to half a millisecond. It converts a
  difference to \<open>int\<close>, so it is meaningful for timers less than some 24 days apart.
\<close>

definition timely :: "('cb, 'm) evs_scheme \<Rightarrow> eptr list \<Rightarrow> bool" where
  "timely s ts \<longleftrightarrow> sorted_wrt (\<lambda>x y. usec (due s x) < usec (due s y) + 500) ts"

definition in_range :: "timeval \<Rightarrow> timeval \<Rightarrow> bool" where
  "in_range a b \<longleftrightarrow> \<bar>usec a - usec b\<bar> \<le> 2 * 10 ^ 12"

lemma int32_id: "- (2 ^ 31) \<le> x \<Longrightarrow> x < 2 ^ 31 \<Longrightarrow> int32 x = x"
  by (simp add: int32_def sint_sbintrunc' signed_take_bit_int_eq_self)

lemma sdiv_pos: "(0 :: int) \<le> a \<Longrightarrow> a sdiv 1000 = a div 1000"
  by (simp add: signed_divide_int_def sgn_if)

lemma sdiv_neg: "(a :: int) < 0 \<Longrightarrow> a sdiv 1000 = - ((- a) div 1000)"
  by (simp add: signed_divide_int_def sgn_if)

lemma time_diff_alt: "time_diff a b = int32 ((usec b - usec a + 500) sdiv 1000)"
  by (simp add: time_diff_def usec_def algebra_simps)

lemma time_diff_value:
  assumes "in_range a b"
  shows "time_diff a b = (usec b - usec a + 500) sdiv 1000"
proof -
  let ?d = "usec b - usec a + 500"
  have "\<bar>?d\<bar> \<le> 2000000000500"
    using assms by (simp add: in_range_def)
  then have "\<bar>?d sdiv 1000\<bar> \<le> 2000000000"
    by (cases "0 \<le> ?d") (simp_all add: sdiv_pos sdiv_neg)
  then show ?thesis
    unfolding time_diff_alt by (intro int32_id) auto
qed

lemma time_diff_pos: "in_range a b \<Longrightarrow> time_diff a b > 0 \<longleftrightarrow> usec a + 500 \<le> usec b"
proof -
  assume r: "in_range a b"
  let ?d = "usec b - usec a + 500"
  have "0 < ?d sdiv 1000 \<longleftrightarrow> 1000 \<le> ?d"
    by (cases "0 \<le> ?d") (auto simp: sdiv_pos sdiv_neg pos_imp_zdiv_pos_iff pos_imp_zdiv_nonneg_iff not_less)
  then show ?thesis
    using time_diff_value [OF r] by auto
qed

lemma sorted_tins:
  assumes "sorted_wrt (\<lambda>x y. u x < u y + (500 :: int)) ts" "\<And>x. x \<in> set ts \<Longrightarrow> P x \<longleftrightarrow> u e + 500 \<le> u x"
  shows "sorted_wrt (\<lambda>x y. u x < u y + 500) (tins P e ts)"
  using assms
proof (induction ts)
  case (Cons t ts)
  show ?case
  proof (cases "P t")
    case True
    then have "u e + 500 \<le> u t"
      using Cons.prems(2) by auto
    moreover have "u t < u x + 500" if "x \<in> set ts" for x
      using Cons.prems(1) that by auto
    ultimately show ?thesis
      using True Cons.prems(1) by fastforce
  next
    case False
    then have "u t < u e + 500"
      using Cons.prems(2) [of t] by auto
    then show ?thesis
      using False Cons by auto
  qed
qed simp

lemma place_timely:
  assumes t: "timely s ts" "distinct ts" and r: "\<And>x. x \<in> set ts \<Longrightarrow> in_range tr (due s x)"
    and k: "\<And>x. x \<in> set ts \<Longrightarrow> x \<noteq> e \<Longrightarrow> due s' x = due s x" "due s' e = tr"
  shows "timely s' (place s tr e ts)"
proof -
  let ?ts = "remove1 e ts"
  have m: "x \<in> set ts" "x \<noteq> e" if "x \<in> set ?ts" for x
    using that t(2) set_remove1_subset [of e ts] by auto
  have eq: "due s' x = due s x" if "x \<in> set ?ts" for x
    using k(1) m [OF that] by blast
  have "sorted_wrt (\<lambda>x y. usec (due s x) < usec (due s y) + 500) ?ts"
    using t(1) unfolding timely_def by (rule sorted_wrt_remove1)
  then have "sorted_wrt (\<lambda>x y. usec (due s' x) < usec (due s' y) + 500) ?ts"
    by (rule sorted_wrt_change) (simp add: eq)
  moreover have "time_diff tr (due s x) > 0 \<longleftrightarrow> usec (due s' e) + 500 \<le> usec (due s' x)" if "x \<in> set ?ts" for x
    using time_diff_pos [OF r [OF m(1) [OF that]]] k(2) eq [OF that] by simp
  ultimately show ?thesis
    unfolding timely_def place_def by (rule sorted_tins)
qed

lemma due_keeps: "keeps (ev_heap s) (ev_heap s') e \<Longrightarrow> x \<noteq> e \<Longrightarrow> due s' x = due s x"
  by (simp add: due_def event_time_keeps)

lemma due_payload: "ev_heap s e = Some ev \<Longrightarrow> payload ev = (f, t, r, Ev_time tr) \<Longrightarrow> due s e = tr \<and> ev_func ev = f"
  by (simp add: due_def event_time_def payload_def)

lemma diff_of_add:
  assumes "0 \<le> msec" "msec < 2 ^ 31"
  shows "time_diff now (time_add now msec) = msec"
proof -
  have "msec div 1000 * 1000000 + msec mod 1000 * 1000 = (msec div 1000 * 1000 + msec mod 1000) * 1000"
    by (simp only: ring_distribs mult.assoc)
  also have "\<dots> = msec * 1000"
    by (simp only: div_mult_mod_eq)
  finally have u: "usec (time_add now msec) - usec now = msec * 1000"
    using assms(1) by (simp add: usec_def time_add_def sdiv_pos signed_modulo_int_def sgn_if)
  have "(msec * 1000 + 500) sdiv 1000 = msec"
    using assms(1) by (simp add: sdiv_pos)
  then show ?thesis
    using assms by (simp add: time_diff_alt u int32_id)
qed

subsection \<open>Properties\<close>

text \<open>
  C29. Adding a timer does not fault, links one new event with the given callback and time into the
  timer list, leaves the other two lists and every other event's callback and time alone, and keeps
  the timers in the order in which they are due (exactly to half a millisecond), so the head of the
  list is the next one.
\<close>

theorem add_time_event_timely:
  assumes "evs_rep s ts fs as" and "timely s ts" and "\<forall>x \<in> set ts. in_range tr (due s x)"
  shows "\<exists>e s' ts' ev. add_time_event tr f s = Some (e, s') \<and> evs_rep s' ts' fs as \<and> timely s' ts' \<and>
    e \<notin> set ts \<and> set ts' = insert e (set ts) \<and> due s' e = tr \<and> (\<forall>x \<in> set ts. due s' x = due s x) \<and>
    ev_heap s' e = Some ev \<and> ev_func ev = f"
proof -
  let ?e = "ev_fresh s"
  obtain h' l ev where h': "add_time_event tr f s = Some (?e, s\<lparr>ev_fresh := ?e + 1, ev_heap := h', time_event_list := l\<rparr>)"
      "evs_rep (s\<lparr>ev_fresh := ?e + 1, ev_heap := h', time_event_list := l\<rparr>) (place s tr ?e ts) fs as"
      "keeps (ev_heap s) h' ?e" "h' ?e = Some ev" "payload ev = (f, EVENT_TIME, 0, Ev_time tr)"
    using add_time_event_ok [OF assms(1)] by blast
  let ?s = "s\<lparr>ev_fresh := ?e + 1, ev_heap := h', time_event_list := l\<rparr>"
  have e: "?e \<notin> set ts" "distinct ts"
    using fresh_notin(1) [OF assms(1)] assms(1) by (auto simp: evs_rep_def)
  have k: "due ?s x = due s x" if "x \<in> set ts" for x
    using due_keeps [of s ?s ?e x] h'(3) that e by auto
  have d: "due ?s ?e = tr" "ev_func ev = f"
    using due_payload [of ?s ?e ev] h'(4,5) by auto
  have "timely ?s (place s tr ?e ts)"
    using place_timely [OF assms(2) e(2), of tr ?e ?s] assms(3) k d(1) by blast
  moreover have "set (place s tr ?e ts) = insert ?e (set ts)"
    using e by (simp add: place_set remove1_idem)
  ultimately show ?thesis
    using h'(1,2,4) d k e(1) by (intro exI [of _ ?e] exI [of _ ?s] exI [of _ "place s tr ?e ts"] exI [of _ ev]) simp
qed

theorem add_time_event_timely_witness:
  defines "s \<equiv> \<lparr>ev_heap = [1 \<mapsto> \<lparr>ev_prev = 0, ev_next = 0, ev_func = (), ev_type = 1, ev_remove = 0,
      ev_ev = Ev_time \<lparr>tv_sec = 7, tv_usec = 0\<rparr>\<rparr>], ev_fresh = 2, time_event_list = 1, fd_event_list = 0, always_event_list = 0\<rparr>"
  shows "\<exists>e s' ts'. add_time_event \<lparr>tv_sec = 5, tv_usec = 3\<rparr> () s = Some (e, s') \<and> evs_rep s' ts' [] [] \<and> timely s' ts'"
proof -
  have "evs_rep s [1] [] []"
    by (auto simp: s_def evs_rep_def list_ok_def dom_ok_def is_time_def fun_upd_apply split: if_splits)
  moreover have "timely s [1]"
    by (simp add: timely_def)
  moreover have "\<forall>x \<in> set [1]. in_range \<lparr>tv_sec = 5, tv_usec = 3\<rparr> (due s x)"
    by (simp add: s_def in_range_def due_def event_time_def usec_def)
  ultimately show ?thesis
    using add_time_event_timely [of s "[1]" "[]" "[]" "\<lparr>tv_sec = 5, tv_usec = 3\<rparr>" "()"] by blast
qed

text \<open>
  Rescheduling a timer that is in the list moves exactly that timer: the list keeps its members
  and its order by time, the timer carries the new time, and nothing else changes.
\<close>

theorem resched_time_event_timely:
  assumes "evs_rep s ts fs as" and "timely s ts" and "e \<in> set ts" and "\<forall>x \<in> set ts. in_range tr (due s x)"
  shows "\<exists>s' ts'. resched_time_event e tr s = Some s' \<and> evs_rep s' ts' fs as \<and> timely s' ts' \<and>
    set ts' = set ts \<and> due s' e = tr \<and> (\<forall>x \<in> set ts. x \<noteq> e \<longrightarrow> due s' x = due s x)"
proof -
  have l: "list_ok is_time (ev_heap s) (time_event_list s) ts" and d: "distinct (ts @ fs @ as)"
    using assms(1) by (auto simp: evs_rep_def)
  obtain ev where ev: "ev_heap s e = Some ev" "ev_type ev = EVENT_TIME"
    using l assms(3) dseg_mem [of "ev_heap s" 0 "time_event_list s" ts 0 e] by (auto simp: list_ok_def is_time_def)
  have "e \<notin> set fs \<union> set as"
    using d assms(3) by auto
  then obtain h' a ev' where h': "resched_time_event e tr s = Some (s\<lparr>ev_heap := h', time_event_list := a\<rparr>)"
      "evs_rep (s\<lparr>ev_heap := h', time_event_list := a\<rparr>) (place s tr e ts) fs as" "keeps (ev_heap s) h' e"
      "h' e = Some ev'" "payload ev' = (ev_func ev, EVENT_TIME, 0, Ev_time tr)"
    using resched_rep [OF assms(1) ev] assms(3) by blast
  let ?s = "s\<lparr>ev_heap := h', time_event_list := a\<rparr>"
  have k: "due ?s x = due s x" if "x \<noteq> e" for x
    using due_keeps [of s ?s e x] h'(3) that by simp
  have de: "due ?s e = tr"
    using due_payload [of ?s e ev'] h'(4,5) by auto
  have "timely ?s (place s tr e ts)"
    using place_timely [OF assms(2) _, of tr e ?s] assms(4) d k de by auto
  moreover have "set (place s tr e ts) = set ts"
    using assms(3) d by (auto simp: place_set)
  ultimately show ?thesis
    using h'(1,2) k de by (intro exI [of _ ?s] exI [of _ "place s tr e ts"]) simp
qed

theorem resched_time_event_timely_witness:
  defines "s \<equiv> \<lparr>ev_heap = [1 \<mapsto> \<lparr>ev_prev = 0, ev_next = 2, ev_func = (), ev_type = 1, ev_remove = 0,
      ev_ev = Ev_time \<lparr>tv_sec = 7, tv_usec = 0\<rparr>\<rparr>, 2 \<mapsto> \<lparr>ev_prev = 1, ev_next = 0, ev_func = (), ev_type = 1, ev_remove = 0,
      ev_ev = Ev_time \<lparr>tv_sec = 8, tv_usec = 0\<rparr>\<rparr>], ev_fresh = 3, time_event_list = 1, fd_event_list = 0, always_event_list = 0\<rparr>"
  shows "\<exists>s' ts'. resched_time_event 1 \<lparr>tv_sec = 9, tv_usec = 0\<rparr> s = Some s' \<and> evs_rep s' ts' [] [] \<and> timely s' ts' \<and>
    set ts' = {1, 2}"
proof -
  have "evs_rep s [1, 2] [] []"
    by (auto simp: s_def evs_rep_def list_ok_def dom_ok_def is_time_def fun_upd_apply split: if_splits)
  moreover have "timely s [1, 2]"
    by (simp add: s_def timely_def due_def event_time_def usec_def)
  moreover have "\<forall>x \<in> set [1, 2]. in_range \<lparr>tv_sec = 9, tv_usec = 0\<rparr> (due s x)"
    by (simp add: s_def in_range_def due_def event_time_def usec_def)
  ultimately show ?thesis
    using resched_time_event_timely [of s "[1, 2]" "[]" "[]" 1 "\<lparr>tv_sec = 9, tv_usec = 0\<rparr>"] by auto
qed

text \<open>
  C30. Removing an event of any of the three lists does not fault and unlinks exactly that event from
  its list; the other events stay linked in their order and keep their callbacks and times, the
  removed one included.
\<close>

theorem remove_event_unlinks:
  assumes "evs_rep s ts fs as" and "e \<in> set ts \<union> set fs \<union> set as"
  shows "\<exists>s'. remove_event e s = Some s' \<and> evs_rep s' (remove1 e ts) (remove1 e fs) (remove1 e as) \<and>
    (\<forall>x. map_option payload (ev_heap s' x) = map_option payload (ev_heap s x)) \<and> ev_fresh s' = ev_fresh s"
  using remove_event_ok [OF assms] by (auto simp: relinked_def)

theorem remove_event_unlinks_witness:
  defines "s \<equiv> \<lparr>ev_heap = [1 \<mapsto> \<lparr>ev_prev = 0, ev_next = 2, ev_func = (), ev_type = 3, ev_remove = 0, ev_ev = Ev_unset\<rparr>,
      2 \<mapsto> \<lparr>ev_prev = 1, ev_next = 0, ev_func = (), ev_type = 3, ev_remove = 0, ev_ev = Ev_unset\<rparr>],
      ev_fresh = 3, time_event_list = 0, fd_event_list = 0, always_event_list = 1\<rparr>"
  shows "\<exists>s'. remove_event 2 s = Some s' \<and> evs_rep s' [] [] [1]"
proof -
  have "evs_rep s [] [] [1, 2]"
    by (auto simp: s_def evs_rep_def list_ok_def dom_ok_def is_always_def fun_upd_apply split: if_splits)
  then show ?thesis
    using remove_event_unlinks [of s "[]" "[]" "[1, 2]" 2] by auto
qed

text \<open>
  A time \<open>msec\<close> milliseconds ahead is \<open>msec\<close> milliseconds away: \<open>time_diff\<close> measures what
  \<open>time_add\<close> adds, for every non-negative \<open>int\<close>, although \<open>time_add\<close> does not normalise the
  microseconds.
\<close>

theorem time_add_diff:
  assumes "0 \<le> msec" and "msec < 2 ^ 31"
  shows "time_diff now (time_add now msec) = msec"
  using assms by (rule diff_of_add)

theorem time_add_diff_witness:
  "time_diff \<lparr>tv_sec = 3, tv_usec = 999999\<rparr> (time_add \<lparr>tv_sec = 3, tv_usec = 999999\<rparr> 30500) = 30500"
  using time_add_diff [of 30500] by simp

end
