(* ===== verification/World.thy ===== *)
theory World
  imports Ringbuf Rbtree Pbuf Event
begin

text \<open>
  The structures of the daemon and its global state. The state extends the event queue of
  \<^verbatim>\<open>Event\<close>, so an event operation applies to it directly.

  \<^item> \<open>tcb\<close> is \<open>struct tcb\<close> of \<^verbatim>\<open>src/tcb.h\<close> without its \<open>rb_node\<close>, which lives at the same
    address (it is the first member) in the memory of the tree \<open>tcblist\<close>, and without the debug
    stream \<open>fp\<close>. The two ring buffers belong to one tcb each and are part of it (\<open>None\<close> is NULL).
  \<^item> \<open>cb\<close> says whether the callback pointer of a tcb is set: the program has one callback table.
  \<^item> A callback of the event queue is a function with its data pointer: a value of \<open>callback\<close>.
  \<^item> \<open>iface\<close> is \<open>struct iface\<close> of \<^verbatim>\<open>src/if.h\<close> with its driver functions; what a driver writes to
    its file descriptor is appended to \<open>sent\<close>.
  \<^item> \<open>now\<close> is the value \<open>gettimeofday\<close> returns.
\<close>

datatype callback =
    Do_tcb_write ptr
  | Tcp_timeout ptr
  | Tcp_remove ptr
  | Handle_fd_can_read nat
  | Handle_fd_can_write nat
  | Handle_fd_did_connect nat
  | Remove_udp_map nat
  | Handle_udp_read nat
  | Iface_read

abbreviation (input) TCP_CLOSED :: int where "TCP_CLOSED \<equiv> 0"
abbreviation (input) TCP_LISTEN :: int where "TCP_LISTEN \<equiv> 1"
abbreviation (input) TCP_SYN_SENT :: int where "TCP_SYN_SENT \<equiv> 2"
abbreviation (input) TCP_SYN_RECVD :: int where "TCP_SYN_RECVD \<equiv> 3"
abbreviation (input) TCP_ESTABLISHED :: int where "TCP_ESTABLISHED \<equiv> 4"
abbreviation (input) TCP_FIN_WAIT_1 :: int where "TCP_FIN_WAIT_1 \<equiv> 5"
abbreviation (input) TCP_FIN_WAIT_2 :: int where "TCP_FIN_WAIT_2 \<equiv> 6"
abbreviation (input) TCP_CLOSE_WAIT :: int where "TCP_CLOSE_WAIT \<equiv> 7"
abbreviation (input) TCP_CLOSING :: int where "TCP_CLOSING \<equiv> 8"
abbreviation (input) TCP_LAST_ACK :: int where "TCP_LAST_ACK \<equiv> 9"
abbreviation (input) TCP_TIME_WAIT :: int where "TCP_TIME_WAIT \<equiv> 10"

record tcb =
  state :: int
  laddr :: "byte list"
  lport :: int
  raddr :: "byte list"
  rport :: int
  inbuf :: "ringbuf option"
  outbuf :: "ringbuf option"
  app_data :: nat
  cb :: bool
  snd_una :: u32
  snd_nxt :: u32
  snd_wnd :: u32
  snd_cwnd :: u32
  snd_max :: u32
  iss :: u32
  mss :: u32
  rcv_nxt :: u32
  rcv_wnd :: u32
  irs :: u32
  last_acked :: u32
  timeout_mark :: u32
  rtt_mark :: u32
  rtt_limit :: u32
  rtt_time :: timeval
  srtt :: int
  sdev :: int
  start_time :: timeval
  atime :: timeval
  packets :: u32
  read_seq :: u32
  e_tcb_send :: eptr
  e_timeout :: eptr

abbreviation (input) ND_INCOMPLETE :: int where "ND_INCOMPLETE \<equiv> 0"
abbreviation (input) ND_REACHABLE :: int where "ND_REACHABLE \<equiv> 1"

text \<open>\<open>linkaddr\<close> is \<open>None\<close> until something is copied there: \<open>add_neighbor\<close> does not clear it.\<close>

record neighbor =
  n_queue :: "pbuf list"
  n_state :: int
  n_addr :: "byte list"
  n_linkaddr :: "byte list option"

record tcp_map =
  m_fd :: int
  m_tcb :: ptr
  e_fd_read :: eptr
  e_fd_write :: eptr

record udp_socket =
  us_laddr :: "byte list"
  us_lport :: int

record udp_map =
  um_fd :: int
  um_raddr :: "byte list"
  um_rport :: int
  um_e_fd_read :: eptr
  um_e_stale :: eptr

record iface =
  hwaddr_len :: int
  mtu :: int
  get_hwaddr :: "byte list option"
  get_buffer :: "int \<Rightarrow> pbuf"
  send_unicast :: "pbuf \<Rightarrow> byte list option \<Rightarrow> byte list option"
  send_multicast :: "pbuf \<Rightarrow> byte list \<Rightarrow> byte list option"

text \<open>
  Calls to the host's socket interface that the model records, in the order they are made. An IPv4
  address is its four bytes.
\<close>

datatype host_call =
    Close int
  | Connect int "byte list" int
  | Write int "byte list"
  | Sendto int "byte list" "byte list" int

record world = "callback evs" +
  now :: timeval
  tcbs :: "ptr \<rightharpoonup> tcb"
  tcblist :: rbs
  isn :: u32
  nlist :: "neighbor list"
  sent :: "byte list list"
  maps :: "nat \<rightharpoonup> tcp_map"
  tlist :: "nat list"
  num_tcp_maps :: int
  socks :: "nat \<rightharpoonup> udp_socket"
  udp_list :: "nat list"
  udp_listener :: nat
  umaps :: "nat \<rightharpoonup> udp_map"
  ulist :: "nat list"
  calls :: "host_call list"

definition zero_time :: timeval where
  "zero_time = \<lparr>tv_sec = 0, tv_usec = 0\<rparr>"

text \<open>The state when \<open>main\<close> starts: every global is zero.\<close>

definition start_world :: "timeval \<Rightarrow> world" where
  "start_world tv =
     \<lparr>ev_heap = Map.empty, ev_fresh = 1, time_event_list = 0, fd_event_list = 0, always_event_list = 0,
      now = tv, tcbs = Map.empty, tcblist = \<lparr>nodes = Map.empty, root = 0\<rparr>, isn = 0, nlist = [], sent = [],
      maps = Map.empty, tlist = [], num_tcp_maps = 0, socks = Map.empty, udp_list = [], udp_listener = 0, umaps = Map.empty,
      ulist = [], calls = []\<rparr>"

end
