(* ===== verification/Link.thy ===== *)
theory Link
  imports World
begin

text \<open>
  The link layer (\<^verbatim>\<open>src/if.c\<close>, \<^verbatim>\<open>src/ether.c\<close>, \<^verbatim>\<open>src/if_tuntap.c\<close> as built on Linux, where
  \<open>HAVE_LINUX_IF_TUN_H\<close> is defined). A driver is an \<open>iface\<close> record of functions. Sending a packet
  consumes its buffer and yields the frame that is written to the device.

  The locale \<open>link_driver\<close> is what the protocol code relies on: a buffer from \<open>get_buffer\<close> is
  zeroed and has room for the headers of the driver, and sending writes those headers followed by the
  packet. The tun and the tap driver are instances.
\<close>

abbreviation (input) ETH_P_IPV6 :: int where "ETH_P_IPV6 \<equiv> 0x86dd"
abbreviation (input) ETHERNET_IPV6_TYPE :: int where "ETHERNET_IPV6_TYPE \<equiv> 0x86dd"

subsection \<open>Driver registry\<close>

datatype driver = Drv_tun | Drv_tap | Drv_802ip | Drv_uml_sw

type_synonym ifdrv = "string \<times> driver"

definition register_iface_driver :: "string \<Rightarrow> driver \<Rightarrow> ifdrv list \<Rightarrow> ifdrv list" where
  "register_iface_driver name create_func drvlist = (take 128 name, create_func) # drvlist"

fun create_iface :: "string \<Rightarrow> ifdrv list \<Rightarrow> driver option" where
  "create_iface name [] = None"
| "create_iface name (drv # drvs) = (if fst drv = name then Some (snd drv) else create_iface name drvs)"

definition tuntap_register :: "ifdrv list \<Rightarrow> ifdrv list" where
  "tuntap_register ds = register_iface_driver ''tap'' Drv_tap (register_iface_driver ''tun'' Drv_tun ds)"

definition init_iface_drivers :: "ifdrv list \<Rightarrow> ifdrv list" where
  "init_iface_drivers ds =
     (let ds = tuntap_register ds;
          ds = register_iface_driver ''802ip'' Drv_802ip ds
      in register_iface_driver ''uml_sw'' Drv_uml_sw ds)"

subsection \<open>The tun and tap device\<close>

text \<open>
  \<open>get_tun\<close>: \<open>open_fd\<close> is the result of opening \<^verbatim>\<open>/dev/net/tun\<close>, \<open>set_iff\<close> that of the
  \<open>TUNSETIFF\<close> call on a name and a mode, with the name the kernel chose. The requested name is copied
  into the 16 bytes of \<open>ifr_name\<close> without a check of its length.
\<close>

record tun_dev =
  open_fd :: int
  set_iff :: "string \<Rightarrow> bool \<Rightarrow> int \<times> string"

definition get_tun :: "tun_dev \<Rightarrow> string option \<Rightarrow> bool \<Rightarrow> (int + string \<times> int) option" where
  "get_tun k reqdev tap =
     (if open_fd k < 0 then Some (Inl 1)
      else do {
        name \<leftarrow> (case reqdev of None \<Rightarrow> Some [] | Some s \<Rightarrow> if length s < 16 then Some s else None);
        let (ret, ifr_name) = set_iff k name tap;
        if ret < 0 then Some (Inl 1) else Some (Inr (ifr_name, open_fd k))
      })"

text \<open>\<open>write (fd, p->d, p->dlen)\<close>: the bytes that are written.\<close>

definition pb_write :: "pbuf \<Rightarrow> byte list option" where
  "pb_write p = (if 0 \<le> pb_dlen p then mem_sub (pb_d p) 0 (nat (pb_dlen p)) else None)"

text \<open>
  \<open>rd\<close> is what \<open>read\<close> delivers: \<open>None\<close> an error, after which the program exits with status 1
  (\<open>Inl 1\<close>), otherwise the datagram at the head of the device queue, of which \<open>read\<close> returns what
  fits.
\<close>

definition tuntap_do_read :: "byte list option \<Rightarrow> pbuf \<Rightarrow> (int + int \<times> pbuf) option" where
  "tuntap_do_read rd p =
     (case rd of
        None \<Rightarrow> Some (Inl 1)
      | Some data \<Rightarrow> do {
          let data = take (nat (pb_max p)) data;
          d \<leftarrow> mem_put (pb_d p) 0 data;
          let p = (pb_set p d)\<lparr>pb_dlen := int (length data)\<rparr>;
          if pb_dlen p > 4 then do {
            ty \<leftarrow> GET_16 (pb_d p) 2;
            if ty = ETH_P_IPV6 then Some (Inr (0, snd (pbuf_drop p 4))) else Some (Inr (- 1, p))
          }
          else Some (Inr (- 1, p))
        })"

definition tuntap_do_send :: "pbuf \<Rightarrow> byte list option" where
  "tuntap_do_send p = do {
     let p = snd (pbuf_raise p 4);
     d \<leftarrow> mem_put (pb_d p) 0 [0, 0];
     d \<leftarrow> PUT_16 d 2 ETH_P_IPV6;
     pb_write (pb_set p d)
   }"

subsection \<open>tun\<close>

definition tun_get_buf :: "int \<Rightarrow> pbuf" where
  "tun_get_buf sz = snd (pbuf_drop (pbuf_new (sz + 4)) 4)"

definition tun_send :: "pbuf \<Rightarrow> byte list option" where
  "tun_send p = tuntap_do_send p"

text \<open>
  \<open>get_hwaddr\<close> is left unset by the driver, and is never called because \<open>hwaddr_len\<close> is 0.
\<close>

definition tun_iface :: iface where
  "tun_iface = \<lparr>hwaddr_len = 0, mtu = 1280, get_hwaddr = None, get_buffer = tun_get_buf,
     send_unicast = (\<lambda>p d. tun_send p), send_multicast = (\<lambda>p d. tun_send p)\<rparr>"

definition tun_new_if :: "tun_dev \<Rightarrow> string option \<Rightarrow> world \<Rightarrow> (int + (string \<times> iface) \<times> world) option" where
  "tun_new_if k dev w = do {
     r \<leftarrow> get_tun k dev False;
     (case r of
        Inl n \<Rightarrow> Some (Inl n)
      | Inr (devname, fd) \<Rightarrow> do {
          (_, w) \<leftarrow> add_fd_event fd 0 Iface_read w;
          Some (Inr ((devname, tun_iface), w))
        })
   }"

text \<open>
  \<open>handle\<close> is the packet handler the driver was created with (\<open>Inl\<close> if it ends the program).
\<close>

definition tun_read_callback ::
    "iface \<Rightarrow> byte list option \<Rightarrow> (pbuf \<Rightarrow> 'w \<Rightarrow> (int + 'w) option) \<Rightarrow> 'w \<Rightarrow> (int + int \<times> 'w) option" where
  "tun_read_callback ifc rd handle w = do {
     let pkt = pbuf_new (mtu ifc + 4);
     r \<leftarrow> tuntap_do_read rd pkt;
     (case r of
        Inl n \<Rightarrow> Some (Inl n)
      | Inr (rc, pkt) \<Rightarrow> do {
          r \<leftarrow> (if rc = 0 then handle pkt w else Some (Inr w));
          Some (map_sum id (Pair 1) r)
        })
   }"

subsection \<open>Ethernet\<close>

record iface_ether =
  ife_hwaddr :: "byte list"
  head_size :: int

definition ether_get_hwaddr :: "iface_ether \<Rightarrow> byte list" where
  "ether_get_hwaddr i = ife_hwaddr i"

definition ether_get_buffer :: "iface_ether \<Rightarrow> int \<Rightarrow> pbuf" where
  "ether_get_buffer i sz = snd (pbuf_drop (pbuf_new (sz + head_size i)) (head_size i))"

definition ether_send_unicast ::
    "iface_ether \<Rightarrow> (pbuf \<Rightarrow> byte list option) \<Rightarrow> pbuf \<Rightarrow> byte list option \<Rightarrow> byte list option" where
  "ether_send_unicast i send_frame p hwdest = do {
     let p = snd (pbuf_raise p 14);
     dst \<leftarrow> hwdest;
     d \<leftarrow> memcpy (pb_d p) 0 dst 0 6;
     d \<leftarrow> memcpy d 6 (ife_hwaddr i) 0 6;
     d \<leftarrow> PUT_16 d 12 ETHERNET_IPV6_TYPE;
     send_frame (pb_set p d)
   }"

definition ether_send_multicast ::
    "iface_ether \<Rightarrow> (pbuf \<Rightarrow> byte list option) \<Rightarrow> pbuf \<Rightarrow> byte list \<Rightarrow> byte list option" where
  "ether_send_multicast i send_frame p dest = do {
     let p = snd (pbuf_raise p 14);
     d \<leftarrow> mem_put (pb_d p) 0 [0x33, 0x33];
     d \<leftarrow> memcpy d 2 dest 12 4;
     d \<leftarrow> memcpy d 6 (ife_hwaddr i) 0 6;
     d \<leftarrow> PUT_16 d 12 ETHERNET_IPV6_TYPE;
     send_frame (pb_set p d)
   }"

text \<open>The result of the \<open>memcmp\<close> with the source address is discarded; the bytes are read.\<close>

definition ether_pkt_in :: "(pbuf \<Rightarrow> 'w \<Rightarrow> (int + 'w) option) \<Rightarrow> pbuf \<Rightarrow> 'w \<Rightarrow> (int + 'w) option" where
  "ether_pkt_in handle pkt w = do {
     ty \<leftarrow> GET_16 (pb_d pkt) 12;
     if ty = ETHERNET_IPV6_TYPE then do {
       _ \<leftarrow> mem_sub (pb_d pkt) 6 6;
       handle (snd (pbuf_drop pkt 14)) w
     }
     else Some (Inr w)
   }"

definition ether_setup :: "iface_ether \<Rightarrow> (pbuf \<Rightarrow> byte list option) \<Rightarrow> iface" where
  "ether_setup i send_frame =
     \<lparr>hwaddr_len = 6, mtu = 1500, get_hwaddr = Some (ether_get_hwaddr i), get_buffer = ether_get_buffer i,
      send_unicast = ether_send_unicast i send_frame, send_multicast = ether_send_multicast i send_frame\<rparr>"

subsection \<open>tap\<close>

definition tap_send_frame :: "pbuf \<Rightarrow> byte list option" where
  "tap_send_frame p = tuntap_do_send p"

text \<open>\<open>ether_setup\<close> sets \<open>head_size\<close> to 14, \<open>tap_new_if\<close> adds 4.\<close>

definition tap_ether :: iface_ether where
  "tap_ether = \<lparr>ife_hwaddr = [0x2, 0x0, 0x12, 0x34, 0x56, 0x78], head_size = 14 + 4\<rparr>"

definition tap_iface :: iface where
  "tap_iface = (ether_setup tap_ether tap_send_frame)\<lparr>mtu := 1280\<rparr>"

definition tap_new_if :: "tun_dev \<Rightarrow> string option \<Rightarrow> world \<Rightarrow> (int + (string \<times> iface) \<times> world) option" where
  "tap_new_if k dev w = do {
     r \<leftarrow> get_tun k dev True;
     (case r of
        Inl n \<Rightarrow> Some (Inl n)
      | Inr (devname, fd) \<Rightarrow> do {
          (_, w) \<leftarrow> add_fd_event fd 0 Iface_read w;
          Some (Inr ((devname, tap_iface), w))
        })
   }"

text \<open>
  The result of \<open>tuntap_do_read\<close> is discarded. \<open>recv_frame\<close> is the function of that name in the
  interface record; \<open>ether_setup\<close> sets it to \<open>ether_pkt_in\<close>, \<^verbatim>\<open>tap802ipd.c\<close> to its own.
\<close>

definition tap_read_callback ::
    "iface_ether \<Rightarrow> iface \<Rightarrow> byte list option \<Rightarrow> (pbuf \<Rightarrow> 'w \<Rightarrow> (int + 'w) option) \<Rightarrow> 'w \<Rightarrow> (int + int \<times> 'w) option" where
  "tap_read_callback i ifc rd recv_frame w = do {
     let p = pbuf_new (mtu ifc + head_size i);
     let p = snd (pbuf_drop p (head_size i - 14));
     r \<leftarrow> tuntap_do_read rd p;
     (case r of
        Inl n \<Rightarrow> Some (Inl n)
      | Inr (rc, p) \<Rightarrow> do {
          r \<leftarrow> recv_frame p w;
          Some (map_sum id (Pair 1) r)
        })
   }"


subsection \<open>The interface of a driver\<close>

locale link_driver =
  fixes ifc :: iface and head :: int
  assumes head_pos: "0 \<le> head"
    and hwaddr_law: "0 \<le> hwaddr_len ifc" "hwaddr_len ifc \<le> 6"
      "0 < hwaddr_len ifc \<Longrightarrow> \<exists>a. get_hwaddr ifc = Some a \<and> int (length a) = hwaddr_len ifc"
    and get_buffer_law: "0 \<le> n \<Longrightarrow> pbuf_ok (get_buffer ifc n) \<and> pb_offset (get_buffer ifc n) = head \<and>
      pb_d (get_buffer ifc n) = replicate (nat n) 0"
    and unicast_law: "pbuf_ok p \<Longrightarrow> head \<le> pb_offset p \<Longrightarrow> 0 \<le> pb_dlen p \<Longrightarrow>
      0 < hwaddr_len ifc \<Longrightarrow> hwaddr_len ifc \<le> int (length a) \<Longrightarrow>
      \<exists>hdr. int (length hdr) = head \<and> send_unicast ifc p (Some a) = Some (hdr @ packet p)"
    and unicast_null_law: "pbuf_ok p \<Longrightarrow> head \<le> pb_offset p \<Longrightarrow> 0 \<le> pb_dlen p \<Longrightarrow> hwaddr_len ifc = 0 \<Longrightarrow>
      \<exists>hdr. int (length hdr) = head \<and> send_unicast ifc p None = Some (hdr @ packet p)"
    and multicast_law: "pbuf_ok p \<Longrightarrow> head \<le> pb_offset p \<Longrightarrow> 0 \<le> pb_dlen p \<Longrightarrow> 16 \<le> length a \<Longrightarrow>
      \<exists>hdr. int (length hdr) = head \<and> send_multicast ifc p a = Some (hdr @ packet p)"

subsection \<open>Headers in front of a packet\<close>

lemma mem_put_mid:
  assumes "length a = i" "length b = length d"
  shows "mem_put (a @ b @ c) i d = Some (a @ d @ c)"
  using assms by (auto simp: mem_put_def)

lemma memcpy_mid:
  assumes "length a = nat i" "length b = nat n" "0 \<le> i" "0 \<le> n" "0 \<le> j" "nat j + nat n \<le> length src"
  shows "memcpy (a @ b @ c) i src j n = Some (a @ take (nat n) (drop (nat j) src) @ c)"
  using assms by (simp add: memcpy_eq_Some)

lemma PUT_16_mid:
  assumes "length a = i" "length b = 2"
  shows "PUT_16 (a @ b @ c) i v = Some (a @ [word_of_int (drop_bit 8 v AND 0xff), word_of_int (v AND 0xff)] @ c)"
  using assms by (simp add: PUT_16_def mem_put_mid)

lemma raise_split:
  assumes "pbuf_ok p" "0 \<le> len" "len \<le> pb_offset p"
  shows "\<exists>pre. int (length pre) = len \<and> pb_d (snd (pbuf_raise p len)) = pre @ pb_d p \<and>
    pbuf_ok (snd (pbuf_raise p len)) \<and> pb_dlen (snd (pbuf_raise p len)) = pb_dlen p + len \<and>
    pb_offset (snd (pbuf_raise p len)) = pb_offset p - len"
proof -
  let ?o = "nat (pb_offset p)" and ?l = "nat len"
  have o: "?o \<le> length (pb_buf p)" "?l \<le> ?o"
    using assms by (auto simp: pbuf_ok_def)
  have "drop (?o - ?l) (pb_buf p) = take ?l (drop (?o - ?l) (pb_buf p)) @ drop ?o (pb_buf p)"
    using o append_take_drop_id [of ?l "drop (?o - ?l) (pb_buf p)"] by simp
  then show ?thesis
    using assms o pbuf_raise_ok [OF assms(1,2)]
    by (intro exI [of _ "take ?l (drop (?o - ?l) (pb_buf p))"])
      (auto simp: pbuf_raise_def pb_d_def Let_def nat_diff_distrib)
qed

lemma packet_d:
  assumes "pbuf_ok p" "0 \<le> pb_dlen p"
  shows "\<exists>rest. pb_d p = packet p @ rest" "int (length (packet p)) = pb_dlen p"
proof -
  show "\<exists>rest. pb_d p = packet p @ rest"
    unfolding packet_def by (metis append_take_drop_id)
  show "int (length (packet p)) = pb_dlen p"
    using assms length_pb_d [OF assms(1)] by (auto simp: packet_def pbuf_ok_def)
qed

text \<open>Writing a header into the space in front of the packet.\<close>

lemma pb_write_header:
  assumes p: "pbuf_ok p" "0 \<le> pb_dlen p" "0 \<le> len" "len \<le> pb_offset p" and h: "int (length hdr) = len"
  defines "q \<equiv> pb_set (snd (pbuf_raise p len)) (hdr @ pb_d p)"
  shows "pbuf_ok q" "packet q = hdr @ packet p" "pb_dlen q = pb_dlen p + len" "pb_offset q = pb_offset p - len"
    "pb_write q = Some (hdr @ packet p)"
proof -
  obtain pre where r: "int (length pre) = len" "pb_d (snd (pbuf_raise p len)) = pre @ pb_d p"
      "pbuf_ok (snd (pbuf_raise p len))" "pb_dlen (snd (pbuf_raise p len)) = pb_dlen p + len"
      "pb_offset (snd (pbuf_raise p len)) = pb_offset p - len"
    using raise_split [OF p(1,3,4)] by blast
  have "length (hdr @ pb_d p) = length (pb_d (snd (pbuf_raise p len)))"
    using h r(1,2) by simp
  note q = pb_set_ok [OF r(3) this, folded q_def]
  show "pbuf_ok q" "pb_dlen q = pb_dlen p + len" "pb_offset q = pb_offset p - len"
    using q r by simp_all
  obtain rest where rest: "pb_d p = packet p @ rest" "int (length (packet p)) = pb_dlen p"
    using packet_d [OF p(1,2)] by blast
  have n: "nat (pb_dlen p + len) = length (hdr @ packet p)"
    using h rest(2) by simp
  show "packet q = hdr @ packet p"
    unfolding packet_def [of q] using q r(4) n rest(1) by simp
  then show "pb_write q = Some (hdr @ packet p)"
    using p(2,3) q(1-3) r(4) n length_pb_d [OF q(1)] rest(1) unfolding pb_write_def packet_def [of q]
    by (auto simp: mem_sub_def)
qed

lemma tuntap_do_send_ok:
  assumes "pbuf_ok p" "4 \<le> pb_offset p" "0 \<le> pb_dlen p"
  shows "tuntap_do_send p = Some ([0, 0, 0x86, 0xdd] @ packet p)"
proof -
  obtain pre where r: "int (length pre) = 4" "pb_d (snd (pbuf_raise p 4)) = pre @ pb_d p"
    using raise_split [of p 4] assms by auto
  then obtain a b where pre: "pre = a @ b" "length a = 2" "length b = 2"
    by (intro that [of "take 2 pre" "drop 2 pre"]) auto
  have "PUT_16 ([0, 0] @ b @ pb_d p) 2 ETH_P_IPV6 = Some ([0, 0, 0x86, 0xdd] @ pb_d p)"
    using PUT_16_mid [of "[0, 0]" 2 b "pb_d p"] pre by (simp add: drop_bit_eq_div and_0xff)
  moreover have "mem_put (a @ b @ pb_d p) 0 [0, 0] = Some ([0, 0] @ b @ pb_d p)"
    using mem_put_mid [of "[]" 0 a "[0, 0]"] pre by simp
  ultimately have "tuntap_do_send p = pb_write (pb_set (snd (pbuf_raise p 4)) ([0, 0, 0x86, 0xdd] @ pb_d p))"
    using r(2) pre(1) by (simp add: tuntap_do_send_def)
  then show ?thesis
    using pb_write_header(5) [of p 4 "[0, 0, 0x86, 0xdd]"] assms by simp
qed

text \<open>The ethernet header of a packet and of a multicast one.\<close>

definition eth_hdr :: "byte list \<Rightarrow> byte list \<Rightarrow> byte list" where
  "eth_hdr dst src = take 6 dst @ take 6 src @ [0x86, 0xdd]"

lemma ether_hdr_write:
  assumes r: "length pre = 14" and d: "length dst = 6" "6 \<le> length src" and w: "write_dst (pre @ rest) = Some (dst @ drop 6 pre @ rest)"
  shows "do { d \<leftarrow> write_dst (pre @ rest); d \<leftarrow> memcpy d 6 src 0 6; PUT_16 d 12 ETHERNET_IPV6_TYPE } = Some (eth_hdr dst src @ rest)"
proof -
  define a where "a = take 6 (drop 6 pre)"
  define b where "b = drop 12 pre"
  have ab: "drop 6 pre = a @ b" "length a = 6" "length b = 2"
    using r append_take_drop_id [of 6 "drop 6 pre"] by (simp_all add: a_def b_def)
  have "memcpy (dst @ a @ b @ rest) 6 src 0 6 = Some ((dst @ take 6 src) @ b @ rest)"
    using memcpy_mid [of dst 6 a 6 0 src "b @ rest"] d ab by simp
  moreover have "PUT_16 ((dst @ take 6 src) @ b @ rest) 12 ETHERNET_IPV6_TYPE = Some (eth_hdr dst src @ rest)"
    using PUT_16_mid [of "dst @ take 6 src" 12 b rest ETHERNET_IPV6_TYPE] ab(3) d
    by (simp add: eth_hdr_def drop_bit_eq_div and_0xff)
  ultimately show ?thesis
    using w ab(1) by simp
qed

lemma ether_send_unicast_ok:
  assumes p: "pbuf_ok p" "14 \<le> pb_offset p" "0 \<le> pb_dlen p" and i: "6 \<le> length (ife_hwaddr i)" and a: "6 \<le> length a"
  shows "ether_send_unicast i snd_f p (Some a) = snd_f (pb_set (snd (pbuf_raise p 14)) (eth_hdr a (ife_hwaddr i) @ pb_d p))"
proof -
  obtain pre where r: "int (length pre) = 14" "pb_d (snd (pbuf_raise p 14)) = pre @ pb_d p"
    using raise_split [of p 14] p by auto
  have "memcpy (pre @ pb_d p) 0 a 0 6 = Some (take 6 a @ drop 6 pre @ pb_d p)"
    using memcpy_mid [of "[]" 0 "take 6 pre" 6 0 a "drop 6 pre @ pb_d p"] r(1) a
    by (simp only: append_assoc [symmetric] append_take_drop_id) simp
  from ether_hdr_write [of pre "take 6 a" "ife_hwaddr i" "\<lambda>m. memcpy m 0 a 0 6", OF _ _ i this] show ?thesis
    using r a by (auto simp: ether_send_unicast_def Let_def eth_hdr_def bind_eq_Some_conv)
qed

lemma ether_send_multicast_ok:
  assumes p: "pbuf_ok p" "14 \<le> pb_offset p" "0 \<le> pb_dlen p" and i: "6 \<le> length (ife_hwaddr i)" and a: "16 \<le> length a"
  shows "ether_send_multicast i snd_f p a =
    snd_f (pb_set (snd (pbuf_raise p 14)) (eth_hdr ([0x33, 0x33] @ take 4 (drop 12 a)) (ife_hwaddr i) @ pb_d p))"
proof -
  obtain pre where r: "int (length pre) = 14" "pb_d (snd (pbuf_raise p 14)) = pre @ pb_d p"
    using raise_split [of p 14] p by auto
  have s: "pre = take 2 pre @ take 4 (drop 2 pre) @ drop 6 pre"
    using append_take_drop_id [of 2 pre] append_take_drop_id [of 4 "drop 2 pre"] by simp
  have m: "mem_put (pre @ pb_d p) 0 [0x33, 0x33] = Some ([0x33, 0x33] @ take 4 (drop 2 pre) @ drop 6 pre @ pb_d p)"
    using mem_put_mid [of "[]" 0 "take 2 pre" "[0x33, 0x33]" "take 4 (drop 2 pre) @ drop 6 pre @ pb_d p"] r(1)
    by (subst s) simp
  have c: "memcpy ([0x33, 0x33] @ take 4 (drop 2 pre) @ drop 6 pre @ pb_d p) 2 a 12 4 =
      Some ([0x33, 0x33] @ take 4 (drop 12 a) @ drop 6 pre @ pb_d p)"
    using memcpy_mid [of "[0x33, 0x33]" 2 "take 4 (drop 2 pre)" 4 12 a "drop 6 pre @ pb_d p"] r(1) a by simp
  have "do { d \<leftarrow> mem_put (pre @ pb_d p) 0 [0x33, 0x33]; memcpy d 2 a 12 4 } =
      Some (([0x33, 0x33] @ take 4 (drop 12 a)) @ drop 6 pre @ pb_d p)"
    using m c by simp
  from ether_hdr_write [of pre "[0x33, 0x33] @ take 4 (drop 12 a)" "ife_hwaddr i"
      "\<lambda>m. do { d \<leftarrow> mem_put m 0 [0x33, 0x33]; memcpy d 2 a 12 4 }", OF _ _ i this] show ?thesis
    using r a by (auto simp: ether_send_multicast_def Let_def bind_eq_Some_conv)
qed

lemma get_buf_ok:
  assumes "0 \<le> n" "0 \<le> h"
  shows "pbuf_ok (snd (pbuf_drop (pbuf_new (n + h)) h))" "pb_offset (snd (pbuf_drop (pbuf_new (n + h)) h)) = h"
    "pb_d (snd (pbuf_drop (pbuf_new (n + h)) h)) = replicate (nat n) 0"
proof -
  show "pbuf_ok (snd (pbuf_drop (pbuf_new (n + h)) h))"
    using assms by (intro pbuf_drop_ok pbuf_new_ok) auto
  show "pb_offset (snd (pbuf_drop (pbuf_new (n + h)) h)) = h"
    using assms by (simp add: pbuf_drop_def pbuf_new_def)
  show "pb_d (snd (pbuf_drop (pbuf_new (n + h)) h)) = replicate (nat n) 0"
    using assms by (simp add: pbuf_drop_def pbuf_new_def pb_d_def nat_add_distrib)
qed

lemma length_eth_hdr: "6 \<le> length a \<Longrightarrow> 6 \<le> length b \<Longrightarrow> length (eth_hdr a b) = 14"
  by (simp add: eth_hdr_def)

text \<open>
  A driver for ethernet frames: the ethernet header goes in front of the packet and \<open>send_frame\<close> puts
  its own header \<open>pre\<close> in front of that. The tap driver and the drivers over sockets are instances.
\<close>

locale ether_driver =
  fixes i :: iface_ether and send_frame :: "pbuf \<Rightarrow> byte list option" and pre :: "byte list" and m :: int
  assumes hwaddr_size: "length (ife_hwaddr i) = 6"
    and head_law: "head_size i = 14 + int (length pre)"
    and frame_law: "pbuf_ok p \<Longrightarrow> int (length pre) \<le> pb_offset p \<Longrightarrow> 0 \<le> pb_dlen p \<Longrightarrow> send_frame p = Some (pre @ packet p)"
begin

abbreviation eth :: iface where
  "eth \<equiv> (ether_setup i send_frame)\<lparr>mtu := m\<rparr>"

lemma header_frame:
  assumes p: "pbuf_ok p" "head_size i \<le> pb_offset p" "0 \<le> pb_dlen p" and h: "length hdr = 14"
  shows "send_frame (pb_set (snd (pbuf_raise p 14)) (hdr @ pb_d p)) = Some (pre @ hdr @ packet p)"
  using frame_law [of "pb_set (snd (pbuf_raise p 14)) (hdr @ pb_d p)"] pb_write_header [of p 14 hdr] assms head_law by simp

lemma unicast:
  assumes "pbuf_ok p" "head_size i \<le> pb_offset p" "0 \<le> pb_dlen p" "6 \<le> length a"
  shows "send_unicast eth p (Some a) = Some (pre @ eth_hdr a (ife_hwaddr i) @ packet p)"
  using ether_send_unicast_ok [of p i a send_frame] header_frame [of p] assms head_law hwaddr_size
  by (simp add: ether_setup_def length_eth_hdr)

lemma multicast:
  assumes "pbuf_ok p" "head_size i \<le> pb_offset p" "0 \<le> pb_dlen p" "16 \<le> length a"
  shows "send_multicast eth p a = Some (pre @ eth_hdr ([0x33, 0x33] @ take 4 (drop 12 a)) (ife_hwaddr i) @ packet p)"
  using ether_send_multicast_ok [of p i a send_frame] header_frame [of p] assms head_law hwaddr_size
  by (simp add: ether_setup_def length_eth_hdr)

lemma link: "link_driver eth (head_size i)"
proof
  fix n :: int
  assume n: "0 \<le> n"
  show "pbuf_ok (get_buffer eth n) \<and> pb_offset (get_buffer eth n) = head_size i \<and>
      pb_d (get_buffer eth n) = replicate (nat n) 0"
    using get_buf_ok [OF n, of "head_size i"] head_law by (simp add: ether_setup_def ether_get_buffer_def)
next
  fix p :: pbuf and a :: "byte list"
  assume p: "pbuf_ok p" "head_size i \<le> pb_offset p" "0 \<le> pb_dlen p" and a: "hwaddr_len eth \<le> int (length a)"
  have "6 \<le> length a"
    using a by (simp add: ether_setup_def)
  then show "\<exists>hdr. int (length hdr) = head_size i \<and> send_unicast eth p (Some a) = Some (hdr @ packet p)"
    using unicast [OF p, of a] head_law hwaddr_size
    by (intro exI [of _ "pre @ eth_hdr a (ife_hwaddr i)"]) (simp add: length_eth_hdr)
next
  fix p :: pbuf and a :: "byte list"
  assume p: "pbuf_ok p" "head_size i \<le> pb_offset p" "0 \<le> pb_dlen p" and a: "16 \<le> length a"
  then show "\<exists>hdr. int (length hdr) = head_size i \<and> send_multicast eth p a = Some (hdr @ packet p)"
    using multicast [OF p, of a] head_law hwaddr_size
    by (intro exI [of _ "pre @ eth_hdr ([0x33, 0x33] @ take 4 (drop 12 a)) (ife_hwaddr i)"]) (simp add: length_eth_hdr)
qed (use head_law hwaddr_size in \<open>simp_all add: ether_setup_def ether_get_hwaddr_def\<close>)

end

interpretation tap_frames: ether_driver tap_ether tap_send_frame "[0, 0, 0x86, 0xdd]" 1280
  by unfold_locales (simp_all add: tap_ether_def tap_send_frame_def tuntap_do_send_ok)

lemma tap_unicast:
  assumes "pbuf_ok p" "18 \<le> pb_offset p" "0 \<le> pb_dlen p" "6 \<le> length a"
  shows "send_unicast tap_iface p (Some a) = Some ([0, 0, 0x86, 0xdd] @ eth_hdr a (ife_hwaddr tap_ether) @ packet p)"
  using tap_frames.unicast [of p a] assms by (simp add: tap_iface_def tap_ether_def)

interpretation tun: link_driver tun_iface 4
proof
  fix n :: int
  assume n: "0 \<le> n"
  show "pbuf_ok (get_buffer tun_iface n) \<and> pb_offset (get_buffer tun_iface n) = 4 \<and>
      pb_d (get_buffer tun_iface n) = replicate (nat n) 0"
    using get_buf_ok [OF n, of 4] by (simp add: tun_iface_def tun_get_buf_def)
next
  fix p :: pbuf and a :: "byte list"
  assume "pbuf_ok p" "4 \<le> pb_offset p" "0 \<le> pb_dlen p"
  from tuntap_do_send_ok [OF this]
  show "\<exists>hdr. int (length hdr) = 4 \<and> send_unicast tun_iface p None = Some (hdr @ packet p)"
    "\<exists>hdr. int (length hdr) = 4 \<and> send_multicast tun_iface p a = Some (hdr @ packet p)"
    by (auto simp: tun_iface_def tun_send_def intro!: exI [of _ "[0, 0, 0x86, 0xdd]"])
qed (simp_all add: tun_iface_def)

interpretation tap: link_driver tap_iface 18
  using tap_frames.link by (simp add: tap_iface_def tap_ether_def)

subsection \<open>Receiving\<close>

lemma GET_16_mid: "length a = i \<Longrightarrow> GET_16 (a @ x # y # c) i = Some (256 * uint x + uint y)"
  by (simp add: GET_16_def mem_get_def get16_value nth_append)

lemma pb_dlen_simps [simp]: "pb_d (p\<lparr>pb_dlen := n\<rparr>) = pb_d p" "packet (p\<lparr>pb_dlen := n\<rparr>) = take (nat n) (pb_d p)"
  by (simp_all add: pb_d_def packet_def)

lemma pbuf_ok_dlen: "pbuf_ok p \<Longrightarrow> n \<le> pb_max p \<Longrightarrow> pbuf_ok (p\<lparr>pb_dlen := n\<rparr>)"
  by (simp add: pbuf_ok_def)

lemma take_header: "length h = k \<Longrightarrow> k \<le> n \<Longrightarrow> take n (h @ r) = h @ take (n - k) r"
  by simp

lemma tuntap_do_read_ok:
  assumes p: "pbuf_ok p" "4 < pb_max p" and rest: "rest \<noteq> []"
  shows "\<exists>q. tuntap_do_read (Some ([a, b, 0x86, 0xdd] @ rest)) p = Some (Inr (0, q)) \<and> pbuf_ok q \<and>
    packet q = take (nat (pb_max p) - 4) rest \<and> pb_max q = pb_max p - 4 \<and> 0 \<le> pb_dlen q"
proof -
  let ?m = "nat (pb_max p)"
  define data where "data = take ?m ([a, b, 0x86, 0xdd] @ rest)"
  have d: "data = [a, b, 0x86, 0xdd] @ take (?m - 4) rest" "length data \<le> ?m"
    unfolding data_def using p(2) by (intro take_header) simp_all
  have len: "length (pb_d p) = ?m"
    using length_pb_d [OF p(1)] by simp
  define m where "m = data @ drop (length data) (pb_d p)"
  have put: "mem_put (pb_d p) 0 data = Some m" and lm: "length m = length (pb_d p)"
    using d(2) len by (simp_all add: mem_put_def m_def)
  define q where "q = (pb_set p m)\<lparr>pb_dlen := int (length data)\<rparr>"
  note s = pb_set_ok [OF p(1) lm]
  have q: "pbuf_ok q" "pb_d q = m" "pb_dlen q = int (length data)" "pb_max q = pb_max p"
  proof -
    have "int (length data) \<le> pb_max p"
      using d(2) p(2) by linarith
    then show "pbuf_ok q"
      unfolding q_def using s(4) by (intro pbuf_ok_dlen s(1)) simp
    show "pb_d q = m" "pb_dlen q = int (length data)" "pb_max q = pb_max p"
      unfolding q_def using s(2,4) by simp_all
  qed
  have "packet q = data"
    unfolding packet_def q(2,3) by (simp add: m_def)
  then have "packet (snd (pbuf_drop q 4)) = take (?m - 4) rest"
    using packet_drop [OF q(1), of 4] q(4) p(2) d(1) by simp
  moreover have l: "4 < pb_dlen q"
  proof -
    have "0 < length rest" "4 < nat (pb_max p)"
      using p(2) rest by auto
    then show ?thesis
      using q(3) d(1) by simp
  qed
  moreover have "GET_16 (pb_d q) 2 = Some ETH_P_IPV6"
    using GET_16_mid [of "[a, b]" 2 "0x86" "0xdd"] q(2) d(1) by (simp add: m_def)
  then have "tuntap_do_read (Some ([a, b, 0x86, 0xdd] @ rest)) p = Some (Inr (0, snd (pbuf_drop q 4)))"
    unfolding tuntap_do_read_def option.case Let_def data_def [symmetric] put Option.bind.simps q_def [symmetric]
    using l by simp
  ultimately show ?thesis
    using pbuf_drop_ok [OF q(1), of 4] p(2) q(4) by (auto simp: pbuf_drop_def Let_def)
qed

subsection \<open>Properties\<close>

text \<open>
  C20. A packet survives the tap device, up to 1276 bytes. Sending it prepends the tun header and an
  ethernet header; when such a frame is read back the handler gets a well-formed buffer whose packet
  is the first 1276 bytes of the one sent. The read buffer has room for the 1280 bytes of the
  interface's MTU and the ethernet header but not for the four bytes of the tun header, so a
  full-size packet loses its tail.
\<close>

theorem tap_send_read:
  assumes "pbuf_ok p" and "18 \<le> pb_offset p" and "0 \<le> pb_dlen p" and "6 \<le> length a"
  shows "\<exists>frame q. send_unicast tap_iface p (Some a) = Some frame \<and> pbuf_ok q \<and> packet q = take 1276 (packet p) \<and>
    tap_read_callback tap_ether tap_iface (Some frame) (ether_pkt_in handle) w = map_option (map_sum id (Pair 1)) (handle q w)"
proof -
  define hdr where "hdr = eth_hdr a (ife_hwaddr tap_ether)"
  have hdr: "hdr = take 12 hdr @ [0x86, 0xdd]" "length hdr = 14"
    using assms(4) by (simp_all add: hdr_def eth_hdr_def tap_ether_def)
  let ?b = "snd (pbuf_drop (pbuf_new (mtu tap_iface + head_size tap_ether)) (head_size tap_ether - 14))"
  have m: "mtu tap_iface + head_size tap_ether = 1298" "head_size tap_ether - 14 = 4"
    by (simp_all add: tap_iface_def tap_ether_def)
  have b: "pbuf_ok ?b" "pb_max ?b = 1294"
    using pbuf_drop_ok [OF pbuf_new_ok [of 1298], of 4] by (simp_all add: m pbuf_drop_def pbuf_new_def)
  obtain q where q: "tuntap_do_read (Some ([0, 0, 0x86, 0xdd] @ hdr @ packet p)) ?b = Some (Inr (0, q))" "pbuf_ok q"
      "packet q = take 1290 (hdr @ packet p)" "pb_max q = 1290" "0 \<le> pb_dlen q"
    using tuntap_do_read_ok [OF b(1), of "hdr @ packet p" 0 0] b(2) hdr(2) by (cases hdr) auto
  obtain rest where rest: "pb_d q = packet q @ rest"
    using packet_d(1) [OF q(2,5)] by blast
  have pq: "packet q = hdr @ take 1276 (packet p)"
    using q(3) hdr(2) by simp
  have "pb_d q = (take 12 hdr @ [0x86, 0xdd]) @ take 1276 (packet p) @ rest"
    using rest pq hdr(1) by simp
  then have e: "pb_d q = take 12 hdr @ 0x86 # 0xdd # (take 1276 (packet p) @ rest)"
    by simp
  have "ether_pkt_in handle q w = handle (snd (pbuf_drop q 14)) w"
    using GET_16_mid [of "take 12 hdr" 12 "0x86" "0xdd"] e hdr(2) by (simp add: ether_pkt_in_def mem_sub_def)
  moreover have "packet (snd (pbuf_drop q 14)) = take 1276 (packet p)"
    using packet_drop [OF q(2), of 14] q(4) pq hdr(2) by simp
  ultimately show ?thesis
    using q(1) tap_unicast [OF assms] pbuf_drop_ok [OF q(2), of 14]
    by (intro exI [of _ "[0, 0, 0x86, 0xdd] @ hdr @ packet p"] exI [of _ "snd (pbuf_drop q 14)"])
      (auto simp: hdr_def [symmetric] tap_read_callback_def Let_def map_option_case split: option.splits)
qed

theorem tap_send_read_witness:
  "\<exists>frame q. send_unicast tap_iface ((get_buffer tap_iface 1280)\<lparr>pb_dlen := 1280\<rparr>) (Some (replicate 6 9)) = Some frame \<and>
     packet q = replicate 1276 0 \<and>
     tap_read_callback tap_ether tap_iface (Some frame) (ether_pkt_in (\<lambda>q w. Some (Inr w))) (start_world zero_time) = Some (Inr (1, start_world zero_time))"
proof -
  let ?b = "(get_buffer tap_iface 1280)\<lparr>pb_dlen := 1280\<rparr>"
  have b: "pbuf_ok (get_buffer tap_iface 1280)" "pb_offset (get_buffer tap_iface 1280) = 18"
      "pb_d (get_buffer tap_iface 1280) = replicate 1280 0"
    using tap.get_buffer_law [of 1280] by simp_all
  then have "pbuf_ok ?b" "pb_offset ?b = 18" "packet ?b = replicate 1280 0"
    using length_pb_d [OF b(1)] by (simp_all add: pbuf_ok_def packet_def pb_d_def)
  then show ?thesis
    using tap_send_read [of ?b "replicate 6 9" "\<lambda>q w. Some (Inr w)" "start_world zero_time"] by auto
qed

text \<open>
  C21. A packet survives the tun device up to the MTU: the frame sent is the packet behind the four
  bytes of the tun header, and reading it back hands the first 1280 bytes of the packet to the handler
  in a well-formed buffer.
\<close>

theorem tun_send_read:
  assumes "pbuf_ok p" and "4 \<le> pb_offset p" and "0 < pb_dlen p"
  shows "\<exists>frame q. send_unicast tun_iface p None = Some frame \<and> pbuf_ok q \<and> packet q = take 1280 (packet p) \<and>
    tun_read_callback tun_iface (Some frame) handle w = map_option (map_sum id (Pair 1)) (handle q w)"
proof -
  have n: "packet p \<noteq> []"
    using packet_d(2) [OF assms(1)] assms(3) by auto
  have b: "pbuf_ok (pbuf_new 1284)" "pb_max (pbuf_new 1284) = 1284"
    using pbuf_new_ok [of 1284] by (simp_all add: pbuf_new_def)
  obtain q where q: "tuntap_do_read (Some ([0, 0, 0x86, 0xdd] @ packet p)) (pbuf_new 1284) = Some (Inr (0, q))" "pbuf_ok q"
      "packet q = take 1280 (packet p)"
    using tuntap_do_read_ok [OF b(1) _ n, of 0 0] b(2) by auto
  moreover have "send_unicast tun_iface p None = Some ([0, 0, 0x86, 0xdd] @ packet p)"
    using tuntap_do_send_ok [of p] assms by (simp add: tun_iface_def tun_send_def)
  ultimately show ?thesis
    by (intro exI [of _ "[0, 0, 0x86, 0xdd] @ packet p"] exI [of _ q])
      (auto simp: tun_read_callback_def tun_iface_def Let_def map_option_case split: option.splits)
qed

theorem tun_send_read_witness:
  "\<exists>frame q. send_unicast tun_iface ((get_buffer tun_iface 40)\<lparr>pb_dlen := 40\<rparr>) None = Some frame \<and>
     packet q = replicate 40 0 \<and>
     tun_read_callback tun_iface (Some frame) (\<lambda>q w. Some (Inr w)) (start_world zero_time) = Some (Inr (1, start_world zero_time))"
proof -
  let ?b = "(get_buffer tun_iface 40)\<lparr>pb_dlen := 40\<rparr>"
  have b: "pbuf_ok (get_buffer tun_iface 40)" "pb_offset (get_buffer tun_iface 40) = 4"
      "pb_d (get_buffer tun_iface 40) = replicate 40 0"
    using tun.get_buffer_law [of 40] by simp_all
  then have "pbuf_ok ?b" "pb_offset ?b = 4" "packet ?b = replicate 40 0"
    using length_pb_d [OF b(1)] by (simp_all add: pbuf_ok_def packet_def pb_d_def)
  then show ?thesis
    using tun_send_read [of ?b "\<lambda>q w. Some (Inr w)" "start_world zero_time"] by auto
qed

end
