(* ===== verification/Link_Socket.thy ===== *)
theory Link_Socket
  imports Link
begin

text \<open>
  The ethernet drivers over sockets: 802.3 over IP multicast (\<^verbatim>\<open>src/if_802ip.c\<close>) and the switch of
  User Mode Linux (\<^verbatim>\<open>src/if_uml_sw.c\<close>). Both put the ethernet header of \<^verbatim>\<open>ether.c\<close> in front of a
  packet and send the frame as one datagram. The results of the socket calls are parameters.
\<close>

type_synonym sockaddr_in = "byte list \<times> int"

text \<open>
  What both read callbacks do: \<open>rd\<close> is the datagram that \<open>recv\<close> or \<open>recvfrom\<close> delivers, cut to the
  buffer, \<open>None\<close> an error. An empty datagram ends the program too.
\<close>

definition socket_read :: "iface_ether \<Rightarrow> iface \<Rightarrow> byte list option \<Rightarrow> (int + pbuf) option" where
  "socket_read i ifc rd = do {
     let pkt = pbuf_new (mtu ifc + head_size i);
     let pkt = snd (pbuf_drop pkt (head_size i - 14));
     (case rd of
        None \<Rightarrow> Some (Inl 1)
      | Some data \<Rightarrow> do {
          let data = take (nat (pb_max pkt)) data;
          d \<leftarrow> mem_put (pb_d pkt) 0 data;
          if data = [] then Some (Inl 1) else Some (Inr ((pb_set pkt d)\<lparr>pb_dlen := int (length data)\<rparr>))
        })
   }"

subsection \<open>802.3 over IP\<close>

record iface_802ip =
  ip_ife :: iface_ether
  mcast_addr :: sockaddr_in
  mfd :: int
  ufd :: int

definition ip_read_callback ::
    "iface_ether \<Rightarrow> iface \<Rightarrow> byte list option \<Rightarrow> (pbuf \<Rightarrow> 'w \<Rightarrow> (int + 'w) option) \<Rightarrow> 'w \<Rightarrow> (int + int \<times> 'w) option" where
  "ip_read_callback i ifc rd recv_frame w = do {
     r \<leftarrow> socket_read i ifc rd;
     (case r of
        Inl n \<Rightarrow> Some (Inl n)
      | Inr pkt \<Rightarrow> do {
          r \<leftarrow> recv_frame pkt w;
          Some (map_sum id (Pair 1) r)
        })
   }"

text \<open>
  The condition \<open>1 || p->d[0] & 1\<close> is constant: every frame goes to the multicast group. The result is
  the destination and the datagram.
\<close>

definition ip_send_frame :: "iface_802ip \<Rightarrow> pbuf \<Rightarrow> (sockaddr_in \<times> byte list) option" where
  "ip_send_frame i p = do { data \<leftarrow> pb_write p; Some (mcast_addr i, data) }"

text \<open>The loop over the ports: a port in use is skipped, any other error ends the program.\<close>

function bind_port :: "(int \<Rightarrow> int \<times> bool) \<Rightarrow> int \<Rightarrow> int + int" where
  "bind_port bnd port =
     (if port < 0x6500
      then let (r, in_use) = bnd port in
           if r < 0 then (if \<not> in_use then Inl 1 else bind_port bnd (port + 1)) else Inr port
      else Inr port)"
  by pat_completeness auto
termination
  by (relation "measure (\<lambda>(bnd, port). nat (0x6500 - port))") auto

declare bind_port.simps [simp del]

record ip_sys =
  m_socket :: int
  m_reuse :: int
  m_bind :: int
  m_join :: int
  u_socket :: int
  u_ttl :: int
  u_loop :: int
  u_bind :: "int \<Rightarrow> int \<times> bool"

definition ip_group :: sockaddr_in where
  "ip_group = ([239, 192, 168, 1], 1102)"

definition ip_ether :: "int \<Rightarrow> iface_ether" where
  "ip_ether port = \<lparr>ife_hwaddr = [0x02, word_of_int (port AND 0xff), 0xaa, 0xaa, 0xaa, 0xaa], head_size = 14\<rparr>"

definition ip_iface :: "iface_802ip \<Rightarrow> iface" where
  "ip_iface i = (ether_setup (ip_ife i) (\<lambda>p. map_option snd (ip_send_frame i p)))\<lparr>mtu := 1280\<rparr>"

definition ip_new_if :: "ip_sys \<Rightarrow> world \<Rightarrow> (int + iface_802ip \<times> world) option" where
  "ip_new_if k w =
     (if m_socket k < 0 then Some (Inl 1)
      else if m_reuse k < 0 then Some (Inl 1)
      else if m_bind k < 0 then Some (Inl 1)
      else if m_join k < 0 then Some (Inl 1)
      else if u_socket k < 0 then Some (Inl 1)
      else if u_ttl k < 0 then Some (Inl 1)
      else if u_loop k < 0 then Some (Inl 1)
      else case bind_port (u_bind k) 0x6400 of
        Inl n \<Rightarrow> Some (Inl n)
      | Inr port \<Rightarrow>
          if port = 0x6500 then Some (Inl 1)
          else do {
            let i = \<lparr>ip_ife = ip_ether port, mcast_addr = ip_group, mfd = m_socket k, ufd = u_socket k\<rparr>;
            (_, w) \<leftarrow> add_fd_event (mfd i) 0 Iface_read w;
            Some (Inr (i, w))
          })"

subsection \<open>The switch of User Mode Linux\<close>

record iface_uml_sw =
  uml_ife :: iface_ether
  swaddr :: string
  myaddr :: string
  cfd :: int
  dfd :: int

datatype request_type = REQ_NEW_CONTROL

record request =
  req_type :: request_type
  req_addr :: "byte list"
  req_name :: string

definition uml_sw_read_callback ::
    "iface_ether \<Rightarrow> iface \<Rightarrow> byte list option \<Rightarrow> (pbuf \<Rightarrow> 'w \<Rightarrow> (int + 'w) option) \<Rightarrow> 'w \<Rightarrow> (int + int \<times> 'w) option" where
  "uml_sw_read_callback i ifc rd recv_frame w = do {
     r \<leftarrow> socket_read i ifc rd;
     (case r of
        Inl n \<Rightarrow> Some (Inl n)
      | Inr pkt \<Rightarrow> do {
          r \<leftarrow> recv_frame pkt w;
          Some (map_sum id (Pair 1) r)
        })
   }"

definition uml_sw_send_frame :: "iface_uml_sw \<Rightarrow> pbuf \<Rightarrow> (string \<times> byte list) option" where
  "uml_sw_send_frame i p = do { data \<leftarrow> pb_write p; Some (swaddr i, data) }"

definition uml_sw_iface :: "iface_uml_sw \<Rightarrow> iface" where
  "uml_sw_iface i = (ether_setup (uml_ife i) (\<lambda>p. map_option snd (uml_sw_send_frame i p)))\<lparr>mtu := 1280\<rparr>"

text \<open>\<open>%d\<close> of a positive number.\<close>

fun decimal :: "nat \<Rightarrow> string" where
  "decimal n = (if n < 10 then [] else decimal (n div 10)) @ [char_of (48 + n mod 10)]"

declare decimal.simps [simp del]

record uml_sys =
  d_socket :: int
  d_bind :: int
  c_socket :: int
  c_connect :: int
  c_write :: int

definition uml_sw_new_if :: "uml_sys \<Rightarrow> nat \<Rightarrow> world \<Rightarrow> (int + (iface_uml_sw \<times> request) \<times> world) option" where
  "uml_sw_new_if k pid w =
     (let myaddr = ''/tmp/uml_sw.'' @ decimal pid in
      if d_socket k < 0 then Some (Inl 1)
      else if d_bind k < 0 then Some (Inl 1)
      else if c_socket k < 0 then Some (Inl 1)
      else if c_connect k < 0 then Some (Inl 1)
      else do {
        hw \<leftarrow> PUT_32 [0x02, 0, 0, 0, 0, 0] 2 (word_of_nat pid);
        let req = \<lparr>req_type = REQ_NEW_CONTROL, req_addr = hw, req_name = myaddr\<rparr>;
        if c_write k < 0 then Some (Inl 1)
        else do {
          let i = \<lparr>uml_ife = \<lparr>ife_hwaddr = hw, head_size = 14\<rparr>, swaddr = ''/tmp/uml.data'', myaddr = myaddr,
                   cfd = c_socket k, dfd = d_socket k\<rparr>;
          (_, w) \<leftarrow> add_fd_event (dfd i) 0 Iface_read w;
          Some (Inr ((i, req), w))
        }
      })"

subsection \<open>The drivers as links\<close>

lemma frame_is_datagram: "map_option snd (ip_send_frame i p) = pb_write p" "map_option snd (uml_sw_send_frame u p) = pb_write p"
  by (auto simp: ip_send_frame_def uml_sw_send_frame_def split: bind_splits)

lemma pb_write_ok:
  assumes "pbuf_ok p" "0 \<le> pb_dlen p"
  shows "pb_write p = Some (packet p)"
  using assms length_pb_d [OF assms(1)] by (auto simp: pb_write_def packet_def mem_sub_def pbuf_ok_def)

definition mac_ok :: "iface_ether \<Rightarrow> bool" where
  "mac_ok i \<longleftrightarrow> length (ife_hwaddr i) = 6 \<and> head_size i = 14"

lemma socket_frames: "mac_ok i \<Longrightarrow> ether_driver i pb_write []"
  by unfold_locales (simp_all add: mac_ok_def pb_write_ok)

lemma ip_link: "mac_ok (ip_ife i) \<Longrightarrow> link_driver (ip_iface i) 14"
  using ether_driver.link [OF socket_frames, of "ip_ife i" 1280] by (simp add: ip_iface_def frame_is_datagram mac_ok_def)

lemma uml_link: "mac_ok (uml_ife i) \<Longrightarrow> link_driver (uml_sw_iface i) 14"
  using ether_driver.link [OF socket_frames, of "uml_ife i" 1280] by (simp add: uml_sw_iface_def frame_is_datagram mac_ok_def)

interpretation ip_frames: ether_driver "ip_ether port" pb_write "[]" 1280 for port
  by (rule socket_frames) (simp add: mac_ok_def ip_ether_def)

subsection \<open>Set-up\<close>

text \<open>The loop as a search: the first port whose \<open>bind\<close> does not fail with \<open>EADDRINUSE\<close> decides.\<close>

definition first_port :: "(int \<Rightarrow> int \<times> bool) \<Rightarrow> int \<Rightarrow> int option" where
  "first_port bnd lo = find (\<lambda>q. \<not> (fst (bnd q) < 0 \<and> snd (bnd q))) [lo..0x64ff]"

lemma first_port_range:
  assumes "first_port bnd lo = Some q"
  shows "lo \<le> q" "q < 0x6500"
proof -
  have "q \<in> set [lo..0x64ff]"
    using assms unfolding first_port_def find_Some_iff in_set_conv_nth by auto
  then show "lo \<le> q" "q < 0x6500"
    by simp_all
qed

lemma bind_port_first:
  "port \<le> 0x6500 \<Longrightarrow> bind_port bnd port = (case first_port bnd port of
     None \<Rightarrow> Inr 0x6500 | Some q \<Rightarrow> if fst (bnd q) < 0 then Inl 1 else Inr q)"
proof (induction bnd port rule: bind_port.induct)
  case (1 bnd port)
  obtain r u where b: "bnd port = (r, u)"
    by fastforce
  show ?case
  proof (cases "port < 0x6500")
    case True
    then have l: "[port..0x64ff] = port # [port + 1..0x64ff]"
      by (simp add: upto.simps)
    show ?thesis
    proof (cases "r < 0 \<and> u")
      case again: True
      then have "bind_port bnd port = bind_port bnd (port + 1)"
        using True b by (subst bind_port.simps) simp
      then show ?thesis
        using 1(1) [OF True b [symmetric] refl] again True b l by (simp add: first_port_def)
    next
      case False
      then show ?thesis
        using True b l by (subst bind_port.simps) (auto simp: first_port_def)
    qed
  next
    case False
    then show ?thesis
      using 1(2) by (subst bind_port.simps) (simp add: first_port_def)
  qed
qed

lemma bind_port_error: "port \<le> 0x6500 \<Longrightarrow> bind_port bnd port = Inl n \<Longrightarrow> n = 1"
  using bind_port_first [of port bnd] by (auto split: option.splits if_splits)

lemma bind_port_range:
  assumes b: "bind_port bnd lo = Inr q" "q \<noteq> 0x6500" "lo \<le> 0x6500"
  shows "lo \<le> q" "q < 0x6500" "0 \<le> fst (bnd q)"
proof -
  have f: "first_port bnd lo = Some q" "\<not> fst (bnd q) < 0"
    using b bind_port_first [OF b(3), of bnd] by (auto split: option.splits if_splits)
  then show "lo \<le> q" "q < 0x6500" "0 \<le> fst (bnd q)"
    using first_port_range by auto
qed

end
