(* ===== verification/Icmp.thy ===== *)
theory Icmp
  imports Header Link_Socket
begin

text \<open>
  ICMPv6 and neighbour discovery (\<^verbatim>\<open>src/icmp.c\<close>), including \<open>send_pkt\<close>, through which every packet
  leaves the daemon. The neighbour table is the list \<open>nlist\<close> of the state, newest first; a
  neighbour is addressed by its IPv6 address, which is what \<open>find_neighbor\<close> compares. \<open>ifc\<close> is the
  global \<open>iface\<close>.

  \<open>send_pkt\<close> and \<open>icmp_send_ns\<close> call each other: \<open>make_ns\<close> is the part of \<open>icmp_send_ns\<close> that
  builds the packet, so that \<open>send_pkt\<close> can be written as one recursive function.
\<close>

definition mylladdr :: "byte list" where
  "mylladdr = [0xfe, 0x80, 0, 0, 0, 0, 0, 0, 0, 0, 0, 0, 0, 0, 0, 5]"

definition otherlladdr :: "byte list" where
  "otherlladdr = [0xfe, 0x80, 0, 0, 0, 0, 0, 0, 0, 0, 0, 0, 0, 0, 0, 1]"

definition allhostsaddr :: "byte list" where
  "allhostsaddr = [0xff, 0x02, 0, 0, 0, 0, 0, 0, 0, 0, 0, 0, 0, 0, 0, 1]"

subsection \<open>The neighbour table\<close>

definition find_neighbor :: "byte list \<Rightarrow> world \<Rightarrow> neighbor option" where
  "find_neighbor addr w = find (\<lambda>n. n_addr n = addr) (nlist w)"

text \<open>Assignments through a pointer to the neighbour with address \<open>addr\<close>.\<close>

fun upd_first :: "byte list \<Rightarrow> (neighbor \<Rightarrow> neighbor) \<Rightarrow> neighbor list \<Rightarrow> neighbor list" where
  "upd_first addr f [] = []"
| "upd_first addr f (n # ns) = (if n_addr n = addr then f n # ns else n # upd_first addr f ns)"

definition n_upd :: "byte list \<Rightarrow> (neighbor \<Rightarrow> neighbor) \<Rightarrow> world \<Rightarrow> world" where
  "n_upd addr f w = w\<lparr>nlist := upd_first addr f (nlist w)\<rparr>"

text \<open>Here and in \<open>got_neighbor\<close> the log output of \<open>print_neighbor_status\<close> is left out.\<close>

definition add_neighbor :: "iface \<Rightarrow> byte list \<Rightarrow> byte list option \<Rightarrow> world \<Rightarrow> world option" where
  "add_neighbor ifc addr lladdr w = do {
     let st = (if hwaddr_len ifc = 0 \<or> lladdr \<noteq> None then ND_REACHABLE else ND_INCOMPLETE);
     a \<leftarrow> mem_sub addr 0 16;
     la \<leftarrow> (case lladdr of None \<Rightarrow> Some None | Some l \<Rightarrow> do { l \<leftarrow> mem_sub l 0 (nat (hwaddr_len ifc)); Some (Some l) });
     Some (w\<lparr>nlist := \<lparr>n_queue = [], n_state = st, n_addr = a, n_linkaddr = la\<rparr> # nlist w\<rparr>)
   }"

definition queue_packet :: "byte list \<Rightarrow> pbuf \<Rightarrow> world \<Rightarrow> world" where
  "queue_packet addr p w = n_upd addr (\<lambda>n. n\<lparr>n_queue := n_queue n @ [p]\<rparr>) w"

subsection \<open>Headers\<close>

definition make_icmp_hdr ::
    "byte list \<Rightarrow> int \<Rightarrow> byte list \<Rightarrow> byte list \<Rightarrow> byte \<Rightarrow> byte \<Rightarrow> u32 \<Rightarrow> (int \<times> byte list) option" where
  "make_icmp_hdr p len src dst type code val = do {
     let len = len + 48;
     p \<leftarrow> mem_put p 0 (replicate 48 0);
     p \<leftarrow> mem_put p 0 [0x60];
     p \<leftarrow> PUT_16 p 4 (len - 40);
     p \<leftarrow> mem_put p 6 [0x3a];
     p \<leftarrow> mem_put p 7 [0xff];
     p \<leftarrow> memcpy p 8 src 0 16;
     p \<leftarrow> memcpy p 24 dst 0 16;
     p \<leftarrow> mem_put p 40 [type];
     p \<leftarrow> mem_put p 41 [code];
     p \<leftarrow> PUT_32 p 44 val;
     p \<leftarrow> PUT_16 p 42 0;
     sum \<leftarrow> make_cksum p len;
     p \<leftarrow> PUT_16 p 42 (NOT sum);
     Some (len, p)
   }"

text \<open>The link-layer address option of a neighbour message at offset 64, and the offset after it.\<close>

definition put_lladdr_opt :: "iface \<Rightarrow> byte \<Rightarrow> byte list \<Rightarrow> (int \<times> byte list) option" where
  "put_lladdr_opt ifc code d =
     (if hwaddr_len ifc > 0 then do {
        d \<leftarrow> mem_put d 64 [code];
        a \<leftarrow> get_hwaddr ifc;
        d \<leftarrow> mem_put d 66 a;
        let n = (9 + hwaddr_len ifc) div 8;
        d \<leftarrow> mem_put d 65 [word_of_int n];
        Some (64 + 8 * n, d)
      }
      else Some (64, d))"

text \<open>\<open>icmp_send_ns\<close> up to \<open>send_pkt\<close>.\<close>

definition make_ns :: "iface \<Rightarrow> byte list \<Rightarrow> pbuf option" where
  "make_ns ifc dest = do {
     let p = get_buffer ifc 128;
     d \<leftarrow> memcpy (pb_d p) 48 dest 0 16;
     (off, d) \<leftarrow> put_lladdr_opt ifc 0x1 d;
     sna \<leftarrow> memcpy [0xff, 0x02, 0, 0, 0, 0, 0, 0, 0, 0, 0, 0x1, 0xff, 0, 0, 0] 13 dest 13 3;
     (n, d) \<leftarrow> make_icmp_hdr d (off - 48) mylladdr sna 135 0 0;
     Some ((pb_set p d)\<lparr>pb_dlen := n\<rparr>)
   }"

subsection \<open>Sending\<close>

definition frame_out :: "byte list \<Rightarrow> world \<Rightarrow> world" where
  "frame_out f w = w\<lparr>sent := sent w @ [f]\<rparr>"

partial_function (option) send_pkt :: "iface \<Rightarrow> pbuf \<Rightarrow> world \<Rightarrow> world option" where
  "send_pkt ifc p w = do {
     b24 \<leftarrow> mem_get (pb_d p) 24;
     if b24 = 0xff then do {
       dst \<leftarrow> mem_sub (pb_d p) 24 16;
       f \<leftarrow> send_multicast ifc p dst;
       Some (frame_out f w)
     }
     else if hwaddr_len ifc > 0 then do {
       b25 \<leftarrow> mem_get (pb_d p) 25;
       dest \<leftarrow> (if b24 = 0xfe \<and> b25 = 0x80 then mem_sub (pb_d p) 24 16 else Some otherlladdr);
       (case find_neighbor dest w of
          Some n \<Rightarrow>
            if n_state n = ND_REACHABLE then do {
              f \<leftarrow> send_unicast ifc p (n_linkaddr n);
              Some (frame_out f w)
            }
            else Some (queue_packet dest p w)
        | None \<Rightarrow> do {
            q \<leftarrow> make_ns ifc dest;
            w \<leftarrow> send_pkt ifc q w;
            w \<leftarrow> add_neighbor ifc dest None w;
            Some (queue_packet dest p w)
          })
     }
     else do {
       f \<leftarrow> send_unicast ifc p None;
       Some (frame_out f w)
     }
   }"

definition icmp_send_ns :: "iface \<Rightarrow> byte list \<Rightarrow> world \<Rightarrow> world option" where
  "icmp_send_ns ifc dest w = do { p \<leftarrow> make_ns ifc dest; send_pkt ifc p w }"

fun send_queue :: "iface \<Rightarrow> pbuf list \<Rightarrow> world \<Rightarrow> world option" where
  "send_queue ifc [] w = Some w"
| "send_queue ifc (p # ps) w = do { w \<leftarrow> send_pkt ifc p w; send_queue ifc ps w }"

definition got_neighbor :: "iface \<Rightarrow> byte list \<Rightarrow> byte list option \<Rightarrow> world \<Rightarrow> world option" where
  "got_neighbor ifc addr lladdr w =
     (case find_neighbor addr w of
        Some _ \<Rightarrow> do {
          w \<leftarrow> (case lladdr of
                  None \<Rightarrow> Some w
                | Some l \<Rightarrow> do {
                    l \<leftarrow> mem_sub l 0 (nat (hwaddr_len ifc));
                    Some (n_upd addr (\<lambda>n. n\<lparr>n_linkaddr := Some l\<rparr>) w)
                  });
          let w = n_upd addr (\<lambda>n. n\<lparr>n_state := ND_REACHABLE\<rparr>) w;
          n \<leftarrow> find_neighbor addr w;
          if n_queue n \<noteq> [] then do {
            w \<leftarrow> send_queue ifc (n_queue n) w;
            Some (n_upd addr (\<lambda>n. n\<lparr>n_queue := []\<rparr>) w)
          }
          else Some w
        }
      | None \<Rightarrow> add_neighbor ifc addr lladdr w)"

definition icmp_send_error :: "iface \<Rightarrow> byte list \<Rightarrow> int \<Rightarrow> world \<Rightarrow> world option" where
  "icmp_send_error ifc sp len w = do {
     let nlen = (if len > 1232 then 1232 else len);
     let p = get_buffer ifc nlen;
     d \<leftarrow> memcpy (pb_d p) 48 sp 0 nlen;
     src \<leftarrow> mem_sub sp 24 16;
     dst \<leftarrow> mem_sub sp 8 16;
     (n, d) \<leftarrow> make_icmp_hdr d nlen src dst 4 1 40;
     send_pkt ifc ((pb_set p d)\<lparr>pb_dlen := n\<rparr>) w
   }"

definition icmp_send_ping_reply :: "iface \<Rightarrow> byte list \<Rightarrow> int \<Rightarrow> world \<Rightarrow> world option" where
  "icmp_send_ping_reply ifc sp plen w = do {
     let p = get_buffer ifc plen;
     d \<leftarrow> memcpy (pb_d p) 48 sp 48 (plen - 48);
     src \<leftarrow> mem_sub sp 24 16;
     dst \<leftarrow> mem_sub sp 8 16;
     v \<leftarrow> GET_32 sp 44;
     (n, d) \<leftarrow> make_icmp_hdr d (plen - 48) src dst 129 0 v;
     send_pkt ifc ((pb_set p d)\<lparr>pb_dlen := n\<rparr>) w
   }"

definition icmp_send_na :: "iface \<Rightarrow> byte list option \<Rightarrow> world \<Rightarrow> world option" where
  "icmp_send_na ifc dest w = do {
     let flags = (if dest \<noteq> None then 0x20000000 OR 0x40000000 else 0x20000000);
     let dest = (case dest of Some a \<Rightarrow> a | None \<Rightarrow> allhostsaddr);
     let p = get_buffer ifc 128;
     d \<leftarrow> memcpy (pb_d p) 48 mylladdr 0 16;
     (off, d) \<leftarrow> put_lladdr_opt ifc 0x2 d;
     (n, d) \<leftarrow> make_icmp_hdr d (off - 48) mylladdr dest 136 0 flags;
     send_pkt ifc ((pb_set p d)\<lparr>pb_dlen := n\<rparr>) w
   }"

subsection \<open>Receiving\<close>

text \<open>\<open>p\<close> is the memory from the start of the IPv6 header to the end of the packet's buffer.\<close>

definition handle_icmp :: "iface \<Rightarrow> byte list \<Rightarrow> int \<Rightarrow> world \<Rightarrow> world option" where
  "handle_icmp ifc p len w = do {
     ty \<leftarrow> mem_get p 0x28;
     if ty = 128 then icmp_send_ping_reply ifc p len w
     else if ty = 135 then do {
       b64 \<leftarrow> (if hwaddr_len ifc > 0 then mem_get p 64 else Some 0);
       src \<leftarrow> mem_sub p 8 16;
       w \<leftarrow> (if hwaddr_len ifc > 0 \<and> b64 = 1 then got_neighbor ifc src (Some (drop 66 p)) w else Some w);
       target \<leftarrow> mem_sub p 48 16;
       (if target = mylladdr then icmp_send_na ifc (Some src) w else Some w)
     }
     else if ty = 136 then do {
       b64 \<leftarrow> (if hwaddr_len ifc > 0 then mem_get p 64 else Some 0);
       src \<leftarrow> mem_sub p 8 16;
       (if hwaddr_len ifc > 0 \<and> b64 = 2 then got_neighbor ifc src (Some (drop 66 p)) w
        else got_neighbor ifc src None w)
     }
     else Some w
   }"

definition icmp_init_iface :: "iface \<Rightarrow> world \<Rightarrow> world option" where
  "icmp_init_iface ifc w = icmp_send_na ifc None w"

subsection \<open>The packets built\<close>

definition icmp_bytes :: "int \<Rightarrow> byte list \<Rightarrow> byte list \<Rightarrow> byte \<Rightarrow> byte \<Rightarrow> u32 \<Rightarrow> int \<Rightarrow> byte list" where
  "icmp_bytes len src dst type code val ck =
     [0x60, 0, 0, 0] @ be16 len @ [0x3a, 0xff] @ src @ dst @ [type, code] @ be16 ck @ be32 val"

lemma length_icmp_bytes: "length src = 16 \<Longrightarrow> length dst = 16 \<Longrightarrow> length (icmp_bytes len src dst type code val ck) = 48"
  by (simp add: icmp_bytes_def)

lemma make_icmp_hdr_ok:
  assumes a: "length src = 16" "length dst = 16" and l: "0 \<le> len" "nat len + 48 \<le> length p"
  shows "\<exists>c. make_icmp_hdr p len src dst type code val = Some (len + 48, icmp_bytes (len + 8) src dst type code val (NOT c) @ drop 48 p) \<and>
    make_cksum (icmp_bytes (len + 8) src dst type code val (NOT c) @ drop 48 p) (len + 48) = Some 0xffff"
proof -
  let ?a = "[0x60, 0, 0, 0] @ be16 (len + 8) @ [0x3a, 0xff] @ src @ dst @ [type, code]" and ?b = "be32 val @ drop 48 p"
  have "even (length ?a)" "8 \<le> length ?a" "int (length ?a) + 2 \<le> len + 48" "nat (len + 48) \<le> length ?a + 2 + length ?b"
    using a l by simp_all
  from finish_cksum [OF this] obtain c where c: "make_cksum (?a @ [0, 0] @ ?b) (len + 48) = Some c"
      "make_cksum (?a @ be16 (NOT c) @ ?b) (len + 48) = Some 0xffff"
    by blast
  have e: "len + 48 - 40 = len + 8"
    by simp
  have p0: "mem_put p 0 (replicate 48 0) = Some (replicate 48 0 @ drop 48 p)"
    using l(2) by (simp add: mem_put_def)
  have r: "(replicate 48 0 :: byte list) = [0, 0, 0, 0, 0, 0, 0, 0] @ replicate 16 0 @ replicate 16 0 @ [0, 0, 0, 0, 0, 0, 0, 0]"
    by (simp add: numeral_eq_Suc)
  have "make_icmp_hdr p len src dst type code val = Some (len + 48, ?a @ be16 (NOT c) @ ?b)"
    unfolding make_icmp_hdr_def Let_def p0 Option.bind.simps unfolding r e using a c(1) by (simp add: put_simps)
  then show ?thesis
    using c(2) by (auto simp: icmp_bytes_def)
qed

subsection \<open>Invariant of the neighbour table\<close>

text \<open>A buffer that can be handed to a driver: room for its header and at least an IPv6 header.\<close>

definition sendable :: "int \<Rightarrow> pbuf \<Rightarrow> bool" where
  "sendable room p \<longleftrightarrow> pbuf_ok p \<and> room \<le> pb_offset p \<and> 40 \<le> pb_dlen p"

definition multicast :: "pbuf \<Rightarrow> bool" where
  "multicast p \<longleftrightarrow> pb_d p ! 24 = 0xff"

text \<open>Whose link address a packet needs.\<close>

definition next_hop :: "pbuf \<Rightarrow> byte list" where
  "next_hop p = (if pb_d p ! 24 = 0xfe \<and> pb_d p ! 25 = 0x80 then take 16 (drop 24 (pb_d p)) else otherlladdr)"

definition neighbor_ok :: "iface \<Rightarrow> int \<Rightarrow> neighbor \<Rightarrow> bool" where
  "neighbor_ok ifc room n \<longleftrightarrow>
     length (n_addr n) = 16 \<and>
     (if n_state n = ND_REACHABLE
      then n_queue n = [] \<and> (0 < hwaddr_len ifc \<longrightarrow> (\<exists>a. n_linkaddr n = Some a \<and> int (length a) = hwaddr_len ifc))
      else \<forall>p \<in> set (n_queue n). sendable room p \<and> \<not> multicast p \<and> next_hop p = n_addr n)"

definition nd_ok :: "iface \<Rightarrow> int \<Rightarrow> neighbor list \<Rightarrow> bool" where
  "nd_ok ifc room ns \<longleftrightarrow> (\<forall>n \<in> set ns. neighbor_ok ifc room n) \<and> distinct (map n_addr ns)"

text \<open>Where a frame carries a packet: the driver's header comes first.\<close>

definition carries :: "int \<Rightarrow> byte list \<Rightarrow> pbuf \<Rightarrow> bool" where
  "carries room f p \<longleftrightarrow> drop (nat room) f = packet p"

lemma nd_ok_Nil [simp]: "nd_ok ifc room []"
  by (simp add: nd_ok_def)

lemma find_upd_first:
  "(\<And>n. n_addr (f n) = n_addr n) \<Longrightarrow>
     find (\<lambda>n. n_addr n = a) (upd_first b f ns) =
       (if a = b then map_option f (find (\<lambda>n. n_addr n = a) ns) else find (\<lambda>n. n_addr n = a) ns)"
  by (induction ns) auto

lemma map_upd_first: "(\<And>n. n_addr (f n) = n_addr n) \<Longrightarrow> map n_addr (upd_first a f ns) = map n_addr ns"
  by (induction ns) auto

lemma upd_first_comp:
  "(\<And>n. n_addr (h n) = n_addr n) \<Longrightarrow> upd_first a g (upd_first a h ns) = upd_first a (\<lambda>n. g (h n)) ns"
  by (induction ns) auto

lemma upd_first_mem:
  assumes "n \<in> set (upd_first a f ns)"
  shows "n \<in> set ns \<or> (\<exists>m. find (\<lambda>n. n_addr n = a) ns = Some m \<and> n = f m)"
  using assms by (induction ns) (auto split: if_splits)

lemma upd_first_ok:
  assumes "nd_ok ifc room ns" "\<And>n. n_addr (f n) = n_addr n"
    "\<And>n. find (\<lambda>n. n_addr n = a) ns = Some n \<Longrightarrow> neighbor_ok ifc room (f n)"
  shows "nd_ok ifc room (upd_first a f ns)"
  using assms upd_first_mem [of _ a f ns] by (fastforce simp: nd_ok_def map_upd_first)

lemma find_neighbor_ok:
  assumes "nd_ok ifc room (nlist w)" "find_neighbor a w = Some n"
  shows "neighbor_ok ifc room n" "n_addr n = a"
  using assms by (auto simp: nd_ok_def find_neighbor_def find_Some_iff)

lemma n_upd_simps [simp]:
  "nlist (n_upd a f w) = upd_first a f (nlist w)" "sent (n_upd a f w) = sent w"
  "nlist (queue_packet a p w) = upd_first a (\<lambda>n. n\<lparr>n_queue := n_queue n @ [p]\<rparr>) (nlist w)" "sent (queue_packet a p w) = sent w"
  by (simp_all add: n_upd_def queue_packet_def)

lemma sendable_len: "sendable room p \<Longrightarrow> 40 \<le> length (pb_d p)"
  using length_pb_d [of p] by (auto simp: sendable_def pbuf_ok_def)

lemma length_next_hop: "sendable room p \<Longrightarrow> length (next_hop p) = 16"
  using sendable_len [of room p] by (auto simp: next_hop_def otherlladdr_def)

subsection \<open>Sending over a driver\<close>

definition lladdr_opt :: "iface \<Rightarrow> byte \<Rightarrow> byte list" where
  "lladdr_opt ifc code =
     (if hwaddr_len ifc > 0 then [code, 1] @ the (get_hwaddr ifc) @ replicate (nat (6 - hwaddr_len ifc)) 0 else [])"

text \<open>The solicited-node multicast address of a neighbour solicitation.\<close>

definition solicited :: "byte list \<Rightarrow> byte list" where
  "solicited dest = [0xff, 0x02, 0, 0, 0, 0, 0, 0, 0, 0, 0, 0x1, 0xff] @ take 3 (drop 13 dest)"

text \<open>
  What handing a packet to \<open>send_pkt\<close> does to the neighbour table and which frames it sends: a packet
  whose link address is known or not needed goes out at once; otherwise it joins the queue of its
  next hop, and if that neighbour is new a solicitation is sent.
\<close>

definition handed_over :: "iface \<Rightarrow> int \<Rightarrow> pbuf \<Rightarrow> neighbor list \<Rightarrow> neighbor list \<Rightarrow> byte list list \<Rightarrow> bool" where
  "handed_over ifc room p ns ns' fs \<longleftrightarrow>
     (if multicast p \<or> hwaddr_len ifc = 0 \<or> (\<exists>m. find (\<lambda>n. n_addr n = next_hop p) ns = Some m \<and> n_state m = ND_REACHABLE)
      then ns' = ns \<and> (\<exists>f. fs = [f] \<and> carries room f p)
      else case find (\<lambda>n. n_addr n = next_hop p) ns of
        Some m \<Rightarrow> fs = [] \<and> ns' = upd_first (next_hop p) (\<lambda>n. n\<lparr>n_queue := n_queue n @ [p]\<rparr>) ns
      | None \<Rightarrow>
          ns' = \<lparr>n_queue = [p], n_state = ND_INCOMPLETE, n_addr = next_hop p, n_linkaddr = None\<rparr> # ns \<and>
          (\<exists>f q. fs = [f] \<and> make_ns ifc (next_hop p) = Some q \<and> carries room f q))"

lemma world_id [simp]: "w\<lparr>nlist := nlist w\<rparr> = (w :: world)" "w\<lparr>sent := sent w\<rparr> = (w :: world)"
  by simp_all

context link_driver
begin

lemma buffer_done:
  assumes "length d = nat n" "40 \<le> k" "k \<le> n"
  shows "sendable head ((pb_set (get_buffer ifc n) d)\<lparr>pb_dlen := k\<rparr>)"
    "pb_d ((pb_set (get_buffer ifc n) d)\<lparr>pb_dlen := k\<rparr>) = d"
    "packet ((pb_set (get_buffer ifc n) d)\<lparr>pb_dlen := k\<rparr>) = take (nat k) d"
proof -
  have b: "pbuf_ok (get_buffer ifc n)" "pb_offset (get_buffer ifc n) = head" "pb_d (get_buffer ifc n) = replicate (nat n) 0"
    using get_buffer_law [of n] assms by auto
  note s = pb_set_ok [OF b(1), of d, unfolded b(3), simplified, OF assms(1)]
  have "pb_max (get_buffer ifc n) = n"
    using length_pb_d [OF b(1)] b(3) assms by simp
  then show "sendable head ((pb_set (get_buffer ifc n) d)\<lparr>pb_dlen := k\<rparr>)"
    using s(4,5) b(2) assms unfolding sendable_def by (simp add: pbuf_ok_dlen [OF s(1)])
  show "pb_d ((pb_set (get_buffer ifc n) d)\<lparr>pb_dlen := k\<rparr>) = d"
    "packet ((pb_set (get_buffer ifc n) d)\<lparr>pb_dlen := k\<rparr>) = take (nat k) d"
    using s(2) by simp_all
qed

lemma buffer_full: "length d = nat n \<Longrightarrow> 40 \<le> n \<Longrightarrow> packet ((pb_set (get_buffer ifc n) d)\<lparr>pb_dlen := n\<rparr>) = d"
  by (subst buffer_done(3)) simp_all

lemma buffer_d: "0 \<le> n \<Longrightarrow> pb_d (get_buffer ifc n) = replicate (nat n) 0"
  using get_buffer_law by blast

lemma carriesI: "int (length hdr) = head \<Longrightarrow> carries head (hdr @ packet p) p"
  by (auto simp: carries_def)

lemma send_multicast_pkt:
  assumes "sendable head p" "multicast p"
  shows "\<exists>f. send_pkt ifc p w = Some (frame_out f w) \<and> carries head f p"
proof -
  have d: "mem_get (pb_d p) 24 = Some 0xff" "mem_sub (pb_d p) 24 16 = Some (take 16 (drop 24 (pb_d p)))"
    using assms sendable_len [OF assms(1)] by (simp_all add: multicast_def mem_get_def mem_sub_def)
  obtain hdr where "int (length hdr) = head" "send_multicast ifc p (take 16 (drop 24 (pb_d p))) = Some (hdr @ packet p)"
    using multicast_law [of p "take 16 (drop 24 (pb_d p))"] assms sendable_len [OF assms(1)] by (auto simp: sendable_def)
  then show ?thesis
    using d carriesI by (subst send_pkt.simps) auto
qed


lemma length_lladdr_opt: "length (lladdr_opt ifc code) = (if hwaddr_len ifc > 0 then 8 else 0)"
proof (cases "hwaddr_len ifc > 0")
  case True
  then obtain a where "get_hwaddr ifc = Some a" "int (length a) = hwaddr_len ifc"
    using hwaddr_law(3) by blast
  then show ?thesis
    using True hwaddr_law(2) by (simp add: lladdr_opt_def)
qed (simp add: lladdr_opt_def)

lemma put_lladdr_opt_ok:
  assumes z: "length z = 64"
  shows "put_lladdr_opt ifc code (z @ replicate 64 0) =
    Some (64 + int (length (lladdr_opt ifc code)), z @ lladdr_opt ifc code @ replicate (64 - length (lladdr_opt ifc code)) 0)"
proof (cases "hwaddr_len ifc > 0")
  case True
  then obtain a where a: "get_hwaddr ifc = Some a" "int (length a) = hwaddr_len ifc"
    using hwaddr_law(3) by blast
  have l: "length a \<le> 6" "0 < length a" "(9 + int (length a)) div 8 = 1"
    using hwaddr_law(2) a(2) True by auto
  have "(replicate 64 0 :: byte list) = [0, 0] @ replicate 62 0"
    by (simp add: numeral_eq_Suc)
  moreover have "drop (length a) (replicate 62 0) = (replicate (6 - length a) 0 @ replicate 56 0 :: byte list)"
    using l by (simp add: replicate_add [symmetric])
  ultimately show ?thesis
    unfolding length_lladdr_opt using True a(1) z l a(2) [symmetric]
    by (simp add: put_lladdr_opt_def lladdr_opt_def put_simps Let_def nat_diff_distrib)
qed (simp add: put_lladdr_opt_def lladdr_opt_def)

text \<open>A neighbour message: a link-local header, a target address and the option.\<close>

lemma nd_message_ok:
  assumes z: "length tgt = 16" and d: "length dst = 16"
  shows "\<exists>ck q.
    do { d \<leftarrow> memcpy (pb_d (get_buffer ifc 128)) 48 tgt 0 16;
         (off, d) \<leftarrow> put_lladdr_opt ifc code d;
         (n, d) \<leftarrow> make_icmp_hdr d (off - 48) mylladdr dst type 0 val;
         Some ((pb_set (get_buffer ifc 128) d)\<lparr>pb_dlen := n\<rparr>) } = Some q \<and>
    sendable head q \<and> take 16 (drop 24 (pb_d q)) = dst \<and>
    packet q = icmp_bytes (24 + int (length (lladdr_opt ifc code))) mylladdr dst type 0 val ck @ tgt @ lladdr_opt ifc code \<and>
    make_cksum (packet q) (pb_dlen q) = Some 0xffff"
proof -
  let ?o = "lladdr_opt ifc code"
  let ?m = "(replicate 48 0 @ tgt) @ ?o @ replicate (64 - length ?o) 0"
  have lo: "length ?o \<le> 8" "length mylladdr = 16"
    by (simp_all add: length_lladdr_opt mylladdr_def)
  have "(replicate 128 0 :: byte list) = replicate 48 0 @ replicate 16 0 @ replicate 64 0"
    by (simp add: replicate_add [symmetric])
  then have c: "memcpy (pb_d (get_buffer ifc 128)) 48 tgt 0 16 = Some ((replicate 48 0 @ tgt) @ replicate 64 0)"
    using z by (simp add: buffer_d put_simps)
  have o: "put_lladdr_opt ifc code ((replicate 48 0 @ tgt) @ replicate 64 0) = Some (64 + int (length ?o), ?m)"
    using z by (intro put_lladdr_opt_ok) simp
  have lm: "length ?m = 128"
    using z lo by simp
  obtain ck where h: "make_icmp_hdr ?m (64 + int (length ?o) - 48) mylladdr dst type 0 val =
      Some (64 + int (length ?o), icmp_bytes (24 + int (length ?o)) mylladdr dst type 0 val (NOT ck) @ drop 48 ?m)"
      "make_cksum (icmp_bytes (24 + int (length ?o)) mylladdr dst type 0 val (NOT ck) @ drop 48 ?m) (64 + int (length ?o)) = Some 0xffff"
  proof -
    have e: "16 + int n + 48 = 64 + int n" "16 + int n + 8 = 24 + int n" "64 + int n - 48 = 16 + int n" "nat (16 + int n) = 16 + n" for n
      by simp_all
    show ?thesis
      using make_icmp_hdr_ok [OF lo(2) d, of "16 + int (length ?o)" ?m type 0 val] that lo(1) unfolding lm e by auto
  qed
  let ?d = "icmp_bytes (24 + int (length ?o)) mylladdr dst type 0 val (NOT ck) @ tgt @ ?o @ replicate (64 - length ?o) 0"
  have dd: "drop 48 ?m = tgt @ ?o @ replicate (64 - length ?o) 0"
    by simp
  have ld: "length ?d = nat 128"
    using z lo d by (simp add: length_icmp_bytes)
  note q = buffer_done [OF ld, of "64 + int (length ?o)"]
  let ?q = "(pb_set (get_buffer ifc 128) ?d)\<lparr>pb_dlen := 64 + int (length ?o)\<rparr>"
  have pk: "packet ?q = icmp_bytes (24 + int (length ?o)) mylladdr dst type 0 val (NOT ck) @ tgt @ ?o"
    using q(3) lo z d by (simp add: length_icmp_bytes nat_add_distrib)
  show ?thesis
  proof (intro exI conjI)
    show "do { d \<leftarrow> memcpy (pb_d (get_buffer ifc 128)) 48 tgt 0 16;
         (off, d) \<leftarrow> put_lladdr_opt ifc code d;
         (n, d) \<leftarrow> make_icmp_hdr d (off - 48) mylladdr dst type 0 val;
         Some ((pb_set (get_buffer ifc 128) d)\<lparr>pb_dlen := n\<rparr>) } = Some ?q"
      unfolding c Option.bind.simps o prod.case h(1) dd ..
    show "sendable head ?q"
      using q(1) lo by simp
    show "take 16 (drop 24 (pb_d ?q)) = dst"
      using q(2) lo d by (simp add: icmp_bytes_def)
    show "packet ?q = icmp_bytes (24 + int (length ?o)) mylladdr dst type 0 val (NOT ck) @ tgt @ ?o"
      by (rule pk)
    show "make_cksum (packet ?q) (pb_dlen ?q) = Some 0xffff"
    proof -
      have "packet ?q = take (nat (64 + int (length ?o))) ?d"
        using q(3) lo(1) by linarith
      moreover have "make_cksum (take (nat (64 + int (length ?o))) ?d) (64 + int (length ?o)) = make_cksum ?d (64 + int (length ?o))"
        by (rule make_cksum_take) (use lo(1) ld in linarith)+
      ultimately show ?thesis
        using h(2) unfolding dd by simp
    qed
  qed
qed


lemma make_ns_ok:
  assumes "length dest = 16"
  shows "\<exists>ck q. make_ns ifc dest = Some q \<and> sendable head q \<and> multicast q \<and>
    packet q = icmp_bytes (24 + int (length (lladdr_opt ifc 1))) mylladdr (solicited dest) 135 0 0 ck @ dest @ lladdr_opt ifc 1 \<and>
    make_cksum (packet q) (pb_dlen q) = Some 0xffff"
proof -
  have l: "length (solicited dest) = 16"
    using assms by (simp add: solicited_def)
  have sna: "memcpy [0xff, 0x02, 0, 0, 0, 0, 0, 0, 0, 0, 0, 0x1, 0xff, 0, 0, 0] 13 dest 13 3 = Some (solicited dest)"
    using assms by (simp add: memcpy_eq_Some solicited_def)
  obtain ck q where q: "do { d \<leftarrow> memcpy (pb_d (get_buffer ifc 128)) 48 dest 0 16;
         (off, d) \<leftarrow> put_lladdr_opt ifc 1 d;
         (n, d) \<leftarrow> make_icmp_hdr d (off - 48) mylladdr (solicited dest) 135 0 0;
         Some ((pb_set (get_buffer ifc 128) d)\<lparr>pb_dlen := n\<rparr>) } = Some q"
      "sendable head q" "take 16 (drop 24 (pb_d q)) = solicited dest"
      "packet q = icmp_bytes (24 + int (length (lladdr_opt ifc 1))) mylladdr (solicited dest) 135 0 0 ck @ dest @ lladdr_opt ifc 1"
      "make_cksum (packet q) (pb_dlen q) = Some 0xffff"
    using nd_message_ok [OF assms l, of 1 135 0] by (elim exE conjE) (rule that)
  have "make_ns ifc dest = Some q"
    using q(1) unfolding make_ns_def Let_def sna Option.bind.simps by simp
  moreover have "pb_d q ! 24 = take 16 (drop 24 (pb_d q)) ! 0"
    using sendable_len [OF q(2)] by simp
  then have "multicast q"
    unfolding multicast_def q(3) by (simp add: solicited_def)
  ultimately show ?thesis
    using q(2,4,5) by blast
qed

lemma send_direct:
  assumes p: "sendable head p" "\<not> multicast p"
    and n: "hwaddr_len ifc = 0 \<or> find_neighbor (next_hop p) w = Some n \<and> n_state n = ND_REACHABLE"
    and link: "0 < hwaddr_len ifc \<Longrightarrow> \<exists>a. n_linkaddr n = Some a \<and> int (length a) = hwaddr_len ifc"
  shows "\<exists>f. send_pkt ifc p w = Some (frame_out f w) \<and> carries head f p"
proof -
  have l: "40 \<le> length (pb_d p)"
    by (rule sendable_len [OF p(1)])
  have pk: "pbuf_ok p" "head \<le> pb_offset p" "0 \<le> pb_dlen p"
    using p(1) by (auto simp: sendable_def)
  have d: "mem_get (pb_d p) 24 = Some (pb_d p ! 24)" "mem_get (pb_d p) 25 = Some (pb_d p ! 25)" "pb_d p ! 24 \<noteq> 0xff"
      "mem_sub (pb_d p) 24 16 = Some (take 16 (drop 24 (pb_d p)))"
    using p(2) l by (simp_all add: multicast_def mem_get_def mem_sub_def)
  show ?thesis
  proof (cases "hwaddr_len ifc = 0")
    case True
    obtain hdr where "int (length hdr) = head" "send_unicast ifc p None = Some (hdr @ packet p)"
      using unicast_null_law [OF pk True] by blast
    then show ?thesis
      using True d carriesI by (subst send_pkt.simps) auto
  next
    case False
    then have h: "0 < hwaddr_len ifc"
      using hwaddr_law(1) by simp
    obtain a where a: "n_linkaddr n = Some a" "int (length a) = hwaddr_len ifc"
      using link [OF h] by blast
    obtain hdr where "int (length hdr) = head" "send_unicast ifc p (Some a) = Some (hdr @ packet p)"
      using unicast_law [OF pk h, of a] a(2) by auto
    then show ?thesis
      using n False h d a(1) carriesI by (subst send_pkt.simps) (auto simp: next_hop_def)
  qed
qed

lemma send_indirect:
  assumes p: "sendable head p" "\<not> multicast p" "0 < hwaddr_len ifc"
  shows "find_neighbor (next_hop p) w = Some n \<Longrightarrow> n_state n \<noteq> ND_REACHABLE \<Longrightarrow>
      send_pkt ifc p w = Some (queue_packet (next_hop p) p w)"
    "find_neighbor (next_hop p) w = None \<Longrightarrow>
      \<exists>f q. make_ns ifc (next_hop p) = Some q \<and> carries head f q \<and>
        send_pkt ifc p w = Some (w\<lparr>nlist := \<lparr>n_queue = [p], n_state = ND_INCOMPLETE, n_addr = next_hop p, n_linkaddr = None\<rparr> # nlist w,
          sent := sent w @ [f]\<rparr>)"
proof -
  have l: "40 \<le> length (pb_d p)"
    by (rule sendable_len [OF p(1)])
  have d: "mem_get (pb_d p) 24 = Some (pb_d p ! 24)" "mem_get (pb_d p) 25 = Some (pb_d p ! 25)" "pb_d p ! 24 \<noteq> 0xff"
      "mem_sub (pb_d p) 24 16 = Some (take 16 (drop 24 (pb_d p)))"
    using p(2) l by (simp_all add: multicast_def mem_get_def mem_sub_def)
  have dest: "(if pb_d p ! 24 = 0xfe \<and> pb_d p ! 25 = 0x80 then mem_sub (pb_d p) 24 16 else Some otherlladdr) = Some (next_hop p)"
    using d by (simp add: next_hop_def)
  show "find_neighbor (next_hop p) w = Some n \<Longrightarrow> n_state n \<noteq> ND_REACHABLE \<Longrightarrow>
      send_pkt ifc p w = Some (queue_packet (next_hop p) p w)"
    using d(1-3) p(3) by (subst send_pkt.simps) (simp add: dest)
  assume n: "find_neighbor (next_hop p) w = None"
  have ln: "length (next_hop p) = 16"
    by (rule length_next_hop [OF p(1)])
  obtain q where q: "make_ns ifc (next_hop p) = Some q" "sendable head q" "multicast q"
    using make_ns_ok [OF ln] by blast
  obtain f where f: "send_pkt ifc q w = Some (frame_out f w)" "carries head f q"
    using send_multicast_pkt [OF q(2,3)] by blast
  have "send_pkt ifc p w = do { w \<leftarrow> add_neighbor ifc (next_hop p) None (frame_out f w); Some (queue_packet (next_hop p) p w) }"
    using d(1-3) p(3) n q(1) f(1) by (subst send_pkt.simps) (simp add: dest)
  also have "\<dots> = Some (w\<lparr>nlist := \<lparr>n_queue = [p], n_state = ND_INCOMPLETE, n_addr = next_hop p, n_linkaddr = None\<rparr> # nlist w,
          sent := sent w @ [f]\<rparr>)"
    using ln p(3) by (simp add: add_neighbor_def mem_sub_def queue_packet_def n_upd_def frame_out_def)
  finally show "\<exists>f q. make_ns ifc (next_hop p) = Some q \<and> carries head f q \<and>
        send_pkt ifc p w = Some (w\<lparr>nlist := \<lparr>n_queue = [p], n_state = ND_INCOMPLETE, n_addr = next_hop p, n_linkaddr = None\<rparr> # nlist w,
          sent := sent w @ [f]\<rparr>)"
    using q(1) f(2) by blast
qed


lemma send_pkt_ok:
  assumes p: "sendable head p" and ok: "nd_ok ifc head (nlist w)"
  shows "\<exists>ns fs. send_pkt ifc p w = Some (w\<lparr>nlist := ns, sent := sent w @ fs\<rparr>) \<and> nd_ok ifc head ns \<and>
    handed_over ifc head p (nlist w) ns fs"
proof -
  let ?n = "find (\<lambda>n. n_addr n = next_hop p) (nlist w)"
  consider (mc) "multicast p" | (out) "\<not> multicast p" "hwaddr_len ifc = 0 \<or> (\<exists>m. ?n = Some m \<and> n_state m = ND_REACHABLE)"
    | (wait) m where "\<not> multicast p" "0 < hwaddr_len ifc" "?n = Some m" "n_state m \<noteq> ND_REACHABLE"
    | (new) "\<not> multicast p" "0 < hwaddr_len ifc" "?n = None"
  proof (cases "hwaddr_len ifc = 0")
    case False
    then have "0 < hwaddr_len ifc"
      using hwaddr_law(1) by simp
    then show ?thesis
      using that by (cases ?n) auto
  qed (use that in blast)
  then show ?thesis
  proof cases
    case mc
    then obtain f where "send_pkt ifc p w = Some (frame_out f w)" "carries head f p"
      using send_multicast_pkt [OF p, of w] by blast
    then show ?thesis
      using mc ok by (intro exI [of _ "nlist w"] exI [of _ "[f]"]) (simp add: handed_over_def frame_out_def)
  next
    case out
    then obtain f where "send_pkt ifc p w = Some (frame_out f w)" "carries head f p"
    proof (cases "hwaddr_len ifc = 0")
      case True
      then show ?thesis
        using that send_direct [OF p out(1), of w undefined] by auto
    next
      case False
      then obtain m where m: "find_neighbor (next_hop p) w = Some m" "n_state m = ND_REACHABLE"
        using out(2) by (auto simp: find_neighbor_def)
      then show ?thesis
        using that send_direct [OF p out(1), of w m] find_neighbor_ok(1) [OF ok m(1)] by (auto simp: neighbor_ok_def)
    qed
    then show ?thesis
      using out ok by (intro exI [of _ "nlist w"] exI [of _ "[f]"]) (simp add: handed_over_def frame_out_def)
  next
    case wait
    have e: "send_pkt ifc p w = Some (queue_packet (next_hop p) p w)"
      using send_indirect(1) [OF p wait(1,2)] wait(3,4) by (simp add: find_neighbor_def)
    have "nd_ok ifc head (upd_first (next_hop p) (\<lambda>n. n\<lparr>n_queue := n_queue n @ [p]\<rparr>) (nlist w))"
      using ok wait p find_neighbor_ok [OF ok, of "next_hop p" m]
      by (intro upd_first_ok) (auto simp: neighbor_ok_def find_neighbor_def)
    then show ?thesis
      using e wait by (intro exI [of _ "upd_first (next_hop p) (\<lambda>n. n\<lparr>n_queue := n_queue n @ [p]\<rparr>) (nlist w)"] exI [of _ "[]"])
        (auto simp: handed_over_def queue_packet_def n_upd_def)
  next
    case new
    then obtain f q where f: "make_ns ifc (next_hop p) = Some q" "carries head f q"
        "send_pkt ifc p w = Some (w\<lparr>nlist := \<lparr>n_queue = [p], n_state = ND_INCOMPLETE, n_addr = next_hop p, n_linkaddr = None\<rparr> # nlist w,
          sent := sent w @ [f]\<rparr>)"
      using send_indirect(2) [OF p new(1,2), of w] by (auto simp: find_neighbor_def)
    have "nd_ok ifc head (\<lparr>n_queue = [p], n_state = ND_INCOMPLETE, n_addr = next_hop p, n_linkaddr = None\<rparr> # nlist w)"
      using ok new p length_next_hop [OF p] by (auto simp: nd_ok_def neighbor_ok_def find_None_iff)
    then show ?thesis
      using f new by (auto simp: handed_over_def)
  qed
qed

text \<open>What the senders of the other components need.\<close>

lemma send_pkt_frame:
  assumes "sendable head p" "nd_ok ifc head (nlist w)"
  shows "\<exists>ns fs. send_pkt ifc p w = Some (w\<lparr>nlist := ns, sent := sent w @ fs\<rparr>) \<and> nd_ok ifc head ns"
  using send_pkt_ok [OF assms] by blast

subsection \<open>Resolving a neighbour\<close>

lemma send_queue_ok:
  assumes "\<forall>p \<in> set ps. sendable head p \<and> \<not> multicast p \<and> next_hop p = a"
    and "find (\<lambda>n. n_addr n = a) (nlist w) = Some m" "n_state m = ND_REACHABLE"
    and link: "0 < hwaddr_len ifc \<longrightarrow> (\<exists>l. n_linkaddr m = Some l \<and> int (length l) = hwaddr_len ifc)"
  shows "\<exists>fs. send_queue ifc ps w = Some (w\<lparr>sent := sent w @ fs\<rparr>) \<and> list_all2 (carries head) fs ps"
  using assms(1-3)
proof (induction ps arbitrary: w)
  case (Cons p ps)
  have "\<exists>f. send_pkt ifc p w = Some (frame_out f w) \<and> carries head f p"
    using send_direct [of p w m] Cons.prems link by (auto simp: find_neighbor_def)
  then obtain f where f: "send_pkt ifc p w = Some (w\<lparr>sent := sent w @ [f]\<rparr>)" "carries head f p"
    by (auto simp: frame_out_def)
  obtain fs where "send_queue ifc ps (w\<lparr>sent := sent w @ [f]\<rparr>) = Some (w\<lparr>sent := (sent w @ [f]) @ fs\<rparr>)" "list_all2 (carries head) fs ps"
    using Cons.IH [of "w\<lparr>sent := sent w @ [f]\<rparr>"] Cons.prems by auto
  then show ?case
    using f by (auto intro!: exI [of _ "f # fs"])
qed auto


text \<open>The link address \<open>got_neighbor\<close> is given is usable.\<close>

lemma got_neighbor_ok:
  assumes ok: "nd_ok ifc head (nlist w)" and a: "length addr = 16"
    and l: "case lladdr of None \<Rightarrow> hwaddr_len ifc = 0 | Some l \<Rightarrow> hwaddr_len ifc \<le> int (length l)"
  shows "\<exists>ns fs n. got_neighbor ifc addr lladdr w = Some (w\<lparr>nlist := ns, sent := sent w @ fs\<rparr>) \<and> nd_ok ifc head ns \<and>
    find (\<lambda>n. n_addr n = addr) ns = Some n \<and> n_state n = ND_REACHABLE \<and>
    list_all2 (carries head) fs (case find_neighbor addr w of None \<Rightarrow> [] | Some m \<Rightarrow> n_queue m)"
proof (cases "find_neighbor addr w")
  case None
  define la where "la = map_option (take (nat (hwaddr_len ifc))) lladdr"
  have "got_neighbor ifc addr lladdr w = Some (w\<lparr>nlist := \<lparr>n_queue = [], n_state = ND_REACHABLE, n_addr = addr, n_linkaddr = la\<rparr> # nlist w\<rparr>)"
    using None a l hwaddr_law(1) by (auto simp: got_neighbor_def add_neighbor_def mem_sub_def la_def split: option.splits)
  moreover have "nd_ok ifc head (\<lparr>n_queue = [], n_state = ND_REACHABLE, n_addr = addr, n_linkaddr = la\<rparr> # nlist w)"
    using ok None a l hwaddr_law(1)
    by (auto simp: nd_ok_def neighbor_ok_def find_neighbor_def find_None_iff la_def split: option.splits)
  ultimately show ?thesis
    using None by (intro exI [of _ "\<lparr>n_queue = [], n_state = ND_REACHABLE, n_addr = addr, n_linkaddr = la\<rparr> # nlist w"]
      exI [of _ "[]"] exI [of _ "\<lparr>n_queue = [], n_state = ND_REACHABLE, n_addr = addr, n_linkaddr = la\<rparr>"]) simp
next
  case (Some m)
  have m: "neighbor_ok ifc head m" "n_addr m = addr" "find (\<lambda>n. n_addr n = addr) (nlist w) = Some m"
    using find_neighbor_ok [OF ok Some] Some by (simp_all add: find_neighbor_def)
  define f where "f = (\<lambda>n :: neighbor. n\<lparr>n_linkaddr := (case lladdr of None \<Rightarrow> n_linkaddr n | Some l \<Rightarrow> Some (take (nat (hwaddr_len ifc)) l)),
      n_state := ND_REACHABLE\<rparr>)"
  have fa: "n_addr (f n) = n_addr n" for n
    by (simp add: f_def)
  let ?w = "n_upd addr f w"
  have q: "\<forall>p \<in> set (n_queue m). sendable head p \<and> \<not> multicast p \<and> next_hop p = addr"
    using m(1,2) by (auto simp: neighbor_ok_def split: if_splits)
  have link: "0 < hwaddr_len ifc \<longrightarrow> (\<exists>l. n_linkaddr (f m) = Some l \<and> int (length l) = hwaddr_len ifc)"
    using l hwaddr_law(1) by (auto simp: f_def split: option.splits)
  have fm: "find (\<lambda>n. n_addr n = addr) (nlist ?w) = Some (f m)" "n_queue (f m) = n_queue m" "n_state (f m) = ND_REACHABLE"
    using m(3) fa by (simp_all add: find_upd_first) (simp_all add: f_def)
  obtain fs where fs: "send_queue ifc (n_queue m) ?w = Some (?w\<lparr>sent := sent ?w @ fs\<rparr>)" "list_all2 (carries head) fs (n_queue m)"
    using send_queue_ok [OF q fm(1,3) link] by blast
  have e: "n_upd addr (\<lambda>n. n\<lparr>n_state := ND_REACHABLE\<rparr>) (n_upd addr (\<lambda>n. n\<lparr>n_linkaddr := Some x\<rparr>) w) =
      n_upd addr (\<lambda>n. n\<lparr>n_linkaddr := Some x, n_state := ND_REACHABLE\<rparr>) w" for x
    by (simp add: n_upd_def upd_first_comp)
  have "got_neighbor ifc addr lladdr w = do {
      n \<leftarrow> find_neighbor addr ?w;
      if n_queue n \<noteq> [] then do { w \<leftarrow> send_queue ifc (n_queue n) ?w; Some (n_upd addr (\<lambda>n. n\<lparr>n_queue := []\<rparr>) w) } else Some ?w }"
    using Some l hwaddr_law(1)
    by (cases lladdr) (simp_all add: got_neighbor_def f_def e mem_sub_def Let_def nat_le_iff cong: if_cong)
  then have step: "got_neighbor ifc addr lladdr w =
      (if n_queue m \<noteq> [] then do { w \<leftarrow> send_queue ifc (n_queue m) ?w; Some (n_upd addr (\<lambda>n. n\<lparr>n_queue := []\<rparr>) w) } else Some ?w)"
    using fm(1,2) by (simp add: find_neighbor_def)
  show ?thesis
  proof (cases "n_queue m = []")
    case True
    then have "nd_ok ifc head (nlist ?w)"
      using ok m fa fm(2,3) link unfolding n_upd_simps by (intro upd_first_ok) (auto simp: neighbor_ok_def)
    then show ?thesis
      using True step Some fm by (intro exI [of _ "nlist ?w"] exI [of _ "[]"] exI [of _ "f m"]) (simp add: n_upd_def)
  next
    case False
    let ?g = "\<lambda>n. (f n)\<lparr>n_queue := []\<rparr>"
    have "got_neighbor ifc addr lladdr w = Some (w\<lparr>nlist := upd_first addr ?g (nlist w), sent := sent w @ fs\<rparr>)"
      using False step fs(1) fa by (simp add: n_upd_def upd_first_comp)
    moreover have "nd_ok ifc head (upd_first addr ?g (nlist w))"
      using ok m fa fm(3) link by (intro upd_first_ok) (auto simp: neighbor_ok_def)
    moreover have "find (\<lambda>n. n_addr n = addr) (upd_first addr ?g (nlist w)) = Some (?g m)"
      using m(3) fa by (simp add: find_upd_first)
    ultimately show ?thesis
      using fs(2) fm(3) Some by (intro exI [of _ "upd_first addr ?g (nlist w)"] exI [of _ fs] exI [of _ "?g m"]) simp
  qed
qed


subsection \<open>Replies\<close>

lemma icmp_send_na_ok:
  assumes d: "case dest of None \<Rightarrow> True | Some a \<Rightarrow> length a = 16"
  shows "\<exists>ck q. icmp_send_na ifc dest w = send_pkt ifc q w \<and> sendable head q \<and>
    packet q = icmp_bytes (24 + int (length (lladdr_opt ifc 2))) mylladdr (case dest of None \<Rightarrow> allhostsaddr | Some a \<Rightarrow> a) 136 0
      (if dest = None then 0x20000000 else 0x60000000) ck @ mylladdr @ lladdr_opt ifc 2 \<and>
    make_cksum (packet q) (pb_dlen q) = Some 0xffff"
proof -
  let ?d = "case dest of None \<Rightarrow> allhostsaddr | Some a \<Rightarrow> a" and ?f = "(if dest = None then 0x20000000 else 0x60000000) :: u32"
  have l: "length ?d = 16" "length mylladdr = 16"
    using d by (auto simp: allhostsaddr_def mylladdr_def split: option.splits)
  obtain ck q where q: "do { d \<leftarrow> memcpy (pb_d (get_buffer ifc 128)) 48 mylladdr 0 16;
         (off, d) \<leftarrow> put_lladdr_opt ifc 2 d;
         (n, d) \<leftarrow> make_icmp_hdr d (off - 48) mylladdr ?d 136 0 ?f;
         Some ((pb_set (get_buffer ifc 128) d)\<lparr>pb_dlen := n\<rparr>) } = Some q"
      "sendable head q"
      "packet q = icmp_bytes (24 + int (length (lladdr_opt ifc 2))) mylladdr ?d 136 0 ?f ck @ mylladdr @ lladdr_opt ifc 2"
      "make_cksum (packet q) (pb_dlen q) = Some 0xffff"
    using nd_message_ok [OF l(2,1), of 2 136 ?f] by (elim exE conjE) (rule that)
  have f: "(if dest \<noteq> None then 0x20000000 OR 0x40000000 else 0x20000000) = ?f"
    by simp
  have "icmp_send_na ifc dest w = do { d \<leftarrow> memcpy (pb_d (get_buffer ifc 128)) 48 mylladdr 0 16;
         (off, d) \<leftarrow> put_lladdr_opt ifc 2 d;
         (n, d) \<leftarrow> make_icmp_hdr d (off - 48) mylladdr ?d 136 0 ?f;
         Some ((pb_set (get_buffer ifc 128) d)\<lparr>pb_dlen := n\<rparr>) } \<bind> (\<lambda>q. send_pkt ifc q w)"
    unfolding icmp_send_na_def Let_def f by (cases dest) (simp_all add: split_def bind_assoc)
  then have "icmp_send_na ifc dest w = send_pkt ifc q w"
    unfolding q(1) by simp
  then show ?thesis
    using q(2-4) by blast
qed

lemma icmp_send_ping_reply_ok:
  assumes sp: "48 \<le> plen" "nat plen \<le> length sp"
  shows "\<exists>ck q v. icmp_send_ping_reply ifc sp plen w = send_pkt ifc q w \<and> sendable head q \<and> GET_32 sp 44 = Some v \<and>
    packet q = icmp_bytes (plen - 40) (take 16 (drop 24 sp)) (take 16 (drop 8 sp)) 129 0 v ck @ take (nat plen - 48) (drop 48 sp) \<and>
    make_cksum (packet q) (pb_dlen q) = Some 0xffff"
proof -
  let ?src = "take 16 (drop 24 sp)" and ?dst = "take 16 (drop 8 sp)" and ?b = "take (nat plen - 48) (drop 48 sp)"
  have sub: "mem_sub sp 24 16 = Some ?src" "mem_sub sp 8 16 = Some ?dst" and l: "length ?src = 16" "length ?dst = 16"
    using sp by (auto simp: mem_sub_def)
  have "48 \<le> length sp"
    using sp by linarith
  then obtain v where v: "GET_32 sp 44 = Some v"
    using GET_Some(2) [of 44 sp] by auto
  have c: "memcpy (pb_d (get_buffer ifc plen)) 48 sp 48 (plen - 48) = Some (replicate 48 0 @ ?b)"
    using sp by (simp add: buffer_d memcpy_eq_Some nat_diff_distrib)
  have lb: "length (replicate 48 0 @ ?b) = nat plen"
    using sp by auto
  obtain ck where h: "make_icmp_hdr (replicate 48 0 @ ?b) (plen - 48) ?src ?dst 129 0 v =
      Some (plen, icmp_bytes (plen - 40) ?src ?dst 129 0 v (NOT ck) @ ?b)"
      "make_cksum (icmp_bytes (plen - 40) ?src ?dst 129 0 v (NOT ck) @ ?b) plen = Some 0xffff"
  proof -
    have "plen - 48 + 48 = plen" "plen - 48 + 8 = plen - 40" "nat (plen - 48) + 48 = nat plen"
      using sp by simp_all
    then show ?thesis
      using make_icmp_hdr_ok [OF l, of "plen - 48" "replicate 48 0 @ ?b" 129 0 v] that lb sp(1) by auto
  qed
  let ?d = "icmp_bytes (plen - 40) ?src ?dst 129 0 v (NOT ck) @ ?b"
  have ld: "length ?d = nat plen"
    using lb l by (simp add: length_icmp_bytes)
  note q = buffer_done [OF ld, of plen]
  let ?q = "(pb_set (get_buffer ifc plen) ?d)\<lparr>pb_dlen := plen\<rparr>"
  have "icmp_send_ping_reply ifc sp plen w = send_pkt ifc ?q w"
    unfolding icmp_send_ping_reply_def Let_def c sub v Option.bind.simps h(1) prod.case ..
  moreover have "packet ?q = ?d"
    using buffer_full [OF ld] sp(1) by linarith
  ultimately show ?thesis
    using q(1) sp(1) h(2) v by (intro exI [of _ "NOT ck"] exI [of _ ?q] exI [of _ v]) simp
qed

text \<open>The buffer of an error message has no room for its header.\<close>

lemma icmp_send_error_faults: "icmp_send_error ifc sp len w = None"
proof -
  define nlen where "nlen = (if len > 1232 then 1232 else len)"
  have "memcpy (pb_d (get_buffer ifc nlen)) 48 sp 0 nlen = None"
  proof (cases "0 \<le> nlen")
    case True
    then show ?thesis
      by (simp add: buffer_d memcpy_def mem_sub_def mem_put_def)
  qed (simp add: memcpy_negative)
  then show ?thesis
    by (simp add: icmp_send_error_def nlen_def [symmetric])
qed

lemma handle_icmp_ok:
  assumes ok: "nd_ok ifc head (nlist w)" and p: "72 \<le> length p" "nat len \<le> length p"
    and ping: "p ! 40 = 128 \<Longrightarrow> 48 \<le> len" and na: "p ! 40 = 136 \<Longrightarrow> hwaddr_len ifc = 0 \<or> p ! 64 = 2"
  shows "\<exists>ns fs. handle_icmp ifc p len w = Some (w\<lparr>nlist := ns, sent := sent w @ fs\<rparr>) \<and> nd_ok ifc head ns"
proof -
  have m: "mem_get p 40 = Some (p ! 40)" "mem_get p 64 = Some (p ! 64)" "mem_sub p 8 16 = Some (take 16 (drop 8 p))"
      "mem_sub p 48 16 = Some (take 16 (drop 48 p))"
    using p by (simp_all add: mem_get_def mem_sub_def)
  have l: "length (take 16 (drop 8 p)) = 16" "hwaddr_len ifc \<le> int (length (drop 66 p))"
    using p hwaddr_law(2) by auto
  note got = got_neighbor_ok [OF _ l(1)]
  show ?thesis
  proof (cases "p ! 40 = 128")
    case True
    obtain q where "icmp_send_ping_reply ifc p len w = send_pkt ifc q w" "sendable head q"
      using icmp_send_ping_reply_ok [OF ping [OF True] p(2)] by blast
    then show ?thesis
      using send_pkt_frame [OF _ ok, of q] m True by (simp add: handle_icmp_def)
  next
    case n128: False
    show ?thesis
    proof (cases "p ! 40 = 135")
      case True
      let ?c = "0 < hwaddr_len ifc \<and> (if 0 < hwaddr_len ifc then p ! 64 else 0) = 1"
      obtain ns fs where g: "(if ?c then got_neighbor ifc (take 16 (drop 8 p)) (Some (drop 66 p)) w else Some w) =
          Some (w\<lparr>nlist := ns, sent := sent w @ fs\<rparr>)" "nd_ok ifc head ns"
      proof (cases ?c)
        case True
        then show ?thesis
          using that got [OF ok, of "Some (drop 66 p)"] l(2) by auto
      next
        case False
        then show ?thesis
          using that [of "[]" "nlist w"] ok by auto
      qed
      let ?w = "w\<lparr>nlist := ns, sent := sent w @ fs\<rparr>"
      have b: "(if 0 < hwaddr_len ifc then mem_get p 64 else Some 0) = Some (if 0 < hwaddr_len ifc then p ! 64 else 0)"
        using m by simp
      have h: "handle_icmp ifc p len w = (if take 16 (drop 48 p) = mylladdr then icmp_send_na ifc (Some (take 16 (drop 8 p))) ?w else Some ?w)"
        unfolding handle_icmp_def m(1,3,4) b Option.bind.simps g(1) using True by simp
      obtain q where q: "icmp_send_na ifc (Some (take 16 (drop 8 p))) ?w = send_pkt ifc q ?w" "sendable head q"
        using icmp_send_na_ok [of "Some (take 16 (drop 8 p))" ?w] l(1) by auto
      have "nd_ok ifc head (nlist ?w)"
        using g(2) by simp
      from send_pkt_frame [OF q(2) this] show ?thesis
        using h q(1) g(2) by auto
    next
      case n135: False
      show ?thesis
      proof (cases "p ! 40 = 136")
        case True
        have "\<exists>ll. handle_icmp ifc p len w = got_neighbor ifc (take 16 (drop 8 p)) ll w \<and>
            (case ll of None \<Rightarrow> hwaddr_len ifc = 0 | Some l \<Rightarrow> hwaddr_len ifc \<le> int (length l))"
          using m True na [OF True] hwaddr_law(1) l(2) by (auto simp: handle_icmp_def)
        then show ?thesis
          using got [OF ok] by fastforce
      next
        case False
        then show ?thesis
          using m n128 n135 ok by (intro exI [of _ "nlist w"] exI [of _ "[]"]) (simp add: handle_icmp_def)
      qed
    qed
  qed
qed

end

subsection \<open>Properties\<close>

text \<open>The drivers of the model with the number of header bytes they add.\<close>

definition driver :: "iface \<Rightarrow> int \<Rightarrow> bool" where
  "driver ifc room \<longleftrightarrow> ifc = tun_iface \<and> room = 4 \<or> ifc = tap_iface \<and> room = 18 \<or>
     (\<exists>i. ifc = ip_iface i \<and> mac_ok (ip_ife i) \<and> room = 14) \<or> (\<exists>i. ifc = uml_sw_iface i \<and> mac_ok (uml_ife i) \<and> room = 14)"

lemma driver_link: "driver ifc room \<Longrightarrow> link_driver ifc room"
  using tun.link_driver_axioms tap.link_driver_axioms ip_link uml_link by (auto simp: driver_def)

lemma driver_tap: "driver tap_iface 18" "hwaddr_len tap_iface = 6"
  and driver_tun: "driver tun_iface 4"
  by (simp_all add: driver_def) (simp add: tap_iface_def ether_setup_def)

text \<open>
  C8. Every packet handed to \<open>send_pkt\<close> either leaves at once, as a frame that carries it behind the
  driver's header, or is queued at its next hop; a solicitation goes out exactly when the next hop is
  unknown. The call returns (the recursion through \<open>icmp_send_ns\<close> is one level deep because
  solicitations are multicast), touches no memory out of bounds, changes nothing but the neighbour
  table and the output, and keeps the neighbour table well formed: a reachable neighbour has a link
  address and an empty queue, and queued packets belong to the neighbour they wait for.
\<close>

theorem send_pkt_hands_over:
  assumes "driver ifc room" and "sendable room p" and "nd_ok ifc room (nlist w)"
  shows "\<exists>ns fs. send_pkt ifc p w = Some (w\<lparr>nlist := ns, sent := sent w @ fs\<rparr>) \<and> nd_ok ifc room ns \<and>
    handed_over ifc room p (nlist w) ns fs"
  using link_driver.send_pkt_ok [OF driver_link [OF assms(1)] assms(2,3)] .

lemma demo_buffer:
  assumes "driver ifc room" "40 \<le> n"
  shows "sendable room ((get_buffer ifc n)\<lparr>pb_dlen := n\<rparr>)" "pb_d ((get_buffer ifc n)\<lparr>pb_dlen := n\<rparr>) = replicate (nat n) 0"
proof -
  have b: "pbuf_ok (get_buffer ifc n)" "pb_offset (get_buffer ifc n) = room" "pb_d (get_buffer ifc n) = replicate (nat n) 0"
    using link_driver.get_buffer_law [OF driver_link [OF assms(1)], of n] assms(2) by auto
  have "pb_max (get_buffer ifc n) = n"
    using length_pb_d [OF b(1)] b(3) assms(2) by simp
  then show "sendable room ((get_buffer ifc n)\<lparr>pb_dlen := n\<rparr>)"
    using b assms(2) pbuf_ok_dlen [OF b(1), of n] by (simp add: sendable_def)
  show "pb_d ((get_buffer ifc n)\<lparr>pb_dlen := n\<rparr>) = replicate (nat n) 0"
    using b(3) by simp
qed

theorem send_pkt_hands_over_witness:
  defines "p \<equiv> (get_buffer tap_iface 40)\<lparr>pb_dlen := 40\<rparr>"
  shows "\<exists>ns fs. send_pkt tap_iface p (start_world zero_time) = Some ((start_world zero_time)\<lparr>nlist := ns, sent := fs\<rparr>) \<and>
    handed_over tap_iface 18 p [] ns fs"
  using send_pkt_hands_over [OF driver_tap(1), of p "start_world zero_time"] demo_buffer(1) [OF driver_tap(1), of 40]
  by (auto simp: p_def start_world_def)

text \<open>
  C9. When the link address of a neighbour arrives, every packet that waits for it is sent, in the
  order in which it was queued, and nothing else is sent; the neighbour becomes reachable, an unknown
  neighbour is entered as reachable, and the table stays well formed.
\<close>

theorem got_neighbor_flushes:
  assumes "driver ifc room" and "nd_ok ifc room (nlist w)" and "length addr = 16" and "hwaddr_len ifc \<le> int (length l)"
  shows "\<exists>ns fs n. got_neighbor ifc addr (Some l) w = Some (w\<lparr>nlist := ns, sent := sent w @ fs\<rparr>) \<and> nd_ok ifc room ns \<and>
    find (\<lambda>n. n_addr n = addr) ns = Some n \<and> n_state n = ND_REACHABLE \<and>
    list_all2 (carries room) fs (case find_neighbor addr w of None \<Rightarrow> [] | Some m \<Rightarrow> n_queue m)"
  using link_driver.got_neighbor_ok [OF driver_link [OF assms(1)] assms(2,3), of "Some l"] assms(4) by simp

theorem got_neighbor_flushes_witness:
  defines "p \<equiv> (get_buffer tap_iface 40)\<lparr>pb_dlen := 40\<rparr>"
  defines "w \<equiv> (start_world zero_time)\<lparr>nlist := [\<lparr>n_queue = [p], n_state = 0, n_addr = otherlladdr, n_linkaddr = None\<rparr>]\<rparr>"
  shows "\<exists>ns f. got_neighbor tap_iface otherlladdr (Some [1, 2, 3, 4, 5, 6]) w = Some (w\<lparr>nlist := ns, sent := [f]\<rparr>) \<and>
    carries 18 f p"
proof -
  have "sendable 18 p" "pb_d p = replicate 40 0"
    using demo_buffer [OF driver_tap(1), of 40] by (simp_all add: p_def)
  then have "nd_ok tap_iface 18 (nlist w)"
    by (simp add: w_def nd_ok_def neighbor_ok_def multicast_def next_hop_def) (simp add: otherlladdr_def)
  then show ?thesis
    using got_neighbor_flushes [OF driver_tap(1), of w otherlladdr "[1, 2, 3, 4, 5, 6]"] driver_tap(2)
    by (auto simp: otherlladdr_def w_def start_world_def find_neighbor_def list_all2_Cons2)
qed

text \<open>
  C19. A ping is answered with the same packet turned round: source and destination addresses
  exchanged, type 129, the identifier and sequence number and all data bytes repeated, and a checksum
  that verifies; the reply is handed to \<open>send_pkt\<close>.
\<close>

theorem ping_reply_echoes:
  assumes "driver ifc room" and "48 \<le> plen" and "nat plen \<le> length sp" and "sp ! 40 = 128"
  shows "\<exists>ck q v. handle_icmp ifc sp plen w = send_pkt ifc q w \<and> sendable room q \<and> GET_32 sp 44 = Some v \<and>
    packet q = icmp_bytes (plen - 40) (take 16 (drop 24 sp)) (take 16 (drop 8 sp)) 129 0 v ck @ take (nat plen - 48) (drop 48 sp) \<and>
    make_cksum (packet q) (pb_dlen q) = Some 0xffff"
proof -
  have "40 < length sp"
    using assms(2,3) by linarith
  then have "handle_icmp ifc sp plen w = icmp_send_ping_reply ifc sp plen w"
    using assms(4) by (simp add: handle_icmp_def mem_get_def)
  then show ?thesis
    using link_driver.icmp_send_ping_reply_ok [OF driver_link [OF assms(1)] assms(2,3), of w] by simp
qed

theorem ping_reply_echoes_witness:
  "\<exists>q. handle_icmp tun_iface (replicate 40 7 @ 128 # replicate 23 9) 64 (start_world zero_time) = send_pkt tun_iface q (start_world zero_time) \<and>
     make_cksum (packet q) (pb_dlen q) = Some 0xffff"
  using ping_reply_echoes [OF driver_tun, of 64 "replicate 40 7 @ 128 # replicate 23 9" "start_world zero_time"]
  by (force simp: nth_append)

text \<open>
  C18. The ICMP code is memory safe in any state with a well-formed neighbour table, on every packet
  but two kinds: given at least 72 bytes of buffer, unless the packet is a ping of less than 48 bytes or
  (on a link with addresses) an advertisement without the target link address option, the handler
  returns, keeps the table well formed and changes nothing but the table and the output.
\<close>

theorem handle_icmp_safe:
  assumes "driver ifc room" and "nd_ok ifc room (nlist w)" and "72 \<le> length p" and "nat len \<le> length p"
    and "p ! 40 = 128 \<longrightarrow> 48 \<le> len" and "p ! 40 = 136 \<longrightarrow> hwaddr_len ifc = 0 \<or> p ! 64 = 2"
  shows "\<exists>ns fs. handle_icmp ifc p len w = Some (w\<lparr>nlist := ns, sent := sent w @ fs\<rparr>) \<and> nd_ok ifc room ns"
  using link_driver.handle_icmp_ok [OF driver_link [OF assms(1)] assms(2-4)] assms(5,6) by blast

theorem handle_icmp_safe_witness:
  "\<exists>ns fs. handle_icmp tap_iface (replicate 40 7 @ 135 # replicate 59 1) 72 (start_world zero_time) =
     Some ((start_world zero_time)\<lparr>nlist := ns, sent := fs\<rparr>) \<and> nd_ok tap_iface 18 ns"
  using handle_icmp_safe [OF driver_tap(1), of "start_world zero_time" "replicate 40 7 @ 135 # replicate 59 1" 72]
  by (auto simp: start_world_def nth_append)

text \<open>
  C34. An advertisement without a link address option is trusted all the same: on the tap driver, if
  packets wait for the neighbour, the handler marks it reachable and sends them to a link address that
  was never written (reading the uninitialised bytes is the fault \<open>None\<close>).
\<close>

theorem na_without_option_faults:
  assumes "72 \<le> length p" and "p ! 40 = 136" and "p ! 64 \<noteq> 2" and "nd_ok tap_iface 18 (nlist w)"
    and "find_neighbor (take 16 (drop 8 p)) w = Some m" and "n_state m = ND_INCOMPLETE" and "n_linkaddr m = None" and "n_queue m \<noteq> []"
  shows "handle_icmp tap_iface p len w = None"
proof -
  let ?a = "take 16 (drop 8 p)" and ?f = "\<lambda>n :: neighbor. n\<lparr>n_state := ND_REACHABLE\<rparr>"
  let ?w = "n_upd ?a ?f w"
  have mem: "mem_get p 40 = Some 136" "mem_get p 64 = Some (p ! 64)" "mem_sub p 8 16 = Some ?a"
    using assms(1,2) by (simp_all add: mem_get_def mem_sub_def)
  have f: "find_neighbor ?a ?w = Some (?f m)"
    using assms(5) by (simp add: find_neighbor_def find_upd_first)
  obtain q qs where q: "n_queue m = q # qs" "sendable 18 q" "\<not> multicast q" "next_hop q = ?a"
    using assms(6,8) find_neighbor_ok [OF assms(4,5)] by (cases "n_queue m") (auto simp: neighbor_ok_def)
  have d: "mem_get (pb_d q) 24 = Some (pb_d q ! 24)" "mem_get (pb_d q) 25 = Some (pb_d q ! 25)" "pb_d q ! 24 \<noteq> 0xff"
      "mem_sub (pb_d q) 24 16 = Some (take 16 (drop 24 (pb_d q)))"
    using q(3) sendable_len [OF q(2)] by (simp_all add: multicast_def mem_get_def mem_sub_def)
  have dest: "(if pb_d q ! 24 = 0xfe \<and> pb_d q ! 25 = 0x80 then mem_sub (pb_d q) 24 16 else Some otherlladdr) = Some ?a"
    using d(4) q(4) unfolding next_hop_def by presburger
  have "send_unicast tap_iface q None = None"
    by (simp add: tap_iface_def ether_setup_def ether_send_unicast_def Let_def)
  then have "send_pkt tap_iface q ?w = None"
    using d(1-3) dest f assms(7) driver_tap(2) by (subst send_pkt.simps) simp
  then have "got_neighbor tap_iface ?a None w = None"
    using assms(5) f q(1) by (simp add: got_neighbor_def)
  then show ?thesis
    using mem assms(3) by (simp add: handle_icmp_def)
qed

theorem na_without_option_faults_witness:
  defines "p \<equiv> (get_buffer tap_iface 40)\<lparr>pb_dlen := 40\<rparr>"
  defines "w \<equiv> (start_world zero_time)\<lparr>nlist := [\<lparr>n_queue = [p], n_state = 0, n_addr = otherlladdr, n_linkaddr = None\<rparr>]\<rparr>"
  shows "handle_icmp tap_iface (replicate 8 0 @ otherlladdr @ replicate 16 0 @ 136 # replicate 40 0) 72 w = None"
proof -
  have "sendable 18 p" "pb_d p = replicate 40 0"
    using demo_buffer [OF driver_tap(1), of 40] by (simp_all add: p_def)
  then have ok: "nd_ok tap_iface 18 (nlist w)"
    by (simp add: w_def nd_ok_def neighbor_ok_def multicast_def next_hop_def) (simp add: otherlladdr_def)
  show ?thesis
    by (rule na_without_option_faults [OF _ _ _ ok,
          where m = "\<lparr>n_queue = [p], n_state = 0, n_addr = otherlladdr, n_linkaddr = None\<rparr>"]) (simp_all add: w_def find_neighbor_def otherlladdr_def nth_append)
qed

text \<open>
  C35. An error message cannot be sent: \<open>icmp_send_error\<close> asks for a buffer of the payload's size and
  copies the payload behind 48 bytes of header into it, so for every packet and every length the copy
  runs past the end of the buffer (\<open>None\<close>).
\<close>

theorem icmp_send_error_overflows:
  assumes "driver ifc room"
  shows "icmp_send_error ifc sp len w = None"
  by (rule link_driver.icmp_send_error_faults [OF driver_link [OF assms]])

theorem icmp_send_error_overflows_witness:
  "icmp_send_error tap_iface (replicate 60 0) 60 (start_world zero_time) = None"
  by (rule icmp_send_error_overflows [OF driver_tap(1)])

end
