(* ===== verification/Rbtree_Shape.thy ===== *)
theory Rbtree_Shape
  imports Rbtree
begin

text \<open>
  The abstract side of the red-black tree: trees of node addresses, the representation predicate
  that ties them to the pointers in memory, and the effect of every pointer primitive (reading a
  node, recolouring, rotating) on the represented tree. A position inside a tree is a list of
  frames, innermost first, so a loop that climbs the tree is an induction on that list.
\<close>

subsection \<open>Trees of addresses and positions in them\<close>

datatype color = Red | Black

datatype rtree = Lf | Nd rtree ptr color rtree

datatype frame = FL ptr color rtree | FR rtree ptr color

fun cbit :: "color \<Rightarrow> 64 word" where
  "cbit Red = RB_RED"
| "cbit Black = RB_BLACK"

fun addrs :: "rtree \<Rightarrow> ptr list" where
  "addrs Lf = []"
| "addrs (Nd l a c r) = addrs l @ a # addrs r"

fun tptr :: "rtree \<Rightarrow> ptr" where
  "tptr Lf = 0"
| "tptr (Nd l a c r) = a"

fun tcolor :: "rtree \<Rightarrow> color" where
  "tcolor Lf = Black"
| "tcolor (Nd l a c r) = c"

fun paint :: "color \<Rightarrow> rtree \<Rightarrow> rtree" where
  "paint c Lf = Lf"
| "paint c (Nd l a c' r) = Nd l a c r"

fun fill1 :: "frame \<Rightarrow> rtree \<Rightarrow> rtree" where
  "fill1 (FL a c r) t = Nd t a c r"
| "fill1 (FR l a c) t = Nd l a c t"

fun fill :: "frame list \<Rightarrow> rtree \<Rightarrow> rtree" where
  "fill [] t = t"
| "fill (f # fs) t = fill fs (fill1 f t)"

fun fptr :: "frame \<Rightarrow> ptr" where
  "fptr (FL a c r) = a"
| "fptr (FR l a c) = a"

fun fcolor :: "frame \<Rightarrow> color" where
  "fcolor (FL a c r) = c"
| "fcolor (FR l a c) = c"

fun fsib :: "frame \<Rightarrow> rtree" where
  "fsib (FL a c r) = r"
| "fsib (FR l a c) = l"

fun up :: "frame list \<Rightarrow> ptr" where
  "up [] = 0"
| "up (f # fs) = fptr f"

fun up_color :: "frame list \<Rightarrow> color" where
  "up_color [] = Black"
| "up_color (f # fs) = fcolor f"

fun before :: "frame list \<Rightarrow> ptr list" where
  "before [] = []"
| "before (FL a c r # fs) = before fs"
| "before (FR l a c # fs) = before fs @ addrs l @ [a]"

fun after :: "frame list \<Rightarrow> ptr list" where
  "after [] = []"
| "after (FL a c r # fs) = a # addrs r @ after fs"
| "after (FR l a c # fs) = after fs"

lemma addrs_fill: "addrs (fill fs t) = before fs @ addrs t @ after fs"
proof (induction fs arbitrary: t)
  case (Cons f fs)
  then show ?case
    by (cases f) auto
qed simp

subsection \<open>Representation\<close>

text \<open>
  \<open>shape h par p t\<close>: from address \<open>p\<close> the memory \<open>h\<close> holds the tree \<open>t\<close>, whose
  root has the parent \<open>par\<close>.
\<close>

fun shape :: "rbheap \<Rightarrow> ptr \<Rightarrow> ptr \<Rightarrow> rtree \<Rightarrow> bool" where
  "shape h par p Lf \<longleftrightarrow> p = 0"
| "shape h par p (Nd l a c r) \<longleftrightarrow>
     p = a \<and> a \<noteq> 0 \<and> aligned a \<and>
     (case h a of
        None \<Rightarrow> False
      | Some n \<Rightarrow> rb_parent n = par \<and> rb_color n = cbit c \<and>
          shape h a (rb_lchild n) l \<and> shape h a (rb_rchild n) r)"

fun holds :: "rbheap \<Rightarrow> ptr \<Rightarrow> frame list \<Rightarrow> ptr \<Rightarrow> bool" where
  "holds h rt [] p \<longleftrightarrow> rt = p"
| "holds h rt (FL a c r # fs) p \<longleftrightarrow>
     a \<noteq> 0 \<and> aligned a \<and>
     (case h a of
        None \<Rightarrow> False
      | Some n \<Rightarrow> rb_parent n = up fs \<and> rb_color n = cbit c \<and> rb_lchild n = p \<and>
          shape h a (rb_rchild n) r \<and> holds h rt fs a)"
| "holds h rt (FR l a c # fs) p \<longleftrightarrow>
     a \<noteq> 0 \<and> aligned a \<and>
     (case h a of
        None \<Rightarrow> False
      | Some n \<Rightarrow> rb_parent n = up fs \<and> rb_color n = cbit c \<and> rb_rchild n = p \<and>
          shape h a (rb_lchild n) l \<and> holds h rt fs a)"

definition tree_at :: "rbs \<Rightarrow> rtree \<Rightarrow> bool" where
  "tree_at s t \<longleftrightarrow> shape (nodes s) 0 (root s) t \<and> distinct (addrs t)"

lemma shape_tptr: "shape h par p t \<Longrightarrow> p = tptr t"
  by (cases t) auto

lemma shape_NdE:
  assumes "shape h par p (Nd l a c r)"
  obtains n where "h a = Some n" "rb_parent n = par" "rb_color n = cbit c" "rb_lchild n = tptr l"
    "rb_rchild n = tptr r" "shape h a (tptr l) l" "shape h a (tptr r) r" "a \<noteq> 0" "aligned a" "p = a"
proof -
  obtain n where n: "h a = Some n" "rb_parent n = par" "rb_color n = cbit c" "a \<noteq> 0" "aligned a" "p = a"
      "shape h a (rb_lchild n) l" "shape h a (rb_rchild n) r"
    using assms by (auto split: option.splits)
  then show thesis
    using that [of n] shape_tptr [OF n(7)] shape_tptr [OF n(8)] by simp
qed

lemma shape_fill:
  "shape h 0 rt (fill fs t) \<longleftrightarrow> holds h rt fs (tptr t) \<and> shape h (up fs) (tptr t) t"
proof (induction fs arbitrary: t)
  case Nil
  then show ?case
    by (auto dest: shape_tptr)
next
  case (Cons f fs)
  show ?case
    by (cases f) (auto simp: Cons.IH split: option.splits dest: shape_tptr, (metis shape_tptr)+)
qed

lemma tree_at_fill:
  "tree_at s (fill fs t) \<longleftrightarrow>
     holds (nodes s) (root s) fs (tptr t) \<and> shape (nodes s) (up fs) (tptr t) t \<and>
     distinct (before fs @ addrs t @ after fs)"
  by (auto simp: tree_at_def shape_fill addrs_fill)

subsection \<open>Framing\<close>

declare fun_upd_apply [simp del]
declare fun_upd_same [simp] fun_upd_other [simp]

lemma shape_upd: "a \<notin> set (addrs t) \<Longrightarrow> shape (h(a := v)) par p t = shape h par p t"
  by (induction t arbitrary: par p) (auto cong: option.case_cong)

lemma holds_upd:
  "a \<notin> set (before fs) \<Longrightarrow> a \<notin> set (after fs) \<Longrightarrow> holds (h(a := v)) rt fs p = holds h rt fs p"
proof (induction fs arbitrary: p)
  case (Cons f fs)
  then show ?case
    by (cases f) (auto simp: shape_upd cong: option.case_cong)
qed simp

lemmas frame_upd = shape_upd holds_upd

lemma shape_addrs:
  "shape h par p t \<Longrightarrow> a \<in> set (addrs t) \<Longrightarrow> a \<noteq> 0 \<and> aligned a \<and> (\<exists>n. h a = Some n)"
  by (induction t arbitrary: par p) (fastforce split: option.splits)+

lemma up_in: "fs \<noteq> [] \<Longrightarrow> up fs \<in> set (before fs) \<union> set (after fs)"
  by (cases fs rule: before.cases) auto

lemma tptr_0: "shape h par p t \<Longrightarrow> tptr t = 0 \<longleftrightarrow> t = Lf"
  by (cases t) auto

lemma tptr_in: "t \<noteq> Lf \<Longrightarrow> tptr t \<in> set (addrs t)"
  by (cases t) auto

lemma holds_root:
  "holds h rt fs p \<Longrightarrow> fs \<noteq> [] \<Longrightarrow> rt \<noteq> 0 \<and> rt \<in> set (before fs) \<union> set (after fs)"
proof (induction fs arbitrary: p)
  case (Cons f fs)
  then show ?case
    by (cases f; cases "fs = []") (auto split: option.splits)
qed simp

lemma root_above:
  assumes "tree_at s (fill fs t)" and "fs \<noteq> []"
  shows "root s \<noteq> tptr t"
  using assms holds_root [of "nodes s" "root s" fs "tptr t"] tptr_0 tptr_in [of t]
  by (cases t) (auto simp: tree_at_fill)

lemma up_aligned: "holds h rt fs p \<Longrightarrow> aligned (up fs)"
  by (cases fs rule: before.cases) auto

lemma up_0: "holds h rt fs p \<Longrightarrow> up fs = 0 \<longleftrightarrow> fs = []"
  by (cases fs rule: before.cases) auto

lemma shape_reparent:
  assumes "shape h par p t" and "t \<noteq> Lf" and "h p = Some n" and "aligned par'" and "distinct (addrs t)"
  shows "shape (h(p \<mapsto> set_parent par' n)) par' p t"
  using assms by (cases t) (auto simp: shape_upd pack_simps)

lemma upd_Some: "nodes s p = Some n \<Longrightarrow> upd p f s = Some (s\<lparr>nodes := (nodes s)(p \<mapsto> f n)\<rparr>)"
  by (simp add: upd_def)

subsection \<open>Steps on the represented tree\<close>

text \<open>
  \<open>evolves s t s' t'\<close>: memory went from \<open>s\<close> to \<open>s'\<close>, which represents \<open>t'\<close>, with
  the same nodes in the same order and nothing outside the tree touched.
\<close>

definition evolves :: "rbs \<Rightarrow> rtree \<Rightarrow> rbs \<Rightarrow> rtree \<Rightarrow> bool" where
  "evolves s t s' t' \<longleftrightarrow>
     tree_at s' t' \<and> addrs t' = addrs t \<and> (\<forall>b. b \<notin> set (addrs t) \<longrightarrow> nodes s' b = nodes s b)"

lemma evolves_refl: "tree_at s t \<Longrightarrow> evolves s t s t"
  by (simp add: evolves_def)

lemma evolves_trans: "evolves s t s' t' \<Longrightarrow> evolves s' t' s'' t'' \<Longrightarrow> evolves s t s'' t''"
  by (simp add: evolves_def)

lemma evolvesD: "evolves s t s' t' \<Longrightarrow> tree_at s' t'"
  by (simp add: evolves_def)

lemma focus:
  assumes "tree_at s (fill fs (Nd l a c r))"
  obtains n where "nodes s a = Some n" "rb_parent n = up fs" "rb_color n = cbit c"
    "rb_lchild n = tptr l" "rb_rchild n = tptr r" "a \<noteq> 0" "aligned a"
  using assms by (auto simp: tree_at_fill split: option.splits dest: shape_tptr)

lemma relink_ok:
  assumes h: "holds (nodes s) (root s) fs p" and p: "p \<noteq> 0"
    and p': "p \<notin> set (before fs) \<union> set (after fs)" and d: "distinct (before fs @ after fs)"
  shows "\<exists>s'. relink (up fs) p q s = Some s' \<and> relink_r (up fs) p q s = Some s' \<and>
    holds (nodes s') (root s') fs q \<and> (\<forall>b. b \<noteq> up fs \<or> fs = [] \<longrightarrow> nodes s' b = nodes s b)"
proof (cases fs rule: before.cases)
  case 1
  then show ?thesis
    by (simp add: relink_def relink_r_def)
next
  case (2 a c r gs)
  then obtain n where n: "nodes s a = Some n" "rb_lchild n = p" "rb_parent n = up gs" "rb_color n = cbit c"
    "shape (nodes s) a (rb_rchild n) r" "holds (nodes s) (root s) gs a" "a \<noteq> 0" "aligned a"
    using h by (auto split: option.splits)
  then have "rb_rchild n \<noteq> p"
    using p p' 2 by (cases r) auto
  then show ?thesis
    using 2 n d by (intro exI [of _ "s\<lparr>nodes := (nodes s)(a \<mapsto> n\<lparr>rb_lchild := q\<rparr>)\<rparr>"])
      (simp add: relink_def relink_r_def set_lchild_def upd_def frame_upd pack_simps)
next
  case (3 l a c gs)
  then obtain n where n: "nodes s a = Some n" "rb_rchild n = p" "rb_parent n = up gs" "rb_color n = cbit c"
    "shape (nodes s) a (rb_lchild n) l" "holds (nodes s) (root s) gs a" "a \<noteq> 0" "aligned a"
    using h by (auto split: option.splits)
  then have "rb_lchild n \<noteq> p"
    using p p' 3 by (cases l) auto
  then show ?thesis
    using 3 n d by (intro exI [of _ "s\<lparr>nodes := (nodes s)(a \<mapsto> n\<lparr>rb_rchild := q\<rparr>)\<rparr>"])
      (simp add: relink_def relink_r_def set_rchild_def upd_def frame_upd pack_simps)
qed

lemma recolor:
  assumes t: "tree_at s (fill fs (Nd l a c r))"
    and f: "\<And>n. rb_parent (f n) = rb_parent n" "\<And>n. rb_lchild (f n) = rb_lchild n"
      "\<And>n. rb_rchild (f n) = rb_rchild n" "\<And>n. rb_color (f n) = cbit c'"
  shows "\<exists>s'. upd a f s = Some s' \<and> evolves s (fill fs (Nd l a c r)) s' (fill fs (Nd l a c' r))"
proof -
  obtain n where n: "nodes s a = Some n"
    using t by (rule focus)
  let ?s = "s\<lparr>nodes := (nodes s)(a \<mapsto> f n)\<rparr>"
  have "upd a f s = Some ?s"
    using n by (rule upd_Some)
  moreover have "tree_at ?s (fill fs (Nd l a c' r))"
    using t n by (auto simp: tree_at_fill f frame_upd)
  ultimately show ?thesis
    using n by (auto simp: evolves_def addrs_fill)
qed

lemma set_red_ok:
  "tree_at s (fill fs (Nd l a c r)) \<Longrightarrow>
     \<exists>s'. rb_set_red a s = Some s' \<and> evolves s (fill fs (Nd l a c r)) s' (fill fs (Nd l a Red r))"
  unfolding rb_set_red_def by (rule recolor) (simp_all add: pack_simps)

lemma set_black_ok:
  "tree_at s (fill fs (Nd l a c r)) \<Longrightarrow>
     \<exists>s'. rb_set_black a s = Some s' \<and> evolves s (fill fs (Nd l a c r)) s' (fill fs (Nd l a Black r))"
  unfolding rb_set_black_def by (rule recolor) (simp_all add: pack_simps)

lemma cbit_cases: "cbit c = RB_RED \<or> cbit c = RB_BLACK"
  by (cases c) auto

lemma set_color_ok:
  "tree_at s (fill fs (Nd l a c r)) \<Longrightarrow>
     \<exists>s'. rb_set_color a (cbit c') s = Some s' \<and>
       evolves s (fill fs (Nd l a c r)) s' (fill fs (Nd l a c' r))"
  unfolding rb_set_color_def by (rule recolor) (simp_all add: pack_simps cbit_cases)

lemma adopt_ok:
  assumes "shape (nodes s) par (tptr t) t" and "aligned q" and "distinct (addrs t)"
  shows "\<exists>s'. adopt (tptr t) q s = Some s' \<and> shape (nodes s') q (tptr t) t \<and> root s' = root s \<and>
    (\<forall>b. b \<noteq> tptr t \<or> t = Lf \<longrightarrow> nodes s' b = nodes s b)"
proof (cases t)
  case (Nd l a c r)
  then obtain n where n: "nodes s (tptr t) = Some n" "tptr t \<noteq> 0"
    using assms by (auto split: option.splits)
  have "shape ((nodes s)(tptr t \<mapsto> set_parent q n)) q (tptr t) t"
    using assms n Nd by (intro shape_reparent) auto
  then show ?thesis
    using n Nd by (auto simp: adopt_def rb_set_parent_def upd_Some)
qed (simp add: adopt_def)

lemma shape_cong: "(\<And>b. b \<in> set (addrs t) \<Longrightarrow> h b = h' b) \<Longrightarrow> shape h par p t = shape h' par p t"
  by (induction t arbitrary: par p) (auto cong: option.case_cong)

lemma holds_cong:
  "(\<And>b. b \<in> set (before fs) \<union> set (after fs) \<Longrightarrow> h b = h' b) \<Longrightarrow> holds h rt fs p = holds h' rt fs p"
proof (induction fs arbitrary: p)
  case (Cons f fs)
  have "holds h rt fs q = holds h' rt fs q" for q
    by (rule Cons.IH) (use Cons.prems in \<open>cases f; auto\<close>)
  then show ?case
    using Cons.prems by (cases f) (auto cong: option.case_cong shape_cong)
qed simp

subsection \<open>Rotations\<close>

lemma rotate_left_ok:
  assumes t: "tree_at s (fill fs (Nd A x cx (Nd B y cy C)))"
  shows "\<exists>s'. rb_rotate_left x s = Some s' \<and>
    evolves s (fill fs (Nd A x cx (Nd B y cy C))) s' (fill fs (Nd (Nd A x cx B) y cy C))"
proof -
  let ?h = "nodes s"
  have d: "distinct (before fs @ (addrs A @ x # addrs B @ y # addrs C) @ after fs)"
    and hl: "holds ?h (root s) fs x"
    using t by (auto simp: tree_at_fill)
  have "shape ?h (up fs) x (Nd A x cx (Nd B y cy C))"
    using t by (auto simp: tree_at_fill)
  then obtain nx where x: "?h x = Some nx" "rb_parent nx = up fs" "rb_color nx = cbit cx"
      "rb_lchild nx = tptr A" "rb_rchild nx = y" "shape ?h x (tptr A) A"
      "shape ?h x y (Nd B y cy C)" "x \<noteq> 0" "aligned x"
    by (rule shape_NdE) auto
  from x(7) obtain ny where y: "?h y = Some ny" "rb_color ny = cbit cy" "rb_lchild ny = tptr B"
      "rb_rchild ny = tptr C" "shape ?h y (tptr B) B" "shape ?h y (tptr C) C" "y \<noteq> 0" "aligned y"
    by (rule shape_NdE)
  let ?s1 = "s\<lparr>nodes := ?h(x \<mapsto> nx\<lparr>rb_rchild := tptr B\<rparr>)\<rparr>"
  have e1: "set_rchild x (tptr B) s = Some ?s1"
    using x by (simp add: set_rchild_def upd_Some)
  have "shape (nodes ?s1) y (tptr B) B"
    using y d by (simp add: shape_upd)
  then obtain s2 where e2: "adopt (tptr B) x ?s1 = Some s2" "shape (nodes s2) x (tptr B) B"
      "root s2 = root s" and k2: "\<And>b. b \<noteq> tptr B \<or> B = Lf \<Longrightarrow> nodes s2 b = nodes ?s1 b"
    using adopt_ok [of ?s1 y B x] x d by auto
  have B: "B = Lf \<or> b \<noteq> tptr B" if "b \<notin> set (addrs B)" for b
    using tptr_in [of B] that by auto
  have y2: "nodes s2 y = Some ny" "nodes s2 x = Some (nx\<lparr>rb_rchild := tptr B\<rparr>)"
    using k2 [of y] k2 [of x] B [of x] B [of y] d y by auto
  define s3 where "s3 = s2\<lparr>nodes := (nodes s2)(y \<mapsto> set_parent (up fs) (ny\<lparr>rb_lchild := x\<rparr>))\<rparr>"
  let ?s2 = "s2\<lparr>nodes := (nodes s2)(y \<mapsto> ny\<lparr>rb_lchild := x\<rparr>)\<rparr>"
  have e3: "set_lchild y x s2 = Some ?s2" "rb_set_parent y (up fs) ?s2 = Some s3"
    using y2 by (simp_all add: set_lchild_def rb_set_parent_def upd_Some s3_def)
  have k3: "nodes s3 b = ?h b" if "b \<notin> set (addrs B)" "b \<noteq> x" "b \<noteq> y" for b
    using k2 [of b] B [of b] that by (auto simp: s3_def)
  have "holds (nodes s3) (root s3) fs x = holds ?h (root s3) fs x"
    by (rule holds_cong, rule k3) (use d in auto)
  then have h3: "holds (nodes s3) (root s3) fs x"
    using hl e2(3) by (simp add: s3_def)
  have "x \<notin> set (before fs) \<union> set (after fs)" "distinct (before fs @ after fs)"
    using d by auto
  from relink_ok [OF h3 x(8) this, of y]
  obtain s4 where e4: "relink (up fs) x y s3 = Some s4" "holds (nodes s4) (root s4) fs y"
    and k4: "\<And>b. b \<noteq> up fs \<or> fs = [] \<Longrightarrow> nodes s4 b = nodes s3 b"
    by blast
  have k4': "nodes s4 b = nodes s3 b" if "b \<notin> set (before fs)" "b \<notin> set (after fs)" for b
    using k4 [of b] up_in [of fs] that by auto
  have x4: "nodes s4 x = Some (nx\<lparr>rb_rchild := tptr B\<rparr>)"
    using k4' [of x] d y2 by (auto simp: s3_def)
  have y4: "nodes s4 y = Some (set_parent (up fs) (ny\<lparr>rb_lchild := x\<rparr>))"
    using k4' [of y] d by (auto simp: s3_def)
  let ?s5 = "s4\<lparr>nodes := (nodes s4)(x \<mapsto> set_parent y (nx\<lparr>rb_rchild := tptr B\<rparr>))\<rparr>"
  have "rb_set_parent x y s4 = Some ?s5"
    using x4 by (simp add: rb_set_parent_def upd_Some)
  then have run: "rb_rotate_left x s = Some ?s5"
    by (simp add: rb_rotate_left_def Let_def x(1,2,5) y(1,3) e1 e2(1) e3 e4(1))
  have k5: "nodes ?s5 b = nodes s3 b" if "b \<notin> set (before fs)" "b \<notin> set (after fs)" "b \<noteq> x" for b
    using that k4' by simp
  have "shape (nodes ?s5) x (tptr A) A = shape ?h x (tptr A) A"
    using d by (intro shape_cong trans [OF k5 k3]) auto
  moreover have "shape (nodes ?s5) x (tptr B) B = shape (nodes s2) x (tptr B) B"
    using d by (intro shape_cong trans [OF k5]) (auto simp: s3_def fun_upd_apply)
  moreover have "shape (nodes ?s5) y (tptr C) C = shape ?h y (tptr C) C"
    using d by (intro shape_cong trans [OF k5 k3]) auto
  moreover have "holds (nodes ?s5) (root ?s5) fs y"
    using e4(2) d by (simp add: holds_upd)
  ultimately have "tree_at ?s5 (fill fs (Nd (Nd A x cx B) y cy C))"
    using x y e2(2) x4 y4 d up_aligned [OF hl] by (auto simp: tree_at_fill pack_simps)
  moreover have "nodes ?s5 b = ?h b" if "b \<notin> set (addrs (fill fs (Nd A x cx (Nd B y cy C))))" for b
    using that k4' [of b] k3 [of b] by (auto simp: addrs_fill)
  ultimately show ?thesis
    using run by (auto simp: evolves_def addrs_fill)
qed

subsection \<open>Mirror images\<close>

text \<open>
  Every routine of \<^verbatim>\<open>rbtree.c\<close> comes in a left and a right version. Exchanging the two child
  fields of every node turns one into the other, so the right-hand facts follow from the left-hand
  ones.
\<close>

definition mnode :: "rb_node \<Rightarrow> rb_node" where
  "mnode n = n\<lparr>rb_lchild := rb_rchild n, rb_rchild := rb_lchild n\<rparr>"

definition mir :: "rbs \<Rightarrow> rbs" where
  "mir s = s\<lparr>nodes := (\<lambda>a. map_option mnode (nodes s a))\<rparr>"

fun mt :: "rtree \<Rightarrow> rtree" where
  "mt Lf = Lf"
| "mt (Nd l a c r) = Nd (mt r) a c (mt l)"

fun mf :: "frame \<Rightarrow> frame" where
  "mf (FL a c r) = FR (mt r) a c"
| "mf (FR l a c) = FL a c (mt l)"

lemma mnode_simps [simp]:
  "rb_parent (mnode n) = rb_parent n" "rb_color (mnode n) = rb_color n"
  "rb_lchild (mnode n) = rb_rchild n" "rb_rchild (mnode n) = rb_lchild n" "mnode (mnode n) = n"
  by (simp_all add: mnode_def rb_parent_def rb_color_def)

lemma nodes_mir: "nodes (mir s) a = map_option mnode (nodes s a)"
  by (simp add: mir_def)

lemma root_mir [simp]: "root (mir s) = root s" "root (mir (s\<lparr>nodes := h\<rparr>)) = root s"
  by (simp_all add: mir_def)

lemma mir_mir [simp]: "mir (mir s) = s"
  by (simp add: mir_def option.map_comp o_def option.map_ident)

lemma mt_mt [simp]: "mt (mt t) = t"
  by (induction t) auto

lemma mf_mf [simp]: "mf (mf f) = f"
  by (cases f) auto

lemma map_mf_mf [simp]: "map mf (map mf fs) = fs"
  by (simp add: o_def)

lemma mt_tptr [simp]: "tptr (mt t) = tptr t" "tcolor (mt t) = tcolor t"
  by (cases t; simp)+

lemma addrs_mt [simp]: "addrs (mt t) = rev (addrs t)"
  by (induction t) auto

lemma mt_fill: "mt (fill fs t) = fill (map mf fs) (mt t)"
proof (induction fs arbitrary: t)
  case (Cons f fs)
  then show ?case
    by (cases f) auto
qed simp

lemma shape_mir: "shape (nodes (mir s)) par p (mt t) = shape (nodes s) par p t"
  by (induction t arbitrary: par p) (auto simp: nodes_mir split: option.splits)

lemma tree_at_mir: "tree_at (mir s) (mt t) = tree_at s t"
  by (simp add: tree_at_def shape_mir)

lemma evolves_mir: "evolves (mir s) (mt t) (mir s') (mt t') = evolves s t s' t'"
proof -
  have "map_option mnode x = map_option mnode y \<longleftrightarrow> x = y" for x y
    by (cases x; cases y) (auto, metis mnode_simps(5))
  then show ?thesis
    by (simp add: evolves_def tree_at_mir nodes_mir)
qed

lemma upd_mir:
  assumes "\<And>n. f (mnode n) = mnode (g n)"
  shows "upd p f (mir s) = map_option mir (upd p g s)"
proof (cases "nodes s p")
  case (Some n)
  have "(\<lambda>a. map_option mnode (nodes s a))(p \<mapsto> mnode (g n)) =
      (\<lambda>a. map_option mnode (((nodes s)(p \<mapsto> g n)) a))"
    by (auto simp: fun_eq_iff fun_upd_apply)
  then show ?thesis
    using Some assms by (simp add: upd_def nodes_mir mir_def)
qed (simp add: upd_def nodes_mir)

lemma prims_mir:
  "set_lchild p q (mir s) = map_option mir (set_rchild p q s)"
  "set_rchild p q (mir s) = map_option mir (set_lchild p q s)"
  "rb_set_parent p q (mir s) = map_option mir (rb_set_parent p q s)"
  "rb_set_red p (mir s) = map_option mir (rb_set_red p s)"
  "rb_set_black p (mir s) = map_option mir (rb_set_black p s)"
  "rb_set_color p c (mir s) = map_option mir (rb_set_color p c s)"
  unfolding set_lchild_def set_rchild_def rb_set_parent_def rb_set_red_def rb_set_black_def rb_set_color_def
  by (rule upd_mir; simp add: mnode_def set_parent_def set_red_def set_black_def set_color_def)+

lemma bind_map: "map_option f x \<bind> g = x \<bind> (\<lambda>y. g (f y))"
  by (cases x) auto

lemma map_bind: "map_option f (x \<bind> g) = x \<bind> (\<lambda>y. map_option f (g y))"
  by (cases x) auto

lemma if_bind: "Option.bind (if b then x else y) g = (if b then x \<bind> g else y \<bind> g)"
  by simp

lemma if_map: "map_option f (if b then x else y) = (if b then map_option f x else map_option f y)"
  by simp

lemma links_mir:
  "adopt p q (mir s) = map_option mir (adopt p q s)"
  "relink p q r (mir s) = map_option mir (relink_r p q r s)"
  by (simp_all add: adopt_def relink_def relink_r_def prims_mir nodes_mir bind_map map_bind if_distrib
      cong: if_cong) (simp add: mir_def)

lemma rotate_mir: "rb_rotate_left x (mir s) = map_option mir (rb_rotate_right x s)"
  by (simp add: rb_rotate_left_def rb_rotate_right_def Let_def nodes_mir prims_mir links_mir bind_map map_bind)

lemma rotate_mir_r: "rb_rotate_right x (mir s) = map_option mir (rb_rotate_left x s)"
  using rotate_mir [of x "mir s"] by (cases "rb_rotate_left x s"; cases "rb_rotate_right x (mir s)") auto

lemma rotate_right_ok:
  assumes t: "tree_at s (fill fs (Nd (Nd A x cx B) y cy C))"
  shows "\<exists>s'. rb_rotate_right y s = Some s' \<and>
    evolves s (fill fs (Nd (Nd A x cx B) y cy C)) s' (fill fs (Nd A x cx (Nd B y cy C)))"
proof -
  have "tree_at (mir s) (fill (map mf fs) (Nd (mt C) y cy (Nd (mt B) x cx (mt A))))"
    using t tree_at_mir [of s "fill fs (Nd (Nd A x cx B) y cy C)"] by (simp add: mt_fill)
  from rotate_left_ok [OF this] obtain s' where s': "rb_rotate_right y s = Some s'"
    "evolves (mir s) (mt (fill fs (Nd (Nd A x cx B) y cy C))) (mir s') (mt (fill fs (Nd A x cx (Nd B y cy C))))"
    by (auto simp: rotate_mir mt_fill)
  then show ?thesis
    by (auto simp: evolves_mir)
qed

subsection \<open>Chaining steps\<close>

text \<open>\<open>reaches s t m t'\<close>: the computation \<open>m\<close>, started in \<open>s\<close>, does not fault and turns the
  represented tree \<open>t\<close> into \<open>t'\<close>.\<close>

definition reaches :: "rbs \<Rightarrow> rtree \<Rightarrow> rbs option \<Rightarrow> rtree \<Rightarrow> bool" where
  "reaches s t m t' \<longleftrightarrow> (\<exists>s'. m = Some s' \<and> evolves s t s' t')"

lemma reachesE:
  assumes "reaches s t m t'"
  obtains s' where "m = Some s'" "evolves s t s' t'" "tree_at s' t'"
  using assms by (auto simp: reaches_def dest: evolvesD)

lemma reaches_red:
  "tree_at s T \<Longrightarrow> T = fill fs (Nd l a c r) \<Longrightarrow> reaches s T (rb_set_red a s) (fill fs (Nd l a Red r))"
  unfolding reaches_def using set_red_ok by blast

lemma reaches_black:
  "tree_at s T \<Longrightarrow> T = fill fs (Nd l a c r) \<Longrightarrow> reaches s T (rb_set_black a s) (fill fs (Nd l a Black r))"
  unfolding reaches_def using set_black_ok by blast

lemma reaches_color:
  "tree_at s T \<Longrightarrow> T = fill fs (Nd l a c r) \<Longrightarrow>
     reaches s T (rb_set_color a (cbit c') s) (fill fs (Nd l a c' r))"
  unfolding reaches_def using set_color_ok by blast

lemma reaches_left:
  "tree_at s T \<Longrightarrow> T = fill fs (Nd A x cx (Nd B y cy C)) \<Longrightarrow>
     reaches s T (rb_rotate_left x s) (fill fs (Nd (Nd A x cx B) y cy C))"
  unfolding reaches_def using rotate_left_ok by blast

lemma reaches_right:
  "tree_at s T \<Longrightarrow> T = fill fs (Nd (Nd A x cx B) y cy C) \<Longrightarrow>
     reaches s T (rb_rotate_right y s) (fill fs (Nd A x cx (Nd B y cy C)))"
  unfolding reaches_def using rotate_right_ok by blast

text \<open>Reading a node at a position, and the colour tests.\<close>

lemma node_at:
  assumes "tree_at s T" and "T = fill fs (Nd l a c r)"
  obtains n where "nodes s a = Some n" "rb_parent n = up fs" "rb_color n = cbit c"
    "rb_lchild n = tptr l" "rb_rchild n = tptr r" "a \<noteq> 0" "aligned a"
  using focus assms by blast

lemma red_at_ok: "tree_at s T \<Longrightarrow> T = fill fs t \<Longrightarrow> red_at (tptr t) s = Some (tcolor t = Red)"
  by (cases t; cases "tcolor t") (auto simp: red_at_def rb_is_red_def tree_at_fill split: option.splits)

lemma black_or_null_ok:
  "tree_at s T \<Longrightarrow> T = fill fs t \<Longrightarrow> black_or_null (tptr t) s = Some (tcolor t = Black)"
  by (cases t; cases "tcolor t") (auto simp: black_or_null_def rb_is_black_def tree_at_fill split: option.splits)

lemma red_at_up:
  "tree_at s T \<Longrightarrow> T = fill fs t \<Longrightarrow> red_at (up fs) s = Some (up_color fs = Red)"
  by (cases fs rule: before.cases; cases "up_color fs")
     (auto simp: red_at_def rb_is_red_def tree_at_fill split: option.splits)

end
