(* ===== verification/Rbtree_Insert.thy ===== *)
theory Rbtree_Insert
  imports Rbtree_Shape
begin

text \<open>
  The red-black invariant on address trees and on positions, and the correctness of
  \<open>rb_link_node\<close> and \<open>rb_insert_color\<close>: the loop terminates, dereferences no bad pointer,
  keeps the nodes in order and restores the invariant.
\<close>

subsection \<open>The invariant\<close>

fun bh :: "rtree \<Rightarrow> nat" where
  "bh Lf = 0"
| "bh (Nd l a c r) = (if c = Black then Suc (bh l) else bh l)"

fun inv_c :: "rtree \<Rightarrow> bool" where
  "inv_c Lf = True"
| "inv_c (Nd l a c r) = ((c = Red \<longrightarrow> tcolor l = Black \<and> tcolor r = Black) \<and> inv_c l \<and> inv_c r)"

fun inv_h :: "rtree \<Rightarrow> bool" where
  "inv_h Lf = True"
| "inv_h (Nd l a c r) = (bh l = bh r \<and> inv_h l \<and> inv_h r)"

definition rb_ok :: "rtree \<Rightarrow> bool" where
  "rb_ok t \<longleftrightarrow> inv_c t \<and> inv_h t \<and> tcolor t = Black"

text \<open>
  \<open>inv_f fs n\<close>: the tree around the hole is fine if the hole is filled with a tree of black
  height \<open>n\<close>; the frames on the path obey the colour rule among themselves and the root is
  black.
\<close>

fun inv_f :: "frame list \<Rightarrow> nat \<Rightarrow> bool" where
  "inv_f [] n = True"
| "inv_f (f # fs) n =
     (inv_c (fsib f) \<and> inv_h (fsib f) \<and> bh (fsib f) = n \<and>
      (fcolor f = Red \<longrightarrow> tcolor (fsib f) = Black \<and> fs \<noteq> [] \<and> up_color fs = Black) \<and>
      inv_f fs (if fcolor f = Black then Suc n else n))"

lemma fill_inv:
  "inv_f fs n \<Longrightarrow> inv_c t \<Longrightarrow> inv_h t \<Longrightarrow> bh t = n \<Longrightarrow> up_color fs = Red \<longrightarrow> tcolor t = Black \<Longrightarrow>
     inv_c (fill fs t) \<and> inv_h (fill fs t) \<and> (fs \<noteq> [] \<longrightarrow> tcolor (fill fs t) = Black)"
proof (induction fs arbitrary: t n)
  case (Cons f fs)
  let ?t = "fill1 f t" and ?n = "if fcolor f = Black then Suc n else n"
  have "inv_f fs ?n" "inv_c ?t" "inv_h ?t" "bh ?t = ?n" "up_color fs = Red \<longrightarrow> tcolor ?t = Black"
    "fs = [] \<longrightarrow> tcolor ?t = Black"
    using Cons.prems by (cases f; cases "fcolor f"; cases fs; auto)+
  from Cons.IH [OF this(1-5)] this(6) show ?case
    by (cases fs) auto
qed simp

text \<open>Conversely, a good tree splits at any position into good frames and a good subtree.\<close>

lemma split_inv:
  "inv_c (fill fs t) \<Longrightarrow> inv_h (fill fs t) \<Longrightarrow> tcolor (fill fs t) = Black \<Longrightarrow>
     inv_c t \<and> inv_h t \<and> inv_f fs (bh t) \<and> (up_color fs = Red \<longrightarrow> tcolor t = Black) \<and>
     (fs = [] \<longrightarrow> tcolor t = Black)"
proof (induction fs arbitrary: t)
  case (Cons f fs)
  have "inv_c (fill1 f t) \<and> inv_h (fill1 f t) \<and> inv_f fs (bh (fill1 f t)) \<and>
      (up_color fs = Red \<longrightarrow> tcolor (fill1 f t) = Black) \<and> (fs = [] \<longrightarrow> tcolor (fill1 f t) = Black)"
    using Cons.IH [of "fill1 f t"] Cons.prems by simp
  then show ?case
    by (cases f; cases "fcolor f") (auto, (cases "up_color fs"; auto)+)
qed simp

lemma mirror_inv [simp]:
  "inv_h t \<Longrightarrow> bh (mt t) = bh t" "inv_c (mt t) = inv_c t"
  by (induction t) auto

lemma mirror_inv_h [simp]: "inv_h (mt t) = inv_h t"
  by (induction t) auto

lemma mirror_frame [simp]: "fcolor (mf f) = fcolor f" "fsib (mf f) = mt (fsib f)" "fptr (mf f) = fptr f"
  by (cases f; simp)+

lemma mirror_inv_f [simp]: "inv_f (map mf fs) n = inv_f fs n" "up_color (map mf fs) = up_color fs"
  "up (map mf fs) = up fs"
proof -
  show up: "up_color (map mf fs) = up_color fs" "up (map mf fs) = up fs" for fs
    by (cases fs; simp)+
  show "inv_f (map mf fs) n = inv_f fs n"
    by (induction fs arbitrary: n) (auto simp: up)
qed

subsection \<open>One round of the insertion loop\<close>

text \<open>\<open>good fs x t\<close>: the tree is fine except that the red node \<open>x\<close> at the position may have a
  red parent.\<close>

definition good :: "frame list \<Rightarrow> ptr \<Rightarrow> rtree \<Rightarrow> bool" where
  "good fs x t \<longleftrightarrow> tptr t = x \<and> t \<noteq> Lf \<and> tcolor t = Red \<and> inv_c t \<and> inv_h t \<and> inv_f fs (bh t)"

definition rank :: "frame list \<Rightarrow> nat" where
  "rank fs = (if up_color fs = Black then 0 else length fs)"

lemma goodE:
  assumes "good fs x t"
  obtains l r where "t = Nd l x Red r" "tcolor l = Black" "tcolor r = Black" "inv_c l" "inv_c r"
    "inv_h l" "inv_h r" "bh r = bh l" "inv_f fs (bh l)"
  using assms by (cases t) (auto simp: good_def)

lemma round_l_recolor:
  assumes T: "tree_at s T" "T = fill fs (Nd (fill1 f t) g Black (Nd d1 u Red d2))"
    and X: "good (f # FL g Black (Nd d1 u Red d2) # fs) x t" and f: "fcolor f = Red"
  shows "\<exists>t' s'. rb_insert_round_l x (fptr f) g s = Some (g, s') \<and> evolves s T s' (fill fs t') \<and> good fs g t'"
proof -
  let ?P = "\<lambda>c. case f of FL a _ r \<Rightarrow> Nd t a c r | FR l a _ \<Rightarrow> Nd l a c t"
  have P: "fill1 f t = ?P Red"
    using f by (cases f) auto
  obtain n where n: "nodes s g = Some n" "rb_rchild n = u"
    using T by (auto elim!: node_at)
  have red: "red_at u s = Some True"
    using red_at_ok [of s T "FR (fill1 f t) g Black # fs" "Nd d1 u Red d2"] T by simp
  have "reaches s T (rb_set_black u s) (fill fs (Nd (?P Red) g Black (Nd d1 u Black d2)))"
    using reaches_black [of s T "FR (fill1 f t) g Black # fs"] T P by simp
  then obtain s1 where s1: "rb_set_black u s = Some s1" "evolves s T s1 (fill fs (Nd (?P Red) g Black (Nd d1 u Black d2)))"
      "tree_at s1 (fill fs (Nd (?P Red) g Black (Nd d1 u Black d2)))"
    by (rule reachesE)
  have "reaches s1 (fill fs (Nd (?P Red) g Black (Nd d1 u Black d2))) (rb_set_black (fptr f) s1)
      (fill fs (Nd (?P Black) g Black (Nd d1 u Black d2)))"
    using reaches_black [OF s1(3), of "FL g Black (Nd d1 u Black d2) # fs"] by (cases f) auto
  then obtain s2 where s2: "rb_set_black (fptr f) s1 = Some s2"
      "evolves s1 (fill fs (Nd (?P Red) g Black (Nd d1 u Black d2))) s2 (fill fs (Nd (?P Black) g Black (Nd d1 u Black d2)))"
      "tree_at s2 (fill fs (Nd (?P Black) g Black (Nd d1 u Black d2)))"
    by (rule reachesE)
  obtain s3 where s3: "rb_set_red g s2 = Some s3"
      "evolves s2 (fill fs (Nd (?P Black) g Black (Nd d1 u Black d2))) s3 (fill fs (Nd (?P Black) g Red (Nd d1 u Black d2)))"
    using reaches_red [OF s2(3) refl] by (rule reachesE)
  have "rb_insert_round_l x (fptr f) g s = Some (g, s3)"
    by (simp add: rb_insert_round_l_def n red s1(1) s2(1) s3(1))
  moreover have "evolves s T s3 (fill fs (Nd (?P Black) g Red (Nd d1 u Black d2)))"
    using s1(2) s2(2) s3(2) by (blast intro: evolves_trans)
  moreover have "good fs g (Nd (?P Black) g Red (Nd d1 u Black d2))"
    using X f by (cases f) (auto simp: good_def)
  ultimately show ?thesis
    by blast
qed

lemma reaches_bind:
  assumes "reaches s t m t1" and "\<And>s1. tree_at s1 t1 \<Longrightarrow> reaches s1 t1 (k s1) t2"
  shows "reaches s t (m \<bind> k) t2"
  using assms by (auto simp: reaches_def dest: evolvesD) (meson evolvesD evolves_trans)

lemma final_rotation:
  assumes "tree_at s T" "T = fill fs (Nd (Nd a p Red b) g Black d)"
  shows "reaches s T (do { s \<leftarrow> rb_set_black p s; s \<leftarrow> rb_set_red g s; rb_rotate_right g s })
    (fill fs (Nd a p Black (Nd b g Red d)))"
proof (rule reaches_bind)
  show "reaches s T (rb_set_black p s) (fill fs (Nd (Nd a p Black b) g Black d))"
    using reaches_black [of s T "FL g Black d # fs"] assms by simp
next
  fix s1
  assume t1: "tree_at s1 (fill fs (Nd (Nd a p Black b) g Black d))"
  show "reaches s1 (fill fs (Nd (Nd a p Black b) g Black d))
      (do { s \<leftarrow> rb_set_red g s1; rb_rotate_right g s }) (fill fs (Nd a p Black (Nd b g Red d)))"
    by (rule reaches_bind [OF reaches_red [OF t1 refl]]) (rule reaches_right [OF _ refl])
qed

lemma round_l_rotate:
  assumes T: "tree_at s T" "T = fill fs (Nd (fill1 f t) g Black d)"
    and X: "good (f # FL g Black d # fs) x t" and f: "fcolor f = Red" and d: "tcolor d = Black"
  shows "\<exists>x' t' h s'. rb_insert_round_l x (fptr f) g s = Some (x', s') \<and>
    evolves s T s' (fill (h # fs) t') \<and> good (h # fs) x' t' \<and> fcolor h = Black"
proof -
  obtain n where n: "nodes s g = Some n" "rb_rchild n = tptr d"
    using T by (auto elim!: node_at)
  have red: "red_at (tptr d) s = Some False"
    using red_at_ok [of s T "FR (fill1 f t) g Black # fs" d] T d by simp
  obtain l r where t: "t = Nd l x Red r"
    using X by (rule goodE)
  have dist: "distinct (addrs T)"
    using T by (simp add: tree_at_def)
  show ?thesis
  proof (cases f)
    case (FL p c b)
    then have T': "T = fill fs (Nd (Nd t p Red b) g Black d)"
      using T f by simp
    obtain m where m: "nodes s p = Some m" "rb_rchild m = tptr b"
      using T(1) by (rule node_at [where fs = "FL g Black d # fs"]) (use T' in auto)
    have "tptr b \<noteq> x"
    proof (cases b)
      case Lf
      have "x \<noteq> 0"
        using T(1) by (rule node_at [where fs = "FL p Red b # FL g Black d # fs"]) (use T' t in auto)
      then show ?thesis
        using Lf by simp
    qed (use dist T' t in \<open>auto simp: addrs_fill\<close>)
    moreover obtain s' where s': "do { s \<leftarrow> rb_set_black p s; s \<leftarrow> rb_set_red g s; rb_rotate_right g s } = Some s'"
        "evolves s T s' (fill fs (Nd t p Black (Nd b g Red d)))"
      using final_rotation [OF T(1) T'] by (rule reachesE)
    then have "\<And>y. do { s \<leftarrow> rb_set_black p s; s \<leftarrow> rb_set_red g s; s \<leftarrow> rb_rotate_right g s; Some (y, s) } = Some (y, s')"
      by (auto simp: bind_eq_Some_conv)
    ultimately have "rb_insert_round_l x (fptr f) g s = Some (x, s')"
      by (simp add: rb_insert_round_l_def n red m FL)
    moreover have "good (FL p Black (Nd b g Red d) # fs) x t"
      using X f d by (auto simp: good_def FL)
    ultimately show ?thesis
      using s'(2) by (intro exI [of _ "FL p Black (Nd b g Red d)"] exI) auto
  next
    case (FR b p c)
    then have T': "T = fill fs (Nd (Nd b p Red t) g Black d)"
      using T f by simp
    obtain m where m: "nodes s p = Some m" "rb_rchild m = tptr t"
      using T(1) by (rule node_at [where fs = "FL g Black d # fs"]) (use T' in auto)
    have "reaches s T (rb_rotate_left p s) (fill fs (Nd (Nd (Nd b p Red l) x Red r) g Black d))"
      using reaches_left [of s T "FL g Black d # fs"] T(1) T' t by simp
    then obtain s1 where s1: "rb_rotate_left p s = Some s1"
        "evolves s T s1 (fill fs (Nd (Nd (Nd b p Red l) x Red r) g Black d))"
        "tree_at s1 (fill fs (Nd (Nd (Nd b p Red l) x Red r) g Black d))"
      by (rule reachesE)
    obtain s' where s': "do { s \<leftarrow> rb_set_black x s1; s \<leftarrow> rb_set_red g s; rb_rotate_right g s } = Some s'"
        "evolves s1 (fill fs (Nd (Nd (Nd b p Red l) x Red r) g Black d)) s'
          (fill fs (Nd (Nd b p Red l) x Black (Nd r g Red d)))"
      using final_rotation [OF s1(3) refl] by (rule reachesE)
    then have "\<And>y. do { s \<leftarrow> rb_set_black x s1; s \<leftarrow> rb_set_red g s; s \<leftarrow> rb_rotate_right g s; Some (y, s) } = Some (y, s')"
      by (auto simp: bind_eq_Some_conv)
    then have "rb_insert_round_l x (fptr f) g s = Some (p, s')"
      using t by (simp add: rb_insert_round_l_def n red m s1(1) FR)
    moreover have "good (FL x Black (Nd r g Red d) # fs) p (Nd b p Red l)"
      using X f d t by (auto simp: good_def FR)
    moreover have "evolves s T s' (fill fs (Nd (Nd b p Red l) x Black (Nd r g Red d)))"
      using s1(2) s'(2) by (rule evolves_trans)
    ultimately show ?thesis
      by (intro exI [of _ "FL x Black (Nd r g Red d)"] exI [of _ p] exI [of _ "Nd b p Red l"]) auto
  qed
qed

text \<open>Both cases together, and the mirror image.\<close>

lemma round_l:
  assumes T: "tree_at s (fill (f # FL g Black d # fs) t)" and X: "good (f # FL g Black d # fs) x t" and f: "fcolor f = Red"
  shows "\<exists>x' t' fs' s'. rb_insert_round_l x (fptr f) g s = Some (x', s') \<and>
    evolves s (fill (f # FL g Black d # fs) t) s' (fill fs' t') \<and> good fs' x' t' \<and> rank fs' < Suc (Suc (length fs))"
proof (cases "tcolor d")
  case Red
  then obtain d1 u d2 where d: "d = Nd d1 u Red d2"
    by (cases d) auto
  have "rank fs < Suc (Suc (length fs))"
    by (simp add: rank_def)
  then show ?thesis
    using round_l_recolor [OF T [unfolded d], of fs f t g d1 u d2 x] X f by (auto simp: d)
next
  case Black
  then show ?thesis
    using round_l_rotate [OF T, of fs f t g d x] X f by (fastforce simp: rank_def)
qed

lemma red_at_mir: "red_at p (mir s) = red_at p s"
  by (auto simp: red_at_def nodes_mir bind_map rb_is_red_def)

lemma round_mir:
  "rb_insert_round_l x p g (mir s) = map_option (map_prod id mir) (rb_insert_round_r x p g s)"
  by (simp add: rb_insert_round_l_def rb_insert_round_r_def Let_def nodes_mir prims_mir rotate_mir red_at_mir
      rotate_mir_r bind_map map_bind if_bind if_map split_beta cong: if_cong)

lemma good_mir: "good (map mf fs) x (mt t) = good fs x t"
  by (cases t) (auto simp: good_def)

lemma rank_mir: "rank (map mf fs) = rank fs"
  by (simp add: rank_def)

lemma evolves_mir': "evolves (mir s) (mt t) s' t' = evolves s t (mir s') (mt t')"
  using evolves_mir [of s t "mir s'" "mt t'"] by simp

lemma round_r:
  assumes T: "tree_at s (fill (f # FR d g Black # fs) t)" and X: "good (f # FR d g Black # fs) x t" and f: "fcolor f = Red"
  shows "\<exists>x' t' fs' s'. rb_insert_round_r x (fptr f) g s = Some (x', s') \<and>
    evolves s (fill (f # FR d g Black # fs) t) s' (fill fs' t') \<and> good fs' x' t' \<and> rank fs' < Suc (Suc (length fs))"
proof -
  let ?fs = "f # FR d g Black # fs"
  have T': "tree_at (mir s) (fill (mf f # FL g Black (mt d) # map mf fs) (mt t))"
    using T tree_at_mir [of s "fill ?fs t"] by (simp add: mt_fill del: fill.simps)
  have X': "good (mf f # FL g Black (mt d) # map mf fs) x (mt t)"
    using X good_mir [of ?fs x t] by simp
  obtain x' t' fs' s' where r: "rb_insert_round_l x (fptr f) g (mir s) = Some (x', s')"
    "evolves (mir s) (mt (fill ?fs t)) s' (fill fs' t')" "good fs' x' t'" "rank fs' < Suc (Suc (length fs))"
    using round_l [OF T' X'] f by (auto simp: mt_fill simp del: fill.simps)
  have "rb_insert_round_r x (fptr f) g s = Some (x', mir s')"
    using r(1) by (auto simp: round_mir)
  moreover have "evolves s (fill ?fs t) (mir s') (fill (map mf fs') (mt t'))"
    using r(2) [unfolded evolves_mir'] by (simp only: mt_fill)
  ultimately show ?thesis
    using r(3,4) good_mir [of fs' x' t'] rank_mir [of fs'] by metis
qed

subsection \<open>The loop\<close>

lemma insert_loop_stop:
  assumes T: "tree_at s (fill fs t)" and X: "good fs x t" and c: "up_color fs = Black"
  shows "rb_insert_loop x s = Some s \<and> inv_c (fill fs t) \<and> inv_h (fill fs t)"
proof -
  obtain l r where t: "t = Nd l x Red r"
    using X by (rule goodE)
  obtain n where n: "nodes s x = Some n" "rb_parent n = up fs"
    using T t by (auto elim!: node_at)
  have "rb_insert_loop x s = Some s"
    using red_at_up [OF T refl] c by (subst rb_insert_loop.simps) (simp add: n)
  then show ?thesis
    using fill_inv [of fs "bh t" t] X c by (auto simp: good_def)
qed

lemma insert_loop_ok:
  "tree_at s (fill fs t) \<Longrightarrow> good fs x t \<Longrightarrow>
     \<exists>s' t'. rb_insert_loop x s = Some s' \<and> evolves s (fill fs t) s' t' \<and> inv_c t' \<and> inv_h t'"
proof (induction "rank fs" arbitrary: s fs t x rule: less_induct)
  case less
  note T = less.prems(1) and X = less.prems(2)
  show ?case
  proof (cases "up_color fs")
    case Black
    then show ?thesis
      using insert_loop_stop [OF T X] evolves_refl [OF T] by blast
  next
    case Red
    then obtain f f2 gs where fs: "fs = f # f2 # gs" and f: "fcolor f = Red" "fcolor f2 = Black"
      using X by (cases fs; cases "tl fs") (auto simp: good_def)
    obtain l r where t: "t = Nd l x Red r"
      using X by (rule goodE)
    obtain n where n: "nodes s x = Some n" "rb_parent n = fptr f"
      using T fs t by (elim node_at [where fs = fs]) auto
    obtain p where p: "nodes s (fptr f) = Some p" "rb_parent p = fptr f2" "fptr f \<noteq> 0"
      using T fs by (cases f) (auto elim!: node_at [where fs = "f2 # gs"])
    obtain g where g: "nodes s (fptr f2) = Some g"
        "rb_lchild g = fptr f \<longleftrightarrow> (\<exists>a c r. f2 = FL a c r)"
    proof (cases f2)
      case (FL a c r)
      then show ?thesis
        using T fs that by (cases f) (auto elim!: node_at [where fs = gs])
    next
      case (FR l a c)
      have "tptr l \<noteq> fptr f"
      proof (cases l)
        case Nd
        then show ?thesis
          using T fs FR by (cases f) (auto simp: tree_at_def addrs_fill)
      qed (use p in auto)
      then show ?thesis
        using T fs that FR by (cases f) (auto elim!: node_at [where fs = gs])
    qed
    obtain x' t' fs' s' where r: "(if fptr f = rb_lchild g then rb_insert_round_l x (fptr f) (fptr f2) s
        else rb_insert_round_r x (fptr f) (fptr f2) s) = Some (x', s')"
      "evolves s (fill fs t) s' (fill fs' t')" "good fs' x' t'" "rank fs' < Suc (Suc (length gs))"
    proof (cases f2)
      case (FL a c d)
      then show ?thesis
        using round_l [of s f a d gs t x] T X f that g(2) by (auto simp: fs simp del: fill.simps)
    next
      case (FR d a c)
      then show ?thesis
        using round_r [of s f d a gs t x] T X f that g(2) by (auto simp: fs simp del: fill.simps)
    qed
    have "rank fs' < rank fs"
      using r(4) Red by (simp add: rank_def fs)
    from less.hyps [OF this evolvesD [OF r(2)] r(3)]
    obtain s2 t2 where "rb_insert_loop x' s' = Some s2" "evolves s' (fill fs' t') s2 t2" "inv_c t2" "inv_h t2"
      by blast
    moreover have "rb_insert_loop x s = rb_insert_loop x' s'"
      using red_at_up [OF T refl] Red r(1)
      by (subst rb_insert_loop.simps) (simp add: n p g(1) fs eq_commute [of "fptr f"])
    ultimately show ?thesis
      using evolves_trans [OF r(2)] by metis
  qed
qed

lemma insert_color_ok:
  assumes T: "tree_at s (fill fs t)" and X: "good fs x t"
  shows "\<exists>s' t'. rb_insert_color x s = Some s' \<and> evolves s (fill fs t) s' t' \<and> rb_ok t'"
proof -
  obtain s1 t1 where s1: "rb_insert_loop x s = Some s1" "evolves s (fill fs t) s1 t1" "inv_c t1" "inv_h t1"
    using insert_loop_ok [OF T X] by blast
  have "addrs t1 \<noteq> []"
    using s1(2) X by (cases t) (auto simp: evolves_def addrs_fill good_def)
  then obtain l a c r where t1: "t1 = Nd l a c r"
    by (cases t1) auto
  then have "root s1 = a"
    using evolvesD [OF s1(2)] by (auto simp: tree_at_def)
  moreover obtain s2 where "rb_set_black a s1 = Some s2" "evolves s1 t1 s2 (Nd l a Black r)"
    using reaches_black [OF evolvesD [OF s1(2)], of "[]"] t1 by (auto elim: reachesE)
  ultimately show ?thesis
    using s1 t1 by (intro exI [of _ s2] exI [of _ "Nd l a Black r"])
      (auto simp: rb_insert_color_def rb_ok_def intro: evolves_trans)
qed

subsection \<open>Linking a node in\<close>

text \<open>The link field the hole of a position stands for.\<close>

fun link_of :: "frame list \<Rightarrow> rb_link" where
  "link_of [] = At_root"
| "link_of (FL a c r # fs) = Left_of a"
| "link_of (FR l a c # fs) = Right_of a"

lemma store_link_ok:
  assumes h: "holds (nodes s) (root s) fs p" and d: "distinct (before fs @ after fs)"
  shows "\<exists>s'. store_link (link_of fs) q s = Some s' \<and> holds (nodes s') (root s') fs q \<and>
    (\<forall>b. b \<noteq> up fs \<or> fs = [] \<longrightarrow> nodes s' b = nodes s b)"
proof (cases fs rule: before.cases)
  case (2 a c r gs)
  then obtain n where n: "nodes s a = Some n" "rb_parent n = up gs" "rb_color n = cbit c"
    "shape (nodes s) a (rb_rchild n) r" "holds (nodes s) (root s) gs a" "a \<noteq> 0" "aligned a"
    using h by (auto split: option.splits)
  then show ?thesis
    using 2 d by (intro exI [of _ "s\<lparr>nodes := (nodes s)(a \<mapsto> n\<lparr>rb_lchild := q\<rparr>)\<rparr>"])
      (simp add: store_link_def set_lchild_def upd_def frame_upd pack_simps)
next
  case (3 l a c gs)
  then obtain n where n: "nodes s a = Some n" "rb_parent n = up gs" "rb_color n = cbit c"
    "shape (nodes s) a (rb_lchild n) l" "holds (nodes s) (root s) gs a" "a \<noteq> 0" "aligned a"
    using h by (auto split: option.splits)
  then show ?thesis
    using 3 d by (intro exI [of _ "s\<lparr>nodes := (nodes s)(a \<mapsto> n\<lparr>rb_rchild := q\<rparr>)\<rparr>"])
      (simp add: store_link_def set_rchild_def upd_def frame_upd pack_simps)
qed (simp add: store_link_def)

lemma link_node_ok:
  assumes T: "tree_at s (fill fs Lf)" and x: "x \<notin> set (addrs (fill fs Lf))" "x \<noteq> 0" "aligned x" "nodes s x = Some n"
  shows "\<exists>s'. rb_link_node x (up fs) (link_of fs) s = Some s' \<and> tree_at s' (fill fs (Nd Lf x Red Lf)) \<and>
    (\<forall>b. b \<notin> set (addrs (fill fs (Nd Lf x Red Lf))) \<longrightarrow> nodes s' b = nodes s b)"
proof -
  let ?n = "n\<lparr>rb_parent_color := up fs, rb_lchild := 0, rb_rchild := 0\<rparr>"
  let ?s = "s\<lparr>nodes := (nodes s)(x \<mapsto> ?n)\<rparr>"
  have h: "holds (nodes s) (root s) fs 0" and d: "distinct (before fs @ after fs)"
      and xf: "x \<notin> set (before fs)" "x \<notin> set (after fs)"
    using T x(1) by (auto simp: tree_at_fill addrs_fill)
  have a: "aligned (up fs)"
    using up_aligned [OF h] .
  have leaf: "rb_parent ?n = up fs" "rb_color ?n = RB_RED" "rb_lchild ?n = 0" "rb_rchild ?n = 0"
    using fresh_leaf [OF a] by simp_all
  have u: "upd x (\<lambda>n. n\<lparr>rb_parent_color := up fs, rb_lchild := 0, rb_rchild := 0\<rparr>) s = Some ?s"
    using x(4) by (rule upd_Some)
  have h1: "holds (nodes ?s) (root ?s) fs 0"
    using h xf by (simp add: holds_upd)
  obtain s' where s': "rb_link_node x (up fs) (link_of fs) s = Some s'" "holds (nodes s') (root s') fs x"
      "\<And>b. b \<noteq> up fs \<or> fs = [] \<Longrightarrow> nodes s' b = nodes ?s b"
    using store_link_ok [OF h1 d, of x] u by (auto simp: rb_link_node_def)
  have "x \<noteq> up fs \<or> fs = []"
    using up_in [of fs] xf by auto
  then have "nodes s' x = Some ?n"
    using s'(3) [of x] by simp
  then have "tree_at s' (fill fs (Nd Lf x Red Lf))"
    using s'(2) leaf x d xf by (auto simp: tree_at_fill)
  moreover have "nodes s' b = nodes s b" if "b \<notin> set (addrs (fill fs (Nd Lf x Red Lf)))" for b
    using that s'(3) [of b] up_in [of fs] by (auto simp: addrs_fill)
  ultimately show ?thesis
    using s'(1) by blast
qed

lemma insert_ok:
  assumes T: "tree_at s (fill fs Lf)" "rb_ok (fill fs Lf)"
    and x: "x \<notin> set (addrs (fill fs Lf))" "x \<noteq> 0" "aligned x" "nodes s x = Some n"
  shows "\<exists>s' t'. (rb_link_node x (up fs) (link_of fs) s \<bind> rb_insert_color x) = Some s' \<and>
    tree_at s' t' \<and> rb_ok t' \<and> addrs t' = before fs @ x # after fs \<and>
    (\<forall>b. b \<notin> set (addrs t') \<longrightarrow> nodes s' b = nodes s b)"
proof -
  obtain s1 where s1: "rb_link_node x (up fs) (link_of fs) s = Some s1" "tree_at s1 (fill fs (Nd Lf x Red Lf))"
      "\<And>b. b \<notin> set (addrs (fill fs (Nd Lf x Red Lf))) \<Longrightarrow> nodes s1 b = nodes s b"
    using link_node_ok [OF T(1) x] by blast
  have "good fs x (Nd Lf x Red Lf)"
    using split_inv [of fs Lf] T(2) by (auto simp: good_def rb_ok_def)
  from insert_color_ok [OF s1(2) this] obtain s' t' where s': "rb_insert_color x s1 = Some s'"
      "evolves s1 (fill fs (Nd Lf x Red Lf)) s' t'" "rb_ok t'"
    by blast
  then have "addrs t' = before fs @ x # after fs"
    by (simp add: evolves_def addrs_fill)
  moreover have "nodes s' b = nodes s b" if "b \<notin> set (addrs t')" for b
    using that s'(2) s1(3) [of b] by (simp add: evolves_def)
  ultimately show ?thesis
    using s1(1) s'(1,3) evolvesD [OF s'(2)] by (intro exI [of _ s'] exI [of _ t']) simp
qed

subsection \<open>Property\<close>

text \<open>
  C4. Inserting a node at an empty link of a red-black tree (\<open>rb_link_node\<close> then
  \<open>rb_insert_color\<close>) terminates without following a bad pointer and yields a red-black tree
  (black root, no red node with a red child, equal black heights, parent pointers and colours
  consistent with the packed words) whose nodes in order are the old ones with the new node at the
  place of the link; no node outside the tree is touched.
\<close>

theorem rb_insert_correct:
  assumes "tree_at s (fill fs Lf)" and "rb_ok (fill fs Lf)"
    and "x \<notin> set (addrs (fill fs Lf))" and "x \<noteq> 0" and "aligned x" and "nodes s x = Some n"
  shows "\<exists>s' t'. (rb_link_node x (up fs) (link_of fs) s \<bind> rb_insert_color x) = Some s' \<and>
    tree_at s' t' \<and> rb_ok t' \<and> addrs t' = before fs @ x # after fs \<and>
    (\<forall>b. b \<notin> set (addrs t') \<longrightarrow> nodes s' b = nodes s b)"
  using assms by (rule insert_ok)

theorem rb_insert_correct_witness:
  defines "s \<equiv> \<lparr>nodes = [8 \<mapsto> \<lparr>rb_parent_color = 1, rb_rchild = 0, rb_lchild = 0\<rparr>,
      16 \<mapsto> \<lparr>rb_parent_color = 7, rb_rchild = 7, rb_lchild = 7\<rparr>], root = 8\<rparr>"
  shows "\<exists>s' t'. (rb_link_node 16 8 (Right_of 8) s \<bind> rb_insert_color 16) = Some s' \<and>
    tree_at s' t' \<and> rb_ok t' \<and> addrs t' = [8, 16]"
proof -
  have "tree_at s (fill [FR Lf 8 Black] Lf)" "rb_ok (fill [FR Lf 8 Black] Lf)"
    by (simp_all add: s_def tree_at_def rb_ok_def aligned_def rb_parent_def rb_color_def)
  from rb_insert_correct [OF this, of 16] show ?thesis
    by (auto simp: s_def aligned_def)
qed

end
