(* ===== verification/Rbtree_Erase.thy ===== *)
theory Rbtree_Erase
  imports Rbtree_Insert
begin

text \<open>
  The correctness of \<open>rb_erase\<close>: unlinking a node, and the rebalancing loop
  \<open>__rb_erase_color\<close>, which terminates, dereferences no bad pointer and restores the
  invariant.
\<close>

subsection \<open>A position that is one black node short\<close>

definition deficit :: "frame list \<Rightarrow> rtree \<Rightarrow> bool" where
  "deficit fs t \<longleftrightarrow> inv_c (paint Black t) \<and> inv_h t \<and> inv_f fs (Suc (bh t))"

definition erank :: "frame list \<Rightarrow> rtree \<Rightarrow> nat" where
  "erank fs t = (if tcolor t = Red then 0 else Suc (length fs))"

text \<open>What a round leaves: a smaller problem higher up, or the finished tree.\<close>

definition erase_step :: "rbs \<Rightarrow> rtree \<Rightarrow> nat \<Rightarrow> erase_next \<Rightarrow> bool" where
  "erase_step s T n r \<longleftrightarrow>
     (case r of
        Climb x q s' \<Rightarrow> \<exists>fs t. evolves s T s' (fill fs t) \<and> x = tptr t \<and> q = up fs \<and> deficit fs t \<and> erank fs t < n
      | Break x s' \<Rightarrow> x = root s' \<and> (\<exists>T'. evolves s T s' T' \<and> rb_ok T'))"

fun mnext :: "erase_next \<Rightarrow> erase_next" where
  "mnext (Climb x q s) = Climb x q (mir s)"
| "mnext (Break x s) = Break x (mir s)"

lemma paint_simps [simp]: "tptr (paint c t) = tptr t" "addrs (paint c t) = addrs t"
  by (cases t; simp)+

lemma red_tree: "tcolor t = Red \<Longrightarrow> \<exists>l a r. t = Nd l a Red r"
  by (cases t) auto

lemma deficit_black: "deficit fs t \<Longrightarrow> tcolor t = Black \<Longrightarrow> inv_c t"
  by (cases t) (auto simp: deficit_def)

lemma erase_step_trans: "evolves s T s1 T1 \<Longrightarrow> erase_step s1 T1 n r \<Longrightarrow> erase_step s T n r"
  by (cases r) (auto simp: erase_step_def intro: evolves_trans)

subsection \<open>The black sibling\<close>

lemma last_rotation:
  assumes "tree_at s T" "T = fill fs (Nd t p c (Nd a q cq (Nd b1 y cy b2)))"
  shows "reaches s T (do { s \<leftarrow> rb_set_color q (cbit c) s; s \<leftarrow> rb_set_black p s; s \<leftarrow> rb_set_black y s;
      rb_rotate_left p s }) (fill fs (Nd (Nd t p Black a) q c (Nd b1 y Black b2)))"
proof (rule reaches_bind)
  show "reaches s T (rb_set_color q (cbit c) s) (fill fs (Nd t p c (Nd a q c (Nd b1 y cy b2))))"
    using reaches_color [of s T "FR t p c # fs"] assms by simp
next
  fix s1
  assume t1: "tree_at s1 (fill fs (Nd t p c (Nd a q c (Nd b1 y cy b2))))"
  show "reaches s1 (fill fs (Nd t p c (Nd a q c (Nd b1 y cy b2))))
      (do { s \<leftarrow> rb_set_black p s1; s \<leftarrow> rb_set_black y s; rb_rotate_left p s })
      (fill fs (Nd (Nd t p Black a) q c (Nd b1 y Black b2)))"
  proof (rule reaches_bind [OF reaches_black [OF t1 refl]])
    fix s2
    assume t2: "tree_at s2 (fill fs (Nd t p Black (Nd a q c (Nd b1 y cy b2))))"
    have "reaches s2 (fill fs (Nd t p Black (Nd a q c (Nd b1 y cy b2)))) (rb_set_black y s2)
        (fill fs (Nd t p Black (Nd a q c (Nd b1 y Black b2))))"
      using reaches_black [OF t2, of "FR a q c # FR t p Black # fs"] by simp
    then show "reaches s2 (fill fs (Nd t p Black (Nd a q c (Nd b1 y cy b2))))
        (do { s \<leftarrow> rb_set_black y s2; rb_rotate_left p s })
        (fill fs (Nd (Nd t p Black a) q c (Nd b1 y Black b2)))"
      by (rule reaches_bind) (rule reaches_left [OF _ refl])
  qed
qed

text \<open>The end of a round: the far child of the sibling is red.\<close>

lemma fix_far:
  assumes T: "tree_at s T" "T = fill fs (Nd t p c (Nd a q cq (Nd b1 y cy b2)))"
  shows "\<exists>s'. do { pn \<leftarrow> nodes s p; s \<leftarrow> rb_set_color q (rb_color pn) s; s \<leftarrow> rb_set_black p s; n \<leftarrow> nodes s q;
      s \<leftarrow> rb_set_black (rb_rchild n) s; s \<leftarrow> rb_rotate_left p s; Some (Break (root s) s) } = Some (Break (root s') s') \<and>
    evolves s T s' (fill fs (Nd (Nd t p Black a) q c (Nd b1 y Black b2)))"
proof -
  obtain pn where pn: "nodes s p = Some pn" "rb_color pn = cbit c"
    using T by (auto elim!: node_at)
  obtain s' where s': "do { s \<leftarrow> rb_set_color q (cbit c) s; s \<leftarrow> rb_set_black p s; s \<leftarrow> rb_set_black y s;
      rb_rotate_left p s } = Some s'" "evolves s T s' (fill fs (Nd (Nd t p Black a) q c (Nd b1 y Black b2)))"
    using last_rotation [OF T] by (rule reachesE)
  then obtain s1 s2 where s1: "rb_set_color q (cbit c) s = Some s1" and s2: "rb_set_black p s1 = Some s2"
      and s3: "rb_set_black y s2 \<bind> rb_rotate_left p = Some s'"
    by (auto simp: bind_eq_Some_conv)
  have "reaches s T (rb_set_color q (cbit c) s) (fill fs (Nd t p c (Nd a q c (Nd b1 y cy b2))))"
    using reaches_color [of s T "FR t p c # fs"] T by simp
  then have "tree_at s1 (fill fs (Nd t p c (Nd a q c (Nd b1 y cy b2))))"
    using s1 by (auto elim: reachesE)
  from reaches_black [OF this refl] have "tree_at s2 (fill fs (Nd t p Black (Nd a q c (Nd b1 y cy b2))))"
    using s2 by (auto elim: reachesE)
  then obtain n where "nodes s2 q = Some n" "rb_rchild n = y"
    by (rule node_at [where fs = "FR t p Black # fs"]) auto
  then show ?thesis
    using s1 s2 s3 s'(2) pn by (auto simp: bind_eq_Some_conv)
qed

lemma rb_ok_fill:
  assumes f: "inv_f (f # fs) n" and c: "fcolor f = c"
    and A: "inv_c A" "inv_h A" "bh A = n" "tcolor A = Black"
    and B: "inv_c B" "inv_h B" "bh B = n" "tcolor B = Black"
  shows "rb_ok (fill fs (Nd A q c B))"
  using fill_inv [of fs "bh (Nd A q c B)" "Nd A q c B"] f c A B
  by (cases "fs = []"; cases c) (auto simp: rb_ok_def)

lemma fix_l:
  assumes T: "tree_at s T" "T = fill fs (Nd t p c (Nd a q Black b))"
    and f: "inv_f (FL p c (Nd a q Black b) # fs) (Suc (bh t))"
    and t: "inv_c t" "inv_h t" "tcolor t = Black" and n: "c = Black \<longrightarrow> Suc (length fs) < n" "0 < n"
  shows "\<exists>r. rb_erase_fix_l p q s = Some r \<and> erase_step s T n r"
proof -
  obtain m where m: "nodes s q = Some m" "rb_lchild m = tptr a" "rb_rchild m = tptr b"
    using T(1) by (rule node_at [where fs = "FR t p c # fs"]) (use T in auto)
  have near: "black_or_null (tptr a) s = Some (tcolor a = Black)"
    using black_or_null_ok [OF T(1), of "FL q Black b # FR t p c # fs"] T(2) by simp
  have far: "black_or_null (tptr b) s = Some (tcolor b = Black)"
    using black_or_null_ok [OF T(1), of "FR a q Black # FR t p c # fs"] T(2) by simp
  consider (climb) "tcolor a = Black" "tcolor b = Black"
    | (far) b1 y b2 where "b = Nd b1 y Red b2"
    | (near) a1 z a2 where "a = Nd a1 z Red a2" "tcolor b = Black"
    using red_tree [of a] red_tree [of b] by (cases "tcolor a"; cases "tcolor b") blast+
  then show ?thesis
  proof cases
    case climb
    have "reaches s T (rb_set_red q s) (fill fs (Nd t p c (Nd a q Red b)))"
      using reaches_red [of s T "FR t p c # fs"] T by simp
    then obtain s1 where s1: "rb_set_red q s = Some s1" "evolves s T s1 (fill fs (Nd t p c (Nd a q Red b)))"
        "tree_at s1 (fill fs (Nd t p c (Nd a q Red b)))"
      by (rule reachesE)
    obtain pn where pn: "nodes s1 p = Some pn" "rb_parent pn = up fs"
      using s1(3) by (auto elim!: node_at)
    have "deficit fs (Nd t p c (Nd a q Red b))"
      using f t climb by (cases c) (auto simp: deficit_def)
    moreover have "erank fs (Nd t p c (Nd a q Red b)) < n"
      using n by (cases c) (auto simp: erank_def)
    ultimately have "erase_step s T n (Climb p (up fs) s1)"
      using s1(2) unfolding erase_step_def by (auto intro!: exI [of _ fs] exI [of _ "Nd t p c (Nd a q Red b)"])
    then show ?thesis
      using climb m near far s1(1) pn by (simp add: rb_erase_fix_l_def)
  next
    case far
    obtain s' where s': "do { pn \<leftarrow> nodes s p; s \<leftarrow> rb_set_color q (rb_color pn) s; s \<leftarrow> rb_set_black p s; n \<leftarrow> nodes s q;
        s \<leftarrow> rb_set_black (rb_rchild n) s; s \<leftarrow> rb_rotate_left p s; Some (Break (root s) s) } = Some (Break (root s') s')"
      "evolves s T s' (fill fs (Nd (Nd t p Black a) q c (Nd b1 y Black b2)))"
      using fix_far [OF T(1), of fs t p c a q Black b1 y Red b2] T(2) far by blast
    have "rb_ok (fill fs (Nd (Nd t p Black a) q c (Nd b1 y Black b2)))"
      using f t far by (intro rb_ok_fill [OF f]) auto
    then have "erase_step s T n (Break (root s') s')"
      using s'(2) by (auto simp: erase_step_def)
    then show ?thesis
      using s'(1) m near \<open>black_or_null (tptr b) s = _\<close> far by (simp add: rb_erase_fix_l_def)
  next
    case near
    let ?T1 = "fill fs (Nd t p c (Nd a1 z Black (Nd a2 q Red b)))"
    have "reaches s T (do { s \<leftarrow> rb_set_black z s; s \<leftarrow> rb_set_red q s; rb_rotate_right q s }) ?T1"
    proof (rule reaches_bind)
      show "reaches s T (rb_set_black z s) (fill fs (Nd t p c (Nd (Nd a1 z Black a2) q Black b)))"
        using reaches_black [OF T(1), of "FL q Black b # FR t p c # fs"] T near by simp
    next
      fix s1
      assume t1: "tree_at s1 (fill fs (Nd t p c (Nd (Nd a1 z Black a2) q Black b)))"
      show "reaches s1 (fill fs (Nd t p c (Nd (Nd a1 z Black a2) q Black b)))
          (do { s \<leftarrow> rb_set_red q s1; rb_rotate_right q s }) ?T1"
        using reaches_bind [OF reaches_red [OF t1, of "FR t p c # fs"] reaches_right [of _ _ "FR t p c # fs"]]
        by simp
    qed
    then obtain s1 where s1: "do { s \<leftarrow> rb_set_black z s; s \<leftarrow> rb_set_red q s; rb_rotate_right q s } = Some s1"
        "evolves s T s1 ?T1" "tree_at s1 ?T1"
      by (rule reachesE)
    obtain pn where pn: "nodes s1 p = Some pn" "rb_rchild pn = z"
      using s1(3) by (auto elim!: node_at)
    obtain s' where s': "do { pn \<leftarrow> nodes s1 p; s \<leftarrow> rb_set_color z (rb_color pn) s1; s \<leftarrow> rb_set_black p s; n \<leftarrow> nodes s z;
        s \<leftarrow> rb_set_black (rb_rchild n) s; s \<leftarrow> rb_rotate_left p s; Some (Break (root s) s) } = Some (Break (root s') s')"
      "evolves s1 ?T1 s' (fill fs (Nd (Nd t p Black a1) z c (Nd a2 q Black b)))"
      using fix_far [OF s1(3) refl] by blast
    have "rb_ok (fill fs (Nd (Nd t p Black a1) z c (Nd a2 q Black b)))"
      using f t near by (intro rb_ok_fill [OF f]) auto
    then have "erase_step s T n (Break (root s') s')"
      using evolves_trans [OF s1(2) s'(2)] by (auto simp: erase_step_def)
    moreover have "rb_erase_fix_l p q s = Some (Break (root s') s')"
      using s'(1) m \<open>black_or_null (tptr a) s = _\<close> far near s1(1) pn
      by (auto simp: rb_erase_fix_l_def bind_eq_Some_conv)
    ultimately show ?thesis
      by blast
  qed
qed

subsection \<open>The red sibling\<close>

lemma black_tree: "tcolor t = Black \<Longrightarrow> 0 < bh t \<Longrightarrow> \<exists>l a r. t = Nd l a Black r"
  by (cases t) auto

lemma sibling_l:
  assumes T: "tree_at s T" "T = fill fs (Nd t p c sib)" and f: "inv_f (FL p c sib # fs) (Suc (bh t))"
  shows "\<exists>q s' fs' c' a b. rb_erase_sibling_l p s = Some (q, s') \<and>
    evolves s T s' (fill fs' (Nd t p c' (Nd a q Black b))) \<and>
    inv_f (FL p c' (Nd a q Black b) # fs') (Suc (bh t)) \<and> (c' = Black \<longrightarrow> fs' = fs)"
proof -
  obtain m where m: "nodes s p = Some m" "rb_rchild m = tptr sib"
    using T by (auto elim!: node_at)
  show ?thesis
  proof (cases "tcolor sib")
    case Black
    then obtain a q b where sib: "sib = Nd a q Black b"
      using black_tree [of sib] f by auto
    obtain n where "nodes s q = Some n" "rb_color n = cbit Black"
      using T(1) by (rule node_at [where fs = "FR t p c # fs"]) (use T sib in auto)
    then have "rb_erase_sibling_l p s = Some (q, s)"
      using m sib by (simp add: rb_erase_sibling_l_def rb_is_red_def)
    then show ?thesis
      using evolves_refl [OF T(1)] f T(2) sib by blast
  next
    case Red
    then obtain a0 q0 b0 where sib: "sib = Nd a0 q0 Red b0"
      using red_tree by blast
    then have c: "c = Black" and "tcolor a0 = Black" "0 < bh a0"
      using f by (cases c; auto)+
    then obtain a q b where a0: "a0 = Nd a q Black b"
      using black_tree by blast
    obtain n where n: "nodes s q0 = Some n" "rb_color n = cbit Red"
      using T(1) by (rule node_at [where fs = "FR t p c # fs"]) (use T sib in auto)
    have "reaches s T (do { s \<leftarrow> rb_set_black q0 s; s \<leftarrow> rb_set_red p s; rb_rotate_left p s })
        (fill fs (Nd (Nd t p Red a0) q0 Black b0))"
    proof (rule reaches_bind)
      show "reaches s T (rb_set_black q0 s) (fill fs (Nd t p Black (Nd a0 q0 Black b0)))"
        using reaches_black [OF T(1), of "FR t p Black # fs"] T sib c by simp
    next
      fix s1
      assume t1: "tree_at s1 (fill fs (Nd t p Black (Nd a0 q0 Black b0)))"
      show "reaches s1 (fill fs (Nd t p Black (Nd a0 q0 Black b0)))
          (do { s \<leftarrow> rb_set_red p s1; rb_rotate_left p s }) (fill fs (Nd (Nd t p Red a0) q0 Black b0))"
        by (rule reaches_bind [OF reaches_red [OF t1 refl]]) (rule reaches_left [OF _ refl])
    qed
    then obtain s1 where s1: "do { s \<leftarrow> rb_set_black q0 s; s \<leftarrow> rb_set_red p s; rb_rotate_left p s } = Some s1"
        "evolves s T s1 (fill fs (Nd (Nd t p Red a0) q0 Black b0))" "tree_at s1 (fill fs (Nd (Nd t p Red a0) q0 Black b0))"
      by (rule reachesE)
    obtain pn where "nodes s1 p = Some pn" "rb_rchild pn = q"
      using s1(3) by (rule node_at [where fs = "FL q0 Black b0 # fs"]) (use a0 in auto)
    then have "rb_erase_sibling_l p s = Some (q, s1)"
      using s1(1) m n sib by (auto simp: rb_erase_sibling_l_def rb_is_red_def bind_eq_Some_conv)
    moreover have "inv_f (FL p Red (Nd a q Black b) # FL q0 Black b0 # fs) (Suc (bh t))"
      using f c sib a0 by auto
    moreover have "evolves s T s1 (fill (FL q0 Black b0 # fs) (Nd t p Red (Nd a q Black b)))"
      using s1(2) a0 by simp
    ultimately show ?thesis
      by (metis color.distinct(1))
  qed
qed

subsection \<open>A whole round, and its mirror image\<close>

lemma round_el:
  assumes T: "tree_at s (fill (FL p c sib # fs) t)" and d: "deficit (FL p c sib # fs) t" and t: "tcolor t = Black"
  shows "\<exists>r. (rb_erase_sibling_l p s \<bind> (\<lambda>(other, s). rb_erase_fix_l p other s)) = Some r \<and>
    erase_step s (fill (FL p c sib # fs) t) (Suc (Suc (length fs))) r"
proof -
  have f: "inv_f (FL p c sib # fs) (Suc (bh t))" "inv_h t" "inv_c t"
    using d deficit_black [OF d t] by (auto simp: deficit_def)
  obtain q s1 fs1 c1 a b where s1: "rb_erase_sibling_l p s = Some (q, s1)"
      "evolves s (fill (FL p c sib # fs) t) s1 (fill fs1 (Nd t p c1 (Nd a q Black b)))"
      "inv_f (FL p c1 (Nd a q Black b) # fs1) (Suc (bh t))" "c1 = Black \<longrightarrow> fs1 = fs"
    using sibling_l [OF T _ f(1)] by auto
  obtain r where "rb_erase_fix_l p q s1 = Some r"
      "erase_step s1 (fill fs1 (Nd t p c1 (Nd a q Black b))) (Suc (Suc (length fs))) r"
    using fix_l [OF evolvesD [OF s1(2)] refl s1(3) f(3,2) t] s1(4) by auto
  then show ?thesis
    using s1(1) erase_step_trans [OF s1(2)] by auto
qed

lemma black_or_null_mir: "black_or_null p (mir s) = black_or_null p s"
  by (auto simp: black_or_null_def nodes_mir bind_map rb_is_black_def)

lemma sibling_mir: "rb_erase_sibling_l p (mir s) = map_option (map_prod id mir) (rb_erase_sibling_r p s)"
  by (simp add: rb_erase_sibling_l_def rb_erase_sibling_r_def Let_def nodes_mir prims_mir rotate_mir
      rb_is_red_def bind_map map_bind if_bind if_map cong: if_cong)

lemma fix_mir: "rb_erase_fix_l p q (mir s) = map_option mnext (rb_erase_fix_r p q s)"
  by (simp add: rb_erase_fix_l_def rb_erase_fix_r_def Let_def nodes_mir prims_mir rotate_mir rotate_mir_r
      black_or_null_mir bind_map map_bind if_bind if_map split_beta cong: if_cong)

lemma deficit_mir: "deficit (map mf fs) (mt t) = deficit fs t"
  by (cases t) (auto simp: deficit_def)

lemma erank_mir: "erank (map mf fs) (mt t) = erank fs t"
  by (simp add: erank_def)

lemma rb_ok_mir: "rb_ok (mt t) = rb_ok t"
  by (simp add: rb_ok_def)

lemma erase_step_mir: "erase_step (mir s) (mt T) n (mnext r) \<Longrightarrow> erase_step s T n r"
proof (cases r)
  case (Climb x q s')
  assume "erase_step (mir s) (mt T) n (mnext r)"
  then obtain fs t where e: "evolves (mir s) (mt T) (mir s') (fill fs t)" "x = tptr t" "q = up fs" "deficit fs t" "erank fs t < n"
    by (auto simp: Climb erase_step_def)
  have "evolves s T s' (fill (map mf fs) (mt t))"
    using e(1) [unfolded evolves_mir'] by (simp add: mt_fill)
  moreover have "deficit (map mf fs) (mt t)" "erank (map mf fs) (mt t) < n"
    using e(4,5) by (simp_all add: deficit_mir erank_mir)
  ultimately show ?thesis
    using e(2,3) by (auto simp: Climb erase_step_def intro!: exI [of _ "map mf fs"] exI [of _ "mt t"])
next
  case (Break x s')
  assume "erase_step (mir s) (mt T) n (mnext r)"
  then obtain T' where "x = root s'" "evolves (mir s) (mt T) (mir s') T'" "rb_ok T'"
    by (auto simp: Break erase_step_def)
  then show ?thesis
    by (auto simp: Break erase_step_def evolves_mir' rb_ok_mir intro!: exI [of _ "mt T'"])
qed

lemma round_er:
  assumes T: "tree_at s (fill (FR sib p c # fs) t)" and d: "deficit (FR sib p c # fs) t" and t: "tcolor t = Black"
  shows "\<exists>r. (rb_erase_sibling_r p s \<bind> (\<lambda>(other, s). rb_erase_fix_r p other s)) = Some r \<and>
    erase_step s (fill (FR sib p c # fs) t) (Suc (Suc (length fs))) r"
proof -
  let ?fs = "FR sib p c # fs"
  have T': "tree_at (mir s) (fill (FL p c (mt sib) # map mf fs) (mt t))"
    using T tree_at_mir [of s "fill ?fs t"] by (simp add: mt_fill)
  have "deficit (FL p c (mt sib) # map mf fs) (mt t)"
    using d deficit_mir [of ?fs t] by simp
  from round_el [OF T' this] t obtain r where
    r: "(rb_erase_sibling_l p (mir s) \<bind> (\<lambda>(other, s). rb_erase_fix_l p other s)) = Some r"
      "erase_step (mir s) (mt (fill ?fs t)) (Suc (Suc (length fs))) r"
    by (auto simp: mt_fill)
  then have "map_option mnext (rb_erase_sibling_r p s \<bind> (\<lambda>(other, s). rb_erase_fix_r p other s)) = Some r"
    by (simp add: sibling_mir fix_mir bind_map map_bind split_beta)
  then show ?thesis
    using r(2) by (auto intro: erase_step_mir)
qed

subsection \<open>The loop\<close>

lemma paint_root:
  assumes "tree_at s T" and "rb_ok T"
  shows "\<exists>s'. (if root s \<noteq> 0 then rb_set_black (root s) s else Some s) = Some s' \<and> evolves s T s' T"
proof (cases T)
  case (Nd l a c r)
  then have "root s = a" "c = Black" "a \<noteq> 0"
    using assms by (auto simp: tree_at_def rb_ok_def)
  then show ?thesis
    using reaches_black [OF assms(1), of "[]"] Nd by (auto elim: reachesE)
qed (use assms evolves_refl in \<open>auto simp: tree_at_def\<close>)

lemma erase_done:
  assumes T: "tree_at s (fill fs t)" and d: "deficit fs t" and c: "tcolor t = Red \<or> fs = []"
  shows "\<exists>s' t'. rb_erase_color (tptr t) q s = Some s' \<and> evolves s (fill fs t) s' t' \<and> rb_ok t'"
proof -
  have "rb_erase_loop (tptr t) q s = Some (tptr t, s)"
    using c black_or_null_ok [OF T refl] T
    by (subst rb_erase_loop.simps) (auto simp: tree_at_fill)
  then have run: "rb_erase_color (tptr t) q s = (if tptr t \<noteq> 0 then rb_set_black (tptr t) s else Some s)"
    by (simp add: rb_erase_color_def)
  show ?thesis
  proof (cases t)
    case Lf
    then show ?thesis
      using run c evolves_refl [OF T] by (auto simp: rb_ok_def)
  next
    case (Nd l a co r)
    have "a \<noteq> 0"
      using T Nd by (auto elim!: node_at)
    moreover obtain s' where "rb_set_black a s = Some s'" "evolves s (fill fs t) s' (fill fs (Nd l a Black r))"
      using reaches_black [OF T, of fs l a co r] Nd by (auto elim: reachesE)
    moreover have "rb_ok (fill fs (Nd l a Black r))"
    proof (cases fs)
      case Nil
      then show ?thesis
        using d Nd by (auto simp: deficit_def rb_ok_def)
    next
      case (Cons f gs)
      then have "co = Red"
        using c Nd by auto
      then show ?thesis
        using fill_inv [of fs "Suc (bh l)" "Nd l a Black r"] d Nd Cons by (auto simp: deficit_def rb_ok_def)
    qed
    ultimately show ?thesis
      using run Nd by auto
  qed
qed

lemma child_side:
  assumes T: "tree_at s (fill (f # fs) t)" and sib: "bh (fsib f) \<noteq> 0"
  obtains n where "nodes s (fptr f) = Some n" "rb_lchild n = tptr t \<longleftrightarrow> (\<exists>a c r. f = FL a c r)"
proof (cases f)
  case (FL a c r)
  then show ?thesis
    using T that by (auto elim!: node_at [where fs = fs])
next
  case (FR l a c)
  have "tptr l \<noteq> tptr t"
  proof
    assume eq: "tptr l = tptr t"
    have "l \<noteq> Lf"
      using sib FR by auto
    moreover have "t \<noteq> Lf"
      using eq calculation T FR by (cases l) (auto elim!: node_at [where fs = "FL a c t # fs"])
    ultimately show False
      using tptr_in [of l] tptr_in [of t] eq T FR by (auto simp: tree_at_def addrs_fill)
  qed
  then show ?thesis
    using T that FR by (auto elim!: node_at [where fs = fs])
qed

lemma erase_color_ok:
  "tree_at s (fill fs t) \<Longrightarrow> deficit fs t \<Longrightarrow>
     \<exists>s' t'. rb_erase_color (tptr t) (up fs) s = Some s' \<and> evolves s (fill fs t) s' t' \<and> rb_ok t'"
proof (induction "erank fs t" arbitrary: s fs t rule: less_induct)
  case less
  note T = less.prems(1) and d = less.prems(2)
  show ?case
  proof (cases "tcolor t = Red \<or> fs = []")
    case True
    then show ?thesis
      using erase_done [OF T d] by blast
  next
    case False
    then obtain f gs where fs: "fs = f # gs" and t: "tcolor t = Black"
      by (cases fs; cases "tcolor t") auto
    have blk: "black_or_null (tptr t) s = Some True"
      using black_or_null_ok [OF T refl] t by simp
    have rt: "tptr t \<noteq> root s"
      using root_above [OF T] fs by simp
    obtain p where p: "nodes s (fptr f) = Some p" "rb_lchild p = tptr t \<longleftrightarrow> (\<exists>a c r. f = FL a c r)"
      by (rule child_side [OF T [unfolded fs]]) (use d fs in \<open>auto simp: deficit_def\<close>)
    obtain r where r: "(if rb_lchild p = tptr t
         then do { (other, s) \<leftarrow> rb_erase_sibling_l (fptr f) s; rb_erase_fix_l (fptr f) other s }
         else do { (other, s) \<leftarrow> rb_erase_sibling_r (fptr f) s; rb_erase_fix_r (fptr f) other s }) = Some r"
      "erase_step s (fill fs t) (erank fs t) r"
    proof (cases f)
      case (FL a c sib)
      then show ?thesis
        using round_el [of s a c sib gs t] T d t fs p(2) that by (auto simp: erank_def)
    next
      case (FR sib a c)
      then show ?thesis
        using round_er [of s sib a c gs t] T d t fs p(2) that by (auto simp: erank_def)
    qed
    have run: "rb_erase_loop (tptr t) (up fs) s =
        (case r of Climb x q s' \<Rightarrow> rb_erase_loop x q s' | Break x s' \<Rightarrow> Some (x, s'))"
      using blk rt p(1) r(1) fs by (subst rb_erase_loop.simps)
        (cases "rb_lchild p = tptr t"; simp del: Option.bind_assoc)
    show ?thesis
    proof (cases r)
      case (Climb x q s1)
      then obtain fs1 t1 where e: "evolves s (fill fs t) s1 (fill fs1 t1)" "x = tptr t1" "q = up fs1" "deficit fs1 t1"
          "erank fs1 t1 < erank fs t"
        using r(2) by (auto simp: erase_step_def)
      then have "rb_erase_color (tptr t) (up fs) s = rb_erase_color (tptr t1) (up fs1) s1"
        using run Climb by (simp add: rb_erase_color_def)
      then show ?thesis
        using less.hyps [OF e(5) evolvesD [OF e(1)] e(4)] evolves_trans [OF e(1)] by metis
    next
      case (Break x s1)
      then obtain T1 where e: "x = root s1" "evolves s (fill fs t) s1 T1" "rb_ok T1"
        using r(2) by (auto simp: erase_step_def)
      then show ?thesis
        using run Break paint_root [OF evolvesD [OF e(2)] e(3)] evolves_trans [OF e(2)]
        by (fastforce simp: rb_erase_color_def)
    qed
  qed
qed

subsection \<open>Unlinking a node with at most one child\<close>

text \<open>\<open>removes s T x s' T'\<close>: memory went from \<open>T\<close> to \<open>T'\<close>, which has lost the node \<open>x\<close>, and
  nothing outside \<open>T\<close> was touched.\<close>

definition removes :: "rbs \<Rightarrow> rtree \<Rightarrow> ptr \<Rightarrow> rbs \<Rightarrow> rtree \<Rightarrow> bool" where
  "removes s T x s' T' \<longleftrightarrow>
     tree_at s' T' \<and> addrs T' = remove1 x (addrs T) \<and> (\<forall>b. b \<notin> set (addrs T) \<longrightarrow> nodes s' b = nodes s b)"

lemma removes_evolves:
  "removes s T x s1 T1 \<Longrightarrow> evolves s1 T1 s2 T2 \<Longrightarrow> distinct (addrs T) \<Longrightarrow> removes s T x s2 T2"
  by (auto simp: removes_def evolves_def)

lemma unlink_one_ok:
  assumes T: "tree_at s (fill fs (Nd l x c r))" and lr: "l = Lf \<and> t = r \<or> r = Lf \<and> t = l"
  shows "\<exists>s'. rb_unlink_one x (tptr t) s = Some (tptr t, up fs, cbit c, s') \<and>
    removes s (fill fs (Nd l x c r)) x s' (fill fs t)"
proof -
  obtain n where n: "nodes s x = Some n" "rb_parent n = up fs" "rb_color n = cbit c" "x \<noteq> 0"
    using T by (auto elim!: node_at)
  have h: "holds (nodes s) (root s) fs x" and d: "distinct (before fs @ (addrs l @ x # addrs r) @ after fs)"
    and st: "shape (nodes s) x (tptr t) t"
    using T lr by (auto simp: tree_at_fill elim!: shape_NdE simp del: shape.simps)
  have dt: "distinct (before fs @ x # addrs t @ after fs)"
    using d lr by auto
  obtain s1 where s1: "adopt (tptr t) (up fs) s = Some s1" "shape (nodes s1) (up fs) (tptr t) t" "root s1 = root s"
      "\<And>b. b \<noteq> tptr t \<or> t = Lf \<Longrightarrow> nodes s1 b = nodes s b"
    using adopt_ok [OF st up_aligned [OF h]] dt by auto
  have k1: "nodes s1 b = nodes s b" if "b \<notin> set (addrs t)" for b
    using s1(4) [of b] tptr_in [of t] that by auto
  have "holds (nodes s1) (root s1) fs x = holds (nodes s) (root s1) fs x"
    by (rule holds_cong, rule k1) (use dt in auto)
  then have "holds (nodes s1) (root s1) fs x"
    using h s1(3) by simp
  from relink_ok [OF this n(4)] obtain s2 where s2: "relink (up fs) x (tptr t) s1 = Some s2"
      "holds (nodes s2) (root s2) fs (tptr t)" "\<And>b. b \<noteq> up fs \<or> fs = [] \<Longrightarrow> nodes s2 b = nodes s1 b"
    using dt by fastforce
  have k2: "nodes s2 b = nodes s1 b" if "b \<notin> set (before fs)" "b \<notin> set (after fs)" for b
    using s2(3) [of b] up_in [of fs] that by auto
  have "shape (nodes s2) (up fs) (tptr t) t = shape (nodes s1) (up fs) (tptr t) t"
    by (rule shape_cong, rule k2) (use dt in auto)
  then have "tree_at s2 (fill fs t)"
    using s1(2) s2(2) dt by (auto simp: tree_at_fill)
  moreover have "nodes s2 b = nodes s b" if "b \<notin> set (addrs (fill fs (Nd l x c r)))" for b
    using that k1 [of b] k2 [of b] lr by (auto simp: addrs_fill)
  moreover have "addrs (fill fs t) = remove1 x (addrs (fill fs (Nd l x c r)))"
    using d lr by (auto simp: addrs_fill remove1_append)
  ultimately show ?thesis
    using n s1(1) s2(1) by (auto simp: rb_unlink_one_def removes_def)
qed

subsection \<open>Unlinking a node with two children\<close>

fun left_frame :: "frame \<Rightarrow> bool" where
  "left_frame (FL a c r) = True"
| "left_frame (FR l a c) = False"

lemma fill_append: "fill (fs @ gs) t = fill gs (fill fs t)"
  by (induction fs arbitrary: t) auto

lemma fill_tptr: "gs \<noteq> [] \<Longrightarrow> tptr (fill gs t) = tptr (fill gs t')"
proof (induction gs rule: rev_induct)
  case (snoc f gs)
  then show ?case
    by (cases f) (auto simp: fill_append)
qed simp

lemma up_append: "up (gs @ fs) = (if gs = [] then up fs else up gs)"
  by (cases gs) auto

lemma inv_f_above:
  "up_color (gs @ FR l x c # fs) = up_color (gs @ FR l y c # fs)"
  by (cases gs) auto

lemma left_before: "list_all left_frame gs \<Longrightarrow> before gs = []"
  by (induction gs rule: before.induct) auto

text \<open>The leftmost node of a subtree.\<close>

lemma left_split:
  "t \<noteq> Lf \<Longrightarrow> \<exists>gs y c r. t = fill gs (Nd Lf y c r) \<and> list_all left_frame gs"
proof (induction t)
  case (Nd l a c r)
  show ?case
  proof (cases "l = Lf")
    case True
    then show ?thesis
      by (intro exI [of _ "[]"]) auto
  next
    case False
    then obtain gs y cy yr where "l = fill gs (Nd Lf y cy yr)" "list_all left_frame gs"
      using Nd.IH(1) by blast
    then show ?thesis
      by (intro exI [of _ "gs @ [FL a c r]"] exI) (auto simp: fill_append)
  qed
qed simp

lemma leftmost_ok:
  "shape (nodes s) par p (fill gs (Nd Lf y c r)) \<Longrightarrow> list_all left_frame gs \<Longrightarrow> leftmost p s = Some y"
proof (induction gs arbitrary: par p rule: rev_induct)
  case Nil
  then show ?case
    by (subst leftmost.simps) (auto split: option.splits)
next
  case (snoc f gs)
  then obtain a ca ra where f: "f = FL a ca ra"
    by (cases f) auto
  have "shape (nodes s) par p (Nd (fill gs (Nd Lf y c r)) a ca ra)"
    using snoc.prems(1) by (simp add: fill_append f)
  then obtain n where n: "nodes s a = Some n" "p = a"
      "shape (nodes s) a (rb_lchild n) (fill gs (Nd Lf y c r))"
    by (auto split: option.splits)
  have "rb_lchild n \<noteq> 0"
    using n(3) by (cases "fill gs (Nd Lf y c r)") (auto dest: arg_cong [of _ _ addrs] simp: addrs_fill)
  then show ?case
    using snoc.IH [OF n(3)] snoc.prems(2) n by (subst leftmost.simps) simp
qed

lemma spine_unlink:
  assumes "shape (nodes s) par p (fill gs (Nd Lf y c r))" "list_all left_frame gs" "gs \<noteq> []"
    "distinct (addrs (fill gs (Nd Lf y c r)))"
  shows "\<exists>s'. (adopt (tptr r) (up gs) s \<bind> set_lchild (up gs) (tptr r)) = Some s' \<and>
    shape (nodes s') par p (fill gs r) \<and> root s' = root s \<and>
    (\<forall>b. b \<notin> set (addrs (fill gs r)) \<longrightarrow> nodes s' b = nodes s b)"
  using assms
proof (induction gs arbitrary: par p rule: rev_induct)
  case (snoc f gs)
  then obtain a ca ra where f: "f = FL a ca ra"
    by (cases f) auto
  have "shape (nodes s) par p (Nd (fill gs (Nd Lf y c r)) a ca ra)"
    using snoc.prems(1) by (simp add: fill_append f)
  then obtain n where n: "nodes s a = Some n" "p = a" "rb_parent n = par" "rb_color n = cbit ca" "a \<noteq> 0" "aligned a"
      "shape (nodes s) a (rb_lchild n) (fill gs (Nd Lf y c r))" "shape (nodes s) a (rb_rchild n) ra"
    by (auto split: option.splits)
  have d: "distinct (addrs (fill gs (Nd Lf y c r)) @ a # addrs ra)"
    using snoc.prems(4) by (simp add: fill_append f)
  show ?case
  proof (cases "gs = []")
    case True
    have "shape (nodes s) y (tptr r) r"
      using n(7) True by (auto elim!: shape_NdE simp del: shape.simps)
    from adopt_ok [OF this n(6)] obtain s1 where s1: "adopt (tptr r) a s = Some s1" "shape (nodes s1) a (tptr r) r"
        "root s1 = root s" "\<And>b. b \<noteq> tptr r \<or> r = Lf \<Longrightarrow> nodes s1 b = nodes s b"
      using d True by auto
    have k1: "nodes s1 b = nodes s b" if "b \<notin> set (addrs r)" for b
      using s1(4) [of b] tptr_in [of r] that by auto
    let ?s = "s1\<lparr>nodes := (nodes s1)(a \<mapsto> n\<lparr>rb_lchild := tptr r\<rparr>)\<rparr>"
    have "nodes s1 a = Some n"
      using k1 [of a] d True n(1) by auto
    then have "set_lchild a (tptr r) s1 = Some ?s"
      by (simp add: set_lchild_def upd_Some)
    moreover have "shape (nodes ?s) a (rb_rchild n) ra = shape (nodes s) a (rb_rchild n) ra"
      using d True by (intro shape_cong) (use k1 in \<open>auto simp: fun_upd_apply\<close>)
    ultimately show ?thesis
      using s1 k1 n d True f by (auto simp: shape_upd pack_simps fun_upd_apply)
  next
    case False
    have "list_all left_frame gs" "distinct (addrs (fill gs (Nd Lf y c r)))"
      using snoc.prems(2) d by auto
    from snoc.IH [OF n(7) this(1) False this(2)]
    obtain s' where s': "(adopt (tptr r) (up gs) s \<bind> set_lchild (up gs) (tptr r)) = Some s'"
      "shape (nodes s') a (rb_lchild n) (fill gs r)" "root s' = root s"
      "\<And>b. b \<notin> set (addrs (fill gs r)) \<Longrightarrow> nodes s' b = nodes s b"
      by blast
    have "up (gs @ [f]) = up gs"
      using False by (cases gs) auto
    moreover have "nodes s' a = Some n"
      using s'(4) [of a] d n(1) by (auto simp: addrs_fill)
    moreover have "shape (nodes s') a (rb_rchild n) ra = shape (nodes s) a (rb_rchild n) ra"
      by (rule shape_cong, rule s'(4)) (use d in \<open>auto simp: addrs_fill\<close>)
    ultimately show ?thesis
      using s' n by (auto simp: fill_append f)
  qed
qed simp

lemma set_parent_ok:
  assumes "shape (nodes s) par (tptr t) t" "t \<noteq> Lf" "aligned q" "distinct (addrs t)"
  shows "\<exists>s'. rb_set_parent (tptr t) q s = Some s' \<and> shape (nodes s') q (tptr t) t \<and> root s' = root s \<and>
    (\<forall>b. b \<noteq> tptr t \<longrightarrow> nodes s' b = nodes s b)"
  using adopt_ok [OF assms(1,3,4)] tptr_0 [OF assms(1)] assms(2) by (simp add: adopt_def)

text \<open>
  The last steps, common to both cases: \<open>y\<close> takes the place of \<open>old\<close>; its right subtree is
  already in place.
\<close>

lemma unlink_two_end:
  assumes h: "holds (nodes s) (root s) fs y" and l: "shape (nodes s) old (tptr l) l" "l \<noteq> Lf"
    and r: "shape (nodes s) y (tptr r) r" and n: "nodes s y = Some n" "rb_rchild n = tptr r" and y: "y \<noteq> 0" "aligned y"
    and d: "distinct (before fs @ (addrs l @ y # addrs r) @ after fs)"
    and dn: "rb_parent d = up fs" "rb_color d = cbit c"
  shows "\<exists>s'. (upd y (\<lambda>n. n\<lparr>rb_parent_color := rb_parent_color d, rb_lchild := tptr l\<rparr>) s \<bind>
      rb_set_parent (tptr l) y) = Some s' \<and>
    tree_at s' (fill fs (Nd l y c r)) \<and> (\<forall>b. b \<noteq> y \<and> b \<notin> set (addrs l) \<longrightarrow> nodes s' b = nodes s b)"
proof -
  let ?n = "n\<lparr>rb_parent_color := rb_parent_color d, rb_lchild := tptr l\<rparr>"
  let ?s = "s\<lparr>nodes := (nodes s)(y \<mapsto> ?n)\<rparr>"
  have u: "upd y (\<lambda>n. n\<lparr>rb_parent_color := rb_parent_color d, rb_lchild := tptr l\<rparr>) s = Some ?s"
    using n(1) by (rule upd_Some)
  have "shape (nodes ?s) old (tptr l) l"
    using l d by (simp add: shape_upd)
  from set_parent_ok [OF this l(2) y(2)] d obtain s' where s': "rb_set_parent (tptr l) y ?s = Some s'"
      "shape (nodes s') y (tptr l) l" "root s' = root s" "\<And>b. b \<noteq> tptr l \<Longrightarrow> nodes s' b = nodes ?s b"
    by auto
  have k: "nodes s' b = nodes ?s b" if "b \<notin> set (addrs l)" for b
    using s'(4) [of b] tptr_in [OF l(2)] that by auto
  have "nodes s' y = Some ?n"
    using k [of y] d by auto
  moreover have "holds (nodes s') (root s') fs y = holds (nodes s) (root s') fs y"
    by (rule holds_cong, rule trans [OF k]) (use d in \<open>auto simp: fun_upd_apply\<close>)
  moreover have "shape (nodes s') y (tptr r) r = shape (nodes s) y (tptr r) r"
    by (rule shape_cong, rule trans [OF k]) (use d in \<open>auto simp: fun_upd_apply\<close>)
  ultimately have "tree_at s' (fill fs (Nd l y c r))"
    using s'(2,3) h r n(2) y d dn copied_color [of "tptr l" d n] by (auto simp: tree_at_fill)
  then show ?thesis
    using u s'(1) k by auto
qed

lemma unlink_two_near:
  assumes T: "tree_at s (fill fs (Nd l old c (Nd Lf y cy r)))" and l: "l \<noteq> Lf"
  shows "\<exists>s'. rb_unlink_two old s = Some (tptr r, y, cbit cy, s') \<and>
    removes s (fill fs (Nd l old c (Nd Lf y cy r))) old s' (fill fs (Nd l y c r))"
proof -
  have d: "distinct (before fs @ (addrs l @ old # y # addrs r) @ after fs)" and h: "holds (nodes s) (root s) fs old"
    using T by (auto simp: tree_at_fill)
  have "shape (nodes s) (up fs) old (Nd l old c (Nd Lf y cy r))"
    using T by (simp add: tree_at_fill)
  then obtain dn where dn: "nodes s old = Some dn" "rb_parent dn = up fs" "rb_color dn = cbit c" "rb_lchild dn = tptr l"
      "rb_rchild dn = y" "shape (nodes s) old (tptr l) l" "shape (nodes s) old y (Nd Lf y cy r)" "old \<noteq> 0"
    by (rule shape_NdE) auto
  from dn(7) obtain n where n: "nodes s y = Some n" "rb_parent n = old" "rb_color n = cbit cy" "rb_rchild n = tptr r"
      "shape (nodes s) y (tptr r) r" "y \<noteq> 0" "aligned y"
    by (rule shape_NdE)
  have lm: "leftmost y s = Some y"
    using leftmost_ok [of s old y "[]" y cy r] dn(7) by (simp del: shape.simps)
  obtain s1 where s1: "relink (up fs) old y s = Some s1" "holds (nodes s1) (root s1) fs y"
      "\<And>b. b \<noteq> up fs \<or> fs = [] \<Longrightarrow> nodes s1 b = nodes s b"
    using relink_ok [OF h dn(8)] d by fastforce
  have k1: "nodes s1 b = nodes s b" if "b \<notin> set (before fs)" "b \<notin> set (after fs)" for b
    using s1(3) [of b] up_in [of fs] that by auto
  have sl: "shape (nodes s1) old (tptr l) l"
    using dn(6) d by (subst shape_cong [of l _ "nodes s"]) (auto intro!: k1)
  have sr: "shape (nodes s1) y (tptr r) r"
    using n(5) d by (subst shape_cong [of r _ "nodes s"]) (auto intro!: k1)
  have ny: "nodes s1 y = Some n"
    using k1 [of y] n(1) d by auto
  have d': "distinct (before fs @ (addrs l @ y # addrs r) @ after fs)"
    using d by auto
  obtain s2 where s2: "(upd y (\<lambda>n. n\<lparr>rb_parent_color := rb_parent_color dn, rb_lchild := tptr l\<rparr>) s1 \<bind>
        rb_set_parent (tptr l) y) = Some s2" "tree_at s2 (fill fs (Nd l y c r))"
      "\<And>b. b \<noteq> y \<and> b \<notin> set (addrs l) \<Longrightarrow> nodes s2 b = nodes s1 b"
    using unlink_two_end [OF s1(2) sl l sr ny n(4) n(6,7) d' dn(2,3)] by blast
  have "rb_unlink_two old s = Some (tptr r, y, cbit cy, s2)"
    using dn lm s1(1) ny n(2,3,4) s2(1) by (auto simp: rb_unlink_two_def bind_eq_Some_conv)
  moreover have "nodes s2 b = nodes s b" if "b \<notin> set (addrs (fill fs (Nd l old c (Nd Lf y cy r))))" for b
    using that s2(3) [of b] k1 [of b] by (auto simp: addrs_fill)
  moreover have "addrs (fill fs (Nd l y c r)) = remove1 old (addrs (fill fs (Nd l old c (Nd Lf y cy r))))"
    using d by (auto simp: addrs_fill remove1_append)
  ultimately show ?thesis
    using s2(2) by (auto simp: removes_def)
qed

lemma unlink_two_far:
  assumes T: "tree_at s (fill fs (Nd l old c (fill gs (Nd Lf y cy r))))" and l: "l \<noteq> Lf"
    and gs: "list_all left_frame gs" "gs \<noteq> []"
  shows "\<exists>s'. rb_unlink_two old s = Some (tptr r, up gs, cbit cy, s') \<and>
    removes s (fill fs (Nd l old c (fill gs (Nd Lf y cy r)))) old s' (fill fs (Nd l y c (fill gs r)))"
proof -
  let ?R = "fill gs (Nd Lf y cy r)" and ?R' = "fill gs r"
  have d: "distinct (before fs @ (addrs l @ old # addrs ?R) @ after fs)" and h: "holds (nodes s) (root s) fs old"
    using T by (auto simp: tree_at_fill)
  have yR: "y \<in> set (addrs ?R)" "set (addrs ?R) = insert y (set (addrs ?R'))" "distinct (y # addrs ?R')"
    using d by (auto simp: addrs_fill)
  have ne: "?R' \<noteq> Lf" "tptr ?R = tptr ?R'" "up gs \<in> set (addrs ?R')"
    using gs up_in [of gs] fill_tptr [OF gs(2)] by (auto simp: addrs_fill dest: arg_cong [of _ _ addrs])
  have "shape (nodes s) (up fs) old (Nd l old c ?R)"
    using T by (simp add: tree_at_fill)
  then obtain dn where dn: "nodes s old = Some dn" "rb_parent dn = up fs" "rb_color dn = cbit c" "rb_lchild dn = tptr l"
      "rb_rchild dn = tptr ?R" "shape (nodes s) old (tptr l) l" "shape (nodes s) old (tptr ?R) ?R" "old \<noteq> 0"
    by (rule shape_NdE) auto
  have T': "tree_at s (fill (gs @ FR l old c # fs) (Nd Lf y cy r))"
    using T by (simp add: fill_append)
  then obtain n where n: "nodes s y = Some n" "rb_parent n = up gs" "rb_color n = cbit cy" "rb_rchild n = tptr r"
      "y \<noteq> 0" "aligned y"
    using gs(2) by (auto elim!: node_at [OF _ refl] simp: up_append)
  have lm: "leftmost (tptr ?R) s = Some y"
    using leftmost_ok [OF dn(7) gs(1)] .
  obtain s1 where s1: "relink (up fs) old y s = Some s1" "holds (nodes s1) (root s1) fs y"
      "\<And>b. b \<noteq> up fs \<or> fs = [] \<Longrightarrow> nodes s1 b = nodes s b"
    using relink_ok [OF h dn(8)] d by fastforce
  have k1: "nodes s1 b = nodes s b" if "b \<notin> set (before fs)" "b \<notin> set (after fs)" for b
    using s1(3) [of b] up_in [of fs] that by auto
  have "shape (nodes s1) old (tptr ?R) ?R"
    using dn(7) d by (subst shape_cong [of ?R _ "nodes s"]) (auto intro!: k1)
  from spine_unlink [OF this gs] d obtain s2 where
    s2: "(adopt (tptr r) (up gs) s1 \<bind> set_lchild (up gs) (tptr r)) = Some s2"
      "shape (nodes s2) old (tptr ?R') ?R'" "root s2 = root s1"
      "\<And>b. b \<notin> set (addrs ?R') \<Longrightarrow> nodes s2 b = nodes s1 b"
    by (auto simp: ne(2))
  have ny: "nodes s2 y = Some n"
    using s2(4) [of y] k1 [of y] n(1) yR d by auto
  let ?s3 = "s2\<lparr>nodes := (nodes s2)(y \<mapsto> n\<lparr>rb_rchild := tptr ?R'\<rparr>)\<rparr>"
  have s3: "set_rchild y (tptr ?R') s2 = Some ?s3"
    using ny by (simp add: set_rchild_def upd_Some)
  have "shape (nodes ?s3) old (tptr ?R') ?R'"
    using s2(2) yR by (simp add: shape_upd)
  from set_parent_ok [OF this ne(1) n(6)] yR obtain s4 where
    s4: "rb_set_parent (tptr ?R') y ?s3 = Some s4" "shape (nodes s4) y (tptr ?R') ?R'" "root s4 = root s1"
      "\<And>b. b \<noteq> tptr ?R' \<Longrightarrow> nodes s4 b = nodes ?s3 b"
    using s2(3) by auto
  have k4: "nodes s4 b = nodes s1 b" if "b \<notin> set (addrs ?R)" for b
    using s4(4) [of b] s2(4) [of b] tptr_in [OF ne(1)] yR that by (auto simp: fun_upd_apply)
  have "holds (nodes s4) (root s4) fs y = holds (nodes s1) (root s4) fs y"
    by (rule holds_cong, rule k4) (use d in auto)
  then have h4: "holds (nodes s4) (root s4) fs y"
    using s1(2) s4(3) by simp
  have sl: "shape (nodes s4) old (tptr l) l"
    using dn(6) d by (subst shape_cong [of l _ "nodes s"]) (auto intro!: trans [OF k4 k1])
  have ny4: "nodes s4 y = Some (n\<lparr>rb_rchild := tptr ?R'\<rparr>)" "rb_rchild (n\<lparr>rb_rchild := tptr ?R'\<rparr>) = tptr ?R'"
    using s4(4) [of y] tptr_in [OF ne(1)] yR by auto
  have d': "distinct (before fs @ (addrs l @ y # addrs ?R') @ after fs)"
    using d yR by auto
  obtain s5 where s5: "(upd y (\<lambda>n. n\<lparr>rb_parent_color := rb_parent_color dn, rb_lchild := tptr l\<rparr>) s4 \<bind>
        rb_set_parent (tptr l) y) = Some s5" "tree_at s5 (fill fs (Nd l y c ?R'))"
      "\<And>b. b \<noteq> y \<and> b \<notin> set (addrs l) \<Longrightarrow> nodes s5 b = nodes s4 b"
    using unlink_two_end [OF h4 sl l s4(2) ny4 n(5,6) d' dn(2,3)] by blast
  have "up gs \<noteq> old"
    using ne(3) yR d by auto
  moreover have "nodes s1 y = Some n"
    using k1 [of y] n(1) yR d by auto
  ultimately have "rb_unlink_two old s = Some (tptr r, up gs, cbit cy, s5)"
    using dn(1-5) lm s1(1) n(2-4) s2(1) s3 s4(1) s5(1) ne(2)
    by (auto simp: rb_unlink_two_def bind_eq_Some_conv)
  moreover have "nodes s5 b = nodes s b" if "b \<notin> set (addrs (fill fs (Nd l old c ?R)))" for b
    using that s5(3) [of b] k4 [of b] k1 [of b] yR by (auto simp: addrs_fill [of fs])
  moreover have "addrs (fill fs (Nd l y c ?R')) = remove1 old (addrs (fill fs (Nd l old c ?R)))"
    using d left_before [OF gs(1)] by (auto simp: addrs_fill remove1_append)
  ultimately show ?thesis
    using s5(2) by (auto simp: removes_def)
qed

subsection \<open>Removal\<close>

lemma position_exists:
  "x \<in> set (addrs T) \<Longrightarrow> \<exists>fs l c r. T = fill fs (Nd l x c r)"
proof (induction T)
  case (Nd l a c r)
  consider "x = a" | "x \<in> set (addrs l)" | "x \<in> set (addrs r)"
    using Nd.prems by auto
  then show ?case
  proof cases
    case 1
    then show ?thesis
      by (intro exI [of _ "[]"]) auto
  next
    case 2
    then obtain fs l' c' r' where "l = fill fs (Nd l' x c' r')"
      using Nd.IH(1) by blast
    then show ?thesis
      by (intro exI [of _ "fs @ [FL a c r]"] exI) (auto simp: fill_append)
  next
    case 3
    then obtain fs l' c' r' where "r = fill fs (Nd l' x c' r')"
      using Nd.IH(2) by blast
    then show ?thesis
      by (intro exI [of _ "fs @ [FR l a c]"] exI) (auto simp: fill_append)
  qed
qed simp

text \<open>The colour test at the label \<open>color:\<close>, after one node of colour \<open>c\<close> has gone from the position.\<close>

lemma erase_tail:
  assumes ok: "rb_ok (fill fs (Nd l x c r))" and lr: "l = Lf \<and> t = r \<or> r = Lf \<and> t = l"
    and R: "removes s T y s1 (fill fs' t)" and d: "distinct (addrs T)"
    and fs': "\<And>n. inv_f fs' n = inv_f fs n" "up_color fs' = up_color fs" "fs' = [] \<longleftrightarrow> fs = []"
  shows "\<exists>s' T'. (if cbit c = RB_BLACK then rb_erase_color (tptr t) (up fs') s1 else Some s1) = Some s' \<and>
    removes s T y s' T' \<and> rb_ok T'"
proof -
  have i: "inv_c (Nd l x c r)" "inv_h (Nd l x c r)" "inv_f fs (bh (Nd l x c r))"
      "up_color fs = Red \<longrightarrow> c = Black" "fs = [] \<longrightarrow> c = Black"
    using split_inv [of fs "Nd l x c r"] ok by (auto simp: rb_ok_def)
  have T1: "tree_at s1 (fill fs' t)"
    using R by (simp add: removes_def)
  show ?thesis
  proof (cases c)
    case Black
    have t: "inv_c t" "inv_h t" "bh t = bh l" and "inv_f fs' (Suc (bh l))"
      using i(1-3) lr Black by (auto simp: fs'(1))
    then have "deficit fs' t"
      by (cases t) (auto simp: deficit_def)
    from erase_color_ok [OF T1 this] show ?thesis
      using Black removes_evolves [OF R _ d] by auto
  next
    case Red
    have "rb_ok (fill fs' t)"
      using fill_inv [of fs' "bh t" t] i lr fs' Red by (auto simp: rb_ok_def)
    then show ?thesis
      using Red R by auto
  qed
qed

lemma erase_ok:
  assumes T: "tree_at s T" "rb_ok T" and x: "x \<in> set (addrs T)"
  shows "\<exists>s' T'. rb_erase x s = Some s' \<and> removes s T x s' T' \<and> rb_ok T'"
proof -
  obtain fs l c r where pos: "T = fill fs (Nd l x c r)"
    using position_exists [OF x] by blast
  have d: "distinct (addrs T)"
    using T by (simp add: tree_at_def)
  obtain n where n: "nodes s x = Some n" "rb_lchild n = tptr l" "rb_rchild n = tptr r"
    using T(1) pos by (rule node_at)
  have sl: "tptr l = 0 \<longleftrightarrow> l = Lf" and sr: "tptr r = 0 \<longleftrightarrow> r = Lf"
    using T(1) pos tptr_0 by (auto simp: tree_at_fill elim!: shape_NdE simp del: shape.simps)
  show ?thesis
  proof (cases "l = Lf \<or> r = Lf")
    case True
    define t where "t = (if l = Lf then r else l)"
    have lr: "l = Lf \<and> t = r \<or> r = Lf \<and> t = l"
      using True by (auto simp: t_def)
    obtain s1 where s1: "rb_unlink_one x (tptr t) s = Some (tptr t, up fs, cbit c, s1)" "removes s T x s1 (fill fs t)"
      using unlink_one_ok [OF T(1) [unfolded pos] lr] pos by blast
    obtain s' T' where e: "(if cbit c = RB_BLACK then rb_erase_color (tptr t) (up fs) s1 else Some s1) = Some s'"
        "removes s T x s' T'" "rb_ok T'"
      using erase_tail [OF T(2) [unfolded pos] lr s1(2) d] by blast
    have "rb_erase x s = Some s'"
      using n s1(1) sl sr True t_def e(1) by (auto simp: rb_erase_def simp del: cbit.simps)
    then show ?thesis
      using e(2,3) by blast
  next
    case False
    then obtain gs y cy yr where gs: "r = fill gs (Nd Lf y cy yr)" "list_all left_frame gs"
      using left_split by blast
    let ?fs = "gs @ FR l x c # fs" and ?fs' = "gs @ FR l y c # fs"
    have ok: "rb_ok (fill ?fs (Nd Lf y cy yr))"
      using T(2) pos gs by (simp add: fill_append)
    have fs': "inv_f ?fs' n = inv_f ?fs n" for n
      by (induction gs arbitrary: n) (auto simp: inv_f_above [of _ l x c fs y])
    obtain s1 where s1: "rb_unlink_two x s = Some (tptr yr, up ?fs', cbit cy, s1)" "removes s T x s1 (fill ?fs' yr)"
    proof (cases "gs = []")
      case True
      then show ?thesis
        using unlink_two_near [of s fs l x c y cy yr] T(1) pos gs False that by auto
    next
      case gs': False
      then show ?thesis
        using unlink_two_far [of s fs l x c gs y cy yr] T(1) pos gs False that
        by (auto simp: up_append fill_append)
    qed
    have uc: "up_color ?fs' = up_color ?fs"
      by (cases gs) auto
    obtain s' T' where e: "(if cbit cy = RB_BLACK then rb_erase_color (tptr yr) (up ?fs') s1 else Some s1) = Some s'"
        "removes s T x s' T'" "rb_ok T'"
      using erase_tail [OF ok _ s1(2) d fs' uc] by auto
    have "rb_erase x s = Some s'"
      using n s1(1) sl sr False e(1) by (auto simp: rb_erase_def simp del: cbit.simps)
    then show ?thesis
      using e(2,3) by blast
  qed
qed

subsection \<open>Property\<close>

text \<open>
  C5. Erasing any node of a red-black tree terminates without following a bad pointer and yields a
  red-black tree whose nodes in order are the old ones without that node; no node outside the tree
  is touched. All four shapes are covered: a leaf, one child, and two children with the successor
  near or far.
\<close>

theorem rb_erase_correct:
  assumes "tree_at s T" and "rb_ok T" and "x \<in> set (addrs T)"
  shows "\<exists>s' T'. rb_erase x s = Some s' \<and> tree_at s' T' \<and> rb_ok T' \<and>
    addrs T' = remove1 x (addrs T) \<and> (\<forall>b. b \<notin> set (addrs T) \<longrightarrow> nodes s' b = nodes s b)"
  using erase_ok [OF assms] by (auto simp: removes_def)

theorem rb_erase_correct_witness:
  defines "s \<equiv> \<lparr>nodes = [8 \<mapsto> \<lparr>rb_parent_color = 17, rb_rchild = 0, rb_lchild = 0\<rparr>,
      16 \<mapsto> \<lparr>rb_parent_color = 1, rb_rchild = 24, rb_lchild = 8\<rparr>,
      24 \<mapsto> \<lparr>rb_parent_color = 17, rb_rchild = 0, rb_lchild = 0\<rparr>], root = 16\<rparr>"
  shows "\<exists>s' T'. rb_erase 16 s = Some s' \<and> tree_at s' T' \<and> rb_ok T' \<and> addrs T' = [8, 24]"
proof -
  have "tree_at s (Nd (Nd Lf 8 Black Lf) 16 Black (Nd Lf 24 Black Lf))"
      "rb_ok (Nd (Nd Lf 8 Black Lf) 16 Black (Nd Lf 24 Black Lf))"
    by (simp_all add: s_def tree_at_def rb_ok_def aligned_def rb_parent_def rb_color_def)
  from rb_erase_correct [OF this, of 16] show ?thesis
    by auto
qed

end
