(* ===== verification/Rbtree_Walk.thy ===== *)
theory Rbtree_Walk
  imports Rbtree_Erase
begin

text \<open>
  The read-only walks of \<^verbatim>\<open>rbtree.c\<close> (\<open>rb_first\<close>, \<open>rb_last\<close>, \<open>rb_next\<close>,
  \<open>rb_prev\<close>) visit the nodes in tree order, and \<open>rb_replace_node\<close> exchanges one node.
\<close>

subsection \<open>First and next\<close>

definition hd0 :: "ptr list \<Rightarrow> ptr" where
  "hd0 xs = (case xs of [] \<Rightarrow> 0 | x # _ \<Rightarrow> x)"

lemma hd0_simps [simp]: "hd0 [] = 0" "hd0 (x # xs) = x"
  by (simp_all add: hd0_def)

lemma hd0_append: "hd0 (xs @ ys) = (if xs = [] then hd0 ys else hd0 xs)"
  by (cases xs) auto

lemma leftmost_hd:
  assumes "shape (nodes s) par p t" "t \<noteq> Lf"
  shows "leftmost p s = Some (hd0 (addrs t))"
proof -
  obtain gs y c r where t: "t = fill gs (Nd Lf y c r)" "list_all left_frame gs"
    using left_split [OF assms(2)] by blast
  then show ?thesis
    using leftmost_ok [of s par p gs y c r] assms(1) by (simp add: addrs_fill left_before)
qed

lemma neq_Lf_addrs: "addrs t = [] \<longleftrightarrow> t = Lf"
  by (cases t) auto

lemma climb_right_ok:
  "tree_at s (fill fs t) \<Longrightarrow> t \<noteq> Lf \<Longrightarrow> climb_right (tptr t) s = Some (hd0 (after fs))"
proof (induction fs arbitrary: t)
  case Nil
  then obtain l a c r where t: "t = Nd l a c r"
    by (cases t) auto
  then obtain n where "nodes s a = Some n" "rb_parent n = 0"
    using Nil.prems(1) by (auto elim!: node_at [where fs = "[]"])
  then show ?case
    using t by (subst climb_right.simps) simp
next
  case (Cons f fs)
  then obtain l a c r where t: "t = Nd l a c r"
    by (cases t) auto
  obtain n where n: "nodes s a = Some n" "rb_parent n = fptr f"
    using Cons.prems(1) t by (auto elim!: node_at [where fs = "f # fs"])
  obtain p where p: "nodes s (fptr f) = Some p" "fptr f \<noteq> 0"
      "rb_rchild p = (case f of FL _ _ r \<Rightarrow> tptr r | FR _ _ _ \<Rightarrow> tptr t)"
    using Cons.prems(1) by (cases f) (auto elim!: node_at [where fs = fs])
  show ?case
  proof (cases f)
    case (FL q cq rq)
    have "a \<noteq> 0"
      using Cons.prems(1) t by (auto elim!: node_at [where fs = "f # fs"])
    then have "tptr rq \<noteq> a"
      using Cons.prems(1) t FL tptr_in [of rq] by (cases rq) (auto simp: tree_at_def addrs_fill)
    then show ?thesis
      using t n p FL by (subst climb_right.simps) auto
  next
    case (FR lq q cq)
    have "climb_right q s = Some (hd0 (after fs))"
      using Cons.IH [of "Nd lq q cq t"] Cons.prems(1) FR by simp
    then show ?thesis
      using t n p FR by (subst climb_right.simps) auto
  qed
qed

lemma split_unique:
  "distinct (xs @ x # ys) \<Longrightarrow> xs @ x # ys = us @ x # vs \<Longrightarrow> xs = us \<and> ys = vs"
  by (metis append_Cons_eq_iff distinct.simps(2) distinct_append not_distinct_conv_prefix append.assoc Un_iff set_append)

lemma next_ok:
  assumes T: "tree_at s T" and x: "addrs T = us @ x # vs"
  shows "rb_next x s = Some (hd0 vs)"
proof -
  obtain fs l c r where pos: "T = fill fs (Nd l x c r)"
    using position_exists [of x T] x by auto
  obtain n where n: "nodes s x = Some n" "rb_parent n = up fs" "rb_rchild n = tptr r" "x \<noteq> 0"
    using T pos by (rule node_at)
  have d: "distinct ((before fs @ addrs l) @ x # (addrs r @ after fs))"
    using T pos by (simp add: tree_at_fill)
  have vs: "vs = addrs r @ after fs"
    using split_unique [OF d, of us vs] x pos by (simp add: addrs_fill)
  have "up fs \<noteq> x"
    using n(4) up_in [of fs] d by (cases "fs = []") auto
  moreover have "shape (nodes s) x (tptr r) r"
    using T pos by (auto simp: tree_at_fill elim!: shape_NdE simp del: shape.simps)
  ultimately show ?thesis
    using n vs leftmost_hd [of s x "tptr r" r] climb_right_ok [of s fs "Nd l x c r"] T pos
      tptr_0 [of "nodes s" x "tptr r" r]
    by (cases "r = Lf") (auto simp: rb_next_def hd0_append neq_Lf_addrs)
qed

subsection \<open>Last and previous\<close>

definition last0 :: "ptr list \<Rightarrow> ptr" where
  "last0 xs = hd0 (rev xs)"

lemma last0_simps [simp]: "last0 [] = 0" "last0 (xs @ [x]) = x"
  by (simp_all add: last0_def)

lemma last0_append: "last0 (xs @ ys) = (if ys = [] then last0 xs else last0 ys)"
  by (simp add: last0_def hd0_append)

lemma last0_Cons: "last0 (x # xs) = (if xs = [] then x else last0 xs)"
  using last0_append [of "[x]" xs] by (simp add: last0_def)

lemma rightmost_last:
  "shape (nodes s) par p t \<Longrightarrow> t \<noteq> Lf \<Longrightarrow> rightmost p s = Some (last0 (addrs t))"
proof (induction t arbitrary: par p)
  case (Nd l a c r)
  from Nd.prems(1) obtain n where n: "nodes s a = Some n" "rb_rchild n = tptr r" "shape (nodes s) a (tptr r) r" "p = a"
    by (rule shape_NdE)
  show ?case
  proof (cases "r = Lf")
    case True
    then show ?thesis
      using n by (subst rightmost.simps) (simp add: last0_append last0_Cons)
  next
    case False
    then show ?thesis
      using n Nd.IH(2) [OF n(3)] tptr_0 [OF n(3)]
      by (subst rightmost.simps) (simp add: last0_append last0_Cons neq_Lf_addrs)
  qed
qed simp

lemma climb_left_ok:
  "tree_at s (fill fs t) \<Longrightarrow> t \<noteq> Lf \<Longrightarrow> climb_left (tptr t) s = Some (last0 (before fs))"
proof (induction fs arbitrary: t)
  case Nil
  then obtain l a c r where t: "t = Nd l a c r"
    by (cases t) auto
  then obtain n where "nodes s a = Some n" "rb_parent n = 0"
    using Nil.prems(1) by (auto elim!: node_at [where fs = "[]"])
  then show ?case
    using t by (subst climb_left.simps) simp
next
  case (Cons f fs)
  then obtain l a c r where t: "t = Nd l a c r"
    by (cases t) auto
  obtain n where n: "nodes s a = Some n" "rb_parent n = fptr f" "a \<noteq> 0"
    using Cons.prems(1) t by (auto elim!: node_at [where fs = "f # fs"])
  obtain p where p: "nodes s (fptr f) = Some p" "fptr f \<noteq> 0"
      "rb_lchild p = (case f of FL _ _ _ \<Rightarrow> tptr t | FR l _ _ \<Rightarrow> tptr l)"
    using Cons.prems(1) by (cases f) (auto elim!: node_at [where fs = fs])
  show ?case
  proof (cases f)
    case (FR lq q cq)
    have "tptr lq \<noteq> a"
      using Cons.prems(1) t n(3) FR tptr_in [of lq] by (cases lq) (auto simp: tree_at_def addrs_fill)
    then show ?thesis
      using t n p FR by (subst climb_left.simps) (auto simp: last0_append last0_Cons)
  next
    case (FL q cq rq)
    have "climb_left q s = Some (last0 (before fs))"
      using Cons.IH [of "Nd t q cq rq"] Cons.prems(1) FL by simp
    then show ?thesis
      using t n p FL by (subst climb_left.simps) auto
  qed
qed

lemma prev_ok:
  assumes T: "tree_at s T" and x: "addrs T = us @ x # vs"
  shows "rb_prev x s = Some (last0 us)"
proof -
  obtain fs l c r where pos: "T = fill fs (Nd l x c r)"
    using position_exists [of x T] x by auto
  obtain n where n: "nodes s x = Some n" "rb_parent n = up fs" "rb_lchild n = tptr l" "x \<noteq> 0"
    using T pos by (rule node_at)
  have d: "distinct ((before fs @ addrs l) @ x # (addrs r @ after fs))"
    using T pos by (simp add: tree_at_fill)
  have us: "us = before fs @ addrs l"
    using split_unique [OF d, of us vs] x pos by (simp add: addrs_fill)
  have "up fs \<noteq> x"
    using n(4) up_in [of fs] d by (cases "fs = []") auto
  moreover have "shape (nodes s) x (tptr l) l"
    using T pos by (auto simp: tree_at_fill elim!: shape_NdE simp del: shape.simps)
  ultimately show ?thesis
    using n us rightmost_last [of s x "tptr l" l] climb_left_ok [of s fs "Nd l x c r"] T pos
      tptr_0 [of "nodes s" x "tptr l" l]
    by (cases "l = Lf") (auto simp: rb_prev_def last0_append neq_Lf_addrs)
qed

lemma ends_ok:
  assumes "tree_at s T"
  shows "rb_first s = Some (hd0 (addrs T))" "rb_last s = Some (last0 (addrs T))"
proof -
  have sh: "shape (nodes s) 0 (root s) T"
    using assms by (simp add: tree_at_def)
  then have "root s = 0 \<longleftrightarrow> T = Lf"
    using shape_tptr [OF sh] tptr_0 [OF sh] by simp
  then show "rb_first s = Some (hd0 (addrs T))" "rb_last s = Some (last0 (addrs T))"
    using leftmost_hd [OF sh] rightmost_last [OF sh] by (auto simp: rb_first_def rb_last_def)
qed

subsection \<open>Replacing a node\<close>

lemma replace_ok:
  assumes T: "tree_at s (fill fs (Nd l x c r))" and y: "y \<notin> set (addrs (fill fs (Nd l x c r)))" "y \<noteq> 0" "aligned y"
      "nodes s y = Some m"
  shows "\<exists>s'. rb_replace_node x y s = Some s' \<and> tree_at s' (fill fs (Nd l y c r))"
proof -
  have d: "distinct (before fs @ (addrs l @ x # addrs r) @ after fs)" and h: "holds (nodes s) (root s) fs x"
    using T by (auto simp: tree_at_fill)
  have "shape (nodes s) (up fs) x (Nd l x c r)"
    using T by (simp add: tree_at_fill)
  then obtain n where n: "nodes s x = Some n" "rb_parent n = up fs" "rb_color n = cbit c" "rb_lchild n = tptr l"
      "rb_rchild n = tptr r" "shape (nodes s) x (tptr l) l" "shape (nodes s) x (tptr r) r" "x \<noteq> 0"
    by (rule shape_NdE) auto
  have yf: "y \<notin> set (before fs)" "y \<notin> set (after fs)" "y \<notin> set (addrs l)" "y \<notin> set (addrs r)" "y \<noteq> x"
    using y(1) by (auto simp: addrs_fill)
  obtain s1 where s1: "relink (up fs) x y s = Some s1" "holds (nodes s1) (root s1) fs y"
      "\<And>b. b \<noteq> up fs \<or> fs = [] \<Longrightarrow> nodes s1 b = nodes s b"
    using relink_ok [OF h n(8)] d by fastforce
  have k1: "nodes s1 b = nodes s b" if "b \<notin> set (before fs)" "b \<notin> set (after fs)" for b
    using s1(3) [of b] up_in [of fs] that by auto
  have "shape (nodes s1) x (tptr l) l"
    using n(6) d by (subst shape_cong [of l _ "nodes s"]) (auto intro!: k1)
  from adopt_ok [OF this y(3)] d obtain s2 where s2: "adopt (tptr l) y s1 = Some s2" "shape (nodes s2) y (tptr l) l"
      "root s2 = root s1" "\<And>b. b \<noteq> tptr l \<or> l = Lf \<Longrightarrow> nodes s2 b = nodes s1 b"
    by auto
  have k2: "nodes s2 b = nodes s1 b" if "b \<notin> set (addrs l)" for b
    using s2(4) [of b] tptr_in [of l] that by auto
  have "shape (nodes s2) x (tptr r) r"
    using n(7) d by (subst shape_cong [of r _ "nodes s"]) (auto intro!: trans [OF k2 k1])
  from adopt_ok [OF this y(3)] d obtain s3 where s3: "adopt (tptr r) y s2 = Some s3" "shape (nodes s3) y (tptr r) r"
      "root s3 = root s1" "\<And>b. b \<noteq> tptr r \<or> r = Lf \<Longrightarrow> nodes s3 b = nodes s2 b"
    using s2(3) by auto
  have k3: "nodes s3 b = nodes s2 b" if "b \<notin> set (addrs r)" for b
    using s3(4) [of b] tptr_in [of r] that by auto
  have x3: "nodes s3 x = Some n" "nodes s3 y = Some m"
    using k3 [of x] k2 [of x] k1 [of x] k3 [of y] k2 [of y] k1 [of y] d yf n(1) y(4) by auto
  let ?s = "s3\<lparr>nodes := (nodes s3)(y \<mapsto> n)\<rparr>"
  have "rb_replace_node x y s = Some ?s"
    using n s1(1) s2(1) s3(1) x3 by (simp add: rb_replace_node_def upd_Some)
  moreover have "holds (nodes s3) (root s3) fs y = holds (nodes s1) (root s3) fs y"
    by (rule holds_cong, rule trans [OF k3 k2]) (use d in auto)
  moreover have "shape (nodes s3) y (tptr l) l = shape (nodes s2) y (tptr l) l"
    by (rule shape_cong, rule k3) (use d in auto)
  ultimately show ?thesis
    using s1(2) s2(2) s3(2,3) n yf d y by (auto simp: tree_at_fill frame_upd)
qed

subsection \<open>Properties\<close>

text \<open>
  C26. The walks visit a tree in order and never fault: \<open>rb_first\<close> and \<open>rb_last\<close> return the ends of
  the node sequence (NULL for the empty tree), and from a node in the middle \<open>rb_next\<close> and
  \<open>rb_prev\<close> return its neighbours, NULL at the ends.
\<close>

theorem rb_walk_correct:
  assumes "tree_at s T" and "addrs T = us @ x # vs"
  shows "rb_first s = Some (hd0 (us @ [x])) \<and> rb_last s = Some (last0 (x # vs)) \<and>
    rb_next x s = Some (hd0 vs) \<and> rb_prev x s = Some (last0 us)"
  using ends_ok [OF assms(1)] next_ok [OF assms] prev_ok [OF assms] assms(2)
  by (auto simp: hd0_append last0_append)

theorem rb_walk_correct_witness:
  defines "s \<equiv> \<lparr>nodes = [8 \<mapsto> \<lparr>rb_parent_color = 1, rb_rchild = 16, rb_lchild = 0\<rparr>,
      16 \<mapsto> \<lparr>rb_parent_color = 8, rb_rchild = 0, rb_lchild = 0\<rparr>], root = 8\<rparr>"
  shows "rb_first s = Some 8 \<and> rb_next 8 s = Some 16 \<and> rb_next 16 s = Some 0"
proof -
  have "tree_at s (Nd Lf 8 Black (Nd Lf 16 Red Lf))"
    by (simp add: s_def tree_at_def aligned_def rb_parent_def rb_color_def)
  then show ?thesis
    using rb_walk_correct [of s _ "[]" 8 "[16]"] rb_walk_correct [of s _ "[8]" 16 "[]"] by auto
qed

text \<open>
  Replacing a node by one that is not in the tree puts the new node at exactly the old one's
  place, with its colour, parent and children: the represented tree differs only in that address.
\<close>

theorem rb_replace_node_correct:
  assumes "tree_at s (fill fs (Nd l x c r))" and "y \<notin> set (addrs (fill fs (Nd l x c r)))"
    and "y \<noteq> 0" and "aligned y" and "nodes s y = Some m"
  shows "\<exists>s'. rb_replace_node x y s = Some s' \<and> tree_at s' (fill fs (Nd l y c r))"
  using assms by (rule replace_ok)

theorem rb_replace_node_correct_witness:
  defines "s \<equiv> \<lparr>nodes = [8 \<mapsto> \<lparr>rb_parent_color = 1, rb_rchild = 16, rb_lchild = 0\<rparr>,
      16 \<mapsto> \<lparr>rb_parent_color = 8, rb_rchild = 0, rb_lchild = 0\<rparr>,
      24 \<mapsto> \<lparr>rb_parent_color = 0, rb_rchild = 0, rb_lchild = 0\<rparr>], root = 8\<rparr>"
  shows "\<exists>s'. rb_replace_node 8 24 s = Some s' \<and> tree_at s' (Nd Lf 24 Black (Nd Lf 16 Red Lf))"
proof -
  have "tree_at s (fill [] (Nd Lf 8 Black (Nd Lf 16 Red Lf)))"
    by (simp add: s_def tree_at_def aligned_def rb_parent_def rb_color_def)
  from rb_replace_node_correct [OF this, of 24] show ?thesis
    by (auto simp: s_def aligned_def)
qed

end
