(* ===== verification/Rbtree_Index.thy ===== *)
theory Rbtree_Index
  imports Rbtree_Walk
begin

text \<open>
  What a client of the red-black tree relies on. The tree does not know about keys: a client walks
  down it with its own comparison (\<open>seek\<close>), links a node where the walk ends, and erases nodes. The
  locale \<open>ordered_index\<close> states the two laws of the tree a client needs and proves once that a
  client keeps its nodes sorted; \<^verbatim>\<open>rbtree.c\<close> is an instance.
\<close>

subsection \<open>Walking down\<close>

text \<open>
  \<open>d a\<close> is the sign of comparing the key sought with the key of node \<open>a\<close>. The walk ends at an
  empty position or at a node with an equal key.
\<close>

fun seek :: "(ptr \<Rightarrow> int) \<Rightarrow> frame list \<Rightarrow> rtree \<Rightarrow> frame list + ptr" where
  "seek d fs Lf = Inl fs"
| "seek d fs (Nd l a c r) =
     (if d a < 0 then seek d (FL a c r # fs) l else if d a > 0 then seek d (FR l a c # fs) r else Inr a)"

text \<open>The comparison agrees with the order of the nodes.\<close>

definition agrees :: "(ptr \<Rightarrow> int) \<Rightarrow> ptr list \<Rightarrow> bool" where
  "agrees d xs \<longleftrightarrow> sorted_wrt (\<lambda>x y. (d x \<le> 0 \<longrightarrow> d y < 0) \<and> (0 \<le> d y \<longrightarrow> 0 < d x)) xs"

lemma agrees_append: "agrees d (xs @ ys) \<longleftrightarrow> agrees d xs \<and> agrees d ys \<and>
    (\<forall>x \<in> set xs. \<forall>y \<in> set ys. (d x \<le> 0 \<longrightarrow> d y < 0) \<and> (0 \<le> d y \<longrightarrow> 0 < d x))"
  by (auto simp: agrees_def sorted_wrt_append)

lemma agrees_Cons: "agrees d (x # ys) \<longleftrightarrow> agrees d ys \<and> (\<forall>y \<in> set ys. (d x \<le> 0 \<longrightarrow> d y < 0) \<and> (0 \<le> d y \<longrightarrow> 0 < d x))"
  by (auto simp: agrees_def)

lemma seek_fill: "seek d fs t = Inl gs \<Longrightarrow> fill gs Lf = fill fs t"
  by (induction t arbitrary: fs) (auto split: if_splits)

lemma seek_empty:
  "seek d fs t = Inl gs \<Longrightarrow> agrees d (addrs t) \<Longrightarrow> \<forall>x \<in> set (before fs). d x > 0 \<Longrightarrow> \<forall>x \<in> set (after fs). d x < 0 \<Longrightarrow>
     (\<forall>x \<in> set (before gs). d x > 0) \<and> (\<forall>x \<in> set (after gs). d x < 0)"
proof (induction t arbitrary: fs)
  case (Nd l a c r)
  have ag: "agrees d (addrs l)" "agrees d (addrs r)" "\<forall>x \<in> set (addrs l). 0 \<le> d a \<longrightarrow> 0 < d x" "\<forall>y \<in> set (addrs r). d a \<le> 0 \<longrightarrow> d y < 0"
    using Nd.prems(2) by (auto simp: agrees_append agrees_Cons)
  consider "d a < 0" | "d a > 0" | "d a = 0"
    by linarith
  then show ?case
  proof cases
    case 1
    have "seek d (FL a c r # fs) l = Inl gs"
      using Nd.prems(1) 1 by simp
    moreover have "\<forall>x \<in> set (after (FL a c r # fs)). d x < 0" "\<forall>x \<in> set (before (FL a c r # fs)). d x > 0"
      using Nd.prems(3,4) ag(4) 1 by (simp_all add: ball_Un)
    ultimately show ?thesis
      using Nd.IH(1) ag(1) by blast
  next
    case 2
    have "seek d (FR l a c # fs) r = Inl gs"
      using Nd.prems(1) 2 by simp
    moreover have "\<forall>x \<in> set (after (FR l a c # fs)). d x < 0" "\<forall>x \<in> set (before (FR l a c # fs)). d x > 0"
      using Nd.prems(3,4) ag(3) 2 by (simp_all add: ball_Un)
    ultimately show ?thesis
      using Nd.IH(2) ag(2) by blast
  qed (use Nd.prems(1) in auto)
qed simp

lemma seek_found: "seek d fs t = Inr a \<Longrightarrow> a \<in> set (addrs t) \<and> d a = 0"
  by (induction t arbitrary: fs) (auto split: if_splits)

lemma seek_complete: "agrees d (addrs t) \<Longrightarrow> a \<in> set (addrs t) \<Longrightarrow> d a = 0 \<Longrightarrow> seek d fs t = Inr a"
proof (induction t arbitrary: fs)
  case (Nd l b c r)
  then show ?case
    by (auto simp: agrees_append agrees_Cons)
qed simp

text \<open>In a red-black tree of \<open>n\<close> nodes a walk visits at most \<open>2 * log2 (n + 1)\<close> nodes.\<close>

fun visits :: "(ptr \<Rightarrow> int) \<Rightarrow> rtree \<Rightarrow> nat" where
  "visits d Lf = 0"
| "visits d (Nd l a c r) = Suc (if d a < 0 then visits d l else if d a > 0 then visits d r else 0)"

lemma visits_bh: "inv_c t \<Longrightarrow> inv_h t \<Longrightarrow> visits d t \<le> 2 * bh t + (if tcolor t = Red then 1 else 0)"
proof (induction t)
  case (Nd l a c r)
  then show ?case
    by (cases c; cases "tcolor l"; cases "tcolor r") auto
qed simp

lemma bh_size: "inv_h t \<Longrightarrow> 2 ^ bh t \<le> length (addrs t) + 1"
proof (induction t)
  case (Nd l a c r)
  then have "2 ^ bh l \<le> length (addrs l) + 1" "2 ^ bh l \<le> length (addrs r) + 1"
    by auto
  then show ?case
    by (cases c) auto
qed simp

lemma visits_log:
  assumes "rb_ok t"
  shows "2 ^ visits d t \<le> (length (addrs t) + 1)\<^sup>2"
proof -
  have "visits d t \<le> 2 * bh t" "2 ^ bh t \<le> length (addrs t) + 1"
    using visits_bh [of t d] bh_size [of t] assms by (auto simp: rb_ok_def)
  then have "(2::nat) ^ visits d t \<le> 2 ^ (2 * bh t)"
    by (intro power_increasing) auto
  also have "\<dots> = (2 ^ bh t)\<^sup>2"
    by (simp add: power_mult mult.commute [of 2] power_even_eq)
  also have "\<dots> \<le> (length (addrs t) + 1)\<^sup>2"
    using \<open>2 ^ bh t \<le> _\<close> by (intro power_mono) auto
  finally show ?thesis .
qed

subsection \<open>The interface\<close>

locale ordered_index =
  fixes rep :: "'s \<Rightarrow> rtree \<Rightarrow> bool"
    and mem :: "'s \<Rightarrow> ptr \<Rightarrow> rb_node option"
    and insert_at :: "ptr \<Rightarrow> frame list \<Rightarrow> 's \<Rightarrow> 's option"
    and erase :: "ptr \<Rightarrow> 's \<Rightarrow> 's option"
  assumes insert_law: "rep s (fill fs Lf) \<Longrightarrow> x \<notin> set (addrs (fill fs Lf)) \<Longrightarrow> x \<noteq> 0 \<Longrightarrow> aligned x \<Longrightarrow> mem s x \<noteq> None \<Longrightarrow>
      \<exists>s' t. insert_at x fs s = Some s' \<and> rep s' t \<and> addrs t = before fs @ x # after fs \<and>
        (\<forall>b. b \<notin> set (addrs t) \<longrightarrow> mem s' b = mem s b)"
    and erase_law: "rep s t \<Longrightarrow> x \<in> set (addrs t) \<Longrightarrow>
      \<exists>s' t'. erase x s = Some s' \<and> rep s' t' \<and> addrs t' = remove1 x (addrs t) \<and>
        (\<forall>b. b \<notin> set (addrs t) \<longrightarrow> mem s' b = mem s b)"
begin

text \<open>A node linked where the walk for its key ends leaves the nodes sorted.\<close>

lemma sorted_insert:
  assumes t: "rep s t" "sorted_wrt R (addrs t)" and x: "x \<notin> set (addrs t)" "x \<noteq> 0" "aligned x" "mem s x \<noteq> None"
    and k: "seek d [] t = Inl fs" "agrees d (addrs t)"
      "\<And>y. y \<in> set (addrs t) \<Longrightarrow> d y > 0 \<Longrightarrow> R y x" "\<And>y. y \<in> set (addrs t) \<Longrightarrow> d y < 0 \<Longrightarrow> R x y"
  shows "\<exists>s' t'. insert_at x fs s = Some s' \<and> rep s' t' \<and> sorted_wrt R (addrs t') \<and> set (addrs t') = insert x (set (addrs t)) \<and>
    distinct (addrs t') = distinct (addrs t) \<and> (\<forall>b. b \<notin> set (addrs t') \<longrightarrow> mem s' b = mem s b)"
proof -
  have f: "fill fs Lf = t"
    using seek_fill [OF k(1)] by simp
  then have a: "addrs t = before fs @ after fs"
    using addrs_fill [of fs Lf] by simp
  obtain s' t' where s': "insert_at x fs s = Some s'" "rep s' t'" "addrs t' = before fs @ x # after fs"
      "\<forall>b. b \<notin> set (addrs t') \<longrightarrow> mem s' b = mem s b"
    using insert_law [of s fs x] t(1) x f by blast
  have "(\<forall>y \<in> set (before fs). d y > 0) \<and> (\<forall>y \<in> set (after fs). d y < 0)"
    using seek_empty [OF k(1,2)] by simp
  then have "\<forall>y \<in> set (before fs). R y x" "\<forall>y \<in> set (after fs). R x y"
    using k(3,4) a by auto
  then have "sorted_wrt R (addrs t')"
    using t(2) a s'(3) by (auto simp: sorted_wrt_append)
  moreover have "distinct (addrs t') = distinct (addrs t)" "set (addrs t') = insert x (set (addrs t))"
    using s'(3) a x(1) by auto
  ultimately show ?thesis
    using s' by blast
qed

lemma sorted_erase:
  assumes "rep s t" "sorted_wrt R (addrs t)" "distinct (addrs t)" "x \<in> set (addrs t)"
  shows "\<exists>s' t'. erase x s = Some s' \<and> rep s' t' \<and> sorted_wrt R (addrs t') \<and> set (addrs t') = set (addrs t) - {x} \<and>
    distinct (addrs t') \<and> (\<forall>b. b \<notin> set (addrs t) \<longrightarrow> mem s' b = mem s b)"
proof -
  obtain s' t' where s': "erase x s = Some s'" "rep s' t'" "addrs t' = remove1 x (addrs t)"
      "\<forall>b. b \<notin> set (addrs t) \<longrightarrow> mem s' b = mem s b"
    using erase_law [OF assms(1,4)] by blast
  have "sorted_wrt R (remove1 x (addrs t))"
    using assms(2) by (rule sorted_wrt_remove1)
  then show ?thesis
    using s' assms(3) by auto
qed

end

subsection \<open>The red-black tree provides it\<close>

interpretation rbt: ordered_index "\<lambda>s t. tree_at s t \<and> rb_ok t" nodes
  "\<lambda>x fs s. rb_link_node x (up fs) (link_of fs) s \<bind> rb_insert_color x" rb_erase
proof
  fix s fs x
  assume "tree_at s (fill fs Lf) \<and> rb_ok (fill fs Lf)" "x \<notin> set (addrs (fill fs Lf))" "x \<noteq> 0" "aligned x" "nodes s x \<noteq> None"
  then show "\<exists>s' t. rb_link_node x (up fs) (link_of fs) s \<bind> rb_insert_color x = Some s' \<and> (tree_at s' t \<and> rb_ok t) \<and>
      addrs t = before fs @ x # after fs \<and> (\<forall>b. b \<notin> set (addrs t) \<longrightarrow> nodes s' b = nodes s b)"
    using insert_ok [of s fs x] by auto
next
  fix s t x
  assume "tree_at s t \<and> rb_ok t" "x \<in> set (addrs t)"
  then show "\<exists>s' t'. rb_erase x s = Some s' \<and> (tree_at s' t' \<and> rb_ok t') \<and> addrs t' = remove1 x (addrs t) \<and>
      (\<forall>b. b \<notin> set (addrs t) \<longrightarrow> nodes s' b = nodes s b)"
    using erase_ok [of s t x] by (auto simp: removes_def)
qed

end
