(* ===== verification/Tcb.thy ===== *)
theory Tcb
  imports World Rbtree_Index
begin

text \<open>
  The table of connections (\<^verbatim>\<open>src/tcb.c\<close>): tcbs in a red-black tree ordered by \<open>tcbcmp\<close>. The
  theory gives the operations, the invariant of the table and its abstraction to a partial map from
  connection keys to tcb addresses, and shows that lookup, insertion and deletion implement the
  map. The key is what \<open>tcbcmp\<close> compares, which is not the whole connection: see
  \<open>tcb_find_ignores_laddr\<close>.
\<close>

subsection \<open>Operations\<close>

text \<open>\<open>memcmp\<close> on byte strings of equal length.\<close>

fun memcmp :: "byte list \<Rightarrow> byte list \<Rightarrow> int" where
  "memcmp (a # as) (b # bs) = (if a = b then memcmp as bs else uint a - uint b)"
| "memcmp _ _ = 0"

definition tcbcmp :: "tcb \<Rightarrow> tcb \<Rightarrow> int" where
  "tcbcmp a b =
     (let rc = rport b - rport a in
      if rc = 0
      then let rc = lport b - lport a in
           if rc = 0
           then let rc = memcmp (raddr a) (raddr b) in
                if rc = 0 then memcmp (raddr a) (raddr b) else rc
           else rc
      else rc)"

text \<open>The walk of \<open>tcb_insert\<close>: \<open>None\<close> inside is the early \<open>return 0\<close>.\<close>

partial_function (option) tcb_insert_loop ::
    "(ptr \<rightharpoonup> tcb) \<Rightarrow> tcb \<Rightarrow> rbs \<Rightarrow> ptr \<Rightarrow> ptr \<Rightarrow> rb_link \<Rightarrow> (ptr \<times> rb_link) option option" where
  "tcb_insert_loop h tcb s new parent lnk =
     (if new = 0 then Some (Some (parent, lnk))
      else do {
        this \<leftarrow> h new;
        n \<leftarrow> nodes s new;
        let result = tcbcmp tcb this;
        if result < 0 then tcb_insert_loop h tcb s (rb_lchild n) new (Left_of new)
        else if result > 0 then tcb_insert_loop h tcb s (rb_rchild n) new (Right_of new)
        else Some None
      })"

definition tcb_insert :: "ptr \<Rightarrow> world \<Rightarrow> (int \<times> world) option" where
  "tcb_insert t w = do {
     tcb \<leftarrow> tcbs w t;
     r \<leftarrow> tcb_insert_loop (tcbs w) tcb (tcblist w) (root (tcblist w)) 0 At_root;
     (case r of
        None \<Rightarrow> Some (0, w)
      | Some (parent, lnk) \<Rightarrow> do {
          s \<leftarrow> rb_link_node t parent lnk (tcblist w);
          s \<leftarrow> rb_insert_color t s;
          Some (1, w\<lparr>tcblist := s\<rparr>)
        })
   }"

partial_function (option) tcb_find_rb :: "(ptr \<rightharpoonup> tcb) \<Rightarrow> tcb \<Rightarrow> rbs \<Rightarrow> ptr \<Rightarrow> ptr option" where
  "tcb_find_rb h tcb s node =
     (if node = 0 then Some 0
      else do {
        data \<leftarrow> h node;
        n \<leftarrow> nodes s node;
        let result = tcbcmp tcb data;
        if result < 0 then tcb_find_rb h tcb s (rb_lchild n)
        else if result > 0 then tcb_find_rb h tcb s (rb_rchild n)
        else Some node
      })"

definition zero_tcb :: tcb where
  "zero_tcb = \<lparr>state = 0, laddr = replicate 16 0, lport = 0, raddr = replicate 16 0, rport = 0, inbuf = None,
     outbuf = None, app_data = 0, cb = False, snd_una = 0, snd_nxt = 0, snd_wnd = 0, snd_cwnd = 0, snd_max = 0,
     iss = 0, mss = 0, rcv_nxt = 0, rcv_wnd = 0, irs = 0, last_acked = 0, timeout_mark = 0, rtt_mark = 0,
     rtt_limit = 0, rtt_time = zero_time, srtt = 0, sdev = 0, start_time = zero_time, atime = zero_time,
     packets = 0, read_seq = 0, e_tcb_send = 0, e_timeout = 0\<rparr>"

definition zero_node :: rb_node where
  "zero_node = \<lparr>rb_parent_color = 0, rb_rchild = 0, rb_lchild = 0\<rparr>"

text \<open>\<open>t\<close> is the address \<open>ALLOC\<close> returns; an address argument of \<open>None\<close> is NULL.
  The debug level is below 5, so no log file is opened for the connection.\<close>

definition tcb_new :: "ptr \<Rightarrow> byte list option \<Rightarrow> int \<Rightarrow> byte list option \<Rightarrow> int \<Rightarrow> world \<Rightarrow> world option" where
  "tcb_new t la lp ra rp w = do {
     let tcb = zero_tcb;
     let tcb = (case la of None \<Rightarrow> tcb | Some a \<Rightarrow> tcb\<lparr>laddr := take 16 a\<rparr>);
     let tcb = (case ra of None \<Rightarrow> tcb | Some a \<Rightarrow> tcb\<lparr>raddr := take 16 a\<rparr>);
     let tcb = tcb\<lparr>lport := lp, rport := rp, start_time := now w\<rparr>;
     let w = w\<lparr>tcbs := (tcbs w)(t \<mapsto> tcb),
               tcblist := (tcblist w)\<lparr>nodes := (nodes (tcblist w))(t \<mapsto> zero_node)\<rparr>\<rparr>;
     (_, w) \<leftarrow> tcb_insert t w;
     Some w
   }"

definition tcb_delete :: "ptr \<Rightarrow> world \<Rightarrow> world option" where
  "tcb_delete t w = do {
     _ \<leftarrow> tcbs w t;
     s \<leftarrow> rb_erase t (tcblist w);
     Some (w\<lparr>tcblist := s\<lparr>nodes := (nodes s)(t := None)\<rparr>, tcbs := (tcbs w)(t := None)\<rparr>)
   }"

definition needle :: "byte list option \<Rightarrow> int \<Rightarrow> byte list option \<Rightarrow> int \<Rightarrow> tcb" where
  "needle la lp ra rp =
     zero_tcb\<lparr>laddr := (case la of None \<Rightarrow> replicate 16 0 | Some a \<Rightarrow> take 16 a),
              raddr := (case ra of None \<Rightarrow> replicate 16 0 | Some a \<Rightarrow> take 16 a),
              lport := lp, rport := rp\<rparr>"

partial_function (option) tcb_find ::
    "byte list option \<Rightarrow> int \<Rightarrow> byte list option \<Rightarrow> int \<Rightarrow> world \<Rightarrow> ptr option" where
  "tcb_find la lp ra rp w = do {
     t \<leftarrow> tcb_find_rb (tcbs w) (needle la lp ra rp) (tcblist w) (root (tcblist w));
     if t \<noteq> 0 then Some t
     else if ra = None then tcb_find la lp None 0 w
     else if la = None then tcb_find None lp None 0 w
     else if lp > 0 then tcb_find None 0 None 0 w
     else Some 0
   }"

subsection \<open>Keys\<close>

datatype conn_key = Conn_key (key_rport: int) (key_lport: int) (key_raddr: "byte list")

definition key_of :: "tcb \<Rightarrow> conn_key" where
  "key_of t = Conn_key (rport t) (lport t) (raddr t)"

text \<open>The order of the table: larger ports first, then the remote address bytewise.\<close>

fun lex_less :: "byte list \<Rightarrow> byte list \<Rightarrow> bool" where
  "lex_less (a # as) (b # bs) = (a < b \<or> a = b \<and> lex_less as bs)"
| "lex_less [] (b # bs) = True"
| "lex_less _ [] = False"

lemma lex_less_irrefl: "\<not> lex_less a a"
  by (induction a) auto

lemma lex_less_trans: "lex_less a b \<Longrightarrow> lex_less b c \<Longrightarrow> lex_less a c"
proof (induction a b arbitrary: c rule: lex_less.induct)
  case (1 a as b bs)
  then show ?case
    by (cases c) auto
next
  case (2 b bs)
  then show ?case
    by (cases c) auto
qed simp

lemma lex_less_total: "a = b \<or> lex_less a b \<or> lex_less b a"
proof (induction a b rule: lex_less.induct)
  case (3 a)
  then show ?case
    by (cases a) auto
qed (auto simp: neq_iff)

instantiation conn_key :: linorder
begin

definition less_conn_key :: "conn_key \<Rightarrow> conn_key \<Rightarrow> bool" where
  "less_conn_key a b \<longleftrightarrow>
     key_rport b < key_rport a \<or> key_rport b = key_rport a \<and>
       (key_lport b < key_lport a \<or> key_lport b = key_lport a \<and> lex_less (key_raddr a) (key_raddr b))"

definition less_eq_conn_key :: "conn_key \<Rightarrow> conn_key \<Rightarrow> bool" where
  "less_eq_conn_key a b \<longleftrightarrow> a = b \<or> a < b"

instance
proof
  fix x y z :: conn_key
  have tr: "a < b \<Longrightarrow> b < c \<Longrightarrow> a < c" for a b c :: conn_key
    unfolding less_conn_key_def by (elim disjE conjE) (auto intro: lex_less_trans)
  have ir: "\<not> a < a" for a :: conn_key
    using lex_less_irrefl by (simp add: less_conn_key_def)
  show "x < y \<longleftrightarrow> x \<le> y \<and> \<not> y \<le> x"
    using tr [of x y x] ir [of x] by (auto simp: less_eq_conn_key_def)
  show "x \<le> x"
    by (simp add: less_eq_conn_key_def)
  show "x \<le> y \<Longrightarrow> y \<le> z \<Longrightarrow> x \<le> z"
    using tr [of x y z] by (auto simp: less_eq_conn_key_def)
  show "x \<le> y \<Longrightarrow> y \<le> x \<Longrightarrow> x = y"
    using tr [of x y x] ir [of x] by (auto simp: less_eq_conn_key_def)
  show "x \<le> y \<or> y \<le> x"
    using lex_less_total by (cases x; cases y) (auto simp: less_eq_conn_key_def less_conn_key_def)
qed

end

lemma memcmp_lex:
  "length a = length b \<Longrightarrow> (memcmp a b < 0 \<longleftrightarrow> lex_less a b) \<and> (memcmp a b = 0 \<longleftrightarrow> a = b)"
proof (induction a b rule: memcmp.induct)
  case (1 a as b bs)
  then show ?case
    by (auto simp: word_less_def word_uint_eq_iff)
qed (auto split: list.splits)

lemma tcbcmp_key:
  assumes "length (raddr a) = length (raddr b)"
  shows "tcbcmp a b < 0 \<longleftrightarrow> key_of a < key_of b" "tcbcmp a b = 0 \<longleftrightarrow> key_of a = key_of b"
    "tcbcmp a b > 0 \<longleftrightarrow> key_of b < key_of a"
proof -
  show lt: "tcbcmp a b < 0 \<longleftrightarrow> key_of a < key_of b"
    using memcmp_lex [OF assms] by (auto simp: tcbcmp_def key_of_def less_conn_key_def Let_def)
  show eq: "tcbcmp a b = 0 \<longleftrightarrow> key_of a = key_of b"
    using memcmp_lex [OF assms] by (auto simp: tcbcmp_def key_of_def Let_def)
  show "tcbcmp a b > 0 \<longleftrightarrow> key_of b < key_of a"
    using lt eq by (metis less_linear not_less_iff_gr_or_eq)
qed

subsection \<open>The table\<close>

lemma option_eqI: "(\<And>y. a = Some y \<longleftrightarrow> b = Some y) \<Longrightarrow> a = b"
  by (cases a; cases b) auto

definition key_at :: "world \<Rightarrow> ptr \<Rightarrow> conn_key" where
  "key_at w x = key_of (the (tcbs w x))"

definition table_ok :: "world \<Rightarrow> rtree \<Rightarrow> bool" where
  "table_ok w T \<longleftrightarrow>
     tree_at (tcblist w) T \<and> rb_ok T \<and>
     (\<forall>x \<in> set (addrs T). \<exists>t. tcbs w x = Some t \<and> length (raddr t) = 16) \<and>
     sorted_wrt (\<lambda>x y. key_at w x < key_at w y) (addrs T)"

text \<open>The abstraction: which tcb has a key.\<close>

definition conns :: "world \<Rightarrow> rtree \<Rightarrow> conn_key \<Rightarrow> ptr option" where
  "conns w T k = find (\<lambda>x. key_at w x = k) (addrs T)"

lemma table_distinct: "table_ok w T \<Longrightarrow> distinct (addrs T)"
  by (simp add: table_ok_def tree_at_def)

lemma sorted_wrt_inj:
  fixes f :: "'a \<Rightarrow> 'b :: linorder"
  shows "sorted_wrt (\<lambda>x y. f x < f y) xs \<Longrightarrow> x \<in> set xs \<Longrightarrow> y \<in> set xs \<Longrightarrow> f x = f y \<Longrightarrow> x = y"
proof (induction xs)
  case (Cons a xs)
  then show ?case
    by (cases "x = a"; cases "y = a") auto
qed simp

lemma table_keys_inj:
  assumes "table_ok w T" "x \<in> set (addrs T)" "y \<in> set (addrs T)" "key_at w x = key_at w y"
  shows "x = y"
  using sorted_wrt_inj [of "key_at w" "addrs T" x y] assms by (simp add: table_ok_def)

lemma conns_Some:
  assumes "table_ok w T"
  shows "conns w T k = Some x \<longleftrightarrow> x \<in> set (addrs T) \<and> key_at w x = k"
proof
  assume "conns w T k = Some x"
  then show "x \<in> set (addrs T) \<and> key_at w x = k"
    by (auto simp: conns_def find_Some_iff)
next
  assume x: "x \<in> set (addrs T) \<and> key_at w x = k"
  then obtain y where y: "conns w T k = Some y"
    by (cases "conns w T k") (auto simp: conns_def find_None_iff)
  then have "y \<in> set (addrs T) \<and> key_at w y = k"
    by (auto simp: conns_def find_Some_iff)
  then show "conns w T k = Some x"
    using table_keys_inj [OF assms, of x y] x y by simp
qed

lemma conns_None: "conns w T k = None \<longleftrightarrow> (\<forall>x \<in> set (addrs T). key_at w x \<noteq> k)"
  by (auto simp: conns_def find_None_iff)

subsection \<open>Walks of the table\<close>

text \<open>The comparison that drives a walk for the key of \<open>n\<close>.\<close>

definition towards :: "world \<Rightarrow> tcb \<Rightarrow> ptr \<Rightarrow> int" where
  "towards w n x = tcbcmp n (the (tcbs w x))"

lemma towards_key:
  assumes "table_ok w T" "length (raddr n) = 16" "x \<in> set (addrs T)"
  shows "towards w n x < 0 \<longleftrightarrow> key_of n < key_at w x" "towards w n x = 0 \<longleftrightarrow> key_at w x = key_of n"
    "towards w n x > 0 \<longleftrightarrow> key_at w x < key_of n"
proof -
  obtain t where "tcbs w x = Some t" "length (raddr t) = 16"
    using assms by (auto simp: table_ok_def)
  then show "towards w n x < 0 \<longleftrightarrow> key_of n < key_at w x" "towards w n x = 0 \<longleftrightarrow> key_at w x = key_of n"
    "towards w n x > 0 \<longleftrightarrow> key_at w x < key_of n"
    using tcbcmp_key [of n t] assms(2) by (auto simp: towards_def key_at_def)
qed

lemma towards_agrees:
  assumes "table_ok w T" "length (raddr n) = 16"
  shows "agrees (towards w n) (addrs T)"
proof -
  have "sorted_wrt (\<lambda>x y. key_at w x < key_at w y) (addrs T)"
    using assms(1) by (simp add: table_ok_def)
  then show ?thesis
    unfolding agrees_def
  proof (rule sorted_wrt_change)
    fix x y
    assume xy: "x \<in> set (addrs T)" "y \<in> set (addrs T)" "key_at w x < key_at w y"
    note k = towards_key [OF assms xy(1)] towards_key [OF assms xy(2)]
    have "towards w n x \<le> 0 \<Longrightarrow> towards w n y < 0"
      using k xy(3) by (metis le_less order_less_trans)
    moreover have "0 \<le> towards w n y \<Longrightarrow> 0 < towards w n x"
      using k xy(3) by (metis le_less order_less_trans)
    ultimately show "(towards w n x \<le> 0 \<longrightarrow> towards w n y < 0) \<and> (0 \<le> towards w n y \<longrightarrow> 0 < towards w n x)"
      by blast
  qed
qed

lemma find_rb_seek:
  assumes "tree_at (tcblist w) (fill fs t)" "\<forall>x \<in> set (addrs t). \<exists>c. tcbs w x = Some c"
  shows "tcb_find_rb (tcbs w) n (tcblist w) (tptr t) = Some (case seek (towards w n) fs t of Inl _ \<Rightarrow> 0 | Inr a \<Rightarrow> a)"
  using assms
proof (induction t arbitrary: fs)
  case Lf
  then show ?case
    by (subst tcb_find_rb.simps) simp
next
  case (Nd l a c r)
  obtain m where m: "nodes (tcblist w) a = Some m" "rb_lchild m = tptr l" "rb_rchild m = tptr r" "a \<noteq> 0"
    using Nd.prems(1) by (auto elim!: node_at)
  obtain q where q: "tcbs w a = Some q"
    using Nd.prems(2) by auto
  have "tcb_find_rb (tcbs w) n (tcblist w) (tptr l) = Some (case seek (towards w n) (FL a c r # fs) l of Inl _ \<Rightarrow> 0 | Inr a \<Rightarrow> a)"
    using Nd.IH(1) [of "FL a c r # fs"] Nd.prems by simp
  moreover have "tcb_find_rb (tcbs w) n (tcblist w) (tptr r) = Some (case seek (towards w n) (FR l a c # fs) r of Inl _ \<Rightarrow> 0 | Inr a \<Rightarrow> a)"
    using Nd.IH(2) [of "FR l a c # fs"] Nd.prems by simp
  ultimately show ?case
    using m q by (subst tcb_find_rb.simps) (simp add: towards_def)
qed

lemma insert_loop_seek:
  assumes "tree_at (tcblist w) (fill fs t)" "\<forall>x \<in> set (addrs t). \<exists>c. tcbs w x = Some c"
  shows "tcb_insert_loop (tcbs w) n (tcblist w) (tptr t) (up fs) (link_of fs) =
    Some (case seek (towards w n) fs t of Inl gs \<Rightarrow> Some (up gs, link_of gs) | Inr a \<Rightarrow> None)"
  using assms
proof (induction t arbitrary: fs)
  case Lf
  then show ?case
    by (subst tcb_insert_loop.simps) simp
next
  case (Nd l a c r)
  obtain m where m: "nodes (tcblist w) a = Some m" "rb_lchild m = tptr l" "rb_rchild m = tptr r" "a \<noteq> 0"
    using Nd.prems(1) by (auto elim!: node_at)
  obtain q where q: "tcbs w a = Some q"
    using Nd.prems(2) by auto
  have "tcb_insert_loop (tcbs w) n (tcblist w) (tptr l) a (Left_of a) =
      Some (case seek (towards w n) (FL a c r # fs) l of Inl gs \<Rightarrow> Some (up gs, link_of gs) | Inr a \<Rightarrow> None)"
    using Nd.IH(1) [of "FL a c r # fs"] Nd.prems by simp
  moreover have "tcb_insert_loop (tcbs w) n (tcblist w) (tptr r) a (Right_of a) =
      Some (case seek (towards w n) (FR l a c # fs) r of Inl gs \<Rightarrow> Some (up gs, link_of gs) | Inr a \<Rightarrow> None)"
    using Nd.IH(2) [of "FR l a c # fs"] Nd.prems by simp
  ultimately show ?case
    using m q by (subst tcb_insert_loop.simps) (simp add: towards_def)
qed

lemma find_rb_ok:
  assumes T: "table_ok w T" and n: "length (raddr n) = 16"
  shows "tcb_find_rb (tcbs w) n (tcblist w) (root (tcblist w)) = Some (case conns w T (key_of n) of None \<Rightarrow> 0 | Some x \<Rightarrow> x)"
proof -
  have rt: "root (tcblist w) = tptr T" "tree_at (tcblist w) (fill [] T)" "\<forall>x \<in> set (addrs T). \<exists>c. tcbs w x = Some c"
    using T by (auto simp: table_ok_def tree_at_def dest: shape_tptr)
  show ?thesis
  proof (cases "seek (towards w n) [] T")
    case (Inr a)
    then have "conns w T (key_of n) = Some a"
      using seek_found [OF Inr] towards_key(2) [OF T n] conns_Some [OF T] by auto
    then show ?thesis
      using find_rb_seek [OF rt(2,3), of n] rt(1) Inr by simp
  next
    case (Inl fs)
    have "conns w T (key_of n) = None"
      unfolding conns_None
    proof
      fix x
      assume x: "x \<in> set (addrs T)"
      show "key_at w x \<noteq> key_of n"
        using seek_complete [OF towards_agrees [OF T n] x, of "[]"] towards_key(2) [OF T n x] Inl by auto
    qed
    then show ?thesis
      using find_rb_seek [OF rt(2,3), of n] rt(1) Inl by simp
  qed
qed


subsection \<open>Insertion and deletion\<close>

text \<open>The table only depends on the nodes of the tree and on the keys.\<close>

lemma table_ok_frame:
  assumes T: "table_ok w T" and r: "root (tcblist w') = root (tcblist w)"
    and n: "\<And>x. x \<in> set (addrs T) \<Longrightarrow> nodes (tcblist w') x = nodes (tcblist w) x"
    and k: "\<And>x. x \<in> set (addrs T) \<Longrightarrow> \<exists>t. tcbs w' x = Some t \<and> key_of t = key_at w x"
  shows "table_ok w' T" "conns w' T = conns w T"
proof -
  have key: "key_at w' x = key_at w x" if "x \<in> set (addrs T)" for x
    using k [OF that] by (auto simp: key_at_def)
  have "tree_at (tcblist w') T"
    using T r shape_cong [of T "nodes (tcblist w')" "nodes (tcblist w)"] n by (auto simp: table_ok_def tree_at_def)
  moreover have "sorted_wrt (\<lambda>x y. key_at w' x < key_at w' y) (addrs T)"
    using T by (auto simp: table_ok_def key intro: sorted_wrt_change)
  moreover have "\<exists>t. tcbs w' x = Some t \<and> length (raddr t) = 16" if x: "x \<in> set (addrs T)" for x
  proof -
    obtain t t' where "tcbs w' x = Some t" "key_of t = key_at w x" "tcbs w x = Some t'" "length (raddr t') = 16"
      using k [OF x] T x by (auto simp: table_ok_def)
    then show ?thesis
      by (auto simp: key_at_def key_of_def)
  qed
  ultimately show "table_ok w' T"
    using T by (auto simp: table_ok_def)
  show "conns w' T = conns w T"
    unfolding conns_def using key by (intro ext find_cong) auto
qed

lemma conns_insert:
  assumes T: "table_ok w T" "table_ok w' T'" "set (addrs T') = insert t (set (addrs T))"
    and k: "\<And>x. x \<in> set (addrs T) \<Longrightarrow> key_at w' x = key_at w x" and new: "conns w T (key_at w' t) = None"
  shows "conns w' T' = (conns w T)(key_at w' t \<mapsto> t)"
proof (rule ext)
  fix key
  have "conns w' T' key = Some y \<longleftrightarrow> ((conns w T)(key_at w' t \<mapsto> t)) key = Some y" for y
    using conns_Some [OF T(1), of key y] conns_Some [OF T(2), of key y] T(3) k [of y] new
    by (auto simp: fun_upd_apply conns_None)
  then show "conns w' T' key = ((conns w T)(key_at w' t \<mapsto> t)) key"
    by (rule option_eqI)
qed

lemma conns_remove:
  assumes T: "table_ok w T" "table_ok w' T'" "set (addrs T') = set (addrs T) - {t}" "t \<in> set (addrs T)"
    and k: "\<And>x. x \<in> set (addrs T') \<Longrightarrow> key_at w' x = key_at w x"
  shows "conns w' T' = (conns w T)(key_at w t := None)"
proof (rule ext, rule option_eqI)
  fix key y
  have old: "conns w T key = Some y \<longleftrightarrow> y \<in> set (addrs T) \<and> key_at w y = key"
    by (rule conns_Some [OF T(1)])
  have "conns w' T' key = Some y \<longleftrightarrow> y \<in> set (addrs T') \<and> key_at w' y = key"
    by (rule conns_Some [OF T(2)])
  also have "\<dots> \<longleftrightarrow> y \<in> set (addrs T') \<and> key_at w y = key"
    using k [of y] by (intro conj_cong refl) simp
  also have "\<dots> \<longleftrightarrow> y \<in> set (addrs T) \<and> y \<noteq> t \<and> key_at w y = key"
    unfolding T(3) by blast
  also have "\<dots> \<longleftrightarrow> key \<noteq> key_at w t \<and> conns w T key = Some y"
    using old table_keys_inj [OF T(1) _ T(4), of y] by blast
  finally show "conns w' T' key = Some y \<longleftrightarrow> ((conns w T)(key_at w t := None)) key = Some y"
    by (simp add: fun_upd_apply)
qed

lemma tcb_insert_ok:
  assumes T: "table_ok w T" and t: "tcbs w t = Some c" "length (raddr c) = 16" "t \<notin> set (addrs T)" "t \<noteq> 0" "aligned t"
      "nodes (tcblist w) t \<noteq> None"
  shows "case conns w T (key_of c) of
      Some x \<Rightarrow> tcb_insert t w = Some (0, w)
    | None \<Rightarrow> \<exists>s T'. tcb_insert t w = Some (1, w\<lparr>tcblist := s\<rparr>) \<and> table_ok (w\<lparr>tcblist := s\<rparr>) T' \<and>
        set (addrs T') = insert t (set (addrs T)) \<and> (\<forall>b. b \<notin> set (addrs T') \<longrightarrow> nodes s b = nodes (tcblist w) b)"
proof -
  have rt: "root (tcblist w) = tptr T" "tree_at (tcblist w) (fill [] T)" "\<forall>x \<in> set (addrs T). \<exists>c. tcbs w x = Some c"
    and rep: "tree_at (tcblist w) T \<and> rb_ok T" "sorted_wrt (\<lambda>x y. key_at w x < key_at w y) (addrs T)"
    using T by (auto simp: table_ok_def tree_at_def dest: shape_tptr)
  have key: "key_at w t = key_of c"
    using t(1) by (simp add: key_at_def)
  have loop: "tcb_insert_loop (tcbs w) c (tcblist w) (root (tcblist w)) 0 At_root =
      Some (case seek (towards w c) [] T of Inl gs \<Rightarrow> Some (up gs, link_of gs) | Inr a \<Rightarrow> None)"
    using insert_loop_seek [OF rt(2,3), of c] rt(1) by simp
  note ag = towards_agrees [OF T t(2)]
  show ?thesis
  proof (cases "seek (towards w c) [] T")
    case (Inr a)
    then have "conns w T (key_of c) = Some a"
      using seek_found [OF Inr] towards_key(2) [OF T t(2)] conns_Some [OF T] by auto
    then show ?thesis
      using t(1) loop Inr by (simp add: tcb_insert_def)
  next
    case (Inl fs)
    have "conns w T (key_of c) = None"
      unfolding conns_None
      using seek_complete [OF ag, of _ "[]"] towards_key(2) [OF T t(2)] Inl by fastforce
    moreover from rbt.sorted_insert [OF rep t(3-6) Inl ag]
    obtain s T' where s: "rb_link_node t (up fs) (link_of fs) (tcblist w) \<bind> rb_insert_color t = Some s"
        "tree_at s T' \<and> rb_ok T'" "sorted_wrt (\<lambda>x y. key_at w x < key_at w y) (addrs T')"
        "set (addrs T') = insert t (set (addrs T))" "\<forall>b. b \<notin> set (addrs T') \<longrightarrow> nodes s b = nodes (tcblist w) b"
      using towards_key(1,3) [OF T t(2)] key by auto
    have "tcb_insert t w = Some (1, w\<lparr>tcblist := s\<rparr>)"
      using t(1) loop Inl s(1) by (auto simp: tcb_insert_def bind_eq_Some_conv)
    moreover have "table_ok (w\<lparr>tcblist := s\<rparr>) T'"
      using s(2-4) T t(1,2) by (auto simp: table_ok_def key_at_def)
    ultimately show ?thesis
      using s(4,5) by auto
  qed
qed

text \<open>What \<open>tcb_new\<close> puts at the new address.\<close>

definition fresh_tcb :: "byte list option \<Rightarrow> int \<Rightarrow> byte list option \<Rightarrow> int \<Rightarrow> timeval \<Rightarrow> tcb" where
  "fresh_tcb la lp ra rp tv = (needle la lp ra rp)\<lparr>start_time := tv\<rparr>"

lemma tcb_new_eq:
  "tcb_new t la lp ra rp w =
     map_option snd (tcb_insert t (w\<lparr>tcbs := (tcbs w)(t \<mapsto> fresh_tcb la lp ra rp (now w)),
       tcblist := (tcblist w)\<lparr>nodes := (nodes (tcblist w))(t \<mapsto> zero_node)\<rparr>\<rparr>))"
  by (auto simp: tcb_new_def fresh_tcb_def needle_def zero_tcb_def Let_def map_option_case split: option.splits
      intro!: arg_cong [where f = "tcb_insert t"])

lemma tcb_new_ok:
  assumes T: "table_ok w T" and ra: "case ra of None \<Rightarrow> True | Some a \<Rightarrow> 16 \<le> length a"
    and t: "t \<notin> set (addrs T)" "t \<noteq> 0" "aligned t"
  shows "\<exists>s T'. tcb_new t la lp ra rp w = Some (w\<lparr>tcbs := (tcbs w)(t \<mapsto> fresh_tcb la lp ra rp (now w)), tcblist := s\<rparr>) \<and>
    table_ok (w\<lparr>tcbs := (tcbs w)(t \<mapsto> fresh_tcb la lp ra rp (now w)), tcblist := s\<rparr>) T' \<and>
    (case conns w T (key_of (needle la lp ra rp)) of
      None \<Rightarrow> set (addrs T') = insert t (set (addrs T)) | Some _ \<Rightarrow> T' = T \<and> nodes s t = Some zero_node)"
proof -
  let ?c = "fresh_tcb la lp ra rp (now w)"
  let ?w = "w\<lparr>tcbs := (tcbs w)(t \<mapsto> ?c), tcblist := (tcblist w)\<lparr>nodes := (nodes (tcblist w))(t \<mapsto> zero_node)\<rparr>\<rparr>"
  have key: "key_of ?c = key_of (needle la lp ra rp)" "length (raddr ?c) = 16"
    using ra by (auto simp: fresh_tcb_def key_of_def needle_def split: option.splits)
  have "\<exists>u. tcbs ?w x = Some u \<and> key_of u = key_at w x" if "x \<in> set (addrs T)" for x
    using T that t(1) by (cases "x = t") (auto simp: table_ok_def key_at_def fun_upd_apply)
  moreover have "nodes (tcblist ?w) x = nodes (tcblist w) x" if "x \<in> set (addrs T)" for x
    using that t(1) by (auto simp: fun_upd_apply)
  ultimately have T': "table_ok ?w T" "conns ?w T = conns w T"
    using table_ok_frame [OF T, of ?w] by simp_all
  have ins: "case conns w T (key_of (needle la lp ra rp)) of
      Some x \<Rightarrow> tcb_insert t ?w = Some (0, ?w)
    | None \<Rightarrow> \<exists>s T'. tcb_insert t ?w = Some (1, ?w\<lparr>tcblist := s\<rparr>) \<and> table_ok (?w\<lparr>tcblist := s\<rparr>) T' \<and>
        set (addrs T') = insert t (set (addrs T)) \<and> (\<forall>b. b \<notin> set (addrs T') \<longrightarrow> nodes s b = nodes (tcblist ?w) b)"
    using tcb_insert_ok [OF T'(1), of t ?c] t key T'(2) by simp
  show ?thesis
  proof (cases "conns w T (key_of (needle la lp ra rp))")
    case None
    then obtain s T'' where s: "tcb_insert t ?w = Some (1, ?w\<lparr>tcblist := s\<rparr>)" "table_ok (?w\<lparr>tcblist := s\<rparr>) T''"
        "set (addrs T'') = insert t (set (addrs T))"
      using ins by auto
    then show ?thesis
      using None by (auto simp: tcb_new_eq intro!: exI [of _ s] exI [of _ T''])
  next
    case (Some x)
    then have "tcb_insert t ?w = Some (0, ?w)"
      using ins by simp
    then show ?thesis
      using Some T'(1) by (auto simp: tcb_new_eq intro!: exI [of _ "tcblist ?w"] exI [of _ T])
  qed
qed

lemma tcb_delete_ok:
  assumes T: "table_ok w T" and t: "t \<in> set (addrs T)"
  shows "\<exists>s T'. tcb_delete t w = Some (w\<lparr>tcblist := s, tcbs := (tcbs w)(t := None)\<rparr>) \<and>
    table_ok (w\<lparr>tcblist := s, tcbs := (tcbs w)(t := None)\<rparr>) T' \<and> set (addrs T') = set (addrs T) - {t}"
proof -
  have rep: "tree_at (tcblist w) T \<and> rb_ok T" "sorted_wrt (\<lambda>x y. key_at w x < key_at w y) (addrs T)" "distinct (addrs T)"
    and c: "\<exists>c. tcbs w t = Some c"
    using T t by (auto simp: table_ok_def tree_at_def)
  from rbt.sorted_erase [OF rep t]
  obtain s T' where s: "rb_erase t (tcblist w) = Some s" "tree_at s T' \<and> rb_ok T'"
      "sorted_wrt (\<lambda>x y. key_at w x < key_at w y) (addrs T')" "set (addrs T') = set (addrs T) - {t}"
    by blast
  let ?s = "s\<lparr>nodes := (nodes s)(t := None)\<rparr>"
  let ?w = "w\<lparr>tcblist := ?s, tcbs := (tcbs w)(t := None)\<rparr>"
  have "table_ok (w\<lparr>tcblist := s\<rparr>) T'"
    using s(2-4) T by (auto simp: table_ok_def key_at_def)
  moreover have "\<exists>u. tcbs ?w x = Some u \<and> key_of u = key_at (w\<lparr>tcblist := s\<rparr>) x" if "x \<in> set (addrs T')" for x
    using T that s(4) by (auto simp: table_ok_def key_at_def fun_upd_apply)
  moreover have "nodes (tcblist ?w) x = nodes (tcblist (w\<lparr>tcblist := s\<rparr>)) x" if "x \<in> set (addrs T')" for x
    using that s(4) by (auto simp: fun_upd_apply)
  ultimately have "table_ok ?w T'"
    using table_ok_frame(1) [of "w\<lparr>tcblist := s\<rparr>" T' ?w] by simp
  moreover have "tcb_delete t w = Some ?w"
    using c s(1) by (auto simp: tcb_delete_def)
  ultimately show ?thesis
    using s(4) by blast
qed

text \<open>A node that was never linked: \<open>rb_erase\<close> takes it for the root and empties the tree.\<close>

lemma rb_erase_unlinked:
  assumes "nodes s t = Some zero_node"
  shows "rb_erase t s = Some (s\<lparr>root := 0\<rparr>)"
  using assms
  by (simp add: rb_erase_def rb_unlink_one_def adopt_def relink_def zero_node_def rb_parent_def rb_color_def)

subsection \<open>Lookup\<close>

definition listen_key :: conn_key where
  "listen_key = Conn_key 0 0 (replicate 16 0)"

lemma needle_key:
  "key_of (needle la lp ra rp) = Conn_key rp lp (case ra of None \<Rightarrow> replicate 16 0 | Some a \<Rightarrow> take 16 a)"
  by (simp add: key_of_def needle_def)

lemma needle_len: "(case ra of None \<Rightarrow> True | Some a \<Rightarrow> 16 \<le> length a) \<Longrightarrow> length (raddr (needle la lp ra rp)) = 16"
  by (auto simp: needle_def split: option.splits)

lemma table_nonzero: "table_ok w T \<Longrightarrow> 0 \<notin> set (addrs T)"
  using shape_addrs by (fastforce simp: table_ok_def tree_at_def)

lemma conns_nonzero: "table_ok w T \<Longrightarrow> conns w T k \<noteq> Some 0"
  using conns_Some table_nonzero by blast

text \<open>The innermost call repeats itself: without a listener it never returns.\<close>

lemma tcb_find_stuck:
  assumes "tcb_find_rb (tcbs w) (needle None 0 None 0) (tcblist w) (root (tcblist w)) = Some 0"
  shows "tcb_find None 0 None 0 w = None"
proof (rule ccontr)
  assume "tcb_find None 0 None 0 w \<noteq> None"
  then obtain r where r: "tcb_find None 0 None 0 w = Some r"
    by blast
  have "(la = None \<and> lp = 0 \<and> ra = None \<and> rp = 0 \<and> v = w) \<longrightarrow> False"
    if "tcb_find la lp ra rp v = Some r" for la lp ra rp v
    using that by (rule tcb_find.raw_induct [rotated]) (use assms in \<open>fastforce simp: bind_eq_Some_conv\<close>)
  then show False
    using r by blast
qed

lemma tcb_find_listener:
  assumes T: "table_ok w T"
  shows "tcb_find None 0 None 0 w = conns w T listen_key"
proof -
  have rb: "tcb_find_rb (tcbs w) (needle None 0 None 0) (tcblist w) (root (tcblist w)) =
      Some (case conns w T listen_key of None \<Rightarrow> 0 | Some x \<Rightarrow> x)"
    using find_rb_ok [OF T needle_len [of None], of None 0 0] by (simp add: needle_key listen_key_def)
  show ?thesis
  proof (cases "conns w T listen_key")
    case None
    then show ?thesis
      using rb tcb_find_stuck [of w] by simp
  next
    case (Some x)
    then show ?thesis
      using rb conns_nonzero [OF T, of listen_key] by (subst tcb_find.simps) simp
  qed
qed

lemma tcb_find_ok:
  assumes T: "table_ok w T" and ra: "16 \<le> length ra"
  shows "tcb_find (Some la) lp (Some ra) rp w =
     (case conns w T (Conn_key rp lp (take 16 ra)) of
        Some x \<Rightarrow> Some x
      | None \<Rightarrow> if lp > 0 then conns w T listen_key else Some 0)"
proof -
  have rb: "tcb_find_rb (tcbs w) (needle (Some la) lp (Some ra) rp) (tcblist w) (root (tcblist w)) =
      Some (case conns w T (Conn_key rp lp (take 16 ra)) of None \<Rightarrow> 0 | Some x \<Rightarrow> x)"
    using find_rb_ok [OF T needle_len [of "Some ra"], of "Some la" lp rp] ra by (simp add: needle_key)
  show ?thesis
  proof (cases "conns w T (Conn_key rp lp (take 16 ra))")
    case None
    then show ?thesis
      using rb tcb_find_listener [OF T] by (subst tcb_find.simps) simp
  next
    case (Some x)
    then show ?thesis
      using rb conns_nonzero [OF T, of "Conn_key rp lp (take 16 ra)"] by (subst tcb_find.simps) auto
  qed
qed

text \<open>The search sees the key it looks for through \<open>tcbcmp\<close> only.\<close>

lemma tcb_find_rb_mono:
  assumes "tcb_find_rb h n s p = Some r"
  shows "\<forall>m. tcbcmp n = tcbcmp m \<longrightarrow> tcb_find_rb h m s p = Some r"
  using assms
proof (rule tcb_find_rb.raw_induct [rotated], goal_cases)
  case (1 f h n s p r)
  show ?case
  proof (intro allI impI)
    fix m
    assume m: "tcbcmp n = tcbcmp m"
    show "tcb_find_rb h m s p = Some r"
    proof (cases "p = 0")
      case True
      then show ?thesis
        using 1(2) by (subst tcb_find_rb.simps) simp
    next
      case False
      then obtain d k where dk: "h p = Some d" "nodes s p = Some k"
          "(if tcbcmp m d < 0 then f h n s (rb_lchild k) else if tcbcmp m d > 0 then f h n s (rb_rchild k) else Some p) = Some r"
        using 1(2) m by (auto simp: bind_eq_Some_conv Let_def)
      have "(if tcbcmp m d < 0 then tcb_find_rb h m s (rb_lchild k) else if tcbcmp m d > 0 then tcb_find_rb h m s (rb_rchild k)
          else Some p) = Some r"
        using dk(3) 1(1) [of h n s "rb_lchild k" r] 1(1) [of h n s "rb_rchild k" r] m by (auto split: if_splits)
      then show ?thesis
        using dk(1,2) False by (subst tcb_find_rb.simps) (simp add: Let_def)
    qed
  qed
qed

lemma tcb_find_rb_cong:
  assumes "tcbcmp n = tcbcmp m"
  shows "tcb_find_rb h n s p = tcb_find_rb h m s p"
proof (rule option_eqI)
  show "tcb_find_rb h n s p = Some r \<longleftrightarrow> tcb_find_rb h m s p = Some r" for r
    using tcb_find_rb_mono [of h n s p r, THEN spec, of m] tcb_find_rb_mono [of h m s p r, THEN spec, of n] assms by auto
qed

subsection \<open>Properties\<close>

lemma table_start: "table_ok (start_world tv) Lf"
  by (simp add: table_ok_def start_world_def tree_at_def rb_ok_def)

lemma conns_start: "conns (start_world tv) Lf k = None"
  by (simp add: conns_def)

text \<open>
  C10. The connection table implements a finite map. On a well-formed table, allocating a tcb at a
  fresh address returns, keeps the table well formed (a red-black tree sorted by key), and binds the
  new tcb to its key if the key was free; if the key was taken the map stays as it was, and the new
  tcb is in memory but not in the table.
\<close>

theorem tcb_new_refines:
  assumes "table_ok w T" and "16 \<le> length ra" and "t \<notin> set (addrs T)" and "t \<noteq> 0" and "aligned t"
  shows "\<exists>w' T'. tcb_new t la lp (Some ra) rp w = Some w' \<and> table_ok w' T' \<and>
    conns w' T' = (if conns w T (Conn_key rp lp (take 16 ra)) = None
      then (conns w T)(Conn_key rp lp (take 16 ra) \<mapsto> t) else conns w T) \<and>
    tcbs w' = (tcbs w)(t \<mapsto> fresh_tcb la lp (Some ra) rp (now w))"
proof -
  let ?k = "Conn_key rp lp (take 16 ra)" and ?c = "fresh_tcb la lp (Some ra) rp (now w)"
  obtain s T' where s: "tcb_new t la lp (Some ra) rp w = Some (w\<lparr>tcbs := (tcbs w)(t \<mapsto> ?c), tcblist := s\<rparr>)"
      "table_ok (w\<lparr>tcbs := (tcbs w)(t \<mapsto> ?c), tcblist := s\<rparr>) T'"
      "case conns w T ?k of None \<Rightarrow> set (addrs T') = insert t (set (addrs T)) | Some _ \<Rightarrow> T' = T \<and> nodes s t = Some zero_node"
    using tcb_new_ok [OF assms(1) _ assms(3-5), of "Some ra" la lp rp] assms(2) by (auto simp: needle_key)
  let ?w = "w\<lparr>tcbs := (tcbs w)(t \<mapsto> ?c), tcblist := s\<rparr>"
  have k: "key_at ?w x = key_at w x" if "x \<in> set (addrs T)" for x
    using that assms(3) by (auto simp: key_at_def fun_upd_apply)
  have kt: "key_at ?w t = ?k"
    by (simp add: key_at_def fresh_tcb_def key_of_def needle_def)
  have "conns ?w T' = (if conns w T ?k = None then (conns w T)(?k \<mapsto> t) else conns w T)"
  proof (cases "conns w T ?k")
    case None
    then show ?thesis
      using conns_insert [OF assms(1) s(2) _ k] s(3) kt by simp
  next
    case (Some x)
    then have "T' = T"
      using s(3) by simp
    moreover have "conns ?w T = conns w T"
      unfolding conns_def using k by (intro ext find_cong) simp_all
    ultimately show ?thesis
      using Some by simp
  qed
  then show ?thesis
    using s(1,2) by (intro exI [of _ ?w] exI [of _ T']) simp
qed

theorem tcb_new_refines_witness:
  "\<exists>w' T'. tcb_new 8 None 80 (Some (replicate 16 1)) 4000 (start_world zero_time) = Some w' \<and> table_ok w' T' \<and>
     conns w' T' (Conn_key 4000 80 (replicate 16 1)) = Some 8"
proof -
  obtain w' T' where "tcb_new 8 None 80 (Some (replicate 16 1)) 4000 (start_world zero_time) = Some w'" "table_ok w' T'"
      "conns w' T' = (conns (start_world zero_time) Lf)(Conn_key 4000 80 (replicate 16 1) \<mapsto> 8)"
    using tcb_new_refines [OF table_start [of zero_time], of "replicate 16 1" 8 None 80 4000]
    by (auto simp: aligned_def conns_start)
  then show ?thesis
    by (intro exI [of _ w'] exI [of _ T']) simp
qed

text \<open>
  C11. Deleting a tcb that is in the table returns, keeps the table well formed and removes exactly
  the binding of its key; the memory of the tcb is gone, every other tcb is unchanged.
\<close>

theorem tcb_delete_refines:
  assumes "table_ok w T" and "conns w T k = Some t"
  shows "\<exists>w' T'. tcb_delete t w = Some w' \<and> table_ok w' T' \<and> conns w' T' = (conns w T)(k := None) \<and>
    tcbs w' = (tcbs w)(t := None)"
proof -
  have t: "t \<in> set (addrs T)" "key_at w t = k"
    using conns_Some [OF assms(1), of k t] assms(2) by auto
  obtain s T' where s: "tcb_delete t w = Some (w\<lparr>tcblist := s, tcbs := (tcbs w)(t := None)\<rparr>)"
      "table_ok (w\<lparr>tcblist := s, tcbs := (tcbs w)(t := None)\<rparr>) T'" "set (addrs T') = set (addrs T) - {t}"
    using tcb_delete_ok [OF assms(1) t(1)] by blast
  let ?w = "w\<lparr>tcblist := s, tcbs := (tcbs w)(t := None)\<rparr>"
  have "key_at ?w x = key_at w x" if "x \<in> set (addrs T')" for x
    using that s(3) by (auto simp: key_at_def fun_upd_apply)
  then have "conns ?w T' = (conns w T)(k := None)"
    using conns_remove [OF assms(1) s(2,3) t(1)] t(2) by blast
  then show ?thesis
    using s(1,2) by (intro exI [of _ ?w] exI [of _ T']) simp
qed

text \<open>A table with one connection, for the witnesses.\<close>

definition one_conn :: "tcb \<Rightarrow> world" where
  "one_conn c = (start_world zero_time)\<lparr>tcbs := [8 \<mapsto> c],
     tcblist := \<lparr>nodes = [8 \<mapsto> \<lparr>rb_parent_color = 1, rb_rchild = 0, rb_lchild = 0\<rparr>], root = 8\<rparr>\<rparr>"

lemma one_conn_ok:
  assumes "length (raddr c) = 16"
  shows "table_ok (one_conn c) (Nd Lf 8 Black Lf)" "conns (one_conn c) (Nd Lf 8 Black Lf) = [key_of c \<mapsto> 8]"
proof -
  show "table_ok (one_conn c) (Nd Lf 8 Black Lf)"
    using assms by (simp add: table_ok_def one_conn_def tree_at_def rb_ok_def aligned_def rb_parent_def rb_color_def)
  show "conns (one_conn c) (Nd Lf 8 Black Lf) = [key_of c \<mapsto> 8]"
    by (auto simp: conns_def one_conn_def key_at_def fun_upd_apply)
qed

theorem tcb_delete_refines_witness:
  "\<exists>w' T'. tcb_delete 8 (one_conn zero_tcb) = Some w' \<and> table_ok w' T' \<and> conns w' T' listen_key = None"
proof -
  obtain w' T' where "tcb_delete 8 (one_conn zero_tcb) = Some w'" "table_ok w' T'"
      "conns w' T' = (conns (one_conn zero_tcb) (Nd Lf 8 Black Lf))(listen_key := None)"
    using tcb_delete_refines [OF one_conn_ok(1), of zero_tcb listen_key 8]
    by (auto simp: one_conn_ok zero_tcb_def key_of_def listen_key_def)
  then show ?thesis
    by (intro exI [of _ w'] exI [of _ T']) simp
qed

text \<open>
  C12. Lookup for a received segment. On a well-formed table the search returns the tcb bound to the
  segment's remote port, local port and remote address; if there is none and the local port is
  positive it returns the listener (the tcb bound to the zero key), and for local port 0 it returns
  NULL. With a positive local port and neither of the two the call does not return: \<open>None\<close> here is
  the endless recursion of \<^verbatim>\<open>tcb_find (NULL, 0, NULL, 0)\<close>.
\<close>

theorem tcb_find_lookup:
  assumes "table_ok w T" and "16 \<le> length ra"
  shows "tcb_find (Some la) lp (Some ra) rp w =
     (case conns w T (Conn_key rp lp (take 16 ra)) of
        Some x \<Rightarrow> Some x
      | None \<Rightarrow> if lp > 0 then conns w T listen_key else Some 0)"
  using assms by (rule tcb_find_ok)

theorem tcb_find_lookup_witness:
  "tcb_find (Some (replicate 16 3)) 80 (Some (replicate 16 1)) 4000 (one_conn zero_tcb) = Some 8 \<and>
     tcb_find (Some (replicate 16 3)) 0 (Some (replicate 16 1)) 4000 (one_conn zero_tcb) = Some 0 \<and>
     tcb_find (Some (replicate 16 3)) 80 (Some (replicate 16 1)) 4000 (start_world zero_time) = None"
  using tcb_find_lookup [OF one_conn_ok(1) , of zero_tcb "replicate 16 1" "replicate 16 3" 80 4000]
    tcb_find_lookup [OF one_conn_ok(1) , of zero_tcb "replicate 16 1" "replicate 16 3" 0 4000]
    tcb_find_lookup [OF table_start [of zero_time] , of "replicate 16 1" "replicate 16 3" 80 4000]
  by (simp add: one_conn_ok zero_tcb_def key_of_def listen_key_def conns_start)

text \<open>
  C32. The local address plays no part in the table: two segments from the same remote address and
  port to the same local port are one connection for \<open>tcb_find\<close>, whatever their destination
  addresses (\<open>tcbcmp\<close> compares the remote address twice and the local one never).
\<close>

theorem tcb_find_ignores_laddr:
  "tcb_find (Some la) lp (Some ra) rp w = tcb_find (Some la') lp (Some ra) rp w"
proof -
  have "tcbcmp (needle (Some la) lp (Some ra) rp) = tcbcmp (needle (Some la') lp (Some ra) rp)"
    by (rule ext) (simp add: tcbcmp_def needle_def Let_def)
  from tcb_find_rb_cong [OF this] show ?thesis
    by (subst (1 2) tcb_find.simps) (simp cong: option.case_cong)
qed

text \<open>
  C33. A connection that is refused destroys the table. If the key of a new tcb is taken, \<open>tcb_insert\<close>
  leaves it out, \<open>tcb_new\<close> returns it all the same, and the table is as before. Deleting it then erases
  a node that was never linked: the erase takes it for the root, and every connection, while its tcb is
  still allocated, is lost from the table and not found any more.
\<close>

theorem tcb_delete_refused_empties:
  assumes "table_ok w T" and "length ra = 16" and "conns w T (Conn_key rp lp ra) = Some x" and "t \<notin> set (addrs T)" and "t \<noteq> 0" and "aligned t"
  shows "\<exists>w1 w2. tcb_new t la lp (Some ra) rp w = Some w1 \<and> table_ok w1 T \<and> conns w1 T = conns w T \<and>
    tcb_delete t w1 = Some w2 \<and> root (tcblist w2) = 0 \<and> tcbs w2 x = tcbs w x \<and> tcbs w2 x \<noteq> None \<and>
    (\<forall>c. tcb_find_rb (tcbs w2) c (tcblist w2) (root (tcblist w2)) = Some 0)"
proof -
  let ?c = "fresh_tcb la lp (Some ra) rp (now w)"
  have k: "key_of (needle la lp (Some ra) rp) = Conn_key rp lp ra"
    using assms(2) by (simp add: needle_def key_of_def)
  obtain s where s: "tcb_new t la lp (Some ra) rp w = Some (w\<lparr>tcbs := (tcbs w)(t \<mapsto> ?c), tcblist := s\<rparr>)"
      "table_ok (w\<lparr>tcbs := (tcbs w)(t \<mapsto> ?c), tcblist := s\<rparr>) T" "nodes s t = Some zero_node"
    using tcb_new_ok [OF assms(1) _ assms(4-6), of "Some ra" la lp rp] assms(2,3) k by auto
  let ?w = "w\<lparr>tcbs := (tcbs w)(t \<mapsto> ?c), tcblist := s\<rparr>"
  have x: "x \<in> set (addrs T)" "x \<noteq> t"
    using conns_Some [OF assms(1), of "Conn_key rp lp ra" x] assms(3,4) by auto
  have key: "key_at ?w y = key_at w y" if "y \<in> set (addrs T)" for y
    using that assms(4) by (auto simp: key_at_def)
  have "conns ?w T = conns w T"
    by (rule ext, rule option_eqI) (use conns_Some [OF s(2)] conns_Some [OF assms(1)] key in \<open>auto\<close>)
  moreover obtain w2 where w2: "tcb_delete t ?w = Some w2" "root (tcblist w2) = 0" "tcbs w2 = (tcbs ?w)(t := None)"
    using s(3) by (auto simp: tcb_delete_def rb_erase_unlinked)
  moreover have "tcbs w x \<noteq> None"
    using assms(1) x(1) by (auto simp: table_ok_def)
  ultimately show ?thesis
    using s(1,2) x(2) by (intro exI [of _ ?w] exI [of _ w2]) (simp add: tcb_find_rb.simps)
qed

theorem tcb_delete_refused_empties_witness:
  defines "ra \<equiv> replicate 16 (1 :: byte)"
  shows "\<exists>w w1 w2. tcb_new 8 None 80 (Some ra) 4000 (start_world zero_time) = Some w \<and>
    tcb_new 16 None 80 (Some ra) 4000 w = Some w1 \<and> tcb_delete 16 w1 = Some w2 \<and> tcbs w2 8 \<noteq> None \<and> root (tcblist w2) = 0"
proof -
  obtain s T where w: "tcb_new 8 None 80 (Some ra) 4000 (start_world zero_time) =
        Some ((start_world zero_time)\<lparr>tcbs := (tcbs (start_world zero_time))(8 \<mapsto> fresh_tcb None 80 (Some ra) 4000 (now (start_world zero_time))), tcblist := s\<rparr>)"
      "table_ok ((start_world zero_time)\<lparr>tcbs := (tcbs (start_world zero_time))(8 \<mapsto> fresh_tcb None 80 (Some ra) 4000 (now (start_world zero_time))), tcblist := s\<rparr>) T"
      "set (addrs T) = {8}"
    using tcb_new_ok [OF table_start [of zero_time], of "Some ra" 8 None 80 4000] by (auto simp: aligned_def conns_start ra_def)
  let ?w = "(start_world zero_time)\<lparr>tcbs := (tcbs (start_world zero_time))(8 \<mapsto> fresh_tcb None 80 (Some ra) 4000 (now (start_world zero_time))), tcblist := s\<rparr>"
  have "conns ?w T (Conn_key 4000 80 ra) = Some 8"
    using conns_Some [OF w(2), of "Conn_key 4000 80 ra" 8] w(3)
    by (simp add: key_at_def fresh_tcb_def needle_def key_of_def ra_def)
  from tcb_delete_refused_empties [OF w(2) _ this, of 16 None] w(1,3) show ?thesis
    by (auto simp: ra_def aligned_def)
qed

end
