(* ===== verification/Event_Queue.thy ===== *)
theory Event_Queue
  imports World
begin

text \<open>
  The event lists as their clients see them: a finite map from events to the list they are in and
  their callback. The locale \<open>event_queue\<close> states what adding, removing and rescheduling do to that
  map; the lists of \<^verbatim>\<open>event.c\<close> are an instance, so the proofs about connections and maps never look
  at a link. \<open>rest\<close> is the part of the state that belongs to the other components.
\<close>

text \<open>
  Where an event is: waiting in the list of timers, there but marked for removal (\<open>e->remove\<close>, which
  the loop sets before it runs a timer), in the list of descriptors, or in the list of always events.
\<close>

datatype ekind = Timer | Due | Fd | Always

subsection \<open>The interface\<close>

locale event_queue =
  fixes queue :: "'s \<Rightarrow> (eptr \<rightharpoonup> ekind \<times> 'cb) \<Rightarrow> bool"
    and rest :: "'s \<Rightarrow> 'r"
    and add_always :: "'cb \<Rightarrow> 's \<Rightarrow> (eptr \<times> 's) option"
    and add_fd :: "int \<Rightarrow> int \<Rightarrow> 'cb \<Rightarrow> 's \<Rightarrow> (eptr \<times> 's) option"
    and add_time :: "timeval \<Rightarrow> 'cb \<Rightarrow> 's \<Rightarrow> (eptr \<times> 's) option"
    and resched :: "eptr \<Rightarrow> timeval \<Rightarrow> 's \<Rightarrow> 's option"
    and remove :: "eptr \<Rightarrow> 's \<Rightarrow> 's option"
    and spent :: "eptr \<Rightarrow> 's \<Rightarrow> bool"
  assumes always_law: "queue s Q \<Longrightarrow> \<exists>e s'. add_always f s = Some (e, s') \<and> e \<noteq> 0 \<and> Q e = None \<and>
      queue s' (Q(e \<mapsto> (Always, f))) \<and> rest s' = rest s"
    and fd_law: "queue s Q \<Longrightarrow> \<exists>e s'. add_fd fd wr f s = Some (e, s') \<and> e \<noteq> 0 \<and> Q e = None \<and>
      queue s' (Q(e \<mapsto> (Fd, f))) \<and> rest s' = rest s"
    and time_law: "queue s Q \<Longrightarrow> \<exists>e s'. add_time tr f s = Some (e, s') \<and> e \<noteq> 0 \<and> Q e = None \<and>
      queue s' (Q(e \<mapsto> (Timer, f))) \<and> rest s' = rest s"
    and resched_law: "queue s Q \<Longrightarrow> Q e = Some (k, f) \<Longrightarrow> k = Timer \<or> k = Due \<Longrightarrow>
      \<exists>s'. resched e tr s = Some s' \<and> queue s' (Q(e \<mapsto> (Timer, f))) \<and> rest s' = rest s"
    and remove_law: "queue s Q \<Longrightarrow> Q e = Some (k, f) \<Longrightarrow>
      \<exists>s'. remove e s = Some s' \<and> queue s' (Q(e := None)) \<and> rest s' = rest s \<and> (k = Due \<longrightarrow> spent e s')"
    and null_law: "queue s Q \<Longrightarrow> Q 0 = None"
begin

text \<open>Removing an event through a pointer that may be NULL, as every owner does when it dies.\<close>

lemma remove_opt:
  assumes "queue s Q" "e \<noteq> 0 \<Longrightarrow> Q e \<noteq> None"
  shows "\<exists>s'. (if e \<noteq> 0 then remove e s else Some s) = Some s' \<and> queue s' (Q(e := None)) \<and> rest s' = rest s \<and>
    (\<forall>f. Q e = Some (Due, f) \<longrightarrow> spent e s')"
proof (cases "e = 0")
  case True
  then show ?thesis
    using assms(1) null_law [OF assms(1)] by (auto simp: fun_upd_idem)
next
  case False
  then obtain k f where "Q e = Some (k, f)"
    using assms(2) by fastforce
  then show ?thesis
    using remove_law [OF assms(1)] False by auto
qed

lemma remove_two:
  assumes "queue s Q" "a \<noteq> 0 \<Longrightarrow> Q a \<noteq> None" "b \<noteq> 0 \<Longrightarrow> Q b \<noteq> None \<and> b \<noteq> a"
  shows "\<exists>s'. do { s \<leftarrow> (if a \<noteq> 0 then remove a s else Some s); if b \<noteq> 0 then remove b s else Some s } = Some s' \<and>
    queue s' (Q(a := None, b := None)) \<and> rest s' = rest s \<and> (\<forall>f. Q b = Some (Due, f) \<longrightarrow> spent b s')"
proof -
  obtain s1 where s1: "(if a \<noteq> 0 then remove a s else Some s) = Some s1" "queue s1 (Q(a := None))" "rest s1 = rest s"
    using remove_opt [OF assms(1,2)] by blast
  have "b \<noteq> 0 \<Longrightarrow> (Q(a := None)) b \<noteq> None"
    using assms(3) by (simp add: fun_upd_apply)
  then obtain s2 where s2: "(if b \<noteq> 0 then remove b s1 else Some s1) = Some s2" "queue s2 (Q(a := None, b := None))" "rest s2 = rest s1"
      "\<forall>f. (Q(a := None)) b = Some (Due, f) \<longrightarrow> spent b s2"
    using remove_opt [OF s1(2), of b] by blast
  have "\<forall>f. Q b = Some (Due, f) \<longrightarrow> spent b s2"
  proof (cases "b = 0")
    case True
    then show ?thesis
      using null_law [OF assms(1)] by simp
  next
    case False
    then show ?thesis
      using s2(4) assms(3) by (simp add: fun_upd_apply)
  qed
  then show ?thesis
    unfolding s1(1) using s1(3) s2 by (intro exI [of _ s2]) simp
qed

end

subsection \<open>The lists of event.c\<close>

definition list_of :: "eptr list \<Rightarrow> eptr list \<Rightarrow> eptr list \<Rightarrow> eptr \<Rightarrow> ekind option" where
  "list_of ts fs as e =
     (if e \<in> set ts then Some Timer else if e \<in> set fs then Some Fd else if e \<in> set as then Some Always else None)"

definition queue_of :: "(eptr \<rightharpoonup> 'cb event) \<Rightarrow> eptr list \<Rightarrow> eptr list \<Rightarrow> eptr list \<Rightarrow> eptr \<rightharpoonup> ekind \<times> 'cb" where
  "queue_of h ts fs as e = do {
     k \<leftarrow> list_of ts fs as e;
     ev \<leftarrow> h e;
     Some (if k = Timer \<and> ev_remove ev \<noteq> 0 then Due else k, ev_func ev)
   }"

text \<open>
  Descriptor and always events enter at the front at a fresh address, so these lists are ordered by
  address; the loops over them end because they move to smaller ones.
\<close>

definition evq :: "('cb, 'm) evs_scheme \<Rightarrow> (eptr \<rightharpoonup> ekind \<times> 'cb) \<Rightarrow> bool" where
  "evq s Q \<longleftrightarrow> (\<exists>ts fs as. evs_rep s ts fs as \<and> sorted_wrt (>) fs \<and> sorted_wrt (>) as \<and> Q = queue_of (ev_heap s) ts fs as)"

text \<open>
  A timer that was removed while marked for removal: its neighbours are linked to each other, so
  removing it again has no effect.
\<close>

definition gone :: "eptr \<Rightarrow> ('cb, 'm) evs_scheme \<Rightarrow> bool" where
  "gone e s \<longleftrightarrow> (\<exists>ev. ev_heap s e = Some ev \<and> ev_remove ev \<noteq> 0 \<and> ev_type ev = EVENT_TIME \<and> e \<noteq> time_event_list s \<and>
     (ev_next ev \<noteq> 0 \<longrightarrow> (\<exists>n. ev_heap s (ev_next ev) = Some n \<and> ev_prev n = ev_prev ev)) \<and>
     (ev_prev ev \<noteq> 0 \<longrightarrow> (\<exists>n. ev_heap s (ev_prev ev) = Some n \<and> ev_next n = ev_next ev)))"

lemma queue_of_keeps:
  assumes "keeps h h' e" "\<And>x. x \<noteq> e \<Longrightarrow> list_of ts' fs' as' x = list_of ts fs as x"
  shows "queue_of h' ts' fs' as' = (queue_of h ts fs as)(e := queue_of h' ts' fs' as' e)"
proof (rule ext)
  fix x
  show "queue_of h' ts' fs' as' x = ((queue_of h ts fs as)(e := queue_of h' ts' fs' as' e)) x"
  proof (cases "x = e")
    case False
    then have "map_option payload (h' x) = map_option payload (h x)"
      using assms(1) by (simp add: keeps_def)
    then show ?thesis
      using False assms(2) [OF False] by (cases "h x"; cases "h' x") (auto simp: queue_of_def fun_upd_apply payload_def)
  qed (simp add: fun_upd_apply)
qed

lemma queue_of_fresh: "evs_rep s ts fs as \<Longrightarrow> queue_of (ev_heap s) ts fs as (ev_fresh s) = None"
  using fresh_notin [of s ts fs as] by (simp add: queue_of_def list_of_def)

lemma evs_rep_mem:
  assumes "evs_rep s ts fs as" "e \<in> set ts \<union> set fs \<union> set as"
  shows "e \<noteq> 0" "\<exists>ev. ev_heap s e = Some ev"
proof -
  have "e \<noteq> 0 \<and> (\<exists>ev. ev_heap s e = Some ev)" if "list_ok P (ev_heap s) p xs" "e \<in> set xs" for P p xs
    using that dseg_mem [of "ev_heap s" 0 p xs 0 e] by (auto simp: list_ok_def)
  then show "e \<noteq> 0" "\<exists>ev. ev_heap s e = Some ev"
    using assms unfolding evs_rep_def by blast+
qed

lemma queue_of_Some:
  assumes "evs_rep s ts fs as"
  shows "queue_of (ev_heap s) ts fs as e \<noteq> None \<longleftrightarrow> e \<in> set ts \<union> set fs \<union> set as"
  using evs_rep_mem(2) [OF assms] by (auto simp: queue_of_def list_of_def bind_eq_None_conv)

lemma evq_obtain:
  assumes "evq s Q"
  obtains ts fs as where "evs_rep s ts fs as" "Q = queue_of (ev_heap s) ts fs as" "sorted_wrt (>) fs" "sorted_wrt (>) as"
  using assms by (auto simp: evq_def)

lemma below_fresh:
  assumes "evs_rep s ts fs as" "e \<in> set ts \<union> set fs \<union> set as"
  shows "e < ev_fresh s"
  using evs_rep_mem(2) [OF assms] assms(1) by (auto simp: evs_rep_def dom_ok_def)

lemma evq_add:
  assumes r: "evs_rep s ts fs as" "evs_rep s' ts' fs' as'" and k: "keeps (ev_heap s) (ev_heap s') e"
    and l: "\<And>x. x \<noteq> e \<Longrightarrow> list_of ts' fs' as' x = list_of ts fs as x"
    and e: "list_of ts' fs' as' e = Some kd" "ev_heap s' e = Some ev" "ev_func ev = f" "kd = Timer \<Longrightarrow> ev_remove ev = 0"
    and o: "sorted_wrt (>) fs'" "sorted_wrt (>) as'"
  shows "evq s' ((queue_of (ev_heap s) ts fs as)(e \<mapsto> (kd, f)))"
proof -
  have "queue_of (ev_heap s') ts' fs' as' e = Some (kd, f)"
    using e by (simp add: queue_of_def)
  then have "queue_of (ev_heap s') ts' fs' as' = (queue_of (ev_heap s) ts fs as)(e \<mapsto> (kd, f))"
    using queue_of_keeps [OF k l] by simp
  then show ?thesis
    using r(2) o unfolding evq_def by metis
qed

lemma sorted_remove1: "sorted_wrt P xs \<Longrightarrow> sorted_wrt P (remove1 e xs)"
  by (induction xs) (auto dest: notin_set_remove1)

lemma evq_remove:
  assumes r: "evs_rep s ts fs as" "evs_rep s' (remove1 e ts) (remove1 e fs) (remove1 e as)" and k: "keeps (ev_heap s) (ev_heap s') e"
    and o: "sorted_wrt (>) fs" "sorted_wrt (>) as"
  shows "evq s' ((queue_of (ev_heap s) ts fs as)(e := None))"
proof -
  have d: "distinct ts" "distinct fs" "distinct as"
    using r(1) by (auto simp: evs_rep_def)
  have "queue_of (ev_heap s') (remove1 e ts) (remove1 e fs) (remove1 e as) e = None"
    using d by (simp add: queue_of_def list_of_def)
  then have "queue_of (ev_heap s') (remove1 e ts) (remove1 e fs) (remove1 e as) = (queue_of (ev_heap s) ts fs as)(e := None)"
    using queue_of_keeps [OF k, of "remove1 e ts" "remove1 e fs" "remove1 e as" ts fs as] by (simp add: list_of_def)
  then show ?thesis
    using r(2) sorted_remove1 [OF o(1)] sorted_remove1 [OF o(2)] unfolding evq_def by metis
qed

lemma dseg_mid:
  assumes "dseg h pv p (us @ e # vs) q" "h e = Some ev"
  shows "ev_prev ev = last (pv # us)" "ev_next ev = (if vs = [] then q else hd vs)"
proof -
  have "ev_prev ev = last (pv # us)" and v: "dseg h e (ev_next ev) vs q"
    using assms by (auto simp: dseg_append)
  then show "ev_prev ev = last (pv # us)" "ev_next ev = (if vs = [] then q else hd vs)"
    by (cases vs; simp)+
qed

lemma dseg_joint:
  assumes "dseg h 0 p (us @ vs) 0"
  shows "vs \<noteq> [] \<Longrightarrow> \<exists>n. h (hd vs) = Some n \<and> ev_prev n = last (0 # us)"
    "us \<noteq> [] \<Longrightarrow> \<exists>n. h (last us) = Some n \<and> ev_next n = head vs"
proof -
  show "\<exists>n. h (hd vs) = Some n \<and> ev_prev n = last (0 # us)" if "vs \<noteq> []"
    using assms that by (cases vs) (auto simp: dseg_append split: option.splits)
  show "\<exists>n. h (last us) = Some n \<and> ev_next n = head vs" if us: "us \<noteq> []"
  proof -
    obtain n where "h (last us) = Some n"
      using dseg_mem [OF assms, of "last us"] last_in_set [OF us] by auto
    moreover have "us @ vs = butlast us @ last us # vs"
      using us by simp
    then have "dseg h 0 p (butlast us @ last us # vs) 0"
      using assms by metis
    ultimately show ?thesis
      using dseg_mid(2) [of h 0 p "butlast us" "last us" vs 0 n] by (auto simp: head_def split: list.splits)
  qed
qed

lemma del_event_noop:
  assumes e: "ev_heap s e = Some ev" "e \<noteq> l"
    and n: "ev_next ev \<noteq> 0 \<Longrightarrow> \<exists>n. ev_heap s (ev_next ev) = Some n \<and> ev_prev n = ev_prev ev"
    and p: "ev_prev ev \<noteq> 0 \<Longrightarrow> \<exists>n. ev_heap s (ev_prev ev) = Some n \<and> ev_next n = ev_next ev"
  shows "del_event e l s = Some (l, s)"
proof -
  have "(if ev_next ev \<noteq> 0 then ev_upd (ev_next ev) (\<lambda>n. n\<lparr>ev_prev := ev_prev ev\<rparr>) s else Some s) = Some s"
    using n by (auto simp: ev_upd_def fun_upd_idem)
  moreover have "(if ev_prev ev \<noteq> 0 then ev_upd (ev_prev ev) (\<lambda>p. p\<lparr>ev_next := ev_next ev\<rparr>) s else Some s) = Some s"
    using p by (auto simp: ev_upd_def fun_upd_idem)
  ultimately show ?thesis
    unfolding del_event_def e(1) Option.bind.simps using e by simp
qed

lemma gone_remove: "gone e s \<Longrightarrow> remove_event e s = Some s"
  using del_event_noop [of s e _ "time_event_list s"] by (auto simp: gone_def remove_event_def)

lemma gone_removed:
  assumes r: "evs_rep s ts fs as" and e: "queue_of (ev_heap s) ts fs as e = Some (Due, f)"
    and r': "evs_rep (s\<lparr>ev_heap := h', time_event_list := head (remove1 e ts), fd_event_list := head (remove1 e fs),
        always_event_list := head (remove1 e as)\<rparr>) (remove1 e ts) (remove1 e fs) (remove1 e as)"
    and h: "relinked (ev_heap s) h' (set ts \<union> set fs \<union> set as - {e})"
  shows "gone e (s\<lparr>ev_heap := h', time_event_list := head (remove1 e ts), fd_event_list := head (remove1 e fs),
        always_event_list := head (remove1 e as)\<rparr>)"
proof -
  let ?s = "s\<lparr>ev_heap := h', time_event_list := head (remove1 e ts), fd_event_list := head (remove1 e fs),
        always_event_list := head (remove1 e as)\<rparr>"
  obtain ev where ev: "ev_heap s e = Some ev" "ev_remove ev \<noteq> 0" "e \<in> set ts"
    using e by (auto simp: queue_of_def list_of_def bind_eq_Some_conv split: if_splits)
  have h': "ev_heap ?s e = Some ev"
    using h ev(1) by (simp add: relinked_def)
  have l: "dseg (ev_heap s) 0 (time_event_list s) ts 0" "ev_type ev = EVENT_TIME" "distinct ts"
    using r ev by (auto simp: evs_rep_def list_ok_def is_time_def)
  obtain us vs where uv: "ts = us @ e # vs" "remove1 e ts = us @ vs"
    using split_mem [OF ev(3) l(3)] by blast
  have d: "dseg h' 0 (head (us @ vs)) (us @ vs) 0"
    using r' uv by (simp add: evs_rep_def list_ok_def)
  note link = dseg_mid [OF l(1) [unfolded uv(1)] ev(1)] dseg_joint [OF d]
  have m: "x \<noteq> 0" if "x \<in> set us \<union> set vs" for x
    using dseg_mem [OF d] that by auto
  have "e \<noteq> head (us @ vs)"
    using l(3) uv(1) evs_rep_mem(1) [OF r, of e] ev(3) by (cases us; cases vs) auto
  moreover have "ev_prev ev \<noteq> 0 \<Longrightarrow> us \<noteq> []" "ev_next ev \<noteq> 0 \<Longrightarrow> vs \<noteq> []"
    using link(1,2) by (auto split: if_splits)
  ultimately show ?thesis
    unfolding gone_def using h' ev(2) l(2) uv(2) link by (intro exI [of _ ev]) (auto simp: head_def split: list.splits)
qed

interpretation evl: event_queue evq evs.more add_always_event add_fd_event add_time_event resched_time_event remove_event gone
proof
  fix s :: "('cb, 'm) evs_scheme" and Q f
  assume "evq s Q"
  then obtain ts fs as where r: "evs_rep s ts fs as" and Q: "Q = queue_of (ev_heap s) ts fs as"
      and o: "sorted_wrt (>) fs" "sorted_wrt (>) as"
    by (rule evq_obtain)
  let ?e = "ev_fresh s"
  have o': "sorted_wrt (>) (?e # fs)" "sorted_wrt (>) (?e # as)"
    using o below_fresh [OF r] by auto
  note fr = fresh_notin [OF r] queue_of_fresh [OF r]
  show "Q 0 = None"
    using queue_of_Some [OF r, of 0] evs_rep_mem(1) [OF r, of 0] Q by blast
  show "\<exists>e s'. add_always_event f s = Some (e, s') \<and> e \<noteq> 0 \<and> Q e = None \<and> evq s' (Q(e \<mapsto> (Always, f))) \<and> evs.more s' = evs.more s"
  proof -
    obtain h' ev where h: "add_always_event f s = Some (?e, s\<lparr>ev_heap := h', ev_fresh := ?e + 1, always_event_list := ?e\<rparr>)"
        "evs_rep (s\<lparr>ev_heap := h', ev_fresh := ?e + 1, always_event_list := ?e\<rparr>) ts fs (?e # as)"
        "keeps (ev_heap s) h' ?e" "h' ?e = Some ev" "ev_func ev = f"
      using add_always_event_ok [OF r] by blast
    have "evq (s\<lparr>ev_heap := h', ev_fresh := ?e + 1, always_event_list := ?e\<rparr>) (Q(?e \<mapsto> (Always, f)))"
      unfolding Q by (rule evq_add [OF r h(2)]) (use h fr o o' in \<open>auto simp: list_of_def\<close>)
    then show ?thesis
      using h(1) fr Q by (intro exI [of _ ?e] exI) auto
  qed
  show "\<exists>e s'. add_fd_event fd wr f s = Some (e, s') \<and> e \<noteq> 0 \<and> Q e = None \<and> evq s' (Q(e \<mapsto> (Fd, f))) \<and> evs.more s' = evs.more s" for fd wr
  proof -
    obtain h' ev where h: "add_fd_event fd wr f s = Some (?e, s\<lparr>ev_heap := h', ev_fresh := ?e + 1, fd_event_list := ?e\<rparr>)"
        "evs_rep (s\<lparr>ev_heap := h', ev_fresh := ?e + 1, fd_event_list := ?e\<rparr>) ts (?e # fs) as"
        "keeps (ev_heap s) h' ?e" "h' ?e = Some ev" "ev_func ev = f"
      using add_fd_event_ok [OF r] by blast
    have "evq (s\<lparr>ev_heap := h', ev_fresh := ?e + 1, fd_event_list := ?e\<rparr>) (Q(?e \<mapsto> (Fd, f)))"
      unfolding Q by (rule evq_add [OF r h(2)]) (use h fr o o' in \<open>auto simp: list_of_def\<close>)
    then show ?thesis
      using h(1) fr Q by (intro exI [of _ ?e] exI) auto
  qed
  show "\<exists>e s'. add_time_event tr f s = Some (e, s') \<and> e \<noteq> 0 \<and> Q e = None \<and> evq s' (Q(e \<mapsto> (Timer, f))) \<and> evs.more s' = evs.more s" for tr
  proof -
    obtain h' l ev where h: "add_time_event tr f s = Some (?e, s\<lparr>ev_fresh := ?e + 1, ev_heap := h', time_event_list := l\<rparr>)"
        "evs_rep (s\<lparr>ev_fresh := ?e + 1, ev_heap := h', time_event_list := l\<rparr>) (place s tr ?e ts) fs as"
        "keeps (ev_heap s) h' ?e" "h' ?e = Some ev" "payload ev = (f, EVENT_TIME, 0, Ev_time tr)"
      using add_time_event_ok [OF r] by blast
    have st: "set (place s tr ?e ts) = insert ?e (set ts)"
      using fr by (simp add: place_set remove1_idem)
    have "evq (s\<lparr>ev_fresh := ?e + 1, ev_heap := h', time_event_list := l\<rparr>) (Q(?e \<mapsto> (Timer, f)))"
      unfolding Q by (rule evq_add [OF r h(2)]) (use h fr st o in \<open>auto simp: list_of_def payload_def\<close>)
    then show ?thesis
      using h(1) fr Q by (intro exI [of _ ?e] exI) auto
  qed
next
  fix s :: "('cb, 'm) evs_scheme" and Q e k f
  assume "evq s Q" and e: "Q e = Some (k, f)"
  then obtain ts fs as where r: "evs_rep s ts fs as" and Q: "Q = queue_of (ev_heap s) ts fs as"
      and o: "sorted_wrt (>) fs" "sorted_wrt (>) as"
    by (auto elim: evq_obtain)
  have "e \<in> set ts \<union> set fs \<union> set as"
    using queue_of_Some [OF r, of e] e Q by simp
  then obtain h' where h: "remove_event e s = Some (s\<lparr>ev_heap := h', time_event_list := head (remove1 e ts),
        fd_event_list := head (remove1 e fs), always_event_list := head (remove1 e as)\<rparr>)"
      "evs_rep (s\<lparr>ev_heap := h', time_event_list := head (remove1 e ts), fd_event_list := head (remove1 e fs),
        always_event_list := head (remove1 e as)\<rparr>) (remove1 e ts) (remove1 e fs) (remove1 e as)"
      "relinked (ev_heap s) h' (set ts \<union> set fs \<union> set as - {e})"
    using remove_event_ok [OF r] by blast
  have "evq (s\<lparr>ev_heap := h', time_event_list := head (remove1 e ts), fd_event_list := head (remove1 e fs),
        always_event_list := head (remove1 e as)\<rparr>) (Q(e := None))"
    unfolding Q by (rule evq_remove [OF r h(2) _ o]) (use keeps_relinked [OF h(3)] in simp)
  moreover have "k = Due \<longrightarrow> gone e (s\<lparr>ev_heap := h', time_event_list := head (remove1 e ts), fd_event_list := head (remove1 e fs),
        always_event_list := head (remove1 e as)\<rparr>)"
    using gone_removed [OF r, of e f h'] h e Q by simp
  ultimately show "\<exists>s'. remove_event e s = Some s' \<and> evq s' (Q(e := None)) \<and> evs.more s' = evs.more s \<and> (k = Due \<longrightarrow> gone e s')"
    using h(1) by (intro exI conjI) auto
next
  fix s :: "('cb, 'm) evs_scheme" and Q e k f tr
  assume "evq s Q" and e: "Q e = Some (k, f)" and k: "k = Timer \<or> k = Due"
  then obtain ts fs as where r: "evs_rep s ts fs as" and Q: "Q = queue_of (ev_heap s) ts fs as"
      and o: "sorted_wrt (>) fs" "sorted_wrt (>) as"
    by (auto elim: evq_obtain)
  have et: "e \<in> set ts"
    using e k Q by (auto simp: queue_of_def list_of_def bind_eq_Some_conv split: if_splits)
  then obtain ev where ev: "ev_heap s e = Some ev" "ev_type ev = EVENT_TIME" "ev_func ev = f"
    using r evs_rep_mem(2) [OF r, of e] e Q by (auto simp: evs_rep_def list_ok_def is_time_def queue_of_def bind_eq_Some_conv)
  have nf: "e \<notin> set fs \<union> set as" "distinct ts"
    using r et by (auto simp: evs_rep_def)
  obtain h' a ev' where h: "resched_time_event e tr s = Some (s\<lparr>ev_heap := h', time_event_list := a\<rparr>)"
      "evs_rep (s\<lparr>ev_heap := h', time_event_list := a\<rparr>) (place s tr e ts) fs as" "keeps (ev_heap s) h' e"
      "h' e = Some ev'" "payload ev' = (ev_func ev, EVENT_TIME, 0, Ev_time tr)"
    using resched_rep [OF r ev(1,2)] nf(1) et by blast
  have st: "set (place s tr e ts) = set ts"
    using et nf(2) by (auto simp: place_set)
  have "evq (s\<lparr>ev_heap := h', time_event_list := a\<rparr>) (Q(e \<mapsto> (Timer, f)))"
    unfolding Q by (rule evq_add [OF r h(2), where ev = ev']) (use h ev st et o in \<open>auto simp: list_of_def payload_def\<close>)
  then show "\<exists>s'. resched_time_event e tr s = Some s' \<and> evq s' (Q(e \<mapsto> (Timer, f))) \<and> evs.more s' = evs.more s"
    using h(1) by (intro exI) auto
qed

text \<open>What an operation on the event lists leaves alone.\<close>

lemma evs_frame:
  fixes w w' :: world
  assumes "evs.more w' = evs.more w"
  shows "tcbs w' = tcbs w" "tcblist w' = tcblist w" "nlist w' = nlist w" "sent w' = sent w" "now w' = now w" "isn w' = isn w"
    "maps w' = maps w" "tlist w' = tlist w" "num_tcp_maps w' = num_tcp_maps w" "calls w' = calls w" "umaps w' = umaps w"
    "ulist w' = ulist w" "socks w' = socks w" "udp_list w' = udp_list w" "udp_listener w' = udp_listener w"
  using assms by (cases w; cases w'; simp)+

text \<open>What the other components leave alone of the event lists.\<close>

lemma evq_frame [simp]:
  fixes w :: world
  shows "evq (w\<lparr>tcbs := a\<rparr>) Q = evq w Q" "evq (w\<lparr>tcblist := b\<rparr>) Q = evq w Q" "evq (w\<lparr>nlist := c\<rparr>) Q = evq w Q"
    "evq (w\<lparr>sent := d\<rparr>) Q = evq w Q" "evq (w\<lparr>maps := f\<rparr>) Q = evq w Q" "evq (w\<lparr>tlist := g\<rparr>) Q = evq w Q"
    "evq (w\<lparr>num_tcp_maps := h\<rparr>) Q = evq w Q" "evq (w\<lparr>calls := i\<rparr>) Q = evq w Q" "evq (w\<lparr>isn := j\<rparr>) Q = evq w Q"
    "evq (w\<lparr>now := k\<rparr>) Q = evq w Q" "evq (w\<lparr>umaps := l\<rparr>) Q = evq w Q" "evq (w\<lparr>ulist := m\<rparr>) Q = evq w Q"
    "evq (w\<lparr>socks := n\<rparr>) Q = evq w Q" "evq (w\<lparr>udp_list := p\<rparr>) Q = evq w Q" "evq (w\<lparr>udp_listener := us\<rparr>) Q = evq w Q"
  by (simp_all add: evq_def evs_rep_def)

lemma gone_frame [simp]:
  fixes w :: world
  shows "gone e (w\<lparr>tcbs := a\<rparr>) = gone e w" "gone e (w\<lparr>tcblist := b\<rparr>) = gone e w"
  by (simp_all add: gone_def)

lemma evq_start: "evq (start_world tv) Map.empty"
proof -
  have "evs_rep (start_world tv) [] [] []"
    by (simp add: start_world_def evs_rep_def list_ok_def dom_ok_def)
  moreover have "Map.empty = queue_of (ev_heap (start_world tv)) [] [] []"
    by (auto simp: queue_of_def list_of_def)
  ultimately show ?thesis
    unfolding evq_def by (intro exI [of _ "[]"] conjI) simp_all
qed

end
