(* ===== verification/Tcp.thy ===== *)
theory Tcp
  imports Icmp Tcb Event_Queue
begin

text \<open>
  The TCP of the daemon (\<^verbatim>\<open>src/tcp.c\<close>): segments sent, timers, and the calls the relay makes.
  The handler of received segments is in \<^verbatim>\<open>Tcp_Input\<close>. A function that takes a \<open>struct tcb *\<close> takes
  the address \<open>t\<close> and the state; \<open>ifc\<close> is the global \<open>iface\<close>. The debug stream \<open>fp\<close> of a tcb is not
  modelled: it is only written to.
\<close>

definition t_upd :: "ptr \<Rightarrow> (tcb \<Rightarrow> tcb) \<Rightarrow> world \<Rightarrow> world option" where
  "t_upd t f w = do { c \<leftarrow> tcbs w t; Some (w\<lparr>tcbs := (tcbs w)(t \<mapsto> f c)\<rparr>) }"

definition next_isn :: "world \<Rightarrow> u32 \<times> world" where
  "next_isn w = (let i = isn w + 1 in (push_bit 16 i, w\<lparr>isn := i\<rparr>))"

subsection \<open>Segments\<close>

definition make_tcp_hdr :: "tcb \<Rightarrow> byte list \<Rightarrow> int \<Rightarrow> int \<Rightarrow> int \<Rightarrow> (int \<times> byte list \<times> tcb) option" where
  "make_tcp_hdr t buf dlen flags optwords = do {
     let totlen = 4 * optwords + dlen + 60;
     buf \<leftarrow> mem_put buf 0 (replicate 60 0);
     buf \<leftarrow> mem_put buf 0 [0x60];
     buf \<leftarrow> PUT_16 buf 4 (totlen - 40);
     buf \<leftarrow> mem_put buf 6 [0x6];
     buf \<leftarrow> mem_put buf 7 [0x40];
     buf \<leftarrow> memcpy buf 8 (laddr t) 0 16;
     buf \<leftarrow> memcpy buf 24 (raddr t) 0 16;
     buf \<leftarrow> PUT_16 buf 40 (lport t);
     buf \<leftarrow> PUT_16 buf 42 (rport t);
     buf \<leftarrow> PUT_32 buf 44 (snd_nxt t);
     buf \<leftarrow> PUT_32 buf 48 (rcv_nxt t);
     buf \<leftarrow> mem_put buf 52 [word_of_int (push_bit 4 (optwords + 5))];
     buf \<leftarrow> mem_put buf 53 [word_of_int flags];
     buf \<leftarrow> PUT_16 buf 54 (uint (rcv_wnd t));
     sum \<leftarrow> make_cksum buf totlen;
     buf \<leftarrow> PUT_16 buf 56 (NOT sum);
     Some (totlen, buf, t\<lparr>last_acked := rcv_nxt t\<rparr>)
   }"

definition mark_for_if_write :: "ptr \<Rightarrow> world \<Rightarrow> world option" where
  "mark_for_if_write t w = do {
     c \<leftarrow> tcbs w t;
     if e_tcb_send c \<noteq> 0 then Some w
     else do {
       (e, w) \<leftarrow> add_always_event (Do_tcb_write t) w;
       t_upd t (\<lambda>c. c\<lparr>e_tcb_send := e\<rparr>) w
     }
   }"

definition tcp_accept :: "ptr \<Rightarrow> world \<Rightarrow> (int \<times> world) option" where
  "tcp_accept t w = do { w \<leftarrow> mark_for_if_write t w; Some (0, w) }"

definition tcp_get_raddr :: "ptr \<Rightarrow> world \<Rightarrow> byte list option" where
  "tcp_get_raddr t w = map_option raddr (tcbs w t)"

definition tcp_get_rport :: "ptr \<Rightarrow> world \<Rightarrow> int option" where
  "tcp_get_rport t w = map_option rport (tcbs w t)"

definition tcp_get_laddr :: "ptr \<Rightarrow> world \<Rightarrow> byte list option" where
  "tcp_get_laddr t w = map_option laddr (tcbs w t)"

definition tcp_get_lport :: "ptr \<Rightarrow> world \<Rightarrow> int option" where
  "tcp_get_lport t w = map_option lport (tcbs w t)"

text \<open>Removing a connection with its events, as four places of the code do.\<close>

definition drop_tcb :: "ptr \<Rightarrow> world \<Rightarrow> world option" where
  "drop_tcb t w = do {
     c \<leftarrow> tcbs w t;
     w \<leftarrow> (if e_tcb_send c \<noteq> 0 then remove_event (e_tcb_send c) w else Some w);
     w \<leftarrow> (if e_timeout c \<noteq> 0 then remove_event (e_timeout c) w else Some w);
     tcb_delete t w
   }"

definition tcp_remove :: "ptr \<Rightarrow> world \<Rightarrow> (int \<times> world) option" where
  "tcp_remove t w = do { w \<leftarrow> drop_tcb t w; Some (0, w) }"

text \<open>The difference of two \<open>unsigned int\<close>s, returned as an \<open>int\<close>.\<close>

definition window_size :: "tcb \<Rightarrow> int" where
  "window_size t = sint (snd_max t - snd_nxt t)"

definition window_update :: "tcb \<Rightarrow> int \<times> tcb" where
  "window_update t =
     (let t = (if snd_cwnd t = 0 then t\<lparr>snd_cwnd := mss t\<rparr> else t);
          t = (if snd_cwnd t > snd_wnd t then t\<lparr>snd_cwnd := snd_wnd t\<rparr> else t);
          t = t\<lparr>snd_max := snd_una t + snd_cwnd t\<rparr>
      in (window_size t, t))"

definition tcp_timeout :: "ptr \<Rightarrow> world \<Rightarrow> (int \<times> world) option" where
  "tcp_timeout t w = do {
     w \<leftarrow> t_upd t (\<lambda>c. snd (window_update
            (c\<lparr>e_timeout := 0, snd_nxt := snd_una c, rtt_mark := snd_una c - 1, snd_cwnd := 0\<rparr>))) w;
     w \<leftarrow> mark_for_if_write t w;
     Some (1, w)
   }"

definition tcp_fabricate_rst :: "iface \<Rightarrow> byte list \<Rightarrow> world \<Rightarrow> world option" where
  "tcp_fabricate_rst ifc data w = do {
     let p = get_buffer ifc 60;
     d \<leftarrow> mem_put (pb_d p) 0 (replicate 60 0);
     d \<leftarrow> mem_put d 0 [0x60];
     d \<leftarrow> PUT_16 d 4 20;
     d \<leftarrow> mem_put d 6 [0x6];
     d \<leftarrow> mem_put d 7 [0x40];
     src \<leftarrow> mem_sub data 24 16;
     d \<leftarrow> memcpy d 8 src 0 16;
     dst \<leftarrow> mem_sub data 8 16;
     d \<leftarrow> memcpy d 24 dst 0 16;
     lp \<leftarrow> GET_16 data 42;
     d \<leftarrow> PUT_16 d 40 lp;
     rp \<leftarrow> GET_16 data 40;
     d \<leftarrow> PUT_16 d 42 rp;
     ack \<leftarrow> GET_32 data 48;
     d \<leftarrow> PUT_32 d 44 ack;
     seq \<leftarrow> GET_32 data 44;
     d \<leftarrow> PUT_32 d 48 (seq + 1);
     d \<leftarrow> mem_put d 52 [word_of_int (push_bit 4 5)];
     d \<leftarrow> mem_put d 53 [0x14];
     sum \<leftarrow> make_cksum d 60;
     d \<leftarrow> PUT_16 d 56 (NOT sum);
     send_pkt ifc ((pb_set p d)\<lparr>pb_dlen := 60\<rparr>) w
   }"

definition tcp_send_rst :: "iface \<Rightarrow> ptr \<Rightarrow> world \<Rightarrow> world option" where
  "tcp_send_rst ifc t w = do {
     let p = get_buffer ifc 60;
     d \<leftarrow> mem_put (pb_d p) 0 (replicate 60 0);
     c \<leftarrow> tcbs w t;
     (_, d, c) \<leftarrow> make_tcp_hdr c d 0 0x14 0;
     let w = w\<lparr>tcbs := (tcbs w)(t \<mapsto> c)\<rparr>;
     w \<leftarrow> send_pkt ifc ((pb_set p d)\<lparr>pb_dlen := 60\<rparr>) w;
     t_upd t (\<lambda>c. c\<lparr>packets := packets c + 1\<rparr>) w
   }"

definition tcp_send_syn :: "iface \<Rightarrow> ptr \<Rightarrow> world \<Rightarrow> world option" where
  "tcp_send_syn ifc t w = do {
     let p = get_buffer ifc 68;
     d \<leftarrow> mem_put (pb_d p) 60 [2];
     d \<leftarrow> mem_put d 61 [4];
     d \<leftarrow> PUT_16 d 62 1216;
     c \<leftarrow> tcbs w t;
     (len, d, c) \<leftarrow> make_tcp_hdr c d 0 0x12 1;
     let w = w\<lparr>tcbs := (tcbs w)(t \<mapsto> c\<lparr>snd_nxt := snd_nxt c + 1\<rparr>)\<rparr>;
     w \<leftarrow> send_pkt ifc ((pb_set p d)\<lparr>pb_dlen := len\<rparr>) w;
     t_upd t (\<lambda>c. c\<lparr>packets := packets c + 1\<rparr>) w
   }"

subsection \<open>Closing\<close>

definition tcp_close :: "iface \<Rightarrow> ptr \<Rightarrow> int \<Rightarrow> world \<Rightarrow> (int \<times> world) option" where
  "tcp_close ifc t hard w = do {
     c \<leftarrow> tcbs w t;
     if hard \<noteq> 0 \<or> state c = TCP_SYN_RECVD then do {
       w \<leftarrow> tcp_send_rst ifc t w;
       w \<leftarrow> drop_tcb t w;
       Some (0, w)
     }
     else do {
       w \<leftarrow> t_upd t (\<lambda>c. c\<lparr>cb := False, rcv_wnd := 1000,
              state := (if state c = TCP_ESTABLISHED then TCP_FIN_WAIT_1 else TCP_LAST_ACK)\<rparr>) w;
       w \<leftarrow> mark_for_if_write t w;
       Some (0, w)
     }
   }"

subsection \<open>Sending data\<close>

text \<open>The sum is an \<open>int\<close>; like every compiler for the system the model wraps it round.\<close>

definition timeout_msec :: "tcb \<Rightarrow> int" where
  "timeout_msec t = (let m = int32 (srtt t + 4 * sdev t) in if m < 500 then 500 else if m > 30000 then 30000 else m)"

definition set_timeout :: "ptr \<Rightarrow> world \<Rightarrow> world option" where
  "set_timeout t w = do {
     c \<leftarrow> tcbs w t;
     let tr = time_future (now w) (timeout_msec c);
     (e, w) \<leftarrow> add_time_event tr (Tcp_timeout t) w;
     t_upd t (\<lambda>c. c\<lparr>e_timeout := e, timeout_mark := snd_nxt c\<rparr>) w
   }"

abbreviation (input) closing_state :: "int \<Rightarrow> bool" where
  "closing_state s \<equiv> s = TCP_FIN_WAIT_1 \<or> s = TCP_CLOSING \<or> s = TCP_LAST_ACK"

text \<open>The choice of what to send: the length, the flags, and the buffer with the data in place.\<close>

definition tcp_fill :: "tcb \<Rightarrow> byte list \<Rightarrow> (int \<times> int \<times> byte list) option" where
  "tcp_fill c d =
     (let wnd = window_size c in
      if wnd > 0 then do {
        ob \<leftarrow> outbuf c;
        let len = rb_avail ob (snd_nxt c);
        (len, flags, d) \<leftarrow>
          (if len > 0 then do {
             let len = (if len > uint (mss c) then uint (mss c) else len);
             let len = (if len > wnd then wnd else len);
             (len, data) \<leftarrow> rb_read ob (snd_nxt c) len;
             d \<leftarrow> mem_put d 60 data;
             Some (len, if rb_avail ob (snd_nxt c + word_of_int len) = 0 then 0x10 OR 0x8 else 0x10, d)
           }
           else Some (0, 0x10, d));
        Some (len,
              if len < wnd \<and> rb_avail ob (snd_nxt c + word_of_int len) = 0 \<and> closing_state (state c)
              then flags OR 0x1 else flags, d)
      }
      else Some (0, 0x10, d))"

definition tcp_send_and_ack :: "iface \<Rightarrow> ptr \<Rightarrow> world \<Rightarrow> (int \<times> world) option" where
  "tcp_send_and_ack ifc t w = do {
     c \<leftarrow> tcbs w t;
     let p = get_buffer ifc 1500;
     (len, flags, d) \<leftarrow> tcp_fill c (pb_d p);
     if len = 0 \<and> flags AND 0x1 = 0 \<and> last_acked c \<ge> rcv_nxt c then Some (0, w)
     else do {
       w \<leftarrow> (if e_timeout c = 0 \<and> len > 0 then set_timeout t w else Some w);
       c \<leftarrow> tcbs w t;
       let c = (if len > 0 \<and> rtt_mark c < snd_una c \<and> snd_nxt c \<ge> rtt_limit c
                then c\<lparr>rtt_mark := snd_nxt c, rtt_time := now w\<rparr> else c);
       (n, d, c) \<leftarrow> make_tcp_hdr c d len flags 0;
       let c = c\<lparr>snd_nxt := snd_nxt c + word_of_int len\<rparr>;
       let c = (if flags AND 0x1 \<noteq> 0 then c\<lparr>snd_nxt := snd_nxt c + 1\<rparr> else c);
       let c = (if rtt_limit c < snd_nxt c then c\<lparr>rtt_limit := snd_nxt c\<rparr> else c);
       let w = w\<lparr>tcbs := (tcbs w)(t \<mapsto> c)\<rparr>;
       w \<leftarrow> send_pkt ifc ((pb_set p d)\<lparr>pb_dlen := n\<rparr>) w;
       w \<leftarrow> t_upd t (\<lambda>c. c\<lparr>packets := packets c + 1\<rparr>) w;
       c \<leftarrow> tcbs w t;
       if window_size c > 0 \<and> (state c = TCP_ESTABLISHED \<or> closing_state (state c)) then do {
         ob \<leftarrow> outbuf c;
         Some (of_bool (rb_avail ob (snd_nxt c) > (if state c = TCP_ESTABLISHED then 0 else - 1)), w)
       }
       else Some (0, w)
     }
   }"

subsection \<open>The calls of the application\<close>

definition tcp_get_output_space :: "ptr \<Rightarrow> world \<Rightarrow> int option" where
  "tcp_get_output_space t w = do { c \<leftarrow> tcbs w t; ob \<leftarrow> outbuf c; Some (rb_left ob) }"

definition tcp_send :: "ptr \<Rightarrow> byte list \<Rightarrow> int \<Rightarrow> world \<Rightarrow> (int \<times> world) option" where
  "tcp_send t data len w = do {
     c \<leftarrow> tcbs w t;
     ob \<leftarrow> outbuf c;
     (_, ob) \<leftarrow> rb_write ob data len;
     let w = w\<lparr>tcbs := (tcbs w)(t \<mapsto> c\<lparr>outbuf := Some ob\<rparr>)\<rparr>;
     w \<leftarrow> (if window_size c > 0 then mark_for_if_write t w else Some w);
     Some (0, w)
   }"

text \<open>The bytes read are the second result.\<close>

definition tcp_read :: "ptr \<Rightarrow> int \<Rightarrow> world \<Rightarrow> (int \<times> byte list \<times> world) option" where
  "tcp_read t len w = do {
     c \<leftarrow> tcbs w t;
     ib \<leftarrow> inbuf c;
     let blocked = (rb_left ib = 0);
     let len = (if len > rb_avail ib (read_seq c) then rb_avail ib (read_seq c) else len);
     (len, data) \<leftarrow> rb_read ib (read_seq c) len;
     let c = c\<lparr>read_seq := read_seq c + word_of_int len\<rparr>;
     let ib = rb_advance ib (read_seq c);
     let c = c\<lparr>inbuf := Some ib, rcv_wnd := word_of_int (rb_left ib)\<rparr>;
     let c = (if blocked then c\<lparr>last_acked := last_acked c - 1\<rparr> else c);
     let w = w\<lparr>tcbs := (tcbs w)(t \<mapsto> c)\<rparr>;
     w \<leftarrow> (if blocked then mark_for_if_write t w else Some w);
     Some (len, data, w)
   }"

definition do_tcb_write :: "iface \<Rightarrow> ptr \<Rightarrow> world \<Rightarrow> (int \<times> world) option" where
  "do_tcb_write ifc t w = do {
     c \<leftarrow> tcbs w t;
     w \<leftarrow> (if state c = TCP_SYN_RECVD then do {
             w \<leftarrow> tcp_send_syn ifc t w;
             t_upd t (\<lambda>c. c\<lparr>e_tcb_send := 0\<rparr>) w
           }
           else do {
             (again, w) \<leftarrow> tcp_send_and_ack ifc t w;
             (if again = 0 then t_upd t (\<lambda>c. c\<lparr>e_tcb_send := 0\<rparr>) w else Some w)
           });
     c \<leftarrow> tcbs w t;
     Some (of_bool (e_tcb_send c \<noteq> 0), w)
   }"

definition tcp_listen :: "ptr \<Rightarrow> byte list option \<Rightarrow> int \<Rightarrow> world \<Rightarrow> world option" where
  "tcp_listen t la lp w = do {
     w \<leftarrow> tcb_new t la lp None 0 w;
     t_upd t (\<lambda>c. c\<lparr>cb := True, state := TCP_LISTEN\<rparr>) w
   }"

subsection \<open>The segments built\<close>

text \<open>The 60 bytes of IPv6 and TCP header; \<open>n\<close> is the IPv6 payload length, \<open>off\<close> the data offset byte.\<close>

definition tcp_bytes ::
    "int \<Rightarrow> byte list \<Rightarrow> byte list \<Rightarrow> int \<Rightarrow> int \<Rightarrow> u32 \<Rightarrow> u32 \<Rightarrow> byte \<Rightarrow> byte \<Rightarrow> int \<Rightarrow> int \<Rightarrow> byte list" where
  "tcp_bytes n src dst sp dp seq ack off flags wnd ck =
     [0x60, 0, 0, 0] @ be16 n @ [0x6, 0x40] @ src @ dst @ be16 sp @ be16 dp @ be32 seq @ be32 ack @ [off, flags] @
     be16 wnd @ be16 ck @ [0, 0]"

lemma length_tcp_bytes: "length src = 16 \<Longrightarrow> length dst = 16 \<Longrightarrow> length (tcp_bytes n src dst sp dp seq ack off flags wnd ck) = 60"
  by (simp add: tcp_bytes_def)

lemma replicate_60: "(replicate 60 0 :: byte list) =
    [0, 0, 0, 0, 0, 0, 0, 0] @ replicate 16 0 @ replicate 16 0 @ [0, 0, 0, 0, 0, 0, 0, 0, 0, 0, 0, 0, 0, 0, 0, 0, 0, 0, 0, 0]"
  by (simp add: numeral_eq_Suc)

lemma tcp_cksum:
  assumes a: "length src = 16" "length dst = 16" and l: "60 \<le> len" "nat len \<le> 60 + length rest"
  shows "\<exists>c. make_cksum (tcp_bytes n src dst sp dp seq ack off flags wnd 0 @ rest) len = Some c \<and>
    make_cksum (tcp_bytes n src dst sp dp seq ack off flags wnd (NOT c) @ rest) len = Some 0xffff"
proof -
  let ?a = "[0x60, 0, 0, 0] @ be16 n @ [0x6, 0x40] @ src @ dst @ be16 sp @ be16 dp @ be32 seq @ be32 ack @ [off, flags] @ be16 wnd"
  let ?b = "[0, 0] @ rest"
  have "even (length ?a)" "8 \<le> length ?a" "int (length ?a) + 2 \<le> len" "nat len \<le> length ?a + 2 + length ?b"
    using a l by simp_all
  from finish_cksum [OF this] show ?thesis
    by (simp add: tcp_bytes_def)
qed

lemma make_tcp_hdr_ok:
  assumes a: "length (laddr t) = 16" "length (raddr t) = 16" and l: "0 \<le> dlen" "0 \<le> opt" "nat (4 * opt + dlen + 60) \<le> length buf"
  shows "\<exists>ck. make_tcp_hdr t buf dlen flags opt = Some (4 * opt + dlen + 60,
      tcp_bytes (4 * opt + dlen + 20) (laddr t) (raddr t) (lport t) (rport t) (snd_nxt t) (rcv_nxt t)
        (word_of_int (push_bit 4 (opt + 5))) (word_of_int flags) (uint (rcv_wnd t)) ck @ drop 60 buf,
      t\<lparr>last_acked := rcv_nxt t\<rparr>) \<and>
    make_cksum (tcp_bytes (4 * opt + dlen + 20) (laddr t) (raddr t) (lport t) (rport t) (snd_nxt t) (rcv_nxt t)
        (word_of_int (push_bit 4 (opt + 5))) (word_of_int flags) (uint (rcv_wnd t)) ck @ drop 60 buf) (4 * opt + dlen + 60) = Some 0xffff"
proof -
  let ?n = "4 * opt + dlen + 60"
  let ?h = "tcp_bytes (4 * opt + dlen + 20) (laddr t) (raddr t) (lport t) (rport t) (snd_nxt t) (rcv_nxt t)
        (word_of_int (push_bit 4 (opt + 5))) (word_of_int flags) (uint (rcv_wnd t))"
  have n: "60 \<le> ?n" "nat ?n \<le> 60 + length (drop 60 buf)" "60 \<le> length buf"
    using l by linarith+ (use l in auto)
  obtain c where c: "make_cksum (?h 0 @ drop 60 buf) ?n = Some c" "make_cksum (?h (NOT c) @ drop 60 buf) ?n = Some 0xffff"
    using tcp_cksum [OF a n(1,2)] by blast
  have e: "?n - 40 = 4 * opt + dlen + 20"
    by simp
  have p0: "mem_put buf 0 (replicate 60 0) = Some (replicate 60 0 @ drop 60 buf)"
    using n(3) by (simp add: mem_put_def)
  have "make_tcp_hdr t buf dlen flags opt = Some (?n, ?h (NOT c) @ drop 60 buf, t\<lparr>last_acked := rcv_nxt t\<rparr>)"
    unfolding make_tcp_hdr_def Let_def p0 Option.bind.simps unfolding replicate_60 e
    using a c(1) by (simp add: put_simps tcp_bytes_def)
  then show ?thesis
    using c(2) by blast
qed

subsection \<open>Connections\<close>

text \<open>A connection past \<open>LISTEN\<close>: addresses, buffers and the fixed segment size.\<close>

definition conn_ok :: "tcb \<Rightarrow> bool" where
  "conn_ok c \<longleftrightarrow>
     length (laddr c) = 16 \<and> length (raddr c) = 16 \<and> mss c = 1220 \<and>
     (\<exists>ib. inbuf c = Some ib \<and> ringbuf_ok ib \<and> buf_size ib = 16384) \<and>
     (\<exists>ob. outbuf c = Some ob \<and> ringbuf_ok ob \<and> buf_size ob = 16384)"

text \<open>The bytes of the output buffer from a sequence number on.\<close>

definition from_seq :: "ringbuf \<Rightarrow> u32 \<Rightarrow> byte list" where
  "from_seq r s = (if rb_avail r s > 0 then drop (nat (used r - rb_avail r s)) (content r) else [])"

lemma length_from_seq: "ringbuf_ok r \<Longrightarrow> int (length (from_seq r s)) = max 0 (rb_avail r s)"
  using length_content [of r] by (auto simp: from_seq_def rb_avail_def Let_def)

lemma rb_read_from_seq:
  assumes "ringbuf_ok r" "0 < rb_avail r s" "0 \<le> n" "n \<le> rb_avail r s"
  shows "rb_read r s n = Some (n, take (nat n) (from_seq r s))"
proof -
  have a: "rb_avail r s = sint (w_seq r - s)" "sint (w_seq r - s) \<le> used r"
    using assms(2) by (auto simp: rb_avail_def Let_def split: if_splits)
  show ?thesis
    using rb_read_ok [OF assms(1) refl, of s n] a assms by (simp add: from_seq_def min_def)
qed

text \<open>How much \<open>tcp_fill\<close> sends, and with which flags.\<close>

definition send_len :: "tcb \<Rightarrow> ringbuf \<Rightarrow> int" where
  "send_len c ob = (if window_size c > 0 then min (min (int (length (from_seq ob (snd_nxt c)))) (uint (mss c))) (window_size c) else 0)"

definition send_fin :: "tcb \<Rightarrow> ringbuf \<Rightarrow> bool" where
  "send_fin c ob \<longleftrightarrow>
     send_len c ob < window_size c \<and> rb_avail ob (snd_nxt c + word_of_int (send_len c ob)) = 0 \<and> closing_state (state c)"

definition send_flags :: "tcb \<Rightarrow> ringbuf \<Rightarrow> int" where
  "send_flags c ob =
     (let f = (if send_len c ob > 0 \<and> rb_avail ob (snd_nxt c + word_of_int (send_len c ob)) = 0 then 0x18 else 0x10)
      in if send_fin c ob then f OR 1 else f)"

lemma send_len_bounds: "0 \<le> send_len c ob" "send_len c ob \<le> uint (mss c)" "send_len c ob \<le> int (length (from_seq ob (snd_nxt c)))"
  by (auto simp: send_len_def)

lemma or_18: "(0x10 OR 0x8 :: int) = 0x18"
  by simp

lemma tcp_fill_ok:
  assumes c: "conn_ok c" "outbuf c = Some ob" and d: "length d = 1500"
  shows "tcp_fill c d = Some (send_len c ob, send_flags c ob,
    take 60 d @ take (nat (send_len c ob)) (from_seq ob (snd_nxt c)) @ drop (60 + nat (send_len c ob)) d)"
proof -
  have ob: "ringbuf_ok ob" and m: "uint (mss c) = 1220"
    using c by (auto simp: conn_ok_def)
  let ?a = "rb_avail ob (snd_nxt c)" and ?w = "window_size c" and ?n = "send_len c ob"
  have la: "int (length (from_seq ob (snd_nxt c))) = max 0 ?a"
    by (rule length_from_seq [OF ob])
  consider (closed) "?w \<le> 0" | (idle) "?w > 0" "?a \<le> 0" | (data) "?w > 0" "?a > 0"
    by linarith
  then show ?thesis
  proof cases
    case closed
    then have "?n = 0"
      by (simp add: send_len_def)
    then show ?thesis
      using closed by (simp add: tcp_fill_def send_flags_def send_fin_def Let_def append_take_drop_id)
  next
    case idle
    then have n: "?n = 0"
      using la by (simp add: send_len_def)
    then show ?thesis
      using idle c(2) by (simp add: tcp_fill_def send_flags_def send_fin_def Let_def append_take_drop_id)
  next
    case data
    have n: "?n = (if (if ?a > 1220 then 1220 else ?a) > ?w then ?w else (if ?a > 1220 then 1220 else ?a))" "0 < ?n" "?n \<le> ?a" "?n \<le> 1220"
      using data la m by (auto simp: send_len_def min_def)
    have rd: "rb_read ob (snd_nxt c) ?n = Some (?n, take (nat ?n) (from_seq ob (snd_nxt c)))"
      using rb_read_from_seq [OF ob data(2)] n by simp
    have len: "length (take (nat ?n) (from_seq ob (snd_nxt c))) = nat ?n"
      using n la by simp
    have put: "mem_put d 60 (take (nat ?n) (from_seq ob (snd_nxt c))) =
        Some (take 60 d @ take (nat ?n) (from_seq ob (snd_nxt c)) @ drop (60 + nat ?n) d)"
      using n d len by (simp add: mem_put_def)
    show ?thesis
      unfolding tcp_fill_def Let_def m c(2) Option.bind.simps n(1) [symmetric] rd using data put n(2)
      by (simp add: send_flags_def send_fin_def Let_def)
  qed
qed

text \<open>The tcb after a segment has been sent; \<open>e\<close> is the timer set, if one was.\<close>

definition mark_rtt :: "int \<Rightarrow> timeval \<Rightarrow> tcb \<Rightarrow> tcb" where
  "mark_rtt len tv c =
     (if len > 0 \<and> rtt_mark c < snd_una c \<and> snd_nxt c \<ge> rtt_limit c then c\<lparr>rtt_mark := snd_nxt c, rtt_time := tv\<rparr> else c)"

definition bump_nxt :: "int \<Rightarrow> bool \<Rightarrow> tcb \<Rightarrow> tcb" where
  "bump_nxt len fin c =
     (if fin then c\<lparr>last_acked := rcv_nxt c, snd_nxt := snd_nxt c + word_of_int len + 1\<rparr>
      else c\<lparr>last_acked := rcv_nxt c, snd_nxt := snd_nxt c + word_of_int len\<rparr>)"

definition raise_limit :: "tcb \<Rightarrow> tcb" where
  "raise_limit c = (if rtt_limit c < snd_nxt c then c\<lparr>rtt_limit := snd_nxt c\<rparr> else c)"

definition after_send :: "tcb \<Rightarrow> ringbuf \<Rightarrow> eptr \<Rightarrow> timeval \<Rightarrow> tcb" where
  "after_send c ob e tv =
     (let len = send_len c ob;
          c' = (if e_timeout c = 0 \<and> len > 0 then c\<lparr>e_timeout := e, timeout_mark := snd_nxt c\<rparr> else c);
          c' = raise_limit (bump_nxt len (send_fin c ob) (mark_rtt len tv c'))
      in c'\<lparr>packets := packets c' + 1\<rparr>)"

lemma after_send_simps [simp]:
  "state (after_send c ob e tv) = state c" "laddr (after_send c ob e tv) = laddr c" "raddr (after_send c ob e tv) = raddr c"
  "lport (after_send c ob e tv) = lport c" "rport (after_send c ob e tv) = rport c" "inbuf (after_send c ob e tv) = inbuf c"
  "outbuf (after_send c ob e tv) = outbuf c" "app_data (after_send c ob e tv) = app_data c" "cb (after_send c ob e tv) = cb c"
  "snd_una (after_send c ob e tv) = snd_una c" "snd_max (after_send c ob e tv) = snd_max c" "mss (after_send c ob e tv) = mss c"
  "rcv_nxt (after_send c ob e tv) = rcv_nxt c" "rcv_wnd (after_send c ob e tv) = rcv_wnd c" "last_acked (after_send c ob e tv) = rcv_nxt c"
  "e_tcb_send (after_send c ob e tv) = e_tcb_send c" "read_seq (after_send c ob e tv) = read_seq c"
  "e_timeout (after_send c ob e tv) = (if e_timeout c = 0 \<and> send_len c ob > 0 then e else e_timeout c)"
  "snd_nxt (after_send c ob e tv) = snd_nxt c + word_of_int (send_len c ob) + (if send_fin c ob then 1 else 0)"
  by (simp_all add: after_send_def Let_def mark_rtt_def bump_nxt_def raise_limit_def)

lemma send_flags_fin: "send_flags c ob AND 1 = 0 \<longleftrightarrow> \<not> send_fin c ob"
  by (simp add: send_flags_def Let_def)

subsection \<open>Events of a connection\<close>

lemma more_tcbs:
  fixes w w' :: world
  assumes "evs.more w' = evs.more w"
  shows "evs.more (w'\<lparr>tcbs := f\<rparr>) = evs.more (w\<lparr>tcbs := f\<rparr>)"
  using assms by (cases w; cases w') simp

lemma mark_ok:
  assumes c: "tcbs w t = Some c" and q: "evq w Q"
  shows "\<exists>w' e. mark_for_if_write t w = Some w' \<and> e \<noteq> 0 \<and>
    (if e_tcb_send c \<noteq> 0 then e = e_tcb_send c \<and> w' = w
     else Q e = None \<and> evq w' (Q(e \<mapsto> (Always, Do_tcb_write t))) \<and>
       evs.more w' = evs.more (w\<lparr>tcbs := (tcbs w)(t \<mapsto> c\<lparr>e_tcb_send := e\<rparr>)\<rparr>))"
proof (cases "e_tcb_send c = 0")
  case True
  obtain e w1 where e: "add_always_event (Do_tcb_write t) w = Some (e, w1)" "e \<noteq> 0" "Q e = None"
      "evq w1 (Q(e \<mapsto> (Always, Do_tcb_write t)))" "evs.more w1 = evs.more w"
    using evl.always_law [OF q] by blast
  have t: "tcbs w1 = tcbs w"
    by (rule evs_frame(1) [OF e(5)])
  then have "mark_for_if_write t w = Some (w1\<lparr>tcbs := (tcbs w)(t \<mapsto> c\<lparr>e_tcb_send := e\<rparr>)\<rparr>)"
    using True c e(1) by (simp add: mark_for_if_write_def t_upd_def)
  then show ?thesis
    using True e more_tcbs [OF e(5)] by (intro exI [of _ "w1\<lparr>tcbs := (tcbs w)(t \<mapsto> c\<lparr>e_tcb_send := e\<rparr>)\<rparr>"] exI [of _ e]) simp
qed (use c in \<open>simp add: mark_for_if_write_def\<close>)

lemma set_timeout_ok:
  assumes c: "tcbs w t = Some c" and q: "evq w Q"
  shows "\<exists>w' e. set_timeout t w = Some w' \<and> e \<noteq> 0 \<and> Q e = None \<and> evq w' (Q(e \<mapsto> (Timer, Tcp_timeout t))) \<and>
     evs.more w' = evs.more (w\<lparr>tcbs := (tcbs w)(t \<mapsto> c\<lparr>e_timeout := e, timeout_mark := snd_nxt c\<rparr>)\<rparr>)"
proof -
  obtain e w1 where e: "add_time_event (time_future (now w) (timeout_msec c)) (Tcp_timeout t) w = Some (e, w1)" "e \<noteq> 0" "Q e = None"
      "evq w1 (Q(e \<mapsto> (Timer, Tcp_timeout t)))" "evs.more w1 = evs.more w"
    using evl.time_law [OF q] by blast
  have t: "tcbs w1 = tcbs w"
    by (rule evs_frame(1) [OF e(5)])
  let ?w = "w1\<lparr>tcbs := (tcbs w)(t \<mapsto> c\<lparr>e_timeout := e, timeout_mark := snd_nxt c\<rparr>)\<rparr>"
  have "set_timeout t w = Some ?w"
    using t c e(1) by (simp add: set_timeout_def t_upd_def Let_def)
  then show ?thesis
    using e more_tcbs [OF e(5)] by (intro exI [of _ ?w] exI [of _ e]) simp
qed

subsection \<open>Segments over a driver\<close>

context link_driver
begin

lemma segment_ok:
  assumes a: "length (laddr c) = 16" "length (raddr c) = 16"
    and l: "0 \<le> len" "0 \<le> opt" "4 * opt + len + 60 \<le> n" and d: "length d = nat n"
  shows "\<exists>ck d'. make_tcp_hdr c d len flags opt = Some (4 * opt + len + 60, d', c\<lparr>last_acked := rcv_nxt c\<rparr>) \<and>
    sendable head ((pb_set (get_buffer ifc n) d')\<lparr>pb_dlen := 4 * opt + len + 60\<rparr>) \<and>
    packet ((pb_set (get_buffer ifc n) d')\<lparr>pb_dlen := 4 * opt + len + 60\<rparr>) =
      tcp_bytes (4 * opt + len + 20) (laddr c) (raddr c) (lport c) (rport c) (snd_nxt c) (rcv_nxt c)
        (word_of_int (push_bit 4 (opt + 5))) (word_of_int flags) (uint (rcv_wnd c)) ck @ take (nat (4 * opt + len)) (drop 60 d) \<and>
    make_cksum (packet ((pb_set (get_buffer ifc n) d')\<lparr>pb_dlen := 4 * opt + len + 60\<rparr>)) (4 * opt + len + 60) = Some 0xffff"
proof -
  let ?n = "4 * opt + len + 60"
  let ?h = "tcp_bytes (4 * opt + len + 20) (laddr c) (raddr c) (lport c) (rport c) (snd_nxt c) (rcv_nxt c)
        (word_of_int (push_bit 4 (opt + 5))) (word_of_int flags) (uint (rcv_wnd c))"
  have n: "nat ?n \<le> length d" "60 \<le> length d"
    using l d by linarith+
  obtain ck where h: "make_tcp_hdr c d len flags opt = Some (?n, ?h ck @ drop 60 d, c\<lparr>last_acked := rcv_nxt c\<rparr>)"
      "make_cksum (?h ck @ drop 60 d) ?n = Some 0xffff"
    using make_tcp_hdr_ok [OF a l(1,2) n(1)] by blast
  let ?d = "?h ck @ drop 60 d"
  have ld: "length ?d = nat n"
    using n(2) d length_tcp_bytes [OF a] by simp
  have n40: "40 \<le> ?n" "nat ?n = 60 + nat (4 * opt + len)"
    using l by simp_all
  note q = buffer_done [OF ld n40(1) l(3)]
  have "packet ((pb_set (get_buffer ifc n) ?d)\<lparr>pb_dlen := ?n\<rparr>) = ?h ck @ take (nat (4 * opt + len)) (drop 60 d)"
    unfolding q(3) n40(2) using length_tcp_bytes [OF a] by simp
  moreover have "make_cksum (packet ((pb_set (get_buffer ifc n) ?d)\<lparr>pb_dlen := ?n\<rparr>)) ?n = Some 0xffff"
    unfolding q(3) using make_cksum_take [of ?n ?d] h(2) ld n(1) d l by simp
  ultimately show ?thesis
    using h(1) q(1) by blast
qed


text \<open>Sending a segment of a connection and counting it.\<close>

lemma send_counted:
  assumes q: "sendable head q" and ok: "nd_ok ifc head (nlist w)"
  shows "\<exists>ns fs. do { w \<leftarrow> send_pkt ifc q (w\<lparr>tcbs := (tcbs w)(t \<mapsto> c)\<rparr>); t_upd t (\<lambda>c. c\<lparr>packets := packets c + 1\<rparr>) w } =
      Some (w\<lparr>tcbs := (tcbs w)(t \<mapsto> c\<lparr>packets := packets c + 1\<rparr>), nlist := ns, sent := sent w @ fs\<rparr>) \<and>
    nd_ok ifc head ns \<and> handed_over ifc head q (nlist w) ns fs"
proof -
  have "nd_ok ifc head (nlist (w\<lparr>tcbs := (tcbs w)(t \<mapsto> c)\<rparr>))"
    using ok by simp
  from send_pkt_ok [OF q this] obtain ns fs where
    "send_pkt ifc q (w\<lparr>tcbs := (tcbs w)(t \<mapsto> c)\<rparr>) = Some (w\<lparr>tcbs := (tcbs w)(t \<mapsto> c), nlist := ns, sent := sent w @ fs\<rparr>)"
    "nd_ok ifc head ns" "handed_over ifc head q (nlist w) ns fs"
    by auto
  then show ?thesis
    by (intro exI [of _ ns] exI [of _ fs]) (simp add: t_upd_def)
qed

lemma tcp_send_rst_ok:
  assumes c: "tcbs w t = Some c" and a: "length (laddr c) = 16" "length (raddr c) = 16" and ok: "nd_ok ifc head (nlist w)"
  shows "\<exists>ck q ns fs. tcp_send_rst ifc t w = Some (w\<lparr>tcbs := (tcbs w)(t \<mapsto> c\<lparr>last_acked := rcv_nxt c, packets := packets c + 1\<rparr>),
      nlist := ns, sent := sent w @ fs\<rparr>) \<and> nd_ok ifc head ns \<and> handed_over ifc head q (nlist w) ns fs \<and> sendable head q \<and>
    packet q = tcp_bytes 20 (laddr c) (raddr c) (lport c) (rport c) (snd_nxt c) (rcv_nxt c) 0x50 0x14 (uint (rcv_wnd c)) ck \<and>
    make_cksum (packet q) 60 = Some 0xffff"
proof -
  have z: "mem_put (pb_d (get_buffer ifc 60)) 0 (replicate 60 0) = Some (replicate 60 0)"
    by (simp add: buffer_d mem_put_def)
  obtain ck d' where d: "make_tcp_hdr c (replicate 60 0) 0 0x14 0 = Some (60, d', c\<lparr>last_acked := rcv_nxt c\<rparr>)"
      "sendable head ((pb_set (get_buffer ifc 60) d')\<lparr>pb_dlen := 60\<rparr>)"
      "packet ((pb_set (get_buffer ifc 60) d')\<lparr>pb_dlen := 60\<rparr>) =
        tcp_bytes 20 (laddr c) (raddr c) (lport c) (rport c) (snd_nxt c) (rcv_nxt c) 0x50 0x14 (uint (rcv_wnd c)) ck"
      "make_cksum (packet ((pb_set (get_buffer ifc 60) d')\<lparr>pb_dlen := 60\<rparr>)) 60 = Some 0xffff"
    using segment_ok [OF a, where len = 0 and opt = 0 and n = 60 and d = "replicate 60 0" and flags = "0x14"] by (auto simp: push_bit_eq_mult)
  obtain ns fs where s: "do { w \<leftarrow> send_pkt ifc ((pb_set (get_buffer ifc 60) d')\<lparr>pb_dlen := 60\<rparr>) (w\<lparr>tcbs := (tcbs w)(t \<mapsto> c\<lparr>last_acked := rcv_nxt c\<rparr>)\<rparr>);
        t_upd t (\<lambda>c. c\<lparr>packets := packets c + 1\<rparr>) w } =
      Some (w\<lparr>tcbs := (tcbs w)(t \<mapsto> c\<lparr>last_acked := rcv_nxt c, packets := packets c + 1\<rparr>), nlist := ns, sent := sent w @ fs\<rparr>)"
      "nd_ok ifc head ns" "handed_over ifc head ((pb_set (get_buffer ifc 60) d')\<lparr>pb_dlen := 60\<rparr>) (nlist w) ns fs"
    using send_counted [OF d(2) ok, where t = t and c = "c\<lparr>last_acked := rcv_nxt c\<rparr>"] by auto
  have "tcp_send_rst ifc t w = Some (w\<lparr>tcbs := (tcbs w)(t \<mapsto> c\<lparr>last_acked := rcv_nxt c, packets := packets c + 1\<rparr>), nlist := ns, sent := sent w @ fs\<rparr>)"
    unfolding tcp_send_rst_def Let_def z Option.bind.simps c d(1) prod.case by (rule s(1))
  then show ?thesis
    using s(2,3) d(2-4) by blast
qed

lemma tcp_send_syn_ok:
  assumes c: "tcbs w t = Some c" and a: "length (laddr c) = 16" "length (raddr c) = 16" and ok: "nd_ok ifc head (nlist w)"
  shows "\<exists>ck q ns fs. tcp_send_syn ifc t w = Some (w\<lparr>tcbs := (tcbs w)(t \<mapsto> c\<lparr>last_acked := rcv_nxt c, snd_nxt := snd_nxt c + 1, packets := packets c + 1\<rparr>),
      nlist := ns, sent := sent w @ fs\<rparr>) \<and> nd_ok ifc head ns \<and> handed_over ifc head q (nlist w) ns fs \<and> sendable head q \<and>
    packet q = tcp_bytes 24 (laddr c) (raddr c) (lport c) (rport c) (snd_nxt c) (rcv_nxt c) 0x60 0x12 (uint (rcv_wnd c)) ck @ [2, 4, 4, 0xc0] \<and>
    make_cksum (packet q) 64 = Some 0xffff"
proof -
  let ?d = "replicate 60 0 @ [2, 4, 4, 0xc0] @ replicate 4 0 :: byte list"
  have z: "do { d \<leftarrow> mem_put (pb_d (get_buffer ifc 68)) 60 [2]; d \<leftarrow> mem_put d 61 [4]; PUT_16 d 62 1216 } = Some ?d"
  proof -
    have r: "pb_d (get_buffer ifc 68) = replicate 60 0 @ [0] @ [0, 0, 0] @ replicate 4 0"
      by (simp add: buffer_d numeral_eq_Suc)
    have "mem_put (replicate 60 0 @ [0] @ [0, 0, 0] @ replicate 4 0) 60 [2] = Some (replicate 60 0 @ [2] @ [0, 0, 0] @ replicate 4 (0 :: byte))"
      by (rule mem_put_mid) simp_all
    moreover have "mem_put ((replicate 60 0 @ [2]) @ [0] @ [0, 0] @ replicate 4 0) 61 [4] = Some ((replicate 60 0 @ [2]) @ [4] @ [0, 0] @ replicate 4 (0 :: byte))"
      by (rule mem_put_mid) simp_all
    moreover have "PUT_16 ((replicate 60 0 @ [2, 4]) @ [0, 0] @ replicate 4 0) 62 1216 = Some ((replicate 60 0 @ [2, 4]) @ [4, 0xc0] @ replicate 4 0)"
      using PUT_16_mid [of "replicate 60 0 @ [2, 4]" 62 "[0, 0]" "replicate 4 0" 1216] by (simp add: drop_bit_eq_div and_0xff)
    ultimately show ?thesis
      unfolding r by simp
  qed
  obtain ck d' where d: "make_tcp_hdr c ?d 0 0x12 1 = Some (64, d', c\<lparr>last_acked := rcv_nxt c\<rparr>)"
      "sendable head ((pb_set (get_buffer ifc 68) d')\<lparr>pb_dlen := 64\<rparr>)"
      "packet ((pb_set (get_buffer ifc 68) d')\<lparr>pb_dlen := 64\<rparr>) =
        tcp_bytes 24 (laddr c) (raddr c) (lport c) (rport c) (snd_nxt c) (rcv_nxt c) 0x60 0x12 (uint (rcv_wnd c)) ck @ [2, 4, 4, 0xc0]"
      "make_cksum (packet ((pb_set (get_buffer ifc 68) d')\<lparr>pb_dlen := 64\<rparr>)) 64 = Some 0xffff"
    using segment_ok [OF a, where len = 0 and opt = 1 and n = 68 and d = ?d and flags = "0x12"] by (auto simp: push_bit_eq_mult)
  let ?c = "c\<lparr>last_acked := rcv_nxt c, snd_nxt := snd_nxt c + 1\<rparr>"
  obtain ns fs where s: "do { w \<leftarrow> send_pkt ifc ((pb_set (get_buffer ifc 68) d')\<lparr>pb_dlen := 64\<rparr>) (w\<lparr>tcbs := (tcbs w)(t \<mapsto> ?c)\<rparr>);
        t_upd t (\<lambda>c. c\<lparr>packets := packets c + 1\<rparr>) w } =
      Some (w\<lparr>tcbs := (tcbs w)(t \<mapsto> ?c\<lparr>packets := packets c + 1\<rparr>), nlist := ns, sent := sent w @ fs\<rparr>)"
      "nd_ok ifc head ns" "handed_over ifc head ((pb_set (get_buffer ifc 68) d')\<lparr>pb_dlen := 64\<rparr>) (nlist w) ns fs"
    using send_counted [OF d(2) ok, where t = t and c = ?c] by auto
  have "tcp_send_syn ifc t w = do { d \<leftarrow> do { d \<leftarrow> mem_put (pb_d (get_buffer ifc 68)) 60 [2]; d \<leftarrow> mem_put d 61 [4]; PUT_16 d 62 1216 };
      (len, d, c) \<leftarrow> make_tcp_hdr c d 0 0x12 1;
      w \<leftarrow> send_pkt ifc ((pb_set (get_buffer ifc 68) d)\<lparr>pb_dlen := len\<rparr>) (w\<lparr>tcbs := (tcbs w)(t \<mapsto> c\<lparr>snd_nxt := snd_nxt c + 1\<rparr>)\<rparr>);
      t_upd t (\<lambda>c. c\<lparr>packets := packets c + 1\<rparr>) w }"
    unfolding tcp_send_syn_def Let_def c by (simp add: bind_assoc)
  also have "\<dots> = Some (w\<lparr>tcbs := (tcbs w)(t \<mapsto> ?c\<lparr>packets := packets c + 1\<rparr>), nlist := ns, sent := sent w @ fs\<rparr>)"
    unfolding z Option.bind.simps d(1) prod.case using s(1) by simp
  finally show ?thesis
    using s(2,3) d(2-4) by blast
qed


text \<open>The segment \<open>tcp_send_and_ack\<close> sends.\<close>

lemma tcp_send_and_ack_ok:
  assumes c: "tcbs w t = Some c" "conn_ok c" "outbuf c = Some ob" and ok: "nd_ok ifc head (nlist w)" and q: "evq w Q"
    and todo: "\<not> (send_len c ob = 0 \<and> \<not> send_fin c ob \<and> last_acked c \<ge> rcv_nxt c)"
  shows "\<exists>r w' e ck p ns fs. tcp_send_and_ack ifc t w = Some (r, w') \<and>
    evs.more w' = evs.more (w\<lparr>tcbs := (tcbs w)(t \<mapsto> after_send c ob e (now w)), nlist := ns, sent := sent w @ fs\<rparr>) \<and>
    (if e_timeout c = 0 \<and> send_len c ob > 0
     then e \<noteq> 0 \<and> Q e = None \<and> evq w' (Q(e \<mapsto> (Timer, Tcp_timeout t))) else evq w' Q) \<and>
    nd_ok ifc head ns \<and> handed_over ifc head p (nlist w) ns fs \<and> sendable head p \<and>
    packet p = tcp_bytes (send_len c ob + 20) (laddr c) (raddr c) (lport c) (rport c) (snd_nxt c) (rcv_nxt c) 0x50
      (word_of_int (send_flags c ob)) (uint (rcv_wnd c)) ck @ take (nat (send_len c ob)) (from_seq ob (snd_nxt c)) \<and>
    make_cksum (packet p) (pb_dlen p) = Some 0xffff"
proof -
  let ?len = "send_len c ob" and ?fl = "send_flags c ob"
  let ?data = "take (nat ?len) (from_seq ob (snd_nxt c))"
  let ?d = "take 60 (replicate 1500 0) @ ?data @ drop (60 + nat ?len) (replicate 1500 0)"
  have fill: "tcp_fill c (pb_d (get_buffer ifc 1500)) = Some (?len, ?fl, ?d)"
    using tcp_fill_ok [OF c(2,3), of "replicate 1500 0"] by (simp add: buffer_d)
  have len: "0 \<le> ?len" "?len \<le> 1220" "length ?data = nat ?len"
    using send_len_bounds [of c ob] c(2) by (auto simp: conn_ok_def)
  then have ld: "length ?d = nat 1500"
    by simp
  let ?new = "e_timeout c = 0 \<and> ?len > 0"
  obtain w1 e c1 where w1: "(if ?new then set_timeout t w else Some w) = Some w1"
      "evs.more w1 = evs.more (w\<lparr>tcbs := (tcbs w)(t \<mapsto> c1)\<rparr>)"
      "c1 = (if ?new then c\<lparr>e_timeout := e, timeout_mark := snd_nxt c\<rparr> else c)"
      "if ?new then e \<noteq> 0 \<and> Q e = None \<and> evq w1 (Q(e \<mapsto> (Timer, Tcp_timeout t))) else evq w1 Q"
  proof (cases ?new)
    case True
    obtain w' e where e: "set_timeout t w = Some w'" "e \<noteq> 0" "Q e = None" "evq w' (Q(e \<mapsto> (Timer, Tcp_timeout t)))"
        "evs.more w' = evs.more (w\<lparr>tcbs := (tcbs w)(t \<mapsto> c\<lparr>e_timeout := e, timeout_mark := snd_nxt c\<rparr>)\<rparr>)"
      using set_timeout_ok [OF c(1) q] by blast
    show ?thesis
      by (rule that [of w' "c\<lparr>e_timeout := e, timeout_mark := snd_nxt c\<rparr>" e]) (use True e in simp_all)
  next
    case False
    then show ?thesis
      by (intro that [of w c 0]) (use q c(1) in \<open>auto simp: fun_upd_idem\<close>)
  qed
  have f: "tcbs w1 = (tcbs w)(t \<mapsto> c1)" "nlist w1 = nlist w" "sent w1 = sent w" "now w1 = now w"
    using evs_frame [OF w1(2)] by simp_all
  define c2 where "c2 = mark_rtt ?len (now w1) c1"
  have same: "laddr c2 = laddr c" "raddr c2 = raddr c" "lport c2 = lport c" "rport c2 = rport c" "snd_nxt c2 = snd_nxt c"
      "rcv_nxt c2 = rcv_nxt c" "rcv_wnd c2 = rcv_wnd c"
    by (simp_all add: c2_def w1(3) mark_rtt_def)
  have a: "length (laddr c2) = 16" "length (raddr c2) = 16"
    using c(2) same by (simp_all add: conn_ok_def)
  have t: "take (nat ?len) (drop 60 ?d) = ?data"
    using len by simp
  obtain ck d' where h: "make_tcp_hdr c2 ?d ?len ?fl 0 = Some (?len + 60, d', c2\<lparr>last_acked := rcv_nxt c2\<rparr>)"
      "sendable head ((pb_set (get_buffer ifc 1500) d')\<lparr>pb_dlen := ?len + 60\<rparr>)"
      "packet ((pb_set (get_buffer ifc 1500) d')\<lparr>pb_dlen := ?len + 60\<rparr>) =
        tcp_bytes (?len + 20) (laddr c) (raddr c) (lport c) (rport c) (snd_nxt c) (rcv_nxt c) 0x50 (word_of_int ?fl) (uint (rcv_wnd c)) ck @ ?data"
      "make_cksum (packet ((pb_set (get_buffer ifc 1500) d')\<lparr>pb_dlen := ?len + 60\<rparr>)) (?len + 60) = Some 0xffff"
    using segment_ok [OF a len(1), where opt = 0 and n = 1500 and d = ?d and flags = ?fl] len(2) ld
    unfolding mult_zero_right add_0 t same by (auto simp: push_bit_eq_mult)
  let ?p = "(pb_set (get_buffer ifc 1500) d')\<lparr>pb_dlen := ?len + 60\<rparr>"
  define c5 where "c5 = raise_limit (bump_nxt ?len (send_fin c ob) c2)"
  have "nd_ok ifc head (nlist w1)"
    using ok f(2) by simp
  from send_counted [OF h(2) this, where t = t and c = c5] obtain ns fs where
    s: "do { w \<leftarrow> send_pkt ifc ?p (w1\<lparr>tcbs := (tcbs w1)(t \<mapsto> c5)\<rparr>); t_upd t (\<lambda>c. c\<lparr>packets := packets c + 1\<rparr>) w } =
      Some (w1\<lparr>tcbs := (tcbs w1)(t \<mapsto> c5\<lparr>packets := packets c5 + 1\<rparr>), nlist := ns, sent := sent w1 @ fs\<rparr>)"
    "nd_ok ifc head ns" "handed_over ifc head ?p (nlist w) ns fs"
    unfolding f(2) by blast
  have ca: "c5\<lparr>packets := packets c5 + 1\<rparr> = after_send c ob e (now w)"
    unfolding c5_def c2_def w1(3) after_send_def Let_def f(4) ..
  let ?w = "w1\<lparr>tcbs := (tcbs w)(t \<mapsto> after_send c ob e (now w)), nlist := ns, sent := sent w @ fs\<rparr>"
  have w2: "do { w \<leftarrow> send_pkt ifc ?p (w1\<lparr>tcbs := (tcbs w1)(t \<mapsto> c5)\<rparr>); t_upd t (\<lambda>c. c\<lparr>packets := packets c + 1\<rparr>) w } = Some ?w"
    using s(1) unfolding ca f by simp
  have "tcp_send_and_ack ifc t w = do {
      w \<leftarrow> do { w \<leftarrow> send_pkt ifc ?p (w1\<lparr>tcbs := (tcbs w1)(t \<mapsto> c5)\<rparr>); t_upd t (\<lambda>c. c\<lparr>packets := packets c + 1\<rparr>) w };
      c \<leftarrow> tcbs w t;
      if window_size c > 0 \<and> (state c = TCP_ESTABLISHED \<or> closing_state (state c)) then do {
        ob \<leftarrow> outbuf c;
        Some (of_bool (rb_avail ob (snd_nxt c) > (if state c = TCP_ESTABLISHED then 0 else - 1)), w)
      }
      else Some (0, w) }"
  proof -
    have c1: "tcbs w1 t = Some c1"
      using f(1) by simp
    show ?thesis
      unfolding tcp_send_and_ack_def Let_def c(1) Option.bind.simps fill prod.case send_flags_fin not_not if_not_P [OF todo] w1(1) c1
        mark_rtt_def [symmetric] c2_def [symmetric] h(1)
      by (simp add: bind_assoc c5_def raise_limit_def bump_nxt_def cong: if_cong)
  qed
  then have "\<exists>r. tcp_send_and_ack ifc t w = Some (r, ?w)"
    unfolding w2 using c(3) by simp
  then obtain r where r: "tcp_send_and_ack ifc t w = Some (r, ?w)"
    by blast
  have m: "evs.more ?w = evs.more (w\<lparr>tcbs := (tcbs w)(t \<mapsto> after_send c ob e (now w)), nlist := ns, sent := sent w @ fs\<rparr>)"
    using w1(2) by (cases w; cases w1) simp
  show ?thesis
    by (intro exI [of _ r] exI [of _ ?w] exI [of _ e] exI [of _ ck] exI [of _ ?p] exI [of _ ns] exI [of _ fs] conjI)
      (use r m w1(4) s(2,3) h(2-4) in simp_all)
qed

end

subsection \<open>Properties\<close>

text \<open>A connection for the witnesses, in a state with one connection.\<close>

definition demo_tcb :: tcb where
  "demo_tcb = zero_tcb\<lparr>state := TCP_ESTABLISHED, inbuf := Some (rb_new 16384), outbuf := Some (rb_new 16384), mss := 1220,
     rcv_nxt := 5, cb := True\<rparr>"

lemma demo_tcb_ok: "conn_ok demo_tcb" "outbuf demo_tcb = Some (rb_new 16384)"
  using rb_new_ok [of 16384] by (simp_all add: demo_tcb_def conn_ok_def zero_tcb_def) (simp add: rb_new_def)

lemma demo_len [simp]: "send_len demo_tcb (rb_new 16384) = 0" "last_acked demo_tcb = 0" "rcv_nxt demo_tcb = 5"
  by (simp_all add: send_len_def window_size_def demo_tcb_def zero_tcb_def)

lemma one_conn_simps:
  "tcbs (one_conn c) 8 = Some c" "nlist (one_conn c) = []" "evq (one_conn c) Map.empty"
proof -
  show "tcbs (one_conn c) 8 = Some c" "nlist (one_conn c) = []"
    by (simp_all add: one_conn_def start_world_def)
  show "evq (one_conn c) Map.empty"
    using evq_start [of zero_time] by (simp add: one_conn_def)
qed

text \<open>
  C7. Sending. When there is something to send or acknowledge, \<open>tcp_send_and_ack\<close> sends exactly one
  segment and touches no memory out of bounds. The segment carries the addresses and ports of the
  connection, sequence number \<open>snd_nxt\<close>, the acknowledgement and window of the receive side, a
  checksum that verifies, and the next bytes of the output buffer, as many as the buffer holds, the
  segment size and the peer's window allow; \<open>FIN\<close> is set only by a closing connection whose data is
  all in this segment. Afterwards \<open>snd_nxt\<close> has moved past the data and the \<open>FIN\<close>, everything
  received counts as acknowledged, the buffers are untouched, and if data was sent a
  retransmission timer is running.
\<close>

theorem tcp_send_and_ack_segment:
  assumes "driver ifc room" and "tcbs w t = Some c" and "conn_ok c" and "outbuf c = Some ob" and "nd_ok ifc room (nlist w)" and "evq w Q"
    and "\<not> (send_len c ob = 0 \<and> \<not> send_fin c ob \<and> rcv_nxt c \<le> last_acked c)"
  shows "\<exists>r w' c' ck p ns fs. tcp_send_and_ack ifc t w = Some (r, w') \<and> tcbs w' = (tcbs w)(t \<mapsto> c') \<and>
    nlist w' = ns \<and> sent w' = sent w @ fs \<and> handed_over ifc room p (nlist w) ns fs \<and> nd_ok ifc room ns \<and>
    packet p = tcp_bytes (send_len c ob + 20) (laddr c) (raddr c) (lport c) (rport c) (snd_nxt c) (rcv_nxt c) 0x50
      (word_of_int (send_flags c ob)) (uint (rcv_wnd c)) ck @ take (nat (send_len c ob)) (from_seq ob (snd_nxt c)) \<and>
    make_cksum (packet p) (pb_dlen p) = Some 0xffff \<and> 0 \<le> send_len c ob \<and> send_len c ob \<le> 1220 \<and>
    snd_nxt c' = snd_nxt c + word_of_int (send_len c ob) + (if send_fin c ob then 1 else 0) \<and>
    last_acked c' = rcv_nxt c \<and> conn_ok c' \<and> outbuf c' = outbuf c \<and> (0 < send_len c ob \<longrightarrow> e_timeout c' \<noteq> 0)"
proof -
  obtain r w' e ck p ns fs where s: "tcp_send_and_ack ifc t w = Some (r, w')"
      "evs.more w' = evs.more (w\<lparr>tcbs := (tcbs w)(t \<mapsto> after_send c ob e (now w)), nlist := ns, sent := sent w @ fs\<rparr>)"
      "if e_timeout c = 0 \<and> send_len c ob > 0
       then e \<noteq> 0 \<and> Q e = None \<and> evq w' (Q(e \<mapsto> (Timer, Tcp_timeout t))) else evq w' Q"
      "nd_ok ifc room ns" "handed_over ifc room p (nlist w) ns fs"
      "packet p = tcp_bytes (send_len c ob + 20) (laddr c) (raddr c) (lport c) (rport c) (snd_nxt c) (rcv_nxt c) 0x50
        (word_of_int (send_flags c ob)) (uint (rcv_wnd c)) ck @ take (nat (send_len c ob)) (from_seq ob (snd_nxt c))"
      "make_cksum (packet p) (pb_dlen p) = Some 0xffff"
    using link_driver.tcp_send_and_ack_ok [OF driver_link [OF assms(1)] assms(2-7)] by (elim exE conjE) (rule that)
  have f: "tcbs w' = (tcbs w)(t \<mapsto> after_send c ob e (now w))" "nlist w' = ns" "sent w' = sent w @ fs"
    using evs_frame [OF s(2)] by simp_all
  have k: "conn_ok (after_send c ob e (now w))" "send_len c ob \<le> 1220" "0 \<le> send_len c ob"
    using assms(3) send_len_bounds [of c ob] by (simp_all add: conn_ok_def)
  have t: "0 < send_len c ob \<longrightarrow> e_timeout (after_send c ob e (now w)) \<noteq> 0"
    using s(3) by (cases "e_timeout c = 0") auto
  let ?c = "after_send c ob e (now w)"
  have "snd_nxt ?c = snd_nxt c + word_of_int (send_len c ob) + (if send_fin c ob then 1 else 0)" "last_acked ?c = rcv_nxt c" "outbuf ?c = outbuf c"
    by simp_all
  then show ?thesis
    using s(1) f s(5,4,6,7) k t by blast
qed

theorem tcp_send_and_ack_segment_witness:
  "\<exists>r w' c'. tcp_send_and_ack tun_iface 8 (one_conn demo_tcb) = Some (r, w') \<and> tcbs w' 8 = Some c' \<and> last_acked c' = 5"
proof -
  have "nd_ok tun_iface 4 (nlist (one_conn demo_tcb))"
    by (simp add: one_conn_simps)
  from tcp_send_and_ack_segment [OF driver_tun one_conn_simps(1) demo_tcb_ok this one_conn_simps(3)] show ?thesis
    by auto
qed

text \<open>
  C23. The retransmission interval is the smoothed round trip time plus four deviations, but at least
  half a second and at most thirty seconds, and \<open>set_timeout\<close> arms one new timer that is due exactly
  that long from now and remembers \<open>snd_nxt\<close>.
\<close>

theorem set_timeout_bounds:
  assumes "tcbs w t = Some c" and "evq w Q"
  shows "\<exists>m e w1. 500 \<le> m \<and> m \<le> 30000 \<and> (500 \<le> srtt c + 4 * sdev c \<and> srtt c + 4 * sdev c \<le> 30000 \<longrightarrow> m = srtt c + 4 * sdev c) \<and>
    time_diff (now w) (time_future (now w) m) = m \<and> add_time_event (time_future (now w) m) (Tcp_timeout t) w = Some (e, w1) \<and> e \<noteq> 0 \<and>
    set_timeout t w = Some (w1\<lparr>tcbs := (tcbs w)(t \<mapsto> c\<lparr>e_timeout := e, timeout_mark := snd_nxt c\<rparr>)\<rparr>)"
proof -
  obtain e w1 where e: "add_time_event (time_future (now w) (timeout_msec c)) (Tcp_timeout t) w = Some (e, w1)" "e \<noteq> 0"
      "evs.more w1 = evs.more w"
    using evl.time_law [OF assms(2)] by blast
  have "set_timeout t w = Some (w1\<lparr>tcbs := (tcbs w)(t \<mapsto> c\<lparr>e_timeout := e, timeout_mark := snd_nxt c\<rparr>)\<rparr>)"
    using assms(1) e(1) evs_frame(1) [OF e(3)] by (simp add: set_timeout_def t_upd_def Let_def)
  moreover have b: "500 \<le> timeout_msec c" "timeout_msec c \<le> 30000"
    "500 \<le> srtt c + 4 * sdev c \<and> srtt c + 4 * sdev c \<le> 30000 \<longrightarrow> timeout_msec c = srtt c + 4 * sdev c"
    using int32_id [of "srtt c + 4 * sdev c"] by (auto simp: timeout_msec_def Let_def)
  moreover have "time_diff (now w) (time_future (now w) (timeout_msec c)) = timeout_msec c"
    using diff_of_add [of "timeout_msec c" "now w"] b by (simp add: time_future_def)
  ultimately show ?thesis
    using e(1,2) by blast
qed

theorem set_timeout_bounds_witness:
  "\<exists>m e w1. 500 \<le> m \<and> m \<le> 30000 \<and> add_time_event (time_future (now (one_conn demo_tcb)) m) (Tcp_timeout 8) (one_conn demo_tcb) = Some (e, w1)"
  using set_timeout_bounds [OF one_conn_simps(1,3), of demo_tcb] by blast

text \<open>
  C22. A timeout leads to retransmission. Afterwards the connection is set to send again from the
  oldest unacknowledged byte with a window of one segment (or what the peer allows), it has no
  timer, the lost data no longer counts for the round trip time, and the event that sends is
  queued.
\<close>

theorem tcp_timeout_rewinds:
  assumes "tcbs w t = Some c" and "evq w Q" and "e_tcb_send c \<noteq> 0 \<longrightarrow> Q (e_tcb_send c) = Some (Always, Do_tcb_write t)"
  shows "\<exists>w' c' Q'. tcp_timeout t w = Some (1, w') \<and> tcbs w' = (tcbs w)(t \<mapsto> c') \<and> evq w' Q' \<and>
    Q' (e_tcb_send c') = Some (Always, Do_tcb_write t) \<and> e_timeout c' = 0 \<and> snd_nxt c' = snd_una c \<and> snd_una c' = snd_una c \<and>
    snd_cwnd c' = min (mss c) (snd_wnd c) \<and> rtt_mark c' = snd_una c - 1 \<and> outbuf c' = outbuf c"
proof -
  define c1 where "c1 = snd (window_update (c\<lparr>e_timeout := 0, snd_nxt := snd_una c, rtt_mark := snd_una c - 1, snd_cwnd := 0\<rparr>))"
  let ?w = "w\<lparr>tcbs := (tcbs w)(t \<mapsto> c1)\<rparr>"
  have f: "e_timeout c1 = 0" "snd_nxt c1 = snd_una c" "snd_una c1 = snd_una c" "snd_cwnd c1 = min (mss c) (snd_wnd c)" "rtt_mark c1 = snd_una c - 1"
      "outbuf c1 = outbuf c" "e_tcb_send c1 = e_tcb_send c"
    by (auto simp: c1_def window_update_def Let_def min_def)
  have "tcbs ?w t = Some c1" "evq ?w Q"
    using assms(2) by simp_all
  from mark_ok [OF this] obtain w' e where m: "mark_for_if_write t ?w = Some w'" "e \<noteq> 0"
      "if e_tcb_send c1 \<noteq> 0 then e = e_tcb_send c1 \<and> w' = ?w
       else Q e = None \<and> evq w' (Q(e \<mapsto> (Always, Do_tcb_write t))) \<and>
         evs.more w' = evs.more (?w\<lparr>tcbs := (tcbs ?w)(t \<mapsto> c1\<lparr>e_tcb_send := e\<rparr>)\<rparr>)"
    by blast
  have t: "tcp_timeout t w = Some (1, w')"
    using assms(1) m(1) by (simp add: tcp_timeout_def t_upd_def c1_def)
  show ?thesis
  proof (cases "e_tcb_send c = 0")
    case True
    then have "tcbs w' = (tcbs w)(t \<mapsto> c1\<lparr>e_tcb_send := e\<rparr>)"
      using m(3) evs_frame(1) [of w' "?w\<lparr>tcbs := (tcbs ?w)(t \<mapsto> c1\<lparr>e_tcb_send := e\<rparr>)\<rparr>"] f(7) by simp
    then show ?thesis
      using t m(3) f True by (intro exI [of _ w'] exI [of _ "c1\<lparr>e_tcb_send := e\<rparr>"] exI [of _ "Q(e \<mapsto> (Always, Do_tcb_write t))"]) simp
  next
    case False
    then show ?thesis
      using t m(3) f assms(2,3) by (intro exI [of _ w'] exI [of _ c1] exI [of _ Q]) simp
  qed
qed

theorem tcp_timeout_rewinds_witness:
  "\<exists>w' c'. tcp_timeout 8 (one_conn demo_tcb) = Some (1, w') \<and> tcbs w' 8 = Some c' \<and> snd_nxt c' = 0"
proof -
  have "e_tcb_send demo_tcb = 0" "snd_una demo_tcb = 0"
    by (simp_all add: demo_tcb_def zero_tcb_def)
  then show ?thesis
    using tcp_timeout_rewinds [OF one_conn_simps(1,3), of demo_tcb] by auto
qed

text \<open>
  C25. A lost \<open>FIN\<close> is never sent again. When a closing connection has no data left, the segment that
  carries the \<open>FIN\<close> moves \<open>snd_nxt\<close> past it but starts no timer, so if no timer was running the
  connection waits for an acknowledgement with none set.
\<close>

theorem fin_without_timer:
  assumes "driver ifc room" and "tcbs w t = Some c" and "conn_ok c" and "outbuf c = Some ob" and "nd_ok ifc room (nlist w)" and "evq w Q"
    and "send_len c ob = 0" and "send_fin c ob" and "e_timeout c = 0"
  shows "\<exists>r w' c'. tcp_send_and_ack ifc t w = Some (r, w') \<and> tcbs w' t = Some c' \<and> snd_nxt c' = snd_nxt c + 1 \<and> e_timeout c' = 0 \<and> evq w' Q"
proof -
  have "\<not> (send_len c ob = 0 \<and> \<not> send_fin c ob \<and> rcv_nxt c \<le> last_acked c)"
    using assms(8) by simp
  from link_driver.tcp_send_and_ack_ok [OF driver_link [OF assms(1)] assms(2-6) this]
  obtain r w' e ns fs where s: "tcp_send_and_ack ifc t w = Some (r, w')"
      "evs.more w' = evs.more (w\<lparr>tcbs := (tcbs w)(t \<mapsto> after_send c ob e (now w)), nlist := ns, sent := sent w @ fs\<rparr>)"
      "if e_timeout c = 0 \<and> send_len c ob > 0
       then e \<noteq> 0 \<and> Q e = None \<and> evq w' (Q(e \<mapsto> (Timer, Tcp_timeout t))) else evq w' Q"
    by (elim exE conjE) (rule that)
  have "tcbs w' = (tcbs w)(t \<mapsto> after_send c ob e (now w))"
    using evs_frame(1) [OF s(2)] by simp
  then show ?thesis
    using s assms(7-9) by (intro exI [of _ r] exI [of _ w'] exI [of _ "after_send c ob e (now w)"]) simp
qed

theorem fin_without_timer_witness:
  "\<exists>r w' c'. tcp_send_and_ack tun_iface 8 (one_conn (demo_tcb\<lparr>state := TCP_FIN_WAIT_1, snd_max := 100\<rparr>)) = Some (r, w') \<and>
    tcbs w' 8 = Some c' \<and> snd_nxt c' = 1 \<and> e_timeout c' = 0"
proof -
  define c where "c = demo_tcb\<lparr>state := TCP_FIN_WAIT_1, snd_max := 100\<rparr>"
  have c: "conn_ok c" "outbuf c = Some (rb_new 16384)" "e_timeout c = 0" "snd_nxt c = 0"
    using demo_tcb_ok by (simp_all add: c_def conn_ok_def demo_tcb_def zero_tcb_def)
  have a: "rb_avail (rb_new 16384) 0 = 0" "window_size c = 100" "state c = 5"
    by (simp_all add: c_def rb_avail_def rb_new_def window_size_def demo_tcb_def zero_tcb_def)
  then have "send_len c (rb_new 16384) = 0" "send_fin c (rb_new 16384)"
    using c(4) by (simp_all add: send_len_def send_fin_def from_seq_def)
  then show ?thesis
    unfolding c_def [symmetric] using fin_without_timer [OF driver_tun one_conn_simps(1) c(1,2) _ one_conn_simps(3)] c(3,4) one_conn_simps(2) [of c] by auto
qed

end
