(* ===== verification/Tcp_Input.thy ===== *)
theory Tcp_Input
  imports Tcp
begin

text \<open>
  The handler of received TCP segments (\<open>handle_tcp\<close> of \<^verbatim>\<open>src/tcp.c\<close>), split where the code has its
  blank lines: a segment for the listener, a reset, the acknowledgement, the data. The application is
  reached through the four functions of \<open>struct tcp_callback\<close>, a record of functions here; \<open>p\<close> is the
  memory from the IPv6 header to the end of the packet's buffer and \<open>len\<close> the length of the packet;
  \<open>nt\<close> is the address \<open>ALLOC\<close> returns if a tcb is allocated.
\<close>

record tcp_callback =
  incoming_session :: "ptr \<Rightarrow> world \<Rightarrow> world option"
  output_buffer_space :: "nat \<Rightarrow> int \<Rightarrow> world \<Rightarrow> world option"
  data_available :: "nat \<Rightarrow> int \<Rightarrow> world \<Rightarrow> world option"
  closing :: "nat \<Rightarrow> int \<Rightarrow> world \<Rightarrow> world option"

text \<open>A call through the callback pointer of a tcb, which must be set.\<close>

definition call_cb :: "tcb \<Rightarrow> (world \<Rightarrow> world option) \<Rightarrow> world \<Rightarrow> world option" where
  "call_cb c f w = (if cb c then f w else None)"

definition tcp_remote_close :: "tcp_callback \<Rightarrow> iface \<Rightarrow> ptr \<Rightarrow> world \<Rightarrow> world option" where
  "tcp_remote_close cbs ifc t w = do {
     c \<leftarrow> tcbs w t;
     w \<leftarrow> (if cb c then closing cbs (app_data c) 0 w else Some w);
     (_, w) \<leftarrow> tcp_close ifc t 0 w;
     Some w
   }"

definition tcp_recv_data :: "tcp_callback \<Rightarrow> ptr \<Rightarrow> byte list \<Rightarrow> int \<Rightarrow> world \<Rightarrow> (int \<times> world) option" where
  "tcp_recv_data cbs t p len w = do {
     b53 \<leftarrow> mem_get p 53;
     let flags = uint b53 AND 0x3f;
     b52 \<leftarrow> mem_get p 52;
     let doff = 40 + 4 * drop_bit 4 (uint b52);
     let dlen = len - doff;
     w \<leftarrow> (if dlen > 0 then do {
             p \<leftarrow> mem_put p (nat len) [0];
             w \<leftarrow> t_upd t (\<lambda>c. c\<lparr>rcv_nxt := rcv_nxt c + word_of_int dlen\<rparr>) w;
             w \<leftarrow> mark_for_if_write t w;
             c \<leftarrow> tcbs w t;
             if cb c then do {
               ib \<leftarrow> inbuf c;
               (_, ib) \<leftarrow> rb_write ib (drop (nat doff) p) dlen;
               let c = c\<lparr>inbuf := Some ib, rcv_wnd := word_of_int (rb_left ib)\<rparr>;
               let w = w\<lparr>tcbs := (tcbs w)(t \<mapsto> c)\<rparr>;
               data_available cbs (app_data c) (rb_avail ib (read_seq c)) w
             }
             else Some w
           }
           else Some w);
     if flags AND 0x1 \<noteq> 0 then do {
       w \<leftarrow> t_upd t (\<lambda>c. c\<lparr>rcv_nxt := rcv_nxt c + 1\<rparr>) w;
       w \<leftarrow> mark_for_if_write t w;
       Some (1, w)
     }
     else Some (0, w)
   }"

subsection \<open>A segment for the listener\<close>

definition session_tcb :: "byte list \<Rightarrow> int \<Rightarrow> byte list \<Rightarrow> int \<Rightarrow> u32 \<Rightarrow> u32 \<Rightarrow> u32 \<Rightarrow> bool \<Rightarrow> tcb \<Rightarrow> tcb" where
  "session_tcb la lp ra rp irs0 iss0 wnd cb0 c =
     (let c = c\<lparr>inbuf := Some (rb_new (16 * 1024)), outbuf := Some (rb_new (16 * 1024)), state := TCP_SYN_RECVD,
                rport := rp, raddr := take 16 ra, lport := lp, laddr := take 16 la, irs := irs0\<rparr>;
          c = c\<lparr>rcv_wnd := word_of_int (rb_left (rb_new (16 * 1024))), rcv_nxt := irs0 + 1, read_seq := irs0 + 1\<rparr>;
          c = c\<lparr>inbuf := Some (rb_set (rb_new (16 * 1024)) (rcv_nxt c))\<rparr>;
          c = c\<lparr>iss := iss0, snd_una := iss0, snd_nxt := iss0\<rparr>;
          c = c\<lparr>rtt_mark := snd_nxt c - 1, rtt_limit := snd_nxt c + 1,
                outbuf := Some (rb_set (rb_new (16 * 1024)) (snd_nxt c + 1)), mss := 1220, snd_cwnd := 0, snd_wnd := wnd\<rparr>;
          c = snd (window_update c)
      in c\<lparr>cb := cb0\<rparr>)"

definition handle_listen ::
    "tcp_callback \<Rightarrow> iface \<Rightarrow> ptr \<Rightarrow> byte list \<Rightarrow> int \<Rightarrow> int \<Rightarrow> int \<Rightarrow> ptr \<Rightarrow> world \<Rightarrow> world option" where
  "handle_listen cbs ifc nt p lp rp flags lt w =
     (if flags = 0x2 then do {
        irs \<leftarrow> GET_32 p 44;
        la \<leftarrow> mem_sub p 24 16;
        ra \<leftarrow> mem_sub p 8 16;
        w \<leftarrow> tcb_new nt (Some la) lp (Some ra) rp w;
        let (iss, w) = next_isn w;
        wnd \<leftarrow> GET_16 p 54;
        l \<leftarrow> tcbs w lt;
        w \<leftarrow> t_upd nt (session_tcb la lp ra rp irs iss (word_of_int wnd) (cb l)) w;
        c \<leftarrow> tcbs w nt;
        call_cb c (incoming_session cbs nt) w
      }
      else tcp_fabricate_rst ifc p w)"

subsection \<open>An acknowledgement\<close>

text \<open>The round trip estimate, in \<open>int\<close> arithmetic that wraps round.\<close>

definition rtt_update :: "timeval \<Rightarrow> tcb \<Rightarrow> tcb" where
  "rtt_update tv c =
     (let diff = time_ago tv (rtt_time c);
          c = (if srtt c > 0 then c\<lparr>srtt := int32 (2 * diff + 8 * srtt c + 5) sdiv 10\<rparr> else c\<lparr>srtt := diff\<rparr>)
      in if diff > srtt c
         then c\<lparr>sdev := int32 (75 * sdev c + 25 * (diff - srtt c) + 50) sdiv 100\<rparr>
         else c\<lparr>sdev := int32 (75 * sdev c + 25 * (srtt c - diff) + 50) sdiv 100\<rparr>)"

text \<open>New data is acknowledged: \<open>ack > snd_una\<close>.\<close>

definition take_ack :: "tcp_callback \<Rightarrow> ptr \<Rightarrow> u32 \<Rightarrow> world \<Rightarrow> world option" where
  "take_ack cbs t ack w = do {
     w \<leftarrow> t_upd t (\<lambda>c.
            let c = (if snd_una c \<le> rtt_mark c \<and> ack > rtt_mark c then rtt_update (now w) c else c);
                c = c\<lparr>snd_una := ack\<rparr>
            in if ack > snd_nxt c then c\<lparr>snd_nxt := ack\<rparr> else c) w;
     c \<leftarrow> tcbs w t;
     let st = state c;
     w \<leftarrow> (if st = TCP_ESTABLISHED then do {
             ob \<leftarrow> outbuf c;
             let ob = rb_advance ob ack;
             let w = w\<lparr>tcbs := (tcbs w)(t \<mapsto> c\<lparr>outbuf := Some ob\<rparr>)\<rparr>;
             call_cb c (output_buffer_space cbs (app_data c) (rb_left ob)) w
           }
           else Some w);
     c \<leftarrow> tcbs w t;
     if (st = TCP_ESTABLISHED \<or> closing_state st) \<and> e_timeout c \<noteq> 0 \<and> ack \<ge> timeout_mark c then do {
       w \<leftarrow> remove_event (e_timeout c) w;
       w \<leftarrow> (if snd_una c < snd_nxt c then set_timeout t w else t_upd t (\<lambda>c. c\<lparr>e_timeout := 0\<rparr>) w);
       t_upd t (\<lambda>c. c\<lparr>snd_cwnd := snd_cwnd c + mss c\<rparr>) w
     }
     else Some w
   }"

text \<open>\<open>t->state = TCP_TIME_WAIT\<close> and the two-minute timer.\<close>

definition enter_time_wait :: "ptr \<Rightarrow> world \<Rightarrow> world option" where
  "enter_time_wait t w = do {
     w \<leftarrow> t_upd t (\<lambda>c. c\<lparr>state := TCP_TIME_WAIT\<rparr>) w;
     (e, w) \<leftarrow> add_time_event (time_future (now w) 120000) (Tcp_remove t) w;
     t_upd t (\<lambda>c. c\<lparr>e_timeout := e\<rparr>) w
   }"

text \<open>Everything sent is acknowledged. \<open>Inl\<close> is a \<open>return\<close> of the handler.\<close>

definition all_acked :: "tcp_callback \<Rightarrow> ptr \<Rightarrow> world \<Rightarrow> (world + world) option" where
  "all_acked cbs t w = do {
     c \<leftarrow> tcbs w t;
     if state c = TCP_SYN_RECVD then do {
       w \<leftarrow> t_upd t (\<lambda>c. c\<lparr>state := TCP_ESTABLISHED\<rparr>) w;
       ob \<leftarrow> outbuf c;
       w \<leftarrow> call_cb c (output_buffer_space cbs (app_data c) (rb_left ob)) w;
       Some (Inr w)
     }
     else if state c = TCP_LAST_ACK then do { w \<leftarrow> drop_tcb t w; Some (Inl w) }
     else if state c = TCP_FIN_WAIT_1 then do {
       ob \<leftarrow> outbuf c;
       w \<leftarrow> (if rb_avail ob (snd_nxt c) = - 1 then t_upd t (\<lambda>c. c\<lparr>state := TCP_FIN_WAIT_2\<rparr>) w else Some w);
       Some (Inr w)
     }
     else if state c = TCP_CLOSING then do {
       ob \<leftarrow> outbuf c;
       w \<leftarrow> (if rb_avail ob (snd_nxt c) = - 1 then enter_time_wait t w else Some w);
       Some (Inl w)
     }
     else Some (Inr w)
   }"

definition handle_ack :: "tcp_callback \<Rightarrow> ptr \<Rightarrow> byte list \<Rightarrow> world \<Rightarrow> (world + world) option" where
  "handle_ack cbs t p w = do {
     ack \<leftarrow> GET_32 p 48;
     c \<leftarrow> tcbs w t;
     w \<leftarrow> (if ack > snd_una c then take_ack cbs t ack w else Some w);
     c \<leftarrow> tcbs w t;
     if snd_una c = snd_nxt c then all_acked cbs t w else Some (Inr w)
   }"

subsection \<open>Data\<close>

text \<open>The window announced by the segment; sending resumes if it was closed and opens.\<close>

definition open_window :: "ptr \<Rightarrow> u32 \<Rightarrow> world \<Rightarrow> world option" where
  "open_window t wnd w = do {
     w \<leftarrow> t_upd t (\<lambda>c. c\<lparr>snd_wnd := wnd\<rparr>) w;
     c \<leftarrow> tcbs w t;
     if window_size c \<le> 0 then do {
       let (n, c) = window_update c;
       let w = w\<lparr>tcbs := (tcbs w)(t \<mapsto> c)\<rparr>;
       if n > 0 then mark_for_if_write t w
       else t_upd t (\<lambda>c. snd (window_update c)) w
     }
     else t_upd t (\<lambda>c. snd (window_update c)) w
   }"

definition handle_data :: "tcp_callback \<Rightarrow> iface \<Rightarrow> ptr \<Rightarrow> byte list \<Rightarrow> int \<Rightarrow> world \<Rightarrow> world option" where
  "handle_data cbs ifc t p len w = do {
     seq \<leftarrow> GET_32 p 44;
     c \<leftarrow> tcbs w t;
     if seq < rcv_nxt c then
       (if state c \<noteq> TCP_SYN_RECVD then do {
          w \<leftarrow> t_upd t (\<lambda>c. c\<lparr>last_acked := last_acked c - 1\<rparr>) w;
          mark_for_if_write t w
        }
        else Some w)
     else do {
       wnd \<leftarrow> GET_16 p 54;
       w \<leftarrow> open_window t (word_of_int wnd) w;
       c \<leftarrow> tcbs w t;
       if state c = TCP_FIN_WAIT_2 then do {
         (fin, w) \<leftarrow> tcp_recv_data cbs t p len w;
         (if fin \<noteq> 0 then enter_time_wait t w else Some w)
       }
       else if state c = TCP_FIN_WAIT_1 then do {
         (fin, w) \<leftarrow> tcp_recv_data cbs t p len w;
         (if fin \<noteq> 0 then t_upd t (\<lambda>c. c\<lparr>state := TCP_CLOSING\<rparr>) w else Some w)
       }
       else if state c = TCP_ESTABLISHED then do {
         (fin, w) \<leftarrow> tcp_recv_data cbs t p len w;
         (if fin \<noteq> 0 then do {
            w \<leftarrow> t_upd t (\<lambda>c. c\<lparr>state := TCP_CLOSE_WAIT\<rparr>) w;
            tcp_remote_close cbs ifc t w
          }
          else Some w)
       }
       else Some w
     }
   }"

subsection \<open>The handler\<close>

definition handle_rst :: "tcp_callback \<Rightarrow> ptr \<Rightarrow> world \<Rightarrow> world option" where
  "handle_rst cbs t w = do {
     c \<leftarrow> tcbs w t;
     w \<leftarrow> (if cb c then closing cbs (app_data c) 1 w else Some w);
     drop_tcb t w
   }"

definition handle_tcp :: "tcp_callback \<Rightarrow> iface \<Rightarrow> ptr \<Rightarrow> byte list \<Rightarrow> int \<Rightarrow> world \<Rightarrow> world option" where
  "handle_tcp cbs ifc nt p len w = do {
     lp \<leftarrow> GET_16 p 42;
     rp \<leftarrow> GET_16 p 40;
     b53 \<leftarrow> mem_get p 53;
     let flags = uint b53 AND 0x3f;
     la \<leftarrow> mem_sub p 24 16;
     ra \<leftarrow> mem_sub p 8 16;
     t \<leftarrow> tcb_find (Some la) lp (Some ra) rp w;
     if t = 0 then tcp_fabricate_rst ifc p w
     else do {
       w \<leftarrow> t_upd t (\<lambda>c. c\<lparr>atime := now w\<rparr>) w;
       c \<leftarrow> tcbs w t;
       if state c = TCP_LISTEN then handle_listen cbs ifc nt p lp rp flags t w
       else if flags AND 0x4 \<noteq> 0 then handle_rst cbs t w
       else do {
         r \<leftarrow> (if flags AND 0x10 \<noteq> 0 then handle_ack cbs t p w else Some (Inr w));
         (case r of
            Inl w \<Rightarrow> Some w
          | Inr w \<Rightarrow> handle_data cbs ifc t p len w)
       }
     }
   }"

subsection \<open>The send window\<close>

lemma window_update_eq:
  "snd (window_update c) = c\<lparr>snd_cwnd := min (if snd_cwnd c = 0 then mss c else snd_cwnd c) (snd_wnd c),
     snd_max := snd_una c + min (if snd_cwnd c = 0 then mss c else snd_cwnd c) (snd_wnd c)\<rparr>"
  "fst (window_update c) = window_size (snd (window_update c))"
  by (auto simp: window_update_def Let_def min_def not_less)

lemma min_least:
  fixes a b :: u32
  shows "a \<noteq> 0 \<Longrightarrow> b \<noteq> 0 \<Longrightarrow> min a b \<noteq> 0"
  by (simp add: min_def)

text \<open>
  C24. The window of the peer. A segment that announces the window \<open>wnd\<close> sets it, cuts the congestion
  window down to it and otherwise keeps the congestion window that the acknowledgements have built up
  (one segment if there was none); the send window ends that far behind the oldest unacknowledged byte.
  If nothing could be sent before and something can now, the event that sends is queued; in every other
  case the events stay as they are. What was sent and acknowledged does not change.
\<close>

theorem open_window_resumes:
  assumes "tcbs w t = Some c" and "evq w Q" and "e_tcb_send c \<noteq> 0 \<longrightarrow> Q (e_tcb_send c) = Some (Always, Do_tcb_write t)"
  shows "\<exists>w' c' Q'. open_window t wnd w = Some w' \<and> tcbs w' = (tcbs w)(t \<mapsto> c') \<and> evq w' Q' \<and>
    snd_wnd c' = wnd \<and> snd_cwnd c' = min (if snd_cwnd c = 0 then mss c else snd_cwnd c) wnd \<and> snd_max c' = snd_una c + snd_cwnd c' \<and>
    snd_una c' = snd_una c \<and> snd_nxt c' = snd_nxt c \<and> outbuf c' = outbuf c \<and>
    (if sint (snd_max c - snd_nxt c) \<le> 0 \<and> 0 < sint (snd_max c' - snd_nxt c)
     then Q' (e_tcb_send c') = Some (Always, Do_tcb_write t) \<and> (\<forall>e. e \<noteq> e_tcb_send c' \<longrightarrow> Q' e = Q e)
     else e_tcb_send c' = e_tcb_send c \<and> Q' = Q)"
proof -
  define c1 where "c1 = snd (window_update (c\<lparr>snd_wnd := wnd\<rparr>))"
  let ?w = "w\<lparr>tcbs := (tcbs w)(t \<mapsto> c1)\<rparr>"
  have f: "snd_wnd c1 = wnd" "snd_cwnd c1 = min (if snd_cwnd c = 0 then mss c else snd_cwnd c) wnd" "snd_max c1 = snd_una c + snd_cwnd c1"
      "snd_una c1 = snd_una c" "snd_nxt c1 = snd_nxt c" "outbuf c1 = outbuf c" "e_tcb_send c1 = e_tcb_send c"
    by (simp_all add: c1_def window_update_eq)
  have again: "snd (window_update c1) = c1"
    using min_least [of "snd_cwnd c" wnd] by (cases "wnd = 0") (auto simp: c1_def window_update_eq)
  have n: "window_update (c\<lparr>snd_wnd := wnd\<rparr>) = (window_size c1, c1)"
    by (simp add: c1_def window_update_eq(2) prod_eq_iff)
  show ?thesis
  proof (cases "window_size c \<le> 0 \<and> 0 < window_size c1")
    case True
    have "tcbs ?w t = Some c1" "evq ?w Q"
      using assms(2) by simp_all
    from mark_ok [OF this] obtain w' e where m: "mark_for_if_write t ?w = Some w'" "e \<noteq> 0"
        "if e_tcb_send c1 \<noteq> 0 then e = e_tcb_send c1 \<and> w' = ?w
         else Q e = None \<and> evq w' (Q(e \<mapsto> (Always, Do_tcb_write t))) \<and>
           evs.more w' = evs.more (?w\<lparr>tcbs := (tcbs ?w)(t \<mapsto> c1\<lparr>e_tcb_send := e\<rparr>)\<rparr>)"
      by blast
    have run: "open_window t wnd w = Some w'"
      using assms(1) True m(1) n by (simp add: open_window_def t_upd_def window_size_def)
    show ?thesis
    proof (cases "e_tcb_send c = 0")
      case None: True
      then have "tcbs w' = (tcbs w)(t \<mapsto> c1\<lparr>e_tcb_send := e\<rparr>)"
        using m(3) evs_frame(1) [of w' "?w\<lparr>tcbs := (tcbs ?w)(t \<mapsto> c1\<lparr>e_tcb_send := e\<rparr>)\<rparr>"] f(7) by simp
      then show ?thesis
        using run m(3) f None True
        by (intro exI [of _ w'] exI [of _ "c1\<lparr>e_tcb_send := e\<rparr>"] exI [of _ "Q(e \<mapsto> (Always, Do_tcb_write t))"]) (simp add: window_size_def)
    next
      case False
      then show ?thesis
        using run m(3) f assms(2,3) True by (intro exI [of _ w'] exI [of _ c1] exI [of _ Q]) (simp add: window_size_def)
    qed
  next
    case False
    have "open_window t wnd w = Some ?w"
    proof (cases "window_size c \<le> 0")
      case True
      then show ?thesis
        using assms(1) n again False by (simp add: open_window_def t_upd_def window_size_def)
    next
      case False
      then show ?thesis
        using assms(1) n by (simp add: open_window_def t_upd_def window_size_def)
    qed
    then show ?thesis
      using f False assms(2) by (intro exI [of _ ?w] exI [of _ c1] exI [of _ Q]) (auto simp: window_size_def)
  qed
qed

theorem open_window_resumes_witness:
  defines "c \<equiv> demo_tcb\<lparr>e_tcb_send := 0, snd_wnd := 0, snd_cwnd := 2440, snd_una := 5, snd_nxt := 5, snd_max := 5\<rparr>"
  shows "\<exists>w' c' Q'. open_window 8 700 (one_conn c) = Some w' \<and> tcbs w' 8 = Some c' \<and> snd_cwnd c' = 700 \<and> evq w' Q' \<and>
    Q' (e_tcb_send c') = Some (Always, Do_tcb_write 8)"
proof -
  have c: "snd_cwnd c = 2440" "snd_una c = 5" "snd_nxt c = 5" "snd_max c = 5" "e_tcb_send c = 0"
    by (simp_all add: c_def)
  obtain w' c' Q' where w: "open_window 8 700 (one_conn c) = Some w'" "tcbs w' = (tcbs (one_conn c))(8 \<mapsto> c')" "evq w' Q'"
      "snd_cwnd c' = min 2440 700" "snd_max c' = 5 + snd_cwnd c'"
      "if sint (5 - 5 :: u32) \<le> 0 \<and> 0 < sint (snd_max c' - 5) then Q' (e_tcb_send c') = Some (Always, Do_tcb_write 8) else True"
    using open_window_resumes [OF one_conn_simps(1,3) [of c], of 700] c by (auto split: if_splits)
  then show ?thesis
    by (intro exI [of _ w'] exI [of _ c'] exI [of _ Q']) (simp add: min_def)
qed

end
