(* ===== verification/Ptrtd_Tcp.thy ===== *)
theory Ptrtd_Tcp
  imports Tcp_Input
begin

text \<open>
  The TCP side of the relay (\<^verbatim>\<open>src/ptrtd-tcp.c\<close>): one \<open>tcp_map\<close> couples a tcb with a host socket.
  The maps live in \<open>maps\<close> at addresses that are naturals (0 is NULL); the doubly linked \<open>tlist\<close> is the
  list of those addresses, newest first.

  The results of system calls are parameters of the handler that makes the call: \<open>rd len\<close> is what
  \<open>read\<close> returns for a buffer of \<open>len\<close> bytes (the count, whether \<open>errno\<close> is \<open>EAGAIN\<close>, and the
  bytes), \<open>wr\<close> what \<open>write\<close> returns (\<open>None\<close> is the signal \<open>SIGPIPE\<close>, which ends the program), \<open>fd\<close> what \<open>socket\<close> returns and \<open>conn\<close> what \<open>connect\<close>
  returns with whether \<open>errno\<close> is \<open>EINPROGRESS\<close>. Calls that have an effect outside are appended to
  \<open>calls\<close>.
\<close>

definition m_upd :: "nat \<Rightarrow> (tcp_map \<Rightarrow> tcp_map) \<Rightarrow> world \<Rightarrow> world option" where
  "m_upd m f w = do { x \<leftarrow> maps w m; Some (w\<lparr>maps := (maps w)(m \<mapsto> f x)\<rparr>) }"

definition host :: "host_call \<Rightarrow> world \<Rightarrow> world" where
  "host c w = w\<lparr>calls := calls w @ [c]\<rparr>"

definition kill_map :: "nat \<Rightarrow> world \<Rightarrow> world option" where
  "kill_map m w = do {
     x \<leftarrow> maps w m;
     let w = (if m_fd x \<ge> 0 then host (Close (m_fd x)) w else w);
     w \<leftarrow> (if e_fd_write x \<noteq> 0 then remove_event (e_fd_write x) w else Some w);
     w \<leftarrow> (if e_fd_read x \<noteq> 0 then remove_event (e_fd_read x) w else Some w);
     Some (w\<lparr>tlist := remove1 m (tlist w), num_tcp_maps := num_tcp_maps w - 1, maps := (maps w)(m := None)\<rparr>)
   }"

text \<open>
  \<open>len > sizeof (tb)\<close> compares as \<open>unsigned long\<close>, so a negative \<open>len\<close> counts as large.
\<close>

definition handle_fd_can_read ::
    "iface \<Rightarrow> (int \<Rightarrow> int \<times> bool \<times> byte list) \<Rightarrow> nat \<Rightarrow> world \<Rightarrow> (int \<times> world) option" where
  "handle_fd_can_read ifc rd m w = do {
     x \<leftarrow> maps w m;
     len \<leftarrow> tcp_get_output_space (m_tcb x) w;
     let len = (if len < 0 \<or> len > 65536 then 65536 else len);
     if len = 0 then Some (0, w)
     else
       let (len, again, tb) = rd len in
       if len \<le> 0 then
         (if len = - 1 \<and> again then Some (1, w)
          else do {
            w \<leftarrow> m_upd m (\<lambda>x. x\<lparr>e_fd_read := 0\<rparr>) w;
            (_, w) \<leftarrow> tcp_close ifc (m_tcb x) 0 w;
            w \<leftarrow> kill_map m w;
            Some (0, w)
          })
       else do {
         (_, w) \<leftarrow> tcp_send (m_tcb x) tb len w;
         space \<leftarrow> tcp_get_output_space (m_tcb x) w;
         (if space = 0 then do {
            w \<leftarrow> m_upd m (\<lambda>x. x\<lparr>e_fd_read := 0\<rparr>) w;
            Some (0, w)
          }
          else Some (1, w))
       }
   }"

definition handle_fd_can_write ::
    "iface \<Rightarrow> (byte list \<Rightarrow> (int \<times> bool) option) \<Rightarrow> nat \<Rightarrow> world \<Rightarrow> (int \<times> world) option" where
  "handle_fd_can_write ifc wr m w = do {
     x \<leftarrow> maps w m;
     (len, tb, w) \<leftarrow> tcp_read (m_tcb x) 65536 w;
     w \<leftarrow> (if 0 \<le> len \<and> len < 65536 then m_upd m (\<lambda>x. x\<lparr>e_fd_write := 0\<rparr>) w else Some w);
     let w = host (Write (m_fd x) tb) w;
     (len, again) \<leftarrow> wr tb;
     if len \<le> 0 then
       (if len = - 1 \<and> again then Some (1, w)
        else do {
          w \<leftarrow> m_upd m (\<lambda>x. x\<lparr>e_fd_write := 0\<rparr>) w;
          (_, w) \<leftarrow> tcp_close ifc (m_tcb x) 0 w;
          w \<leftarrow> kill_map m w;
          Some (0, w)
        })
     else do {
       x \<leftarrow> maps w m;
       Some (of_bool (e_fd_write x \<noteq> 0), w)
     }
   }"

text \<open>\<open>ret\<close> is the \<open>SO_ERROR\<close> of the socket.\<close>

definition handle_fd_did_connect :: "iface \<Rightarrow> int \<Rightarrow> nat \<Rightarrow> world \<Rightarrow> (int \<times> world) option" where
  "handle_fd_did_connect ifc ret m w = do {
     x \<leftarrow> maps w m;
     w \<leftarrow> m_upd m (\<lambda>x. x\<lparr>e_fd_write := 0\<rparr>) w;
     if ret \<noteq> 0 then do {
       (_, w) \<leftarrow> tcp_close ifc (m_tcb x) 0 w;
       w \<leftarrow> kill_map m w;
       Some (0, w)
     }
     else do {
       (_, w) \<leftarrow> tcp_accept (m_tcb x) w;
       Some (0, w)
     }
   }"

text \<open>\<open>m\<close> is the address \<open>ALLOC\<close> returns.\<close>

definition incoming :: "iface \<Rightarrow> nat \<Rightarrow> int \<Rightarrow> int \<times> bool \<Rightarrow> ptr \<Rightarrow> world \<Rightarrow> world option" where
  "incoming ifc m fd conn t w = do {
     let w = w\<lparr>num_tcp_maps := num_tcp_maps w + 1, tlist := m # tlist w,
               maps := (maps w)(m \<mapsto> \<lparr>m_fd = fd, m_tcb = t, e_fd_read = 0, e_fd_write = 0\<rparr>)\<rparr>;
     w \<leftarrow> t_upd t (\<lambda>c. c\<lparr>app_data := m\<rparr>) w;
     la \<leftarrow> tcp_get_laddr t w;
     addr \<leftarrow> mem_sub la 12 4;
     port \<leftarrow> tcp_get_lport t w;
     if fd < 0 then do {
       (_, w) \<leftarrow> tcp_close ifc t 0 w;
       kill_map m w
     }
     else
       let w = host (Connect fd addr port) w in
       if fst conn < 0 then
         (if snd conn then do {
            (e, w) \<leftarrow> add_fd_event fd 1 (Handle_fd_did_connect m) w;
            m_upd m (\<lambda>x. x\<lparr>e_fd_write := e\<rparr>) w
          }
          else do {
            (_, w) \<leftarrow> tcp_close ifc t 0 w;
            kill_map m w
          })
       else do {
         (_, w) \<leftarrow> tcp_accept t w;
         Some w
       }
   }"

definition output_space :: "nat \<Rightarrow> int \<Rightarrow> world \<Rightarrow> world option" where
  "output_space m space w =
     (if space > 0 then do {
        x \<leftarrow> maps w m;
        if e_fd_read x = 0 then do {
          (e, w) \<leftarrow> add_fd_event (m_fd x) 0 (Handle_fd_can_read m) w;
          m_upd m (\<lambda>x. x\<lparr>e_fd_read := e\<rparr>) w
        }
        else Some w
      }
      else Some w)"

definition can_read :: "nat \<Rightarrow> int \<Rightarrow> world \<Rightarrow> world option" where
  "can_read m len w = do {
     x \<leftarrow> maps w m;
     if e_fd_write x = 0 then do {
       (e, w) \<leftarrow> add_fd_event (m_fd x) 1 (Handle_fd_can_write m) w;
       m_upd m (\<lambda>x. x\<lparr>e_fd_write := e\<rparr>) w
     }
     else Some w
   }"

definition map_closing :: "nat \<Rightarrow> int \<Rightarrow> world \<Rightarrow> world option" where
  "map_closing m hard w = kill_map m w"

text \<open>The table \<open>tcp_map_cb\<close> that \<open>ptrtd_tcp_init\<close> fills in.\<close>

definition tcp_map_cb :: "iface \<Rightarrow> nat \<Rightarrow> int \<Rightarrow> int \<times> bool \<Rightarrow> tcp_callback" where
  "tcp_map_cb ifc m fd conn =
     \<lparr>incoming_session = incoming ifc m fd conn, output_buffer_space = output_space,
      data_available = can_read, closing = map_closing\<rparr>"

definition ptrtd_tcp_init :: "ptr \<Rightarrow> world \<Rightarrow> world option" where
  "ptrtd_tcp_init t w = tcp_listen t None 0 w"

end
