(* ===== verification/Ownership.thy ===== *)
theory Ownership
  imports Event_Queue
begin

text \<open>
  Who owns which event. A tcb, a TCP map and a UDP map each hold two event pointers, either of which
  may be NULL, and an event carries its owner in the data pointer of its callback. The invariant
  \<open>events_ok\<close> says that the two agree: the events in the lists are exactly those the structures point to,
  with the right callback, so no callback runs on freed memory and no pointer names a removed event.
\<close>

datatype owner = Owner_tcb ptr | Owner_map nat | Owner_umap nat | Owner_iface

fun owner_of :: "callback \<Rightarrow> owner" where
  "owner_of (Do_tcb_write t) = Owner_tcb t"
| "owner_of (Tcp_timeout t) = Owner_tcb t"
| "owner_of (Tcp_remove t) = Owner_tcb t"
| "owner_of (Handle_fd_can_read m) = Owner_map m"
| "owner_of (Handle_fd_can_write m) = Owner_map m"
| "owner_of (Handle_fd_did_connect m) = Owner_map m"
| "owner_of (Remove_udp_map m) = Owner_umap m"
| "owner_of (Handle_udp_read m) = Owner_umap m"
| "owner_of Iface_read = Owner_iface"

type_synonym queue = "eptr \<rightharpoonup> ekind \<times> callback"

text \<open>
  The events of one owner. A timer that is running (\<open>Due\<close>) still belongs to its owner, so it counts as
  a timer here.
\<close>

fun listed :: "ekind \<Rightarrow> ekind" where
  "listed Due = Timer"
| "listed k = k"

definition own :: "owner \<Rightarrow> queue \<Rightarrow> queue" where
  "own x Q = (\<lambda>e. case Q e of None \<Rightarrow> None | Some (k, f) \<Rightarrow> if owner_of f = x then Some (listed k, f) else None)"

lemma own_Some: "own x Q e = Some (k, f) \<longleftrightarrow> (\<exists>k'. Q e = Some (k', f) \<and> listed k' = k \<and> owner_of f = x)"
  by (auto simp: own_def split: option.splits if_splits)

lemma listed_eq [simp]: "listed k = Fd \<longleftrightarrow> k = Fd" "listed k = Always \<longleftrightarrow> k = Always" "listed k = Timer \<longleftrightarrow> k = Timer \<or> k = Due"
  by (cases k; simp)+

lemma own_upd:
  "own x (Q(e := v)) = (own x Q)(e := (case v of None \<Rightarrow> None | Some (k, f) \<Rightarrow> if owner_of f = x then Some (listed k, f) else None))"
  by (auto simp: own_def fun_upd_apply)

lemma own_other: "Q e = Some (k, f) \<Longrightarrow> owner_of f \<noteq> x \<Longrightarrow> own x Q e = None"
  by (simp add: own_def)

lemma own_None: "Q e = None \<Longrightarrow> own x Q e = None"
  by (simp add: own_def)

lemma own_add:
  "Q e = None \<Longrightarrow> own x (Q(e \<mapsto> (k, f))) = (if owner_of f = x then (own x Q)(e \<mapsto> (listed k, f)) else own x Q)"
  by (simp add: own_upd own_None fun_upd_idem)

lemma own_del:
  "Q e = Some (k, f) \<Longrightarrow> own x (Q(e := None)) = (if owner_of f = x then (own x Q)(e := None) else own x Q)"
  using own_other [where Q = Q] by (simp add: own_upd fun_upd_idem)

subsection \<open>Two pointers\<close>

text \<open>The events of a structure with the pointers \<open>a\<close> and \<open>b\<close>, whose events are \<open>va\<close> and \<open>vb\<close>.\<close>

definition holds2 :: "eptr \<Rightarrow> ekind \<times> callback \<Rightarrow> eptr \<Rightarrow> ekind \<times> callback \<Rightarrow> queue \<Rightarrow> bool" where
  "holds2 a va b vb E \<longleftrightarrow> (a \<noteq> 0 \<longrightarrow> a \<noteq> b) \<and>
     E = (\<lambda>e. if e = 0 then None else if e = a then Some va else if e = b then Some vb else None)"

lemma holds2_none [simp]: "holds2 0 va 0 vb E \<longleftrightarrow> E = Map.empty"
  by (auto simp: holds2_def)

lemma holds2_get:
  assumes "holds2 a va b vb E"
  shows "a \<noteq> 0 \<Longrightarrow> E a = Some va" "b \<noteq> 0 \<Longrightarrow> E b = Some vb" "b \<noteq> 0 \<Longrightarrow> a \<noteq> b" "E 0 = None"
  using assms by (auto simp: holds2_def)

lemma holds2_which: "holds2 a va b vb E \<Longrightarrow> E e = Some v \<Longrightarrow> e \<noteq> 0 \<and> (e = a \<and> v = va \<or> e = b \<and> v = vb)"
  by (auto simp: holds2_def split: if_splits)

lemma holds2_set:
  assumes "e \<noteq> 0" "E e = None"
  shows "holds2 0 va' b vb E \<Longrightarrow> holds2 e va b vb (E(e \<mapsto> va))" "holds2 a va 0 vb' E \<Longrightarrow> holds2 a va e vb (E(e \<mapsto> vb))"
  using assms by (auto simp: holds2_def fun_upd_apply split: if_splits)

lemma holds2_clear:
  "holds2 a va b vb E \<Longrightarrow> holds2 0 va' b vb (E(a := None))" "holds2 a va b vb E \<Longrightarrow> holds2 a va 0 vb' (E(b := None))"
  by (auto simp: holds2_def fun_upd_apply)

lemma holds2_drop: "holds2 a va b vb E \<Longrightarrow> E(a := None, b := None) = Map.empty" "holds2 a va b vb E \<Longrightarrow> E(b := None, a := None) = Map.empty"
  by (auto simp: holds2_def fun_upd_apply)

lemma holds2_void: "holds2 0 va b vb E = holds2 0 va' b vb E" "holds2 a va 0 vb E = holds2 a va 0 vb' E"
  by (auto simp: holds2_def)

subsection \<open>The invariant\<close>

definition tcb_holds :: "ptr \<Rightarrow> tcb \<Rightarrow> queue \<Rightarrow> bool" where
  "tcb_holds t c = holds2 (e_tcb_send c) (Always, Do_tcb_write t)
     (e_timeout c) (Timer, if state c = TCP_TIME_WAIT then Tcp_remove t else Tcp_timeout t)"

text \<open>The write event of a map waits for the connection first and for room afterwards.\<close>

definition map_holds :: "nat \<Rightarrow> tcp_map \<Rightarrow> queue \<Rightarrow> bool" where
  "map_holds m x E \<longleftrightarrow> (\<exists>f \<in> {Handle_fd_can_write m, Handle_fd_did_connect m}.
     holds2 (e_fd_read x) (Fd, Handle_fd_can_read m) (e_fd_write x) (Fd, f) E)"

definition umap_holds :: "nat \<Rightarrow> udp_map \<Rightarrow> queue \<Rightarrow> bool" where
  "umap_holds m u E \<longleftrightarrow> um_e_fd_read u \<noteq> 0 \<and> um_e_stale u \<noteq> 0 \<and>
     holds2 (um_e_fd_read u) (Fd, Handle_udp_read m) (um_e_stale u) (Timer, Remove_udp_map m) E"

fun holds_events :: "world \<Rightarrow> owner \<Rightarrow> queue \<Rightarrow> bool" where
  "holds_events w (Owner_tcb t) E = (case tcbs w t of None \<Rightarrow> E = Map.empty | Some c \<Rightarrow> tcb_holds t c E)"
| "holds_events w (Owner_map m) E = (case maps w m of None \<Rightarrow> E = Map.empty | Some x \<Rightarrow> map_holds m x E)"
| "holds_events w (Owner_umap m) E = (case umaps w m of None \<Rightarrow> E = Map.empty | Some u \<Rightarrow> umap_holds m u E)"
| "holds_events w Owner_iface E = (\<forall>e v. E e = Some v \<longrightarrow> v = (Fd, Iface_read))"

definition owned :: "world \<Rightarrow> queue \<Rightarrow> bool" where
  "owned w Q \<longleftrightarrow> (\<forall>x. holds_events w x (own x Q))"

lemma events_cong: "tcbs w' = tcbs w \<Longrightarrow> maps w' = maps w \<Longrightarrow> umaps w' = umaps w \<Longrightarrow> holds_events w' = holds_events w"
  by (rule ext, rule ext, rename_tac x E, case_tac x) auto

lemma owned_cong: "tcbs w' = tcbs w \<Longrightarrow> maps w' = maps w \<Longrightarrow> umaps w' = umaps w \<Longrightarrow> owned w' Q = owned w Q"
  using events_cong [of w' w] by (simp add: owned_def)

text \<open>A step that concerns one owner.\<close>

lemma owned_step:
  assumes "owned w Q" "\<And>y. y \<noteq> x \<Longrightarrow> own y Q' = own y Q" "\<And>y E. y \<noteq> x \<Longrightarrow> holds_events w' y E = holds_events w y E" "holds_events w' x (own x Q')"
  shows "owned w' Q'"
  unfolding owned_def
proof
  fix y
  show "holds_events w' y (own y Q')"
    using assms by (cases "y = x") (simp_all add: owned_def)
qed

lemma owned_at: "owned w Q \<Longrightarrow> holds_events w x (own x Q)"
  by (simp add: owned_def)

lemma owned_tcb: "owned w Q \<Longrightarrow> tcbs w t = Some c \<Longrightarrow> tcb_holds t c (own (Owner_tcb t) Q)"
  and owned_no_tcb: "owned w Q \<Longrightarrow> tcbs w t = None \<Longrightarrow> own (Owner_tcb t) Q = Map.empty"
  using owned_at [of w Q "Owner_tcb t"] by simp_all

lemma owned_map: "owned w Q \<Longrightarrow> maps w m = Some x \<Longrightarrow> map_holds m x (own (Owner_map m) Q)"
  and owned_no_map: "owned w Q \<Longrightarrow> maps w m = None \<Longrightarrow> own (Owner_map m) Q = Map.empty"
  using owned_at [of w Q "Owner_map m"] by simp_all

lemma owned_umap: "owned w Q \<Longrightarrow> umaps w m = Some u \<Longrightarrow> umap_holds m u (own (Owner_umap m) Q)"
  and owned_no_umap: "owned w Q \<Longrightarrow> umaps w m = None \<Longrightarrow> own (Owner_umap m) Q = Map.empty"
  using owned_at [of w Q "Owner_umap m"] by simp_all

subsection \<open>The running event\<close>

text \<open>
  While a callback runs, its event is still in the list although its owner may have let go of it. \<open>P\<close>
  are the events that are in the lists without an owner; between callbacks it is empty.
\<close>

definition events_ok :: "queue \<Rightarrow> world \<Rightarrow> queue \<Rightarrow> bool" where
  "events_ok P w Q \<longleftrightarrow> evq w Q \<and> P \<subseteq>\<^sub>m Q \<and> owned w (Q |` (- dom P))"

lemma events_ok_evq: "events_ok P w Q \<Longrightarrow> evq w Q"
  by (simp add: events_ok_def)

text \<open>The events of an owner, as far as they are not up for removal.\<close>

definition mine :: "queue \<Rightarrow> owner \<Rightarrow> queue \<Rightarrow> queue" where
  "mine P x Q = own x (Q |` (- dom P))"

lemma mine_at: "events_ok P w Q \<Longrightarrow> holds_events w x (mine P x Q)"
  by (simp add: events_ok_def owned_def mine_def)

lemma mine_tcb: "events_ok P w Q \<Longrightarrow> tcbs w t = Some c \<Longrightarrow> tcb_holds t c (mine P (Owner_tcb t) Q)"
  using mine_at [of P w Q "Owner_tcb t"] by simp

lemma mine_map: "events_ok P w Q \<Longrightarrow> maps w m = Some x \<Longrightarrow> map_holds m x (mine P (Owner_map m) Q)"
  using mine_at [of P w Q "Owner_map m"] by simp

lemma mine_umap: "events_ok P w Q \<Longrightarrow> umaps w m = Some u \<Longrightarrow> umap_holds m u (mine P (Owner_umap m) Q)"
  using mine_at [of P w Q "Owner_umap m"] by simp

lemma mine_Some:
  "mine P x Q e = Some (k, f) \<longleftrightarrow> (\<exists>k'. Q e = Some (k', f) \<and> listed k' = k \<and> owner_of f = x) \<and> P e = None"
  by (cases "P e") (auto simp: mine_def own_Some restrict_map_def)

lemma mine_None: "Q e = None \<Longrightarrow> mine P x Q e = None"
  by (simp add: mine_def own_def restrict_map_def)

lemma mine_add:
  assumes "P \<subseteq>\<^sub>m Q" "Q e = None"
  shows "mine P x (Q(e \<mapsto> (k, f))) = (if owner_of f = x then (mine P x Q)(e \<mapsto> (listed k, f)) else mine P x Q)"
proof -
  have "e \<notin> dom P"
    using assms by (force simp: map_le_def)
  then have "(Q(e \<mapsto> (k, f))) |` (- dom P) = (Q |` (- dom P))(e \<mapsto> (k, f))"
    by (auto simp: restrict_map_def fun_upd_apply fun_eq_iff)
  then show ?thesis
    using own_add [of "Q |` (- dom P)" e x k f] assms(2) by (simp add: mine_def restrict_map_def)
qed

lemma mine_del:
  assumes "mine P y Q e = Some (k, f)"
  shows "mine P x (Q(e := None)) = (if y = x then (mine P x Q)(e := None) else mine P x Q)"
proof -
  obtain k' where e: "(Q |` (- dom P)) e = Some (k', f)" "owner_of f = y"
    using assms by (auto simp: mine_def own_Some)
  have "(Q(e := None)) |` (- dom P) = (Q |` (- dom P))(e := None)"
    by (auto simp: restrict_map_def fun_upd_apply)
  then show ?thesis
    using own_del [of "Q |` (- dom P)", OF e(1)] e(2) by (simp add: mine_def)
qed

lemma mine_orphan:
  assumes "mine P y Q e = Some (k, f)"
  shows "mine (P(e \<mapsto> v)) x (Q(e \<mapsto> v)) = (if y = x then (mine P x Q)(e := None) else mine P x Q)"
proof -
  have "(Q(e \<mapsto> v)) |` (- dom (P(e \<mapsto> v))) = (Q(e := None)) |` (- dom P)"
    by (auto simp: restrict_map_def fun_upd_apply)
  then show ?thesis
    using mine_del [OF assms, of x] by (simp add: mine_def)
qed

lemma events_okI:
  assumes "evq w' Q'" "P' \<subseteq>\<^sub>m Q'" "\<And>y. holds_events w' y (mine P' y Q')"
  shows "events_ok P' w' Q'"
  using assms by (simp add: events_ok_def owned_def mine_def)

text \<open>The four ways in which a callback changes the events of one owner \<open>x\<close>.\<close>

lemma events_same:
  assumes "events_ok P w Q" "evq w' Q" "\<And>y E. y \<noteq> x \<Longrightarrow> holds_events w' y E = holds_events w y E" "holds_events w' x (mine P x Q)"
  shows "events_ok P w' Q"
proof (rule events_okI)
  show "holds_events w' y (mine P y Q)" for y
    using assms mine_at [OF assms(1), of y] by (cases "y = x") simp_all
qed (use assms in \<open>simp_all add: events_ok_def\<close>)

lemma events_add:
  assumes "events_ok P w Q" "Q e = None" "evq w' (Q(e \<mapsto> (k, f)))"
    "\<And>y E. y \<noteq> owner_of f \<Longrightarrow> holds_events w' y E = holds_events w y E"
    "holds_events w' (owner_of f) ((mine P (owner_of f) Q)(e \<mapsto> (listed k, f)))"
  shows "events_ok P w' (Q(e \<mapsto> (k, f)))"
proof (rule events_okI)
  have p: "P \<subseteq>\<^sub>m Q"
    using assms(1) by (simp add: events_ok_def)
  show "P \<subseteq>\<^sub>m Q(e \<mapsto> (k, f))"
    using p assms(2) by (force simp: map_le_def fun_upd_apply)
  show "holds_events w' y (mine P y (Q(e \<mapsto> (k, f))))" for y
    using assms(4,5) mine_at [OF assms(1), of y] mine_add [OF p assms(2), of y k f] by (cases "y = owner_of f") auto
qed (rule assms(3))

lemma events_del:
  assumes "events_ok P w Q" "mine P x Q e = Some (k, f)" "evq w' (Q(e := None))"
    "\<And>y E. y \<noteq> x \<Longrightarrow> holds_events w' y E = holds_events w y E" "holds_events w' x ((mine P x Q)(e := None))"
  shows "events_ok P w' (Q(e := None))"
proof (rule events_okI)
  have "P \<subseteq>\<^sub>m Q" "P e = None"
    using assms(1,2) by (auto simp: events_ok_def mine_Some)
  then show "P \<subseteq>\<^sub>m Q(e := None)"
    by (auto simp: map_le_def fun_upd_apply)
  show "holds_events w' y (mine P y (Q(e := None)))" for y
    using assms(4,5) mine_at [OF assms(1), of y] mine_del [OF assms(2), of y] by (cases "y = x") auto
qed (rule assms(3))

lemma events_orphan:
  assumes "events_ok P w Q" "mine P x Q e = Some (k, f)" "Q e = Some v" "evq w' Q"
    "\<And>y E. y \<noteq> x \<Longrightarrow> holds_events w' y E = holds_events w y E" "holds_events w' x ((mine P x Q)(e := None))"
  shows "events_ok (P(e \<mapsto> v)) w' Q"
proof (rule events_okI)
  have "P \<subseteq>\<^sub>m Q"
    using assms(1) by (simp add: events_ok_def)
  then show "P(e \<mapsto> v) \<subseteq>\<^sub>m Q"
    using assms(3) by (auto simp: map_le_def fun_upd_apply)
  have "Q(e \<mapsto> v) = Q"
    using assms(3) by (simp add: fun_upd_idem)
  then show "holds_events w' y (mine (P(e \<mapsto> v)) y Q)" for y
    using assms(5,6) mine_at [OF assms(1), of y] mine_orphan [OF assms(2), of v y] by (cases "y = x") auto
qed (rule assms(4))

text \<open>The structure with the pointers \<open>a\<close> and \<open>b\<close> is freed and both events are removed.\<close>

lemma events_gone:
  assumes "events_ok P w Q" and h: "holds2 a va b vb (mine P x Q)" and w': "evq w' (Q(a := None, b := None))"
    and f: "\<And>y E. y \<noteq> x \<Longrightarrow> holds_events w' y E = holds_events w y E" "holds_events w' x Map.empty"
  shows "events_ok P w' (Q(a := None, b := None))"
proof (rule events_okI [OF w'])
  let ?Q = "Q(a := None, b := None)"
  have Q0: "Q 0 = None"
    using evl.null_law events_ok_evq [OF assms(1)] by blast
  have d: "P e = None" if "e \<noteq> 0" "e = a \<or> e = b" for e
    using holds2_get(1,2) [OF h] that by (cases va; cases vb) (auto simp: mine_Some)
  have p: "P \<subseteq>\<^sub>m Q"
    using assms(1) by (simp add: events_ok_def)
  have P0: "P 0 = None"
    using p Q0 by (cases "P 0") (force simp: map_le_def)+
  show "P \<subseteq>\<^sub>m ?Q"
    using p d P0 unfolding map_le_def by (metis domIff fun_upd_apply)
  have m: "mine P y ?Q = (mine P y Q)(a := None, b := None)" for y
    by (auto simp: mine_def own_def restrict_map_def fun_upd_apply fun_eq_iff)
  have o: "mine P y Q e = None" if "y \<noteq> x" "e = a \<or> e = b" for y e
  proof (cases "e = 0")
    case True
    then show ?thesis
      using mine_None [of Q 0] Q0 by simp
  next
    case False
    then have "mine P x Q e \<noteq> None"
      using holds2_get(1,2) [OF h] that(2) by auto
    then have "\<exists>k f. Q e = Some (k, f) \<and> owner_of f = x"
      by (auto simp: mine_Some)
    then show ?thesis
      using that(1) by (cases "mine P y Q e") (auto simp: mine_Some)
  qed
  show "holds_events w' y (mine P y ?Q)" for y
  proof (cases "y = x")
    case True
    then show ?thesis
      using m [of y] holds2_drop(1) [OF h] f(2) by simp
  next
    case False
    then have "mine P y ?Q = mine P y Q"
      using m [of y] o [OF False] by (simp add: fun_upd_idem)
    then show ?thesis
      using mine_at [OF assms(1), of y] f(1) [OF False] by simp
  qed
qed

text \<open>The loop removes the event whose callback let go of it.\<close>

lemma events_reap:
  assumes "events_ok [e \<mapsto> v] w Q" "evq w' (Q(e := None))" "evs.more w' = evs.more w"
  shows "events_ok Map.empty w' (Q(e := None))"
proof (rule events_okI)
  have "(Q(e := None)) |` (- dom (Map.empty :: queue)) = Q |` (- dom [e \<mapsto> v])"
    by (auto simp: restrict_map_def fun_upd_apply)
  then have "mine Map.empty y (Q(e := None)) = mine [e \<mapsto> v] y Q" for y
    unfolding mine_def by simp
  then show "holds_events w' y (mine Map.empty y (Q(e := None)))" for y
    using mine_at [OF assms(1), of y] events_cong [of w' w] evs_frame [OF assms(3)] by simp
qed (use assms in simp_all)

subsection \<open>The events of a connection\<close>

lemma tcb_frame:
  "y \<noteq> Owner_tcb t \<Longrightarrow> tcbs w' = (tcbs w)(t := v) \<Longrightarrow> maps w' = maps w \<Longrightarrow> umaps w' = umaps w \<Longrightarrow>
     holds_events w' y E = holds_events w y E"
  by (cases y) simp_all

lemma map_frame:
  "y \<noteq> Owner_map m \<Longrightarrow> maps w' = (maps w)(m := v) \<Longrightarrow> tcbs w' = tcbs w \<Longrightarrow> umaps w' = umaps w \<Longrightarrow>
     holds_events w' y E = holds_events w y E"
  by (cases y) simp_all

lemma umap_frame:
  "y \<noteq> Owner_umap m \<Longrightarrow> umaps w' = (umaps w)(m := v) \<Longrightarrow> tcbs w' = tcbs w \<Longrightarrow> maps w' = maps w \<Longrightarrow>
     holds_events w' y E = holds_events w y E"
  by (cases y) simp_all

text \<open>A change of a tcb that keeps its event pointers.\<close>

lemma tcb_same:
  assumes "events_ok P w Q" "tcbs w t = Some c" "e_tcb_send c' = e_tcb_send c" "e_timeout c' = e_timeout c"
    "e_timeout c \<noteq> 0 \<Longrightarrow> state c' = TCP_TIME_WAIT \<longleftrightarrow> state c = TCP_TIME_WAIT"
    and w': "evq w' Q" "tcbs w' = (tcbs w)(t \<mapsto> c')" "maps w' = maps w" "umaps w' = umaps w"
  shows "events_ok P w' Q"
proof (rule events_same [OF assms(1) w'(1), of "Owner_tcb t"])
  have "tcb_holds t c' = tcb_holds t c"
    using assms(3-5) holds2_void(2) by (cases "e_timeout c = 0") (auto simp: tcb_holds_def fun_eq_iff)
  then show "holds_events w' (Owner_tcb t) (mine P (Owner_tcb t) Q)"
    using mine_tcb [OF assms(1,2)] w'(2) by simp
qed (rule tcb_frame [OF _ w'(2-4)])

lemma tcb_add_send:
  assumes "events_ok P w Q" "tcbs w t = Some c" "e_tcb_send c = 0" "e \<noteq> 0" "Q e = None"
    and c': "e_tcb_send c' = e" "e_timeout c' = e_timeout c" "state c' = state c"
    and w': "evq w' (Q(e \<mapsto> (Always, Do_tcb_write t)))" "tcbs w' = (tcbs w)(t \<mapsto> c')" "maps w' = maps w" "umaps w' = umaps w"
  shows "events_ok P w' (Q(e \<mapsto> (Always, Do_tcb_write t)))"
proof (rule events_add [OF assms(1,5) w'(1)])
  show "holds_events w' (owner_of (Do_tcb_write t)) ((mine P (owner_of (Do_tcb_write t)) Q)(e \<mapsto> (listed Always, Do_tcb_write t)))"
    using mine_tcb [OF assms(1,2)] w'(2) c' assms(3) holds2_set(1) [where E = "mine P (Owner_tcb t) Q", OF assms(4) mine_None [where Q = Q, OF assms(5)]] by (simp add: tcb_holds_def)
  show "holds_events w' y E = holds_events w y E" if "y \<noteq> owner_of (Do_tcb_write t)" for y E
    using that by (intro tcb_frame [OF _ w'(2-4)]) simp
qed

text \<open>The retransmission timer, or the one that ends \<open>TIME_WAIT\<close>.\<close>

lemma tcb_add_timer:
  assumes "events_ok P w Q" "tcbs w t = Some c" "e_timeout c = 0" "e \<noteq> 0" "Q e = None"
    and c': "e_timeout c' = e" "e_tcb_send c' = e_tcb_send c" "f = (if state c' = TCP_TIME_WAIT then Tcp_remove t else Tcp_timeout t)"
    and w': "evq w' (Q(e \<mapsto> (Timer, f)))" "tcbs w' = (tcbs w)(t \<mapsto> c')" "maps w' = maps w" "umaps w' = umaps w"
  shows "events_ok P w' (Q(e \<mapsto> (Timer, f)))"
proof (rule events_add [OF assms(1,5) w'(1)])
  have o: "owner_of f = Owner_tcb t"
    by (simp add: c'(3))
  show "holds_events w' (owner_of f) ((mine P (owner_of f) Q)(e \<mapsto> (listed Timer, f)))"
    unfolding o using mine_tcb [OF assms(1,2)] w'(2) c' assms(3) holds2_set(2) [where E = "mine P (Owner_tcb t) Q", OF assms(4) mine_None [where Q = Q, OF assms(5)]]
    by (simp add: tcb_holds_def)
  show "holds_events w' y E = holds_events w y E" if "y \<noteq> owner_of f" for y E
    using that o by (intro tcb_frame [OF _ w'(2-4)]) simp
qed

lemma tcb_del_timer:
  assumes "events_ok P w Q" "tcbs w t = Some c" "e_timeout c \<noteq> 0"
    and c': "e_timeout c' = 0" "e_tcb_send c' = e_tcb_send c"
    and w': "evq w' (Q(e_timeout c := None))" "tcbs w' = (tcbs w)(t \<mapsto> c')" "maps w' = maps w" "umaps w' = umaps w"
  shows "events_ok P w' (Q(e_timeout c := None))"
proof (rule events_del [OF assms(1) _ w'(1)])
  note h = mine_tcb [OF assms(1,2), unfolded tcb_holds_def]
  show "mine P (Owner_tcb t) Q (e_timeout c) = Some (Timer, if state c = TCP_TIME_WAIT then Tcp_remove t else Tcp_timeout t)"
    using holds2_get(2) [OF h assms(3)] .
  show "holds_events w' (Owner_tcb t) ((mine P (Owner_tcb t) Q)(e_timeout c := None))"
    using holds2_clear(2) [OF h] w'(2) c' by (simp add: tcb_holds_def)
qed (rule tcb_frame [OF _ w'(2-4)])

text \<open>Where the events of a tcb are.\<close>

lemma tcb_event:
  assumes "events_ok P w Q" "tcbs w t = Some c"
  shows "e_tcb_send c \<noteq> 0 \<Longrightarrow> Q (e_tcb_send c) = Some (Always, Do_tcb_write t)"
    "e_timeout c \<noteq> 0 \<Longrightarrow> \<exists>k. Q (e_timeout c) = Some (k, if state c = TCP_TIME_WAIT then Tcp_remove t else Tcp_timeout t) \<and> (k = Timer \<or> k = Due)"
    "e_timeout c \<noteq> 0 \<Longrightarrow> e_tcb_send c \<noteq> e_timeout c"
proof -
  note h = holds2_get [OF mine_tcb [OF assms, unfolded tcb_holds_def]]
  show "e_tcb_send c \<noteq> 0 \<Longrightarrow> Q (e_tcb_send c) = Some (Always, Do_tcb_write t)"
    using h(1) by (auto simp: mine_Some)
  show "e_timeout c \<noteq> 0 \<Longrightarrow> \<exists>k. Q (e_timeout c) = Some (k, if state c = TCP_TIME_WAIT then Tcp_remove t else Tcp_timeout t) \<and> (k = Timer \<or> k = Due)"
    using h(2) by (auto simp: mine_Some)
  show "e_timeout c \<noteq> 0 \<Longrightarrow> e_tcb_send c \<noteq> e_timeout c"
    using h(3) .
qed

text \<open>A tcb is freed after its events are removed.\<close>

lemma tcb_gone:
  assumes "events_ok P w Q" "tcbs w t = Some c"
    and w': "evq w' (Q(e_tcb_send c := None, e_timeout c := None))" "tcbs w' = (tcbs w)(t := None)" "maps w' = maps w" "umaps w' = umaps w"
  shows "events_ok P w' (Q(e_tcb_send c := None, e_timeout c := None))"
  by (rule events_gone [OF assms(1) mine_tcb [OF assms(1,2), unfolded tcb_holds_def] w'(1) tcb_frame [OF _ w'(2-4)]]) (use w'(2) in simp_all)

subsection \<open>The events of a TCP map\<close>

lemma map_event:
  assumes "events_ok P w Q" "maps w m = Some x"
  shows "e_fd_read x \<noteq> 0 \<Longrightarrow> Q (e_fd_read x) = Some (Fd, Handle_fd_can_read m)"
    "e_fd_write x \<noteq> 0 \<Longrightarrow> \<exists>f. Q (e_fd_write x) = Some (Fd, f)" "e_fd_write x \<noteq> 0 \<Longrightarrow> e_fd_read x \<noteq> e_fd_write x"
proof -
  obtain f where h: "holds2 (e_fd_read x) (Fd, Handle_fd_can_read m) (e_fd_write x) (Fd, f) (mine P (Owner_map m) Q)"
    using mine_map [OF assms] by (auto simp: map_holds_def)
  note g = holds2_get [OF h]
  show "e_fd_read x \<noteq> 0 \<Longrightarrow> Q (e_fd_read x) = Some (Fd, Handle_fd_can_read m)"
    using g(1) by (auto simp: mine_Some)
  show "e_fd_write x \<noteq> 0 \<Longrightarrow> \<exists>f. Q (e_fd_write x) = Some (Fd, f)"
    using g(2) by (auto simp: mine_Some)
  show "e_fd_write x \<noteq> 0 \<Longrightarrow> e_fd_read x \<noteq> e_fd_write x"
    using g(3) .
qed

lemma map_add_read:
  assumes "events_ok P w Q" "maps w m = Some x" "e_fd_read x = 0" "e \<noteq> 0" "Q e = None"
    and w': "evq w' (Q(e \<mapsto> (Fd, Handle_fd_can_read m)))" "maps w' = (maps w)(m \<mapsto> x\<lparr>e_fd_read := e\<rparr>)" "tcbs w' = tcbs w" "umaps w' = umaps w"
  shows "events_ok P w' (Q(e \<mapsto> (Fd, Handle_fd_can_read m)))"
proof (rule events_add [OF assms(1,5) w'(1)])
  show "holds_events w' (owner_of (Handle_fd_can_read m)) ((mine P (owner_of (Handle_fd_can_read m)) Q)(e \<mapsto> (listed Fd, Handle_fd_can_read m)))"
    using mine_map [OF assms(1,2)] w'(2) assms(3) holds2_set(1) [where E = "mine P (Owner_map m) Q", OF assms(4) mine_None [where Q = Q, OF assms(5)]]
    by (auto simp: map_holds_def)
  show "holds_events w' y E = holds_events w y E" if "y \<noteq> owner_of (Handle_fd_can_read m)" for y E
    using that by (intro map_frame [OF _ w'(2-4)]) simp
qed

lemma map_add_write:
  assumes "events_ok P w Q" "maps w m = Some x" "e_fd_write x = 0" "e \<noteq> 0" "Q e = None"
    and f: "f = Handle_fd_can_write m \<or> f = Handle_fd_did_connect m"
    and w': "evq w' (Q(e \<mapsto> (Fd, f)))" "maps w' = (maps w)(m \<mapsto> x\<lparr>e_fd_write := e\<rparr>)" "tcbs w' = tcbs w" "umaps w' = umaps w"
  shows "events_ok P w' (Q(e \<mapsto> (Fd, f)))"
proof (rule events_add [OF assms(1,5) w'(1)])
  have o: "owner_of f = Owner_map m"
    using f by auto
  obtain f' where "holds2 (e_fd_read x) (Fd, Handle_fd_can_read m) (e_fd_write x) (Fd, f') (mine P (Owner_map m) Q)"
    using mine_map [OF assms(1,2)] by (auto simp: map_holds_def)
  then have "holds2 (e_fd_read x) (Fd, Handle_fd_can_read m) e (Fd, f) ((mine P (Owner_map m) Q)(e \<mapsto> (Fd, f)))"
    using holds2_set(2) [where E = "mine P (Owner_map m) Q", OF assms(4) mine_None [where Q = Q, OF assms(5)]] assms(3) by simp
  then show "holds_events w' (owner_of f) ((mine P (owner_of f) Q)(e \<mapsto> (listed Fd, f)))"
    unfolding o using w'(2) f by (auto simp: map_holds_def)
  show "holds_events w' y E = holds_events w y E" if "y \<noteq> owner_of f" for y E
    using that o by (intro map_frame [OF _ w'(2-4)]) simp
qed

lemma map_orphan_read:
  assumes "events_ok P w Q" "maps w m = Some x" "e_fd_read x \<noteq> 0"
    and w': "evq w' Q" "maps w' = (maps w)(m \<mapsto> x\<lparr>e_fd_read := 0\<rparr>)" "tcbs w' = tcbs w" "umaps w' = umaps w"
  shows "events_ok (P(e_fd_read x \<mapsto> (Fd, Handle_fd_can_read m))) w' Q"
proof (rule events_orphan [OF assms(1) _ map_event(1) [OF assms(1-3)] w'(1)])
  obtain f where f: "f = Handle_fd_can_write m \<or> f = Handle_fd_did_connect m"
      and h: "holds2 (e_fd_read x) (Fd, Handle_fd_can_read m) (e_fd_write x) (Fd, f) (mine P (Owner_map m) Q)"
    using mine_map [OF assms(1,2)] by (auto simp: map_holds_def)
  show "mine P (Owner_map m) Q (e_fd_read x) = Some (Fd, Handle_fd_can_read m)"
    using holds2_get(1) [OF h assms(3)] .
  show "holds_events w' (Owner_map m) ((mine P (Owner_map m) Q)(e_fd_read x := None))"
    using holds2_clear(1) [OF h] w'(2) f by (auto simp: map_holds_def)
qed (rule map_frame [OF _ w'(2-4)])

lemma map_orphan_write:
  assumes "events_ok P w Q" "maps w m = Some x" "e_fd_write x \<noteq> 0" "Q (e_fd_write x) = Some v"
    and w': "evq w' Q" "maps w' = (maps w)(m \<mapsto> x\<lparr>e_fd_write := 0\<rparr>)" "tcbs w' = tcbs w" "umaps w' = umaps w"
  shows "events_ok (P(e_fd_write x \<mapsto> v)) w' Q"
proof -
  obtain f where f: "f = Handle_fd_can_write m \<or> f = Handle_fd_did_connect m"
      and h: "holds2 (e_fd_read x) (Fd, Handle_fd_can_read m) (e_fd_write x) (Fd, f) (mine P (Owner_map m) Q)"
    using mine_map [OF assms(1,2)] by (auto simp: map_holds_def)
  show ?thesis
  proof (rule events_orphan [OF assms(1) _ assms(4) w'(1)])
    show "mine P (Owner_map m) Q (e_fd_write x) = Some (Fd, f)"
      using holds2_get(2) [OF h assms(3)] .
    show "holds_events w' (Owner_map m) ((mine P (Owner_map m) Q)(e_fd_write x := None))"
      using holds2_clear(2) [OF h] w'(2) f by (auto simp: map_holds_def)
  qed (rule map_frame [OF _ w'(2-4)])
qed

lemma map_gone:
  assumes "events_ok P w Q" "maps w m = Some x"
    and w': "evq w' (Q(e_fd_write x := None, e_fd_read x := None))" "maps w' = (maps w)(m := None)" "tcbs w' = tcbs w" "umaps w' = umaps w"
  shows "events_ok P w' (Q(e_fd_write x := None, e_fd_read x := None))"
proof -
  obtain f where h: "holds2 (e_fd_read x) (Fd, Handle_fd_can_read m) (e_fd_write x) (Fd, f) (mine P (Owner_map m) Q)"
    using mine_map [OF assms(1,2)] by (auto simp: map_holds_def)
  have q: "Q(e_fd_write x := None, e_fd_read x := None) = Q(e_fd_read x := None, e_fd_write x := None)"
    by (auto simp: fun_upd_apply)
  show ?thesis
    unfolding q by (rule events_gone [OF assms(1) h w'(1) [unfolded q] map_frame [OF _ w'(2-4)]]) (use w'(2) in simp_all)
qed

lemma map_new:
  assumes "events_ok P w Q" "maps w m = None" "e_fd_read x = 0" "e_fd_write x = 0"
    and w': "evq w' Q" "maps w' = (maps w)(m \<mapsto> x)" "tcbs w' = tcbs w" "umaps w' = umaps w"
  shows "events_ok P w' Q"
proof (rule events_same [OF assms(1) w'(1), of "Owner_map m"])
  have "mine P (Owner_map m) Q = Map.empty"
    using mine_at [OF assms(1), of "Owner_map m"] assms(2) by simp
  then show "holds_events w' (Owner_map m) (mine P (Owner_map m) Q)"
    using w'(2) assms(3,4) by (auto simp: map_holds_def)
qed (rule map_frame [OF _ w'(2-4)])

text \<open>A change elsewhere.\<close>

lemma events_frame:
  "events_ok P w Q \<Longrightarrow> evq w' Q \<Longrightarrow> tcbs w' = tcbs w \<Longrightarrow> maps w' = maps w \<Longrightarrow> umaps w' = umaps w \<Longrightarrow> events_ok P w' Q"
  using owned_cong [of w' w] by (simp add: events_ok_def)

lemma events_start: "events_ok Map.empty (start_world tv) Map.empty"
proof (rule events_okI [OF evq_start])
  show "holds_events (start_world tv) y (mine Map.empty y Map.empty)" for y
    by (cases y) (simp_all add: start_world_def mine_def own_def)
qed simp

end
