(* ===== verification/Udp.thy ===== *)
theory Udp
  imports Icmp Ownership
begin

text \<open>
  UDP (\<^verbatim>\<open>src/udp.c\<close>) and its side of the relay (\<^verbatim>\<open>src/ptrtd-udp.c\<close>). Sockets and maps live in
  \<open>socks\<close> and \<open>umaps\<close> at addresses that are naturals (0 is NULL); the doubly linked lists are the
  lists of their addresses, newest first. The program has one callback, so a socket holds none.
  A call that ends the program with \<open>exit (1)\<close> gives \<open>Inl 1\<close>.
\<close>

subsection \<open>Sockets\<close>

definition udp_remove_sock :: "nat \<Rightarrow> world \<Rightarrow> world option" where
  "udp_remove_sock us w = do {
     _ \<leftarrow> socks w us;
     Some (w\<lparr>udp_list := remove1 us (udp_list w), socks := (socks w)(us := None)\<rparr>)
   }"

text \<open>\<open>cb\<close> is the function \<open>incoming_packet\<close>: payload, length, local address and port, remote ones.\<close>

definition handle_udp ::
    "(byte list \<Rightarrow> int \<Rightarrow> byte list \<Rightarrow> int \<Rightarrow> byte list \<Rightarrow> int \<Rightarrow> world \<Rightarrow> (int + world) option) \<Rightarrow>
     byte list \<Rightarrow> int \<Rightarrow> world \<Rightarrow> (int + world) option" where
  "handle_udp incoming_packet p len w =
     (if udp_list w = [] then Some (Inr w)
      else do {
        _ \<leftarrow> socks w (hd (udp_list w));
        lp \<leftarrow> GET_16 p 42;
        rp \<leftarrow> GET_16 p 40;
        la \<leftarrow> mem_sub p 24 16;
        ra \<leftarrow> mem_sub p 8 16;
        incoming_packet (drop 48 p) (len - 48) la lp ra rp w
      })"

text \<open>\<open>us\<close> is the address \<open>ALLOC\<close> returns.\<close>

definition udp_open :: "nat \<Rightarrow> byte list option \<Rightarrow> int \<Rightarrow> world \<Rightarrow> world option" where
  "udp_open us la lp w = do {
     a \<leftarrow> (case la of None \<Rightarrow> Some (replicate 16 0) | Some a \<Rightarrow> mem_sub a 0 16);
     Some (w\<lparr>udp_list := us # udp_list w, socks := (socks w)(us \<mapsto> \<lparr>us_laddr = a, us_lport = lp\<rparr>)\<rparr>)
   }"

definition udp_send ::
    "iface \<Rightarrow> byte list \<Rightarrow> int \<Rightarrow> byte list \<Rightarrow> int \<Rightarrow> byte list \<Rightarrow> int \<Rightarrow> world \<Rightarrow> (int \<times> world) option" where
  "udp_send ifc data len la lp ra rp w = do {
     let p = get_buffer ifc 1280;
     let len = (if len > 1280 - 48 then 1280 - 48 else len);
     d \<leftarrow> memcpy (pb_d p) 48 data 0 len;
     d \<leftarrow> mem_put d 0 (replicate 48 0);
     d \<leftarrow> mem_put d 0 [0x60];
     d \<leftarrow> PUT_16 d 4 (len + 8);
     d \<leftarrow> mem_put d 6 [17];
     d \<leftarrow> mem_put d 7 [0x40];
     d \<leftarrow> memcpy d 8 la 0 16;
     d \<leftarrow> memcpy d 24 ra 0 16;
     d \<leftarrow> PUT_16 d 40 lp;
     d \<leftarrow> PUT_16 d 42 rp;
     d \<leftarrow> PUT_16 d 44 (len + 8);
     sum \<leftarrow> make_cksum d (len + 48);
     d \<leftarrow> PUT_16 d 46 (NOT sum);
     w \<leftarrow> send_pkt ifc ((pb_set p d)\<lparr>pb_dlen := len + 48\<rparr>) w;
     Some (len, w)
   }"

definition udp_close :: "nat \<Rightarrow> world \<Rightarrow> (int \<times> world) option" where
  "udp_close us w = do { w \<leftarrow> udp_remove_sock us w; Some (1, w) }"

definition udp_get_laddr :: "nat \<Rightarrow> world \<Rightarrow> byte list option" where
  "udp_get_laddr us w = map_option us_laddr (socks w us)"

definition udp_get_lport :: "nat \<Rightarrow> world \<Rightarrow> int option" where
  "udp_get_lport us w = map_option us_lport (socks w us)"

subsection \<open>Maps\<close>

definition remove_udp_map :: "nat \<Rightarrow> world \<Rightarrow> (int \<times> world) option" where
  "remove_udp_map m w = do {
     um \<leftarrow> umaps w m;
     let w = w\<lparr>ulist := remove1 m (ulist w)\<rparr>;
     w \<leftarrow> remove_event (um_e_fd_read um) w;
     Some (0, w\<lparr>calls := calls w @ [Close (um_fd um)], umaps := (umaps w)(m := None)\<rparr>)
   }"

fun find_umap :: "byte list \<Rightarrow> int \<Rightarrow> nat list \<Rightarrow> world \<Rightarrow> nat option option" where
  "find_umap ra rp [] w = Some None"
| "find_umap ra rp (m # ms) w = do {
     um \<leftarrow> umaps w m;
     if um_rport um = rp \<and> um_raddr um = ra then Some (Some m) else find_umap ra rp ms w
   }"

text \<open>\<open>m\<close> is the address \<open>ALLOC\<close> returns and \<open>fd\<close> what \<open>socket\<close> returns, if they are called.\<close>

definition udp_get_map :: "nat \<Rightarrow> int \<Rightarrow> byte list \<Rightarrow> int \<Rightarrow> world \<Rightarrow> (int + nat \<times> world) option" where
  "udp_get_map m fd ra rp w = do {
     r \<leftarrow> find_umap ra rp (ulist w) w;
     (case r of
        Some um \<Rightarrow> Some (Inr (um, w))
      | None \<Rightarrow> do {
          let w = w\<lparr>ulist := m # ulist w\<rparr>;
          if fd < 0 then Some (Inl 1)
          else do {
            (er, w) \<leftarrow> add_fd_event fd 0 (Handle_udp_read m) w;
            (es, w) \<leftarrow> add_time_event (time_future (now w) 600000) (Remove_udp_map m) w;
            Some (Inr (m, w\<lparr>umaps := (umaps w)(m \<mapsto> \<lparr>um_fd = fd, um_raddr = ra, um_rport = rp,
              um_e_fd_read = er, um_e_stale = es\<rparr>)\<rparr>))
          }
        })
   }"

text \<open>A datagram of negative length is refused by \<open>sendto\<close>, whose result the code ignores.\<close>

definition udp_incoming ::
    "nat \<Rightarrow> int \<Rightarrow> byte list \<Rightarrow> int \<Rightarrow> byte list \<Rightarrow> int \<Rightarrow> byte list \<Rightarrow> int \<Rightarrow> world \<Rightarrow> (int + world) option" where
  "udp_incoming m fd p len la lp ra rp w = do {
     r \<leftarrow> udp_get_map m fd ra rp w;
     (case r of
        Inl n \<Rightarrow> Some (Inl n)
      | Inr (m, w) \<Rightarrow> do {
          um \<leftarrow> umaps w m;
          addr \<leftarrow> mem_sub la 12 4;
          w \<leftarrow> (if len < 0 then Some w
                 else do {
                   d \<leftarrow> mem_sub p 0 (nat len);
                   Some (w\<lparr>calls := calls w @ [Sendto (um_fd um) d addr lp]\<rparr>)
                 });
          w \<leftarrow> resched_time_event (um_e_stale um) (time_future (now w) 600000) w;
          Some (Inr w)
        })
   }"

text \<open>
  \<open>res\<close> is what \<open>recvfrom\<close> delivers (\<open>None\<close> an error): the data, the sender's IPv4 address and port.
  \<open>pfx\<close> are the 16 bytes of the local array \<open>pfx\<close>, which the code never sets.
\<close>

definition handle_udp_read ::
    "iface \<Rightarrow> byte list \<Rightarrow> (byte list \<times> byte list \<times> int) option \<Rightarrow> nat \<Rightarrow> world \<Rightarrow> (int + int \<times> world) option" where
  "handle_udp_read ifc pfx res m w = do {
     um \<leftarrow> umaps w m;
     (case res of
        None \<Rightarrow> Some (Inl 1)
      | Some (tb, src, port) \<Rightarrow> do {
          let tb = take 65536 tb;
          pre \<leftarrow> mem_sub pfx 0 12;
          sa \<leftarrow> mem_sub src 0 4;
          (_, w) \<leftarrow> udp_send ifc tb (int (length tb)) (pre @ sa) port (um_raddr um) (um_rport um) w;
          w \<leftarrow> resched_time_event (um_e_stale um) (time_future (now w) 600000) w;
          Some (Inr (1, w))
        })
   }"

definition ptrtd_udp_init :: "nat \<Rightarrow> world \<Rightarrow> world option" where
  "ptrtd_udp_init us w = do { w \<leftarrow> udp_open us None 0 w; Some (w\<lparr>udp_listener := us\<rparr>) }"

definition ptrtd_udp_finish :: "world \<Rightarrow> world option" where
  "ptrtd_udp_finish w = do { (_, w) \<leftarrow> udp_close (udp_listener w) w; Some w }"

subsection \<open>The datagrams sent\<close>

definition udp_bytes :: "int \<Rightarrow> byte list \<Rightarrow> byte list \<Rightarrow> int \<Rightarrow> int \<Rightarrow> int \<Rightarrow> byte list" where
  "udp_bytes n src dst sp dp ck =
     [0x60, 0, 0, 0] @ be16 n @ [17, 0x40] @ src @ dst @ be16 sp @ be16 dp @ be16 n @ be16 ck"

lemma bind_pair: "x \<bind> (\<lambda>w. Some (n, w)) = map_option (Pair n) x"
  by (cases x) simp_all

context link_driver
begin

lemma udp_send_ok:
  assumes a: "length la = 16" "length ra = 16" and l: "0 \<le> len" "nat len \<le> length data"
  shows "\<exists>ck q. udp_send ifc data len la lp ra rp w = map_option (Pair (min len 1232)) (send_pkt ifc q w) \<and> sendable head q \<and>
    packet q = udp_bytes (min len 1232 + 8) la ra lp rp ck @ take (nat (min len 1232)) data \<and>
    make_cksum (packet q) (pb_dlen q) = Some 0xffff"
proof -
  define n where "n = min len 1232"
  have n: "(if len > 1280 - 48 then 1280 - 48 else len) = n" "0 \<le> n" "n \<le> 1232" "nat n \<le> length data"
    using l by (auto simp: n_def)
  let ?b = "take (nat n) data @ replicate (1232 - nat n) 0"
  let ?a = "[0x60, 0, 0, 0] @ be16 (n + 8) @ [17, 0x40] @ la @ ra @ be16 lp @ be16 rp @ be16 (n + 8)"
  have b: "length ?b = 1232"
    using n by simp
  have "even (length ?a)" "8 \<le> length ?a" "int (length ?a) + 2 \<le> n + 48" "nat (n + 48) \<le> length ?a + 2 + length ?b"
    using a n b by simp_all
  from finish_cksum [OF this] obtain c where c: "make_cksum (?a @ [0, 0] @ ?b) (n + 48) = Some c"
      "make_cksum (?a @ be16 (NOT c) @ ?b) (n + 48) = Some 0xffff"
    by blast
  let ?d = "?a @ be16 (NOT c) @ ?b"
  let ?q = "(pb_set (get_buffer ifc 1280) ?d)\<lparr>pb_dlen := n + 48\<rparr>"
  have m: "memcpy (pb_d (get_buffer ifc 1280)) 48 data 0 n = Some (replicate 48 0 @ ?b)"
  proof -
    have "(replicate (nat 1280) 0 :: byte list) = replicate 48 0 @ replicate 1232 0"
      by (simp flip: replicate_add)
    then show ?thesis
      using n by (simp add: buffer_d put_simps nat_diff_distrib)
  qed
  have z: "mem_put (replicate 48 0 @ ?b) 0 (replicate 48 0) = Some (replicate 48 0 @ ?b)"
    by (simp add: mem_put_def)
  have r: "(replicate 48 0 :: byte list) = [0, 0, 0, 0, 0, 0, 0, 0] @ replicate 16 0 @ replicate 16 0 @ [0, 0, 0, 0, 0, 0, 0, 0]"
    by (simp add: numeral_eq_Suc)
  have s: "udp_send ifc data len la lp ra rp w = map_option (Pair n) (send_pkt ifc ?q w)"
    unfolding udp_send_def Let_def n(1) m z Option.bind.simps unfolding r using a c(1)
    by (simp add: put_simps bind_pair)
  have d: "length ?d = nat 1280"
    using a b by simp
  note q = buffer_done [OF d, of "n + 48"]
  let ?p = "udp_bytes (n + 8) la ra lp rp (NOT c) @ take (nat n) data"
  have "?d = ?p @ replicate (1232 - nat n) 0" "length ?p = nat (n + 48)"
    using a n by (simp_all add: udp_bytes_def)
  then have "take (nat (n + 48)) ?d = ?p"
    by (metis append_eq_conv_conj)
  moreover have "packet ?q = take (nat (n + 48)) ?d"
    by (rule q(3)) (use n in simp_all)
  ultimately have p: "packet ?q = ?p"
    by simp
  have "make_cksum (packet ?q) (n + 48) = make_cksum ?d (n + 48)"
    using q(3) make_cksum_take [of "n + 48" ?d] n d by simp
  then show ?thesis
    using s p q(1) c(2) n unfolding n_def [symmetric] by (intro exI [of _ "NOT c"] exI [of _ ?q]) simp
qed

end

subsection \<open>Invariant of the maps\<close>

text \<open>The list holds every map once, and no two maps serve the same peer.\<close>

definition peer :: "udp_map \<Rightarrow> byte list \<times> int" where
  "peer u = (um_raddr u, um_rport u)"

definition umaps_ok :: "world \<Rightarrow> bool" where
  "umaps_ok w \<longleftrightarrow> distinct (ulist w) \<and> set (ulist w) = dom (umaps w) \<and>
     (\<forall>m u. umaps w m = Some u \<longrightarrow> length (um_raddr u) = 16) \<and>
     (\<forall>m m' u u'. umaps w m = Some u \<longrightarrow> umaps w m' = Some u' \<longrightarrow> peer u = peer u' \<longrightarrow> m = m')"

lemma umaps_ok_cong: "ulist w' = ulist w \<Longrightarrow> umaps w' = umaps w \<Longrightarrow> umaps_ok w' = umaps_ok w"
  by (simp add: umaps_ok_def)

lemma find_umap_find:
  "set ms \<subseteq> dom (umaps w) \<Longrightarrow> find_umap ra rp ms w = Some (find (\<lambda>m. peer (the (umaps w m)) = (ra, rp)) ms)"
  by (induction ms) (auto simp: peer_def)

lemma find_umap_ok:
  assumes "set (ulist w) = dom (umaps w)"
  obtains (old) m u where "umaps w m = Some u" "peer u = (ra, rp)" "find_umap ra rp (ulist w) w = Some (Some m)"
    | (new) "find_umap ra rp (ulist w) w = Some None" "\<And>m u. umaps w m = Some u \<Longrightarrow> peer u \<noteq> (ra, rp)"
proof (cases "find (\<lambda>m. peer (the (umaps w m)) = (ra, rp)) (ulist w)")
  case None
  then have "\<forall>m \<in> dom (umaps w). peer (the (umaps w m)) \<noteq> (ra, rp)"
    using assms by (simp add: find_None_iff)
  then have "peer u \<noteq> (ra, rp)" if "umaps w m = Some u" for m u
    using that by force
  then show ?thesis
    using new None find_umap_find [of "ulist w" w ra rp] assms by simp
next
  case (Some m)
  then obtain i where "i < length (ulist w)" "m = ulist w ! i" "peer (the (umaps w m)) = (ra, rp)"
    by (auto simp: find_Some_iff)
  moreover from this have "m \<in> dom (umaps w)"
    using assms nth_mem by blast
  ultimately show ?thesis
    using old Some find_umap_find [of "ulist w" w ra rp] assms by auto
qed

lemma umaps_ok_insert:
  assumes "umaps_ok w" "umaps w m = None" "length (um_raddr u) = 16" "\<And>m' u'. umaps w m' = Some u' \<Longrightarrow> peer u' \<noteq> peer u"
  shows "umaps_ok (w\<lparr>ulist := m # ulist w, umaps := (umaps w)(m \<mapsto> u)\<rparr>)"
proof -
  have "m \<notin> set (ulist w)"
    using assms(1,2) by (auto simp: umaps_ok_def)
  then show ?thesis
    using assms(1,3) assms(4) [symmetric] unfolding umaps_ok_def by (auto simp: fun_upd_apply split: if_splits dest: assms(4))
qed

lemma umaps_ok_delete: "umaps_ok w \<Longrightarrow> umaps_ok (w\<lparr>ulist := remove1 m (ulist w), umaps := (umaps w)(m := None)\<rparr>)"
  unfolding umaps_ok_def by (auto simp: fun_upd_apply)

lemma evs_fields:
  fixes w w' :: world
  shows "evs.more w' = evs.more (w\<lparr>ulist := ulist w', umaps := umaps w'\<rparr>) \<longleftrightarrow>
    now w' = now w \<and> tcbs w' = tcbs w \<and> tcblist w' = tcblist w \<and> isn w' = isn w \<and> nlist w' = nlist w \<and> sent w' = sent w \<and>
    maps w' = maps w \<and> tlist w' = tlist w \<and> num_tcp_maps w' = num_tcp_maps w \<and> socks w' = socks w \<and> udp_list w' = udp_list w \<and> udp_listener w' = udp_listener w \<and>
    calls w' = calls w"
  by (cases w; cases w') auto

text \<open>The map of a peer is the one it has, or a new one with its two events.\<close>

lemma udp_get_map_ok:
  assumes q: "events_ok P w Q" and u: "umaps_ok w" and m: "umaps w m = None" "0 \<le> fd" "length ra = 16"
  shows "\<exists>m' u w' Q'. udp_get_map m fd ra rp w = Some (Inr (m', w')) \<and> events_ok P w' Q' \<and> umaps_ok w' \<and>
    umaps w' m' = Some u \<and> peer u = (ra, rp) \<and>
    (if \<exists>m1 u1. umaps w m1 = Some u1 \<and> peer u1 = (ra, rp) then w' = w
     else m' = m \<and> um_fd u = fd \<and> umaps w' = (umaps w)(m \<mapsto> u) \<and> evs.more w' = evs.more (w\<lparr>ulist := m # ulist w, umaps := umaps w'\<rparr>))"
proof -
  have s: "set (ulist w) = dom (umaps w)"
    using u by (simp add: umaps_ok_def)
  show ?thesis
  proof (rule find_umap_ok [OF s, of ra rp])
    fix m1 u1
    assume old: "umaps w m1 = Some u1" "peer u1 = (ra, rp)" "find_umap ra rp (ulist w) w = Some (Some m1)"
    have "udp_get_map m fd ra rp w = Some (Inr (m1, w))"
      by (simp add: udp_get_map_def old(3))
    then show ?thesis
      using old q u by (intro exI [of _ m1] exI [of _ u1] exI [of _ w] exI [of _ Q]) auto
  next
    assume new: "find_umap ra rp (ulist w) w = Some None" "\<And>m u. umaps w m = Some u \<Longrightarrow> peer u \<noteq> (ra, rp)"
    let ?w = "w\<lparr>ulist := m # ulist w\<rparr>"
    have q0: "evq ?w Q" and p: "P \<subseteq>\<^sub>m Q"
      using q by (simp_all add: events_ok_def)
    from evl.fd_law [OF q0, of fd 0 "Handle_udp_read m"]
    obtain er w1 where r: "add_fd_event fd 0 (Handle_udp_read m) ?w = Some (er, w1)" "er \<noteq> 0" "Q er = None"
        "evq w1 (Q(er \<mapsto> (Fd, Handle_udp_read m)))" "evs.more w1 = evs.more ?w"
      by (elim exE conjE) (rule that)
    let ?Q = "Q(er \<mapsto> (Fd, Handle_udp_read m))"
    from evl.time_law [OF r(4), of "time_future (now w1) 600000" "Remove_udp_map m"]
    obtain es w2 where t: "add_time_event (time_future (now w1) 600000) (Remove_udp_map m) w1 = Some (es, w2)" "es \<noteq> 0" "?Q es = None"
        "evq w2 (?Q(es \<mapsto> (Timer, Remove_udp_map m)))" "evs.more w2 = evs.more w1"
      by (elim exE conjE) (rule that)
    define u1 where "u1 = \<lparr>um_fd = fd, um_raddr = ra, um_rport = rp, um_e_fd_read = er, um_e_stale = es\<rparr>"
    let ?w' = "w2\<lparr>umaps := (umaps w2)(m \<mapsto> u1)\<rparr>" and ?Q' = "?Q(es \<mapsto> (Timer, Remove_udp_map m))"
    note f = evs_frame [OF t(5)] evs_frame [OF r(5)]
    have g: "udp_get_map m fd ra rp w = Some (Inr (m, ?w'))"
      unfolding udp_get_map_def Let_def new(1) using m(2) r(1) t(1) by (simp add: u1_def)
    have p1: "P \<subseteq>\<^sub>m ?Q" "P \<subseteq>\<^sub>m ?Q'"
      using p r(3) t(3) unfolding map_le_def by (metis domIff fun_upd_apply)+
    note add = mine_add [where Q = Q, OF p r(3)] mine_add [where Q = ?Q, OF p1(1) t(3)]
    have "events_ok P ?w' ?Q'"
    proof (rule events_okI [OF _ p1(2)])
      have "mine P (Owner_umap m) Q = Map.empty"
        using mine_at [OF q, of "Owner_umap m"] m(1) by simp
      moreover have "holds2 er (Fd, Handle_udp_read m) es (Timer, Remove_udp_map m) ((Map.empty(er \<mapsto> (Fd, Handle_udp_read m)))(es \<mapsto> (Timer, Remove_udp_map m)))"
        using r(2) t(2,3) by (auto simp: holds2_def fun_upd_apply split: if_splits)
      ultimately have "umap_holds m u1 (mine P (Owner_umap m) ?Q')"
        using add r(2) t(2) by (simp add: umap_holds_def u1_def)
      moreover have "mine P y ?Q' = mine P y Q" if "y \<noteq> Owner_umap m" for y
        using add that by simp
      ultimately show "holds_events ?w' y (mine P y ?Q')" for y
        using mine_at [OF q, of y] umap_frame [of y m ?w' w "Some u1"] f by (cases "y = Owner_umap m") simp_all
    qed (use t(4) in simp)
    moreover have "umaps_ok (w\<lparr>ulist := m # ulist w, umaps := (umaps w)(m \<mapsto> u1)\<rparr>)"
      using umaps_ok_insert [OF u m(1), of u1] m(3) new(2) by (simp add: u1_def peer_def)
    then have "umaps_ok ?w'"
      by (rule back_subst) (use f in \<open>simp add: umaps_ok_cong\<close>)
    moreover have "evs.more ?w' = evs.more (w\<lparr>ulist := m # ulist w, umaps := umaps ?w'\<rparr>)"
      using t(5) r(5) by (cases w; cases w1; cases w2) auto
    ultimately show ?thesis
      using g new(2) f
      by (intro exI [of _ m] exI [of _ u1] exI [of _ ?w'] exI [of _ ?Q']) (auto simp: u1_def peer_def)
  qed
qed

text \<open>What the UDP side may change besides the event lists.\<close>

definition udp_frame :: "world \<Rightarrow> world \<Rightarrow> bool" where
  "udp_frame w w' \<longleftrightarrow> evs.more w' = evs.more (w\<lparr>ulist := ulist w', umaps := umaps w', calls := calls w', nlist := nlist w', sent := sent w'\<rparr>)"

lemma udp_frame_fields: "udp_frame w w' \<longleftrightarrow>
    now w' = now w \<and> tcbs w' = tcbs w \<and> tcblist w' = tcblist w \<and> isn w' = isn w \<and> maps w' = maps w \<and> tlist w' = tlist w \<and>
    num_tcp_maps w' = num_tcp_maps w \<and> socks w' = socks w \<and> udp_list w' = udp_list w \<and> udp_listener w' = udp_listener w"
  by (cases w; cases w') (auto simp: udp_frame_def)

text \<open>The stale timer of a map is pushed back; the queue stays as it is.\<close>

lemma refresh_ok:
  assumes "events_ok P w Q" "umaps w m = Some u"
  shows "\<exists>w' Q'. resched_time_event (um_e_stale u) tr w = Some w' \<and> events_ok P w' Q' \<and> evs.more w' = evs.more w"
proof -
  have h: "mine P (Owner_umap m) Q (um_e_stale u) = Some (Timer, Remove_udp_map m)"
    using mine_umap [OF assms] holds2_get(2) by (auto simp: umap_holds_def)
  then obtain k where e: "Q (um_e_stale u) = Some (k, Remove_udp_map m)" "k = Timer \<or> k = Due" "P (um_e_stale u) = None"
    by (auto simp: mine_Some)
  let ?Q = "Q(um_e_stale u \<mapsto> (Timer, Remove_udp_map m))"
  obtain w' where w': "resched_time_event (um_e_stale u) tr w = Some w'" "evq w' ?Q" "evs.more w' = evs.more w"
    using evl.resched_law [OF events_ok_evq [OF assms(1)] e(1,2)] by blast
  have "mine P y ?Q = mine P y Q" for y
    using e by (auto simp: mine_def own_def restrict_map_def fun_upd_apply fun_eq_iff)
  then have "events_ok P w' ?Q"
    using mine_at [OF assms(1)] e(3) assms(1) events_cong [of w' w] evs_frame [OF w'(3)]
    by (intro events_okI [OF w'(2)]) (auto simp: events_ok_def map_le_def fun_upd_apply)
  then show ?thesis
    using w' by blast
qed

lemma udp_incoming_ok:
  assumes q: "events_ok P w Q" and u: "umaps_ok w" and m: "umaps w m = None" "0 \<le> fd" "length ra = 16"
    and p: "length la = 16" "nat len \<le> length p"
  shows "\<exists>m' u w' Q'. udp_incoming m fd p len la lp ra rp w = Some (Inr w') \<and> events_ok P w' Q' \<and> umaps_ok w' \<and>
    umaps w' m' = Some u \<and> peer u = (ra, rp) \<and> udp_frame w w' \<and> nlist w' = nlist w \<and> sent w' = sent w \<and>
    calls w' = calls w @ (if len < 0 then [] else [Sendto (um_fd u) (take (nat len) p) (drop 12 la) lp]) \<and>
    (if \<exists>m1 u1. umaps w m1 = Some u1 \<and> peer u1 = (ra, rp) then umaps w' = umaps w
     else m' = m \<and> um_fd u = fd \<and> umaps w' = (umaps w)(m \<mapsto> u))"
proof -
  from udp_get_map_ok [OF assms(1-5), of rp] obtain m' u w1 Q1 where g: "udp_get_map m fd ra rp w = Some (Inr (m', w1))"
      "events_ok P w1 Q1" "umaps_ok w1" "umaps w1 m' = Some u" "peer u = (ra, rp)"
      "if \<exists>m1 u1. umaps w m1 = Some u1 \<and> peer u1 = (ra, rp) then w1 = w
       else m' = m \<and> um_fd u = fd \<and> umaps w1 = (umaps w)(m \<mapsto> u) \<and> evs.more w1 = evs.more (w\<lparr>ulist := m # ulist w, umaps := umaps w1\<rparr>)"
    by (elim exE conjE) (rule that)
  define c where "c = (if len < 0 then [] else [Sendto (um_fd u) (take (nat len) p) (drop 12 la) lp])"
  let ?w = "w1\<lparr>calls := calls w1 @ c\<rparr>"
  have "events_ok P ?w Q1" "umaps ?w m' = Some u"
    using g(2,4) owned_cong [of ?w w1] by (simp_all add: events_ok_def)
  from refresh_ok [OF this, of "time_future (now ?w) 600000"] obtain w' Q' where
    w': "resched_time_event (um_e_stale u) (time_future (now ?w) 600000) ?w = Some w'" "events_ok P w' Q'" "evs.more w' = evs.more ?w"
    by blast
  note f = evs_frame [OF w'(3), simplified]
  have s: "mem_sub la 12 4 = Some (drop 12 la)" "0 \<le> len \<Longrightarrow> mem_sub p 0 (nat len) = Some (take (nat len) p)"
    using p by (simp_all add: mem_sub_def)
  have "(if len < 0 then Some w1 else do { d \<leftarrow> mem_sub p 0 (nat len); Some (w1\<lparr>calls := calls w1 @ [Sendto (um_fd u) d (drop 12 la) lp]\<rparr>) }) = Some ?w"
    using s(2) by (simp add: c_def)
  then have i: "udp_incoming m fd p len la lp ra rp w = Some (Inr w')"
    unfolding udp_incoming_def g(1) Option.bind.simps sum.case prod.case g(4) s(1) using w'(1) by simp
  have "evs.more w1 = evs.more (w\<lparr>ulist := ulist w1, umaps := umaps w1\<rparr>)"
  proof (cases "\<exists>m1 u1. umaps w m1 = Some u1 \<and> peer u1 = (ra, rp)")
    case False
    then have "evs.more w1 = evs.more (w\<lparr>ulist := m # ulist w, umaps := umaps w1\<rparr>)"
      using g(6) by argo
    then show ?thesis
      using evs_frame(12) [of w1 "w\<lparr>ulist := m # ulist w, umaps := umaps w1\<rparr>"] by simp
  qed (use g(6) in simp)
  then have "udp_frame w w'" "nlist w' = nlist w" "sent w' = sent w" "calls w' = calls w @ c"
    using f by (simp_all add: udp_frame_fields evs_fields)
  moreover have "if \<exists>m1 u1. umaps w m1 = Some u1 \<and> peer u1 = (ra, rp) then umaps w' = umaps w
     else m' = m \<and> um_fd u = fd \<and> umaps w' = (umaps w)(m \<mapsto> u)"
    using g(6) f by (auto split: if_splits)
  moreover have "umaps_ok w'"
    using g(3) f umaps_ok_cong [of w' w1] by simp
  ultimately show ?thesis
    using i w'(2) g(4,5) f unfolding c_def
    by (intro exI [of _ m'] exI [of _ u] exI [of _ w'] exI [of _ Q']) simp
qed

text \<open>The expiry of a map, up to the removal of its timer, which the event loop does.\<close>

lemma remove_udp_map_ok:
  assumes q: "events_ok Map.empty w Q" "Q e = Some (Due, Remove_udp_map m)" and u: "umaps_ok w"
  shows "\<exists>w' Q' um. remove_udp_map m w = Some (0, w') \<and> events_ok [e \<mapsto> (Due, Remove_udp_map m)] w' Q' \<and> umaps_ok w' \<and>
    udp_frame w w' \<and> nlist w' = nlist w \<and> sent w' = sent w \<and>
    umaps w m = Some um \<and> umaps w' = (umaps w)(m := None) \<and> calls w' = calls w @ [Close (um_fd um)]"
proof -
  let ?o = "Owner_umap m" and ?v = "(Due, Remove_udp_map m)"
  have oe: "mine Map.empty ?o Q e = Some (Timer, Remove_udp_map m)"
    using q(2) by (simp add: mine_Some)
  obtain um where um: "umaps w m = Some um"
    using mine_at [OF q(1), of ?o] oe by (cases "umaps w m") auto
  have h: "holds2 (um_e_fd_read um) (Fd, Handle_udp_read m) (um_e_stale um) (Timer, Remove_udp_map m) (mine Map.empty ?o Q)"
      "um_e_fd_read um \<noteq> 0"
    using mine_umap [OF q(1) um] by (simp_all add: umap_holds_def)
  have er: "e = um_e_stale um" "um_e_fd_read um \<noteq> e" "mine Map.empty ?o Q (um_e_fd_read um) = Some (Fd, Handle_udp_read m)"
    using holds2_which [OF h(1) oe] holds2_get(1,3) [OF h(1)] h(2) by auto
  then have rq: "Q (um_e_fd_read um) = Some (Fd, Handle_udp_read m)"
    by (auto simp: mine_Some)
  let ?w = "w\<lparr>ulist := remove1 m (ulist w)\<rparr>"
  have "evq ?w Q"
    using events_ok_evq [OF q(1)] by simp
  from evl.remove_law [OF this rq] obtain w1 where w1: "remove_event (um_e_fd_read um) ?w = Some w1"
      "evq w1 (Q(um_e_fd_read um := None))" "evs.more w1 = evs.more ?w"
    by blast
  note f = evs_frame [OF w1(3), simplified]
  let ?w' = "w1\<lparr>calls := calls w1 @ [Close (um_fd um)], umaps := (umaps w1)(m := None)\<rparr>" and ?Q' = "Q(um_e_fd_read um := None)"
  have r: "remove_udp_map m w = Some (0, ?w')"
    by (simp add: remove_udp_map_def um w1(1))
  have "mine Map.empty ?o ?Q' e = Some (Timer, Remove_udp_map m)"
    using q(2) er(2) by (simp add: mine_Some)
  then have n: "mine [e \<mapsto> ?v] y ?Q' = (if ?o = y then (mine Map.empty y ?Q')(e := None) else mine Map.empty y ?Q')" for y
    using mine_orphan [of Map.empty ?o ?Q' e Timer "Remove_udp_map m" ?v y] er(2) q(2) by (simp add: fun_upd_idem)
  have "events_ok [e \<mapsto> ?v] ?w' ?Q'"
  proof (rule events_okI)
    show "[e \<mapsto> ?v] \<subseteq>\<^sub>m ?Q'"
      using q(2) er(2) by (simp add: map_le_def fun_upd_apply)
    show "holds_events ?w' y (mine [e \<mapsto> ?v] y ?Q')" for y
      using n [of y] mine_del [OF er(3), of y] mine_at [OF q(1), of y] umap_frame [of y m ?w' w None] f holds2_drop(1) [OF h(1)] er(1)
      by (cases "y = ?o") auto
  qed (use w1(2) in simp)
  moreover have "umaps_ok ?w'"
    using umaps_ok_delete [OF u, of m] by (rule back_subst) (use f in \<open>simp add: umaps_ok_cong\<close>)
  ultimately show ?thesis
    using r um f by (intro exI [of _ ?w'] exI [of _ ?Q'] exI [of _ um]) (simp add: udp_frame_fields)
qed

context link_driver
begin

lemma handle_udp_read_ok:
  assumes q: "events_ok P w Q" and u: "umaps_ok w" "umaps w m = Some u" and nd: "nd_ok ifc head (nlist w)"
    and l: "12 \<le> length pfx" "length src = 4"
  shows "\<exists>w' Q' ck p fs. handle_udp_read ifc pfx (Some (tb, src, port)) m w = Some (Inr (1, w')) \<and> events_ok P w' Q' \<and> umaps_ok w' \<and>
    umaps w' = umaps w \<and> udp_frame w w' \<and> calls w' = calls w \<and>
    nd_ok ifc head (nlist w') \<and> sent w' = sent w @ fs \<and> handed_over ifc head p (nlist w) (nlist w') fs \<and>
    packet p = udp_bytes (min (int (length tb)) 1232 + 8) (take 12 pfx @ src) (um_raddr u) port (um_rport u) ck @ take 1232 tb \<and>
    make_cksum (packet p) (pb_dlen p) = Some 0xffff"
proof -
  let ?tb = "take 65536 tb"
  have a: "length (take 12 pfx @ src) = 16" "length (um_raddr u) = 16"
    using l u by (auto simp: umaps_ok_def)
  have n: "min (int (length ?tb)) 1232 = min (int (length tb)) 1232" "take (nat (min (int (length tb)) 1232)) ?tb = take 1232 tb"
    by (simp_all add: min_def)
  have nn: "0 \<le> int (length ?tb)" "nat (int (length ?tb)) \<le> length ?tb"
    by simp_all
  from udp_send_ok [OF a nn, where lp = port and rp = "um_rport u" and w = w] obtain ck p where
    p: "udp_send ifc ?tb (int (length ?tb)) (take 12 pfx @ src) port (um_raddr u) (um_rport u) w =
        map_option (Pair (min (int (length tb)) 1232)) (send_pkt ifc p w)" "sendable head p"
      "packet p = udp_bytes (min (int (length tb)) 1232 + 8) (take 12 pfx @ src) (um_raddr u) port (um_rport u) ck @ take 1232 tb"
      "make_cksum (packet p) (pb_dlen p) = Some 0xffff"
    unfolding n by (elim exE conjE) (rule that)
  from send_pkt_ok [OF p(2) nd] obtain ns fs where
    s: "send_pkt ifc p w = Some (w\<lparr>nlist := ns, sent := sent w @ fs\<rparr>)" "nd_ok ifc head ns" "handed_over ifc head p (nlist w) ns fs"
    by blast
  let ?w = "w\<lparr>nlist := ns, sent := sent w @ fs\<rparr>"
  have "events_ok P ?w Q" "umaps ?w m = Some u"
    using q u(2) owned_cong [of ?w w] by (simp_all add: events_ok_def)
  from refresh_ok [OF this, of "time_future (now ?w) 600000"] obtain w' Q' where
    w': "resched_time_event (um_e_stale u) (time_future (now ?w) 600000) ?w = Some w'" "events_ok P w' Q'" "evs.more w' = evs.more ?w"
    by blast
  note f = evs_frame [OF w'(3), simplified]
  have sub: "mem_sub pfx 0 12 = Some (take 12 pfx)" "mem_sub src 0 4 = Some src"
    using l by (simp_all add: mem_sub_def)
  have h: "handle_udp_read ifc pfx (Some (tb, src, port)) m w = Some (Inr (1, w'))"
    unfolding handle_udp_read_def u(2) Option.bind.simps option.case prod.case Let_def sub p(1) s(1)
    using w'(1) by simp
  have "umaps_ok w'"
    using u(1) f umaps_ok_cong [of w' w] by simp
  then show ?thesis
    using h w'(2) f s(2,3) p(3,4)
    by (intro exI [of _ w'] exI [of _ Q'] exI [of _ ck] exI [of _ p] exI [of _ fs]) (simp add: udp_frame_fields)
qed

end

subsection \<open>Properties\<close>

text \<open>
  C36. A datagram from an IPv6 peer is relayed. In a state whose events and maps agree, \<open>udp_incoming\<close>
  returns, keeps them in agreement, and sends the payload, unchanged, to the IPv4 address in the last
  four bytes of the destination and to the destination port, from the socket of the map of the peer:
  the map the peer already has, or else a new one with the new socket, its read event and its ten
  minute timer. No peer ever has two maps.
\<close>

theorem udp_incoming_relays:
  assumes "events_ok Map.empty w Q" and "umaps_ok w" and "umaps w m = None" and "0 \<le> fd" and "length ra = 16"
    and "length la = 16" and "0 \<le> len" and "nat len \<le> length p"
  shows "\<exists>m' u w' Q'. udp_incoming m fd p len la lp ra rp w = Some (Inr w') \<and> events_ok Map.empty w' Q' \<and> umaps_ok w' \<and>
    umaps w' m' = Some u \<and> peer u = (ra, rp) \<and> calls w' = calls w @ [Sendto (um_fd u) (take (nat len) p) (drop 12 la) lp] \<and>
    (if \<exists>m1 u1. umaps w m1 = Some u1 \<and> peer u1 = (ra, rp) then umaps w' = umaps w
     else m' = m \<and> um_fd u = fd \<and> umaps w' = (umaps w)(m \<mapsto> u))"
proof -
  have "(if len < 0 then [] else [c]) = [c]" for c :: host_call
    using assms(7) by simp
  then show ?thesis
    using udp_incoming_ok [OF assms(1-6,8), of lp rp] by (elim exE conjE) (intro exI conjI; assumption?; simp)
qed

lemma umaps_start: "umaps_ok (start_world tv)" "umaps (start_world tv) m = None"
  by (simp_all add: umaps_ok_def start_world_def)

theorem udp_incoming_relays_witness:
  "\<exists>w'. udp_incoming 1 5 [1, 2, 3] 3 (replicate 12 0 @ [10, 0, 0, 1]) 53 (replicate 16 9) 4000 (start_world zero_time) = Some (Inr w') \<and>
     calls w' = [Sendto 5 [1, 2, 3] [10, 0, 0, 1] 53]"
proof -
  from udp_incoming_relays [OF events_start [of zero_time] umaps_start, of 5 "replicate 16 9" "replicate 12 0 @ [10, 0, 0, 1]" 3 "[1, 2, 3]" 1 53 4000]
  obtain w' where "udp_incoming 1 5 [1, 2, 3] 3 (replicate 12 0 @ [10, 0, 0, 1]) 53 (replicate 16 9) 4000 (start_world zero_time) = Some (Inr w')"
      "calls w' = calls (start_world zero_time) @ [Sendto 5 [1, 2, 3] [10, 0, 0, 1] 53]"
    by (auto simp: umaps_start)
  then show ?thesis
    by (intro exI [of _ w']) (simp add: start_world_def)
qed

text \<open>
  C37. A reply reaches the peer. What \<open>recvfrom\<close> delivers on the socket of a map is sent as one UDP
  datagram to the peer of that map, from the IPv4 sender's address behind the twelve prefix bytes and
  from its port, cut to 1232 bytes, with a checksum that verifies; the datagram is sent at once or
  waits for its next hop. The maps stay as they are and events and maps stay in agreement.
\<close>

theorem udp_reply_reaches_peer:
  assumes "driver ifc room" and "events_ok Map.empty w Q" and "umaps_ok w" and "umaps w m = Some u" and "nd_ok ifc room (nlist w)"
    and "length pfx = 16" and "length src = 4"
  shows "\<exists>w' Q' ck p fs. handle_udp_read ifc pfx (Some (tb, src, port)) m w = Some (Inr (1, w')) \<and> events_ok Map.empty w' Q' \<and>
    umaps w' = umaps w \<and> nd_ok ifc room (nlist w') \<and> sent w' = sent w @ fs \<and> handed_over ifc room p (nlist w) (nlist w') fs \<and>
    packet p = udp_bytes (min (int (length tb)) 1232 + 8) (take 12 pfx @ src) (fst (peer u)) port (snd (peer u)) ck @ take 1232 tb \<and>
    make_cksum (packet p) (pb_dlen p) = Some 0xffff"
proof -
  have "12 \<le> length pfx"
    using assms(6) by simp
  from link_driver.handle_udp_read_ok [OF driver_link [OF assms(1)] assms(2-5) this assms(7), of tb port] show ?thesis
    unfolding peer_def fst_conv snd_conv by (elim exE conjE) (intro exI conjI; assumption)
qed

theorem udp_reply_reaches_peer_witness:
  "\<exists>w w' Q'. udp_incoming 1 5 [1] 1 (replicate 16 7) 53 (replicate 16 9) 4000 (start_world zero_time) = Some (Inr w) \<and>
     handle_udp_read tun_iface (replicate 16 0) (Some ([4, 5], [10, 0, 0, 1], 53)) 1 w = Some (Inr (1, w')) \<and> events_ok Map.empty w' Q'"
proof -
  from udp_incoming_ok [OF events_start [of zero_time] umaps_start, of 5 "replicate 16 9" "replicate 16 7" 1 "[1]" 1 53 4000]
  obtain u w Q where w: "udp_incoming 1 5 [1] 1 (replicate 16 7) 53 (replicate 16 9) 4000 (start_world zero_time) = Some (Inr w)"
      "events_ok Map.empty w Q" "umaps_ok w" "umaps w 1 = Some u" "nlist w = []"
    by (auto simp: umaps_start) (simp add: start_world_def)
  then have "nd_ok tun_iface 4 (nlist w)"
    by simp
  from udp_reply_reaches_peer [OF driver_tun w(2-4) this, of "replicate 16 0" "[10, 0, 0, 1]" "[4, 5]" 53] show ?thesis
    using w(1) by auto
qed

end
