(* ===== verification/Status.thy ===== *)
theory Status
  imports Tcb
begin

text \<open>
  The status page (\<^verbatim>\<open>src/http_status.c\<close>): \<open>write_status_report\<close> answers every client that waits on
  the status socket with a table of the connections, walked with \<open>rb_first\<close> and \<open>rb_next\<close>. What the
  clients do is a parameter; a page is the list of the values it prints. Formatting them, and
  \<open>svr_sock\<close>, which only opens the socket, are left to the C library.
\<close>

definition stname :: "string list" where
  "stname = [''CLOSED'', ''LISTEN'', ''SYN_SENT'', ''SYN_RECVD'', ''ESTABLISHED'', ''FIN_WAIT_1'', ''FIN_WAIT_2'',
     ''CLOSE_WAIT'', ''CLOSING'', ''LAST_ACK'', ''TIME_WAIT'']"

record status_row =
  row_raddr :: "byte list"
  row_rport :: int
  row_laddr4 :: "byte list"
  row_lport :: int
  row_packets :: u32
  row_inbuf :: int
  row_outbuf :: int
  row_state :: string
  row_start :: int

text \<open>
  A client: the descriptor that \<open>accept\<close> returns, whether \<open>read\<close> on it returns (the descriptor is in
  blocking mode, so a client that sends nothing keeps the daemon waiting for ever), and whether the
  calls of \<open>write\<close> return (one on a connection that the client has reset raises \<open>SIGPIPE\<close>, which ends
  the program). Both ways of not coming back are \<open>None\<close> below.
\<close>

record client =
  cl_fd :: int
  cl_read :: bool
  cl_write :: bool

record status_page =
  page_fd :: int
  page_rows :: "status_row list"
  page_total :: int
  page_updates :: int

text \<open>\<open>buf && buf->p ? rb_left (buf) : -1\<close>\<close>

definition buf_left :: "ringbuf option \<Rightarrow> int" where
  "buf_left b = (case b of None \<Rightarrow> - 1 | Some r \<Rightarrow> case buf_p r of None \<Rightarrow> - 1 | Some _ \<Rightarrow> rb_left r)"

definition status_row_of :: "tcb \<Rightarrow> status_row option" where
  "status_row_of c = do {
     la \<leftarrow> mem_sub (laddr c) 12 4;
     st \<leftarrow> (if 0 \<le> state c \<and> state c < int (length stname) then Some (stname ! nat (state c)) else None);
     Some \<lparr>row_raddr = raddr c, row_rport = rport c, row_laddr4 = la, row_lport = lport c, row_packets = packets c,
       row_inbuf = buf_left (inbuf c), row_outbuf = buf_left (outbuf c), row_state = st, row_start = tv_sec (start_time c)\<rparr>
   }"

text \<open>The inner loop over the tree, from the node \<open>x\<close>.\<close>

partial_function (option) status_rows :: "world \<Rightarrow> ptr \<Rightarrow> status_row list option" where
  "status_rows w x =
     (if x = 0 then Some []
      else do {
        c \<leftarrow> tcbs w x;
        row \<leftarrow> status_row_of c;
        y \<leftarrow> rb_next x (tcblist w);
        rows \<leftarrow> status_rows w y;
        Some (row # rows)
      })"

text \<open>
  The loop over the clients. The walk and the count are started once, before the loop: after the first
  client \<open>tcb\<close> is NULL. The loop ends when \<open>accept\<close> returns a negative number, or with the list.
\<close>

fun report_clients :: "world \<Rightarrow> client list \<Rightarrow> ptr \<Rightarrow> int \<Rightarrow> int \<Rightarrow> (status_page list \<times> int) option" where
  "report_clients w [] x count updates = Some ([], updates)"
| "report_clients w (cl # cls) x count updates =
     (if cl_fd cl < 0 then Some ([], updates)
      else if \<not> cl_read cl \<or> \<not> cl_write cl then None
      else do {
        rows \<leftarrow> status_rows w x;
        let count = count + int (length rows);
        (pages, u) \<leftarrow> report_clients w cls 0 count (updates + 1);
        Some (\<lparr>page_fd = cl_fd cl, page_rows = rows, page_total = count, page_updates = updates + 1\<rparr> # pages, u)
      })"

definition write_status_report :: "client list \<Rightarrow> int \<Rightarrow> world \<Rightarrow> (status_page list \<times> int) option" where
  "write_status_report cls updates w = do {
     x \<leftarrow> rb_first (tcblist w);
     report_clients w cls x 0 updates
   }"

subsection \<open>The pages\<close>

definition printable :: "tcb \<Rightarrow> bool" where
  "printable c \<longleftrightarrow> length (laddr c) = 16 \<and> 0 \<le> state c \<and> state c \<le> 10"

definition row :: "tcb \<Rightarrow> status_row" where
  "row c = \<lparr>row_raddr = raddr c, row_rport = rport c, row_laddr4 = drop 12 (laddr c), row_lport = lport c, row_packets = packets c,
     row_inbuf = buf_left (inbuf c), row_outbuf = buf_left (outbuf c), row_state = stname ! nat (state c), row_start = tv_sec (start_time c)\<rparr>"

lemma status_row_some: "printable c \<Longrightarrow> status_row_of c = Some (row c)"
  by (simp add: status_row_of_def row_def printable_def mem_sub_def stname_def)

lemma status_rows_walk:
  assumes "table_ok w T" "\<And>x c. x \<in> set (addrs T) \<Longrightarrow> tcbs w x = Some c \<Longrightarrow> printable c"
  shows "addrs T = us @ vs \<Longrightarrow> status_rows w (hd0 vs) = Some (map (\<lambda>x. row (the (tcbs w x))) vs)"
proof (induction vs arbitrary: us)
  case Nil
  then show ?case
    by (simp add: status_rows.simps)
next
  case (Cons x vs)
  have T: "tree_at (tcblist w) T"
    using assms(1) by (simp add: table_ok_def)
  have x: "x \<in> set (addrs T)"
    using Cons.prems by simp
  then obtain c where c: "tcbs w x = Some c"
    using assms(1) by (auto simp: table_ok_def)
  have "x \<noteq> 0"
    using shape_addrs [of "nodes (tcblist w)" 0 "root (tcblist w)" T x] T x by (simp add: tree_at_def)
  moreover have "rb_next x (tcblist w) = Some (hd0 vs)"
    by (rule next_ok [OF T Cons.prems])
  ultimately show ?case
    using Cons.IH [of "us @ [x]"] Cons.prems c status_row_some [OF assms(2) [OF x c]] by (subst status_rows.simps) simp
qed

lemma status_rows_end: "status_rows w 0 = Some []"
  by (simp add: status_rows.simps)

text \<open>A client that is served, and one that does not hold the daemon up.\<close>

definition served :: "client \<Rightarrow> bool" where
  "served cl \<longleftrightarrow> 0 \<le> cl_fd cl \<and> cl_read cl \<and> cl_write cl"

definition client_ok :: "client \<Rightarrow> bool" where
  "client_ok cl \<longleftrightarrow> 0 \<le> cl_fd cl \<longrightarrow> served cl"

lemma map_over_nth: "map (\<lambda>i. f (xs ! i)) [0..<length xs] = map f xs"
  by (rule nth_equalityI) simp_all

lemma report_rest:
  "list_all served cls \<Longrightarrow> report_clients w cls 0 n u =
     Some (map (\<lambda>i. \<lparr>page_fd = cl_fd (cls ! i), page_rows = [], page_total = n, page_updates = u + int i + 1\<rparr>) [0..<length cls],
       u + int (length cls))"
proof (induction cls arbitrary: u)
  case (Cons cl cls)
  have "[0..<length (cl # cls)] = 0 # map Suc [0..<length cls]"
    by (simp only: list.size(4) add_0_right upt_conv_Cons [OF zero_less_Suc] map_Suc_upt add_Suc_right)
  then show ?case
    using Cons.IH [of "u + 1"] Cons.prems by (simp add: status_rows_end o_def algebra_simps Let_def served_def)
qed simp

lemma write_status_report_ok:
  assumes "table_ok w T" "\<And>x c. x \<in> set (addrs T) \<Longrightarrow> tcbs w x = Some c \<Longrightarrow> printable c" "served cl" "list_all served cls"
  shows "write_status_report (cl # cls) u w = Some (
    \<lparr>page_fd = cl_fd cl, page_rows = map (\<lambda>x. row (the (tcbs w x))) (addrs T), page_total = int (length (addrs T)), page_updates = u + 1\<rparr> #
    map (\<lambda>i. \<lparr>page_fd = cl_fd (cls ! i), page_rows = [], page_total = int (length (addrs T)), page_updates = u + 1 + int i + 1\<rparr>) [0..<length cls],
    u + 1 + int (length cls))"
proof -
  have "rb_first (tcblist w) = Some (hd0 (addrs T))"
    using ends_ok(1) assms(1) by (simp add: table_ok_def)
  then show ?thesis
    using status_rows_walk [where us = "[]" and vs = "addrs T", OF assms(1,2)] report_rest [where w = w and n = "int (length (addrs T))" and u = "u + 1", OF assms(4)] assms(3)
    by (simp add: write_status_report_def Let_def served_def)
qed

text \<open>The report returns if the clients let it.\<close>

lemma report_clients_returns: "list_all client_ok cls \<Longrightarrow> status_rows w x \<noteq> None \<Longrightarrow> report_clients w cls x n u \<noteq> None"
proof (induction cls arbitrary: x n u)
  case (Cons cl cls)
  then obtain rows where "status_rows w x = Some rows"
    by blast
  moreover have "report_clients w cls 0 (n + int (length rows)) (u + 1) \<noteq> None"
    by (rule Cons.IH) (use Cons.prems in \<open>simp_all add: status_rows_end\<close>)
  ultimately show ?case
    using Cons.prems(1) by (auto simp: Let_def client_ok_def served_def)
qed simp

lemma write_status_report_returns:
  assumes "table_ok w T" "\<And>x c. x \<in> set (addrs T) \<Longrightarrow> tcbs w x = Some c \<Longrightarrow> printable c" "list_all client_ok cls"
  shows "write_status_report cls u w \<noteq> None"
proof -
  have "rb_first (tcblist w) = Some (hd0 (addrs T))"
    using ends_ok(1) assms(1) by (simp add: table_ok_def)
  then show ?thesis
    using status_rows_walk [where us = "[]" and vs = "addrs T", OF assms(1,2)] report_clients_returns [OF assms(3), of w "hd0 (addrs T)"]
    by (simp add: write_status_report_def Let_def)
qed

end
