(* ===== verification/Event_Loop.thy ===== *)
theory Event_Loop
  imports Util Status
begin

text \<open>
  The main loop (\<open>event_loop\<close> of \<^verbatim>\<open>src/event.c\<close>). The loop calls \<open>select\<close> and the callbacks of the
  events; both are parameters. \<open>sel\<close> stands for one call of \<open>select\<close>: given the watched descriptors
  (with 1 for writing), the highest one and the timeout in milliseconds (\<open>None\<close> for no timeout) it
  returns the result, the descriptors that are ready and the time at which it returns. \<open>run f\<close> calls
  the callback \<open>f\<close>. \<open>ssock\<close> is the status socket, \<open>- 1\<close> if there is none; the pages of
  \<^verbatim>\<open>http_status.c\<close> go to its clients and are not part of the state, so only whether the report returns
  matters here. \<open>cls\<close> are the clients that wait on it and \<open>u\<close> is the counter of status pages.
\<close>

type_synonym watch = "int \<times> int"
type_synonym sel_fun = "watch list \<Rightarrow> int \<Rightarrow> int option \<Rightarrow> int \<times> (watch \<Rightarrow> bool) \<times> timeval"
type_synonym round_env = "sel_fun \<times> client list \<times> int"
type_synonym run_fun = "callback \<Rightarrow> world \<Rightarrow> (int \<times> world) option"

text \<open>
  The loop that fills the descriptor sets. A set is the list of its members; the bit set behind it, into
  which \<open>FD_SET\<close> writes, holds descriptors below \<open>FD_SETSIZE\<close> and is not modelled.
\<close>

partial_function (option) fd_watch :: "eptr \<Rightarrow> int \<Rightarrow> world \<Rightarrow> (watch list \<times> int) option" where
  "fd_watch e highfd w =
     (if e = 0 then Some ([], highfd)
      else do {
        ev \<leftarrow> ev_heap w e;
        (case ev_ev ev of
           Ev_fd fd wr \<Rightarrow> do {
             (ws, h) \<leftarrow> fd_watch (ev_next ev) (max_int fd highfd) w;
             Some ((fd, wr) # ws, h)
           }
         | _ \<Rightarrow> None)
      })"

text \<open>Running the first timer.\<close>

definition run_timer :: "run_fun \<Rightarrow> eptr \<Rightarrow> world \<Rightarrow> world option" where
  "run_timer run e w = do {
     w \<leftarrow> ev_upd e (\<lambda>ev. ev\<lparr>ev_remove := 1\<rparr>) w;
     ev \<leftarrow> ev_heap w e;
     (_, w) \<leftarrow> run (ev_func ev) w;
     ev \<leftarrow> ev_heap w e;
     (if ev_remove ev \<noteq> 0 then remove_event e w else Some w)
   }"

partial_function (option) fd_round :: "(watch \<Rightarrow> bool) \<Rightarrow> run_fun \<Rightarrow> eptr \<Rightarrow> world \<Rightarrow> world option" where
  "fd_round ready run e w =
     (if e = 0 then Some w
      else do {
        ev \<leftarrow> ev_heap w e;
        (case ev_ev ev of
           Ev_fd fd wr \<Rightarrow> do {
             (r, w) \<leftarrow> (if ready (fd, wr) then run (ev_func ev) w else Some (1, w));
             ev \<leftarrow> ev_heap w e;
             if r = 0 then do {
               let n = ev_next ev;
               w \<leftarrow> remove_event e w;
               fd_round ready run n w
             }
             else fd_round ready run (ev_next ev) w
           }
         | _ \<Rightarrow> None)
      })"

partial_function (option) always_round :: "run_fun \<Rightarrow> eptr \<Rightarrow> world \<Rightarrow> world option" where
  "always_round run e w =
     (if e = 0 then Some w
      else do {
        ev \<leftarrow> ev_heap w e;
        (r, w) \<leftarrow> run (ev_func ev) w;
        ev \<leftarrow> ev_heap w e;
        if r = 0 then do {
          let n = ev_next ev;
          w \<leftarrow> remove_event e w;
          always_round run n w
        }
        else always_round run (ev_next ev) w
      })"

text \<open>One pass through the body of the loop.\<close>

definition status_round :: "int \<Rightarrow> (watch \<Rightarrow> bool) \<Rightarrow> client list \<Rightarrow> int \<Rightarrow> world \<Rightarrow> world option" where
  "status_round ssock ready cls u w =
     (if ssock \<ge> 0 \<and> ready (ssock, 0) then do { _ \<leftarrow> write_status_report cls u w; Some w } else Some w)"

fun event_round :: "int \<Rightarrow> round_env \<Rightarrow> run_fun \<Rightarrow> world \<Rightarrow> world option" where
  "event_round ssock (sel, cls, u) run w = do {
     (watch, highfd) \<leftarrow> fd_watch (fd_event_list w) (if ssock \<ge> 0 then max_int ssock (- 1) else - 1) w;
     let watch = (if ssock \<ge> 0 then (ssock, 0) # watch else watch);
     (ret, ready, w) \<leftarrow>
       (if time_event_list w \<noteq> 0 then do {
          let e = time_event_list w;
          tm \<leftarrow> event_time e w;
          let diff = - time_ago (now w) tm;
          let (ret, ready, w) =
            (if diff > 0
             then let (ret, ready, tv) = sel watch (highfd + 1) (Some (if always_event_list w \<noteq> 0 then 0 else diff))
                  in (ret, ready, w\<lparr>now := tv\<rparr>)
             else (0, (\<lambda>_. False), w));
          w \<leftarrow> (if ret = 0 then run_timer run e w else Some w);
          Some (ret, ready, w)
        }
        else let (ret, ready, tv) = sel watch (highfd + 1) None in Some (ret, ready, w\<lparr>now := tv\<rparr>));
     w \<leftarrow> (if ret > 0 then do {
            w \<leftarrow> fd_round ready run (fd_event_list w) w;
            status_round ssock ready cls u w
          }
          else Some w);
     always_round run (always_event_list w) w
   }"

text \<open>The three loops that empty the lists after \<open>SIGINT\<close>.\<close>

partial_function (option) drain_time :: "world \<Rightarrow> world option" where
  "drain_time w =
     (if time_event_list w = 0 then Some w
      else do {
        (l, w) \<leftarrow> del_event (time_event_list w) (time_event_list w) w;
        drain_time (w\<lparr>time_event_list := l\<rparr>)
      })"

partial_function (option) drain_fd :: "world \<Rightarrow> world option" where
  "drain_fd w =
     (if fd_event_list w = 0 then Some w
      else do {
        (l, w) \<leftarrow> del_event (fd_event_list w) (fd_event_list w) w;
        drain_fd (w\<lparr>fd_event_list := l\<rparr>)
      })"

partial_function (option) drain_always :: "world \<Rightarrow> world option" where
  "drain_always w =
     (if always_event_list w = 0 then Some w
      else do {
        (l, w) \<leftarrow> del_event (always_event_list w) (always_event_list w) w;
        drain_always (w\<lparr>always_event_list := l\<rparr>)
      })"

text \<open>
  The loop over the calls of \<open>select\<close> up to the one during whose round \<open>SIGINT\<close> arrives; the test for
  it is at the end of a round, so there is at least one.
\<close>

fun event_rounds :: "int \<Rightarrow> round_env list \<Rightarrow> run_fun \<Rightarrow> world \<Rightarrow> world option" where
  "event_rounds ssock [] run w = Some w"
| "event_rounds ssock (r # rs) run w = do { w \<leftarrow> event_round ssock r run w; event_rounds ssock rs run w }"

definition event_loop :: "int \<Rightarrow> round_env list \<Rightarrow> run_fun \<Rightarrow> world \<Rightarrow> world option" where
  "event_loop ssock rs run w = do {
     w \<leftarrow> event_rounds ssock rs run w;
     w \<leftarrow> drain_time w;
     w \<leftarrow> drain_fd w;
     drain_always w
   }"

end
