(* ===== verification/Ptrtd.thy ===== *)
theory Ptrtd
  imports Ptrtd_Tcp Udp Event_Loop
begin

text \<open>
  The daemon (\<^verbatim>\<open>src/ptrtd.c\<close>): the demultiplexer of received packets, the set-up, and the callbacks
  of the event loop put together. \<open>env\<close> holds what the rest of the world answers in one call: the
  addresses \<open>ALLOC\<close> returns and the results of system calls.
\<close>

record env =
  new_tcb :: ptr
  new_map :: nat
  new_umap :: nat
  sock_fd :: int
  conn_res :: "int \<times> bool"
  usock_fd :: int
  rd_res :: "int \<Rightarrow> int \<times> bool \<times> byte list"
  wr_res :: "byte list \<Rightarrow> (int \<times> bool) option"
  so_error :: int
  recv_res :: "(byte list \<times> byte list \<times> int) option"
  stack_pfx :: "byte list"
  link_rd :: "byte list option"

definition handle_packet :: "iface \<Rightarrow> env \<Rightarrow> pbuf \<Rightarrow> world \<Rightarrow> (int + world) option" where
  "handle_packet ifc v p w = do {
     _ \<leftarrow> make_cksum (pb_d p) (pb_dlen p);
     b6 \<leftarrow> mem_get (pb_d p) 6;
     if b6 = 58 then do { w \<leftarrow> handle_icmp ifc (pb_d p) (pb_dlen p) w; Some (Inr w) }
     else if b6 = 6 then do {
       w \<leftarrow> handle_tcp (tcp_map_cb ifc (new_map v) (sock_fd v) (conn_res v)) ifc (new_tcb v) (pb_d p) (pb_dlen p) w;
       Some (Inr w)
     }
     else if b6 = 17 then handle_udp (udp_incoming (new_umap v) (usock_fd v)) (pb_d p) (pb_dlen p) w
     else if b6 = 0 then Some (Inr w)
     else do { w \<leftarrow> icmp_send_error ifc (pb_d p) (pb_dlen p) w; Some (Inr w) }
   }"

subsection \<open>The interface\<close>

text \<open>
  \<open>dev_env\<close> holds what the system answers while a device is set up. A created interface is the record
  of its driver; for tun and tap that is the device name.
\<close>

record dev_env =
  tun_k :: tun_dev
  ip_k :: ip_sys
  uml_k :: uml_sys
  pid :: nat

datatype link_if = Tun string | Tap string | Ip802 iface_802ip | Uml iface_uml_sw

fun link_iface :: "link_if \<Rightarrow> iface" where
  "link_iface (Tun _) = tun_iface"
| "link_iface (Tap _) = tap_iface"
| "link_iface (Ip802 i) = ip_iface i"
| "link_iface (Uml i) = uml_sw_iface i"

text \<open>The function that the driver registered under its name.\<close>

definition create_func :: "driver \<Rightarrow> dev_env \<Rightarrow> string option \<Rightarrow> world \<Rightarrow> (int + link_if \<times> world) option" where
  "create_func drv k arg w =
     (case drv of
        Drv_tun \<Rightarrow> map_option (map_sum id (map_prod (\<lambda>(n, _). Tun n) id)) (tun_new_if (tun_k k) arg w)
      | Drv_tap \<Rightarrow> map_option (map_sum id (map_prod (\<lambda>(n, _). Tap n) id)) (tap_new_if (tun_k k) arg w)
      | Drv_802ip \<Rightarrow> map_option (map_sum id (map_prod Ip802 id)) (ip_new_if (ip_k k) w)
      | Drv_uml_sw \<Rightarrow> map_option (map_sum id (map_prod (\<lambda>(i, _). Uml i) id)) (uml_sw_new_if (uml_k k) (pid k) w))"

text \<open>The read callback of the interface's event.\<close>

fun iface_read :: "link_if \<Rightarrow> byte list option \<Rightarrow> (pbuf \<Rightarrow> world \<Rightarrow> (int + world) option) \<Rightarrow> world \<Rightarrow> (int + int \<times> world) option" where
  "iface_read (Tun _) rd handle w = tun_read_callback tun_iface rd handle w"
| "iface_read (Tap _) rd handle w = tap_read_callback tap_ether tap_iface rd (ether_pkt_in handle) w"
| "iface_read (Ip802 i) rd handle w = ip_read_callback (ip_ife i) (ip_iface i) rd (ether_pkt_in handle) w"
| "iface_read (Uml i) rd handle w = uml_sw_read_callback (uml_ife i) (uml_sw_iface i) rd (ether_pkt_in handle) w"

subsection \<open>Start\<close>

text \<open>\<open>%x\<close> of a number.\<close>

fun hex :: "nat \<Rightarrow> string" where
  "hex n = (if n < 16 then [] else hex (n div 16)) @
     [if n mod 16 < 10 then char_of (48 + n mod 16) else char_of (87 + n mod 16)]"

declare hex.simps [simp del]

text \<open>The option \<open>-i\<close> of \<open>main\<close>: a driver and a device, separated by a colon, or a device only.\<close>

definition iface_option :: "string \<Rightarrow> string \<Rightarrow> string \<times> string" where
  "iface_option itype arg =
     (if CHR '':'' \<in> set arg then (takeWhile (\<lambda>c. c \<noteq> CHR '':'') arg, tl (dropWhile (\<lambda>c. c \<noteq> CHR '':'') arg))
      else (itype, arg))"

text \<open>
  The commands \<open>init_iface\<close> runs for a tun or tap device. \<open>prefix\<close> are the 16 bytes of
  \<open>globals.prefix\<close>, \<open>plen\<close> is \<open>globals.plen\<close>.
\<close>

definition iface_commands :: "string \<Rightarrow> byte list \<Rightarrow> nat \<Rightarrow> string list option" where
  "iface_commands ifname prefix plen = do {
     a \<leftarrow> GET_16 prefix 0;
     b \<leftarrow> GET_16 prefix 2;
     c \<leftarrow> GET_16 prefix 4;
     d \<leftarrow> GET_16 prefix 6;
     Some [''/sbin/ip link set '' @ ifname @ '' up'',
       ''/sbin/ip addr add fe80::1/64 dev '' @ ifname,
       ''/sbin/ip route add '' @ hex (nat a) @ '':'' @ hex (nat b) @ '':'' @ hex (nat c) @ '':'' @ hex (nat d) @ ''::/'' @
         decimal plen @ '' dev '' @ ifname @ '' via fe80::5'']
   }"

fun link_name :: "link_if \<Rightarrow> string" where
  "link_name (Tun n) = n"
| "link_name (Tap n) = n"
| "link_name _ = []"

definition init_iface ::
    "dev_env \<Rightarrow> byte list \<Rightarrow> nat \<Rightarrow> string \<Rightarrow> string option \<Rightarrow> world \<Rightarrow> (int + (link_if \<times> string list) \<times> world) option" where
  "init_iface k prefix plen type dev w =
     (case create_iface type (init_iface_drivers []) of
        None \<Rightarrow> Some (Inl 1)
      | Some drv \<Rightarrow> do {
          r \<leftarrow> create_func drv k dev w;
          (case r of
             Inl n \<Rightarrow> Some (Inl n)
           | Inr (iface, w) \<Rightarrow> do {
               cmds \<leftarrow> (if type = ''tap'' \<or> type = ''tun'' then iface_commands (link_name iface) prefix plen else Some []);
               w \<leftarrow> icmp_init_iface (link_iface iface) w;
               Some (Inr ((iface, cmds), w))
             })
        })"

text \<open>The initialisation in \<open>main\<close>: the listeners and the interface.\<close>

definition ptrtd_start ::
    "ptr \<Rightarrow> nat \<Rightarrow> dev_env \<Rightarrow> byte list \<Rightarrow> nat \<Rightarrow> string \<Rightarrow> string option \<Rightarrow> world \<Rightarrow> (int + (link_if \<times> string list) \<times> world) option" where
  "ptrtd_start t us k prefix plen itype iname w = do {
     w \<leftarrow> ptrtd_tcp_init t w;
     w \<leftarrow> ptrtd_udp_init us w;
     init_iface k prefix plen itype iname w
   }"

text \<open>
  The callback of an event. A callback that ends the program counts as one that does not return to the
  loop.
\<close>

definition run_callback :: "link_if \<Rightarrow> env \<Rightarrow> callback \<Rightarrow> world \<Rightarrow> (int \<times> world) option" where
  "run_callback l v f w =
     (let ifc = link_iface l;
          stay = (\<lambda>r. case r of Some (Inr x) \<Rightarrow> Some x | _ \<Rightarrow> None)
      in case f of
        Do_tcb_write t \<Rightarrow> do_tcb_write ifc t w
      | Tcp_timeout t \<Rightarrow> tcp_timeout t w
      | Tcp_remove t \<Rightarrow> tcp_remove t w
      | Handle_fd_can_read m \<Rightarrow> handle_fd_can_read ifc (rd_res v) m w
      | Handle_fd_can_write m \<Rightarrow> handle_fd_can_write ifc (wr_res v) m w
      | Handle_fd_did_connect m \<Rightarrow> handle_fd_did_connect ifc (so_error v) m w
      | Remove_udp_map m \<Rightarrow> remove_udp_map m w
      | Handle_udp_read m \<Rightarrow> stay (handle_udp_read ifc (stack_pfx v) (recv_res v) m w)
      | Iface_read \<Rightarrow> stay (iface_read l (link_rd v) (handle_packet ifc v) w))"

end
