(* ===== verification/Tcp_Session.thy ===== *)
theory Tcp_Session
  imports Tcp_Input Ownership
begin

text \<open>
  The invariant of the TCP connections. Per connection: buffers and addresses are in place, the state
  is one the code uses, the application is attached in \<open>SYN_RECVD\<close>, \<open>ESTABLISHED\<close> and
  \<open>CLOSE_WAIT\<close> only, and the sequence numbers lie where the output buffer says. For the table: every
  tcb is in it, and the listener has the zero key. The locale \<open>tcp_app\<close> is the contract of the
  application behind \<open>struct tcp_callback\<close>; under it every operation of \<^verbatim>\<open>tcp.c\<close> keeps the invariant.
\<close>

subsection \<open>Sequence numbers\<close>

text \<open>
  \<open>at_seq ob c u n k\<close>: \<open>u\<close> is the distance from \<open>snd_una\<close> to the number of the \<open>FIN\<close> and one more, \<open>n\<close>
  the distance from \<open>snd_una\<close> to \<open>snd_nxt\<close>, and \<open>k\<close>, while a retransmission timer runs, the distance to
  its mark. Distances are integers, so wrap-around of the 32-bit numbers needs no special case.
\<close>

definition timing :: "tcb \<Rightarrow> bool" where
  "timing c \<longleftrightarrow> e_timeout c \<noteq> 0 \<and> state c \<noteq> TCP_TIME_WAIT"

definition at_seq :: "ringbuf \<Rightarrow> tcb \<Rightarrow> int \<Rightarrow> int \<Rightarrow> int \<Rightarrow> bool" where
  "at_seq ob c u n k \<longleftrightarrow> 0 \<le> n \<and> n \<le> u \<and> u \<le> used ob + 2 \<and> snd_una c = w_seq ob + 1 - word_of_int u \<and>
     snd_nxt c = snd_una c + word_of_int n \<and>
     (timing c \<longrightarrow> 0 < u \<and> 0 \<le> k \<and> k \<le> u \<and> timeout_mark c = snd_una c + word_of_int k)"

definition seq_ok :: "tcb \<Rightarrow> bool" where
  "seq_ok c \<longleftrightarrow> (\<exists>ob u n k. outbuf c = Some ob \<and>
     (if state c = TCP_SYN_RECVD
      then used ob < u \<and> u \<le> used ob + 2 \<and> snd_una c = w_seq ob + 1 - word_of_int u \<and> e_timeout c = 0
      else at_seq ob c u n k \<and> (state c = TCP_ESTABLISHED \<longrightarrow> used ob < u) \<and>
        (state c = TCP_FIN_WAIT_2 \<or> state c = TCP_TIME_WAIT \<longrightarrow> u = 0)))"

lemma seq_okE:
  assumes "seq_ok c" "state c \<noteq> TCP_SYN_RECVD" "outbuf c = Some ob"
  obtains u n k where "at_seq ob c u n k" "state c = TCP_ESTABLISHED \<Longrightarrow> used ob < u"
    "state c = TCP_FIN_WAIT_2 \<or> state c = TCP_TIME_WAIT \<Longrightarrow> u = 0"
  using assms unfolding seq_ok_def by auto

lemma seq_okI:
  assumes "outbuf c = Some ob" "at_seq ob c u n k" "state c \<noteq> TCP_SYN_RECVD" "state c = TCP_ESTABLISHED \<Longrightarrow> used ob < u"
    "state c = TCP_FIN_WAIT_2 \<or> state c = TCP_TIME_WAIT \<Longrightarrow> u = 0"
  shows "seq_ok c"
  using assms unfolding seq_ok_def by auto

lemma sint_small: "- (2 ^ 31) \<le> i \<Longrightarrow> i < 2 ^ 31 \<Longrightarrow> sint ((word_of_int i) :: u32) = i"
  by (simp add: sint_sbintrunc' signed_take_bit_int_eq_self)

lemma ahead:
  fixes x y :: u32
  assumes "x < y"
  shows "0 < uint (y - x)" "uint y = uint x + uint (y - x)" "y = x + word_of_int (uint (y - x))"
    "0 \<le> j \<Longrightarrow> j \<le> uint (y - x) \<Longrightarrow> x + word_of_int j \<le> y"
proof -
  have d: "uint (y - x) = uint y - uint x"
    using assms by (simp add: uint_sub_lem [THEN iffD1] word_le_def less_imp_le word_less_def)
  then show "0 < uint (y - x)" "uint y = uint x + uint (y - x)"
    using assms by (simp_all add: word_less_def)
  show "y = x + word_of_int (uint (y - x))"
    by simp
  show "x + word_of_int j \<le> y" if "0 \<le> j" "j \<le> uint (y - x)"
  proof -
    have b: "uint x + j < 2 ^ 32" "0 \<le> uint x"
      using that d uint_lt2p [of y] by simp_all
    then have "uint (x + word_of_int j) = uint x + j"
      using that by (simp add: uint_word_ariths uint_word_of_int_eq take_bit_eq_mod)
    then show ?thesis
      using that d by (simp add: word_le_def)
  qed
qed

lemma rb_avail_at:
  assumes "at_seq ob c u n k" "ringbuf_ok ob" "buf_size ob = 16384" "0 \<le> j" "j \<le> 16384"
  shows "rb_avail ob (snd_nxt c + word_of_int j) = (if u - 1 - n - j > used ob then 0 else u - 1 - n - j)"
proof -
  have "used ob \<le> 16384" "0 \<le> used ob"
    using assms(2,3) by (simp_all add: ringbuf_ok_def)
  moreover have "w_seq ob - (snd_nxt c + word_of_int j) = word_of_int (u - 1 - n - j)"
    using assms(1) by (simp add: at_seq_def algebra_simps)
  moreover have "- (2 ^ 31) \<le> u - 1 - n - j" "u - 1 - n - j < 2 ^ 31"
    using assms(1,4,5) \<open>used ob \<le> 16384\<close> by (auto simp: at_seq_def)
  ultimately have "sint (w_seq ob - (snd_nxt c + word_of_int j)) = u - 1 - n - j"
    using sint_small by metis
  then show ?thesis
    unfolding rb_avail_def Let_def by simp
qed

text \<open>Sending keeps the numbers in place.\<close>

lemma seq_after_send:
  assumes ok: "seq_ok c" "state c \<noteq> TCP_SYN_RECVD" and ob: "outbuf c = Some ob" "ringbuf_ok ob" "buf_size ob = 16384"
  shows "seq_ok (after_send c ob e tv)"
proof -
  obtain u n k where a: "at_seq ob c u n k" and s: "state c = TCP_ESTABLISHED \<Longrightarrow> used ob < u"
      "state c = TCP_FIN_WAIT_2 \<or> state c = TCP_TIME_WAIT \<Longrightarrow> u = 0"
    using seq_okE [OF ok ob(1)] by blast
  let ?len = "send_len c ob" and ?fin = "send_fin c ob" and ?c = "after_send c ob e tv"
  have us: "used ob \<le> 16384" "0 \<le> used ob"
    using ob by (simp_all add: ringbuf_ok_def)
  have un: "0 \<le> n" "n \<le> u" "u \<le> used ob + 2"
    using a by (simp_all add: at_seq_def)
  have l: "0 \<le> ?len" "?len \<le> max 0 (rb_avail ob (snd_nxt c))"
    using send_len_bounds(1,3) [of c ob] length_from_seq [OF ob(2), of "snd_nxt c"] by simp_all
  have av: "rb_avail ob (snd_nxt c) = (if u - 1 - n > used ob then 0 else u - 1 - n)"
    using rb_avail_at [OF a ob(2,3), of 0] by simp
  have pos: "?len \<le> u - 1 - n" "?len \<le> 16384" if "0 < ?len"
    using l(2) av that us by (auto split: if_splits)
  have l16: "?len \<le> 16384"
    using pos(2) us by linarith
  have len: "n + ?len \<le> u"
    using pos(1) l(1) un by linarith
  have fin: "n + ?len + 1 \<le> u" if "?fin"
    using that rb_avail_at [OF a ob(2,3) l(1) l16] un us l(1) len
    by (auto simp: send_fin_def split: if_splits)
  have nf: "\<not> ?fin" if "u = 0"
    using fin that un l(1) by auto
  let ?n = "n + ?len + (if ?fin then 1 else 0)"
  have "snd_nxt ?c = snd_una ?c + word_of_int ?n"
    using a by (auto simp: at_seq_def algebra_simps)
  moreover have "0 \<le> ?n" "?n \<le> u"
    using un l(1) len fin by auto
  moreover have "timing ?c \<longrightarrow> 0 < u \<and> (\<exists>k. 0 \<le> k \<and> k \<le> u \<and> timeout_mark ?c = snd_una ?c + word_of_int k)"
  proof (cases "e_timeout c = 0 \<and> ?len > 0")
    case True
    then have "timeout_mark ?c = snd_nxt c" "0 < u"
      using pos(1) un by (auto simp: after_send_def Let_def mark_rtt_def bump_nxt_def raise_limit_def)
    then show ?thesis
      using a un by (auto simp: at_seq_def)
  next
    case False
    then have "timeout_mark ?c = timeout_mark c" "timing ?c = timing c"
      by (auto simp: after_send_def Let_def mark_rtt_def bump_nxt_def raise_limit_def timing_def)
    then show ?thesis
      using a by (auto simp: at_seq_def)
  qed
  ultimately obtain k' where "at_seq ob ?c u ?n k'"
    using a unfolding at_seq_def by auto
  then show ?thesis
    using ob(1) s ok(2) by (intro seq_okI [of _ ob u ?n k']) simp_all
qed

text \<open>
  An acknowledgement the invariant allows for: one that covers no more than the \<open>SYN\<close> in
  \<open>SYN_RECVD\<close>, that does not lie behind \<open>snd_una\<close> in sequence space in \<open>ESTABLISHED\<close>, and that
  covers no more than the data and the \<open>FIN\<close> later.
\<close>

definition ack_sane :: "tcb \<Rightarrow> u32 \<Rightarrow> bool" where
  "ack_sane c ack \<longleftrightarrow> ack \<le> snd_una c \<or> (\<exists>ob. outbuf c = Some ob \<and>
     (if state c = TCP_SYN_RECVD then uint (ack - snd_una c) + used ob < uint (w_seq ob + 1 - snd_una c)
      else if state c = TCP_ESTABLISHED then uint (ack - snd_una c) < 2 ^ 31
      else uint (ack - snd_una c) \<le> uint (w_seq ob + 1 - snd_una c)))"

text \<open>What an acknowledgement does to the numbers, before the timer is looked at.\<close>

definition ack_tcb :: "u32 \<Rightarrow> tcb \<Rightarrow> tcb" where
  "ack_tcb ack c = c\<lparr>snd_una := ack, snd_nxt := (if ack > snd_nxt c then ack else snd_nxt c)\<rparr>"

lemma ack_moves:
  assumes a: "at_seq ob c u n k" and k: "snd_una c < ack"
  obtains n' where "n' = 0 \<or> n' = n - uint (ack - snd_una c)" "0 \<le> n'" "snd_nxt (ack_tcb ack c) = ack + word_of_int n'"
    "timing c \<Longrightarrow> \<not> timeout_mark c \<le> ack \<Longrightarrow> uint (ack - snd_una c) < k \<and> timeout_mark c = ack + word_of_int (k - uint (ack - snd_una c))"
proof -
  let ?a = "uint (ack - snd_una c)"
  note h = ahead [OF k]
  have nx: "snd_nxt c = snd_una c + word_of_int n" "0 \<le> n"
    using a by (simp_all add: at_seq_def)
  have e: "snd_una c + word_of_int i = ack + word_of_int (i - ?a)" for i
    using h(3) by (simp add: algebra_simps)
  have m: "?a < k \<and> timeout_mark c = ack + word_of_int (k - ?a)" if "timing c" "\<not> timeout_mark c \<le> ack"
  proof -
    have "timeout_mark c = snd_una c + word_of_int k" "0 \<le> k"
      using a that(1) by (simp_all add: at_seq_def)
    then show ?thesis
      using h(4) [of k] that(2) e [of k] by force
  qed
  show ?thesis
  proof (cases "n \<le> ?a \<or> ack > snd_nxt c")
    case True
    then have "snd_nxt c \<le> ack"
      using h(4) [OF nx(2)] nx(1) by auto
    then have "snd_nxt (ack_tcb ack c) = ack + word_of_int 0"
      by (auto simp: ack_tcb_def)
    then show ?thesis
      using that [of 0] m by simp
  next
    case False
    then have "snd_nxt (ack_tcb ack c) = ack + word_of_int (n - ?a)"
      using nx(1) e [of n] by (simp add: ack_tcb_def)
    then show ?thesis
      using that [of "n - ?a"] m False by simp
  qed
qed

text \<open>The buffer of an established connection gives up what was acknowledged.\<close>

lemma advance_acked:
  assumes ob: "ringbuf_ok ob" "buf_size ob = 16384" and u: "used ob < u" "u \<le> used ob + 2" and a: "0 < a" "a < 2 ^ 31"
    and s: "ack = w_seq ob + 1 - word_of_int u + word_of_int a"
  shows "ringbuf_ok (rb_advance ob ack)" "buf_size (rb_advance ob ack) = 16384" "rb_left ob \<le> rb_left (rb_advance ob ack)"
    "used (rb_advance ob ack) = max 0 (u - 1 - a)"
    "ack = w_seq (rb_advance ob ack) + 1 - word_of_int (max 1 (u - a))"
proof -
  have us: "used ob \<le> 16384" "0 \<le> used ob"
    using ob by (simp_all add: ringbuf_ok_def)
  have "w_seq ob - ack = word_of_int (u - 1 - a)"
    using s by (simp add: algebra_simps)
  then have d: "sint (w_seq ob - ack) = u - 1 - a"
    using sint_small [of "u - 1 - a"] us u a by simp
  consider (inside) "0 < u - 1 - a" | (all) "u - 1 - a \<le> 0"
    by linarith
  then have "ringbuf_ok (rb_advance ob ack) \<and> buf_size (rb_advance ob ack) = 16384 \<and> rb_left ob \<le> rb_left (rb_advance ob ack) \<and>
    used (rb_advance ob ack) = max 0 (u - 1 - a) \<and> ack = w_seq (rb_advance ob ack) + 1 - word_of_int (max 1 (u - a))"
  proof cases
    case inside
    have ub: "u - 1 - a \<le> used ob"
      using u a by simp
    note adv = rb_advance_inside [OF ob(1) d [symmetric] inside ub]
    have "ack = w_seq ob + 1 - word_of_int (u - a)"
      using s by (simp add: algebra_simps)
    moreover have "max 1 (u - a) = u - a" "max 0 (u - 1 - a) = u - 1 - a"
      using inside by simp_all
    ultimately show ?thesis
      unfolding adv(3-5) rb_left_def using adv(1) ob(2) ub by simp
  next
    case all
    then have "max 1 (u - a) = 1" "max 0 (u - 1 - a) = 0"
      by simp_all
    then show ?thesis
      using rb_advance_beyond [OF ob(1), of ack] d us ob(2) all by (simp add: rb_left_def)
  qed
  then show "ringbuf_ok (rb_advance ob ack)" "buf_size (rb_advance ob ack) = 16384" "rb_left ob \<le> rb_left (rb_advance ob ack)"
    "used (rb_advance ob ack) = max 0 (u - 1 - a)"
    "ack = w_seq (rb_advance ob ack) + 1 - word_of_int (max 1 (u - a))"
    by blast+
qed

text \<open>The numbers after an acknowledgement, for the three ways the timer can go.\<close>

definition acked :: "u32 \<Rightarrow> tcb \<Rightarrow> ringbuf \<Rightarrow> tcb" where
  "acked ack c ob = (ack_tcb ack c)\<lparr>outbuf := Some (if state c = TCP_ESTABLISHED then rb_advance ob ack else ob)\<rparr>"

lemma acked_at:
  assumes ok: "seq_ok c" "state c = TCP_ESTABLISHED \<or> closing_state (state c)"
    and k: "snd_una c < ack" "ack_sane c ack" and ob: "outbuf c = Some ob" "ringbuf_ok ob" "buf_size ob = 16384"
  obtains ob' u n where "outbuf (acked ack c ob) = Some ob'" "ringbuf_ok ob'" "buf_size ob' = 16384" "rb_left ob \<le> rb_left ob'"
    "0 \<le> n" "n \<le> u" "u \<le> used ob' + 2" "state c = TCP_ESTABLISHED \<Longrightarrow> used ob' < u" "ack = w_seq ob' + 1 - word_of_int u"
    "snd_nxt (acked ack c ob) = ack + word_of_int n"
    "timing c \<Longrightarrow> \<not> timeout_mark c \<le> ack \<Longrightarrow> \<exists>k. 0 < k \<and> k \<le> u \<and> timeout_mark c = ack + word_of_int k"
proof -
  have ns: "state c \<noteq> TCP_SYN_RECVD"
    using ok(2) by auto
  obtain u n k where a: "at_seq ob c u n k" and s: "state c = TCP_ESTABLISHED \<Longrightarrow> used ob < u"
    using seq_okE [OF ok(1) ns ob(1)] by blast
  let ?a = "uint (ack - snd_una c)"
  have un: "0 \<le> n" "n \<le> u" "u \<le> used ob + 2" "snd_una c = w_seq ob + 1 - word_of_int u"
    using a by (simp_all add: at_seq_def)
  have us: "used ob \<le> 16384" "0 \<le> used ob"
    using ob by (simp_all add: ringbuf_ok_def)
  have pa: "0 < ?a" and ack: "ack = w_seq ob + 1 - word_of_int u + word_of_int ?a"
    using ahead(1,3) [OF k(1)] un(4) by simp_all
  obtain n' where n': "n' = 0 \<or> n' = n - ?a" "0 \<le> n'" "snd_nxt (ack_tcb ack c) = ack + word_of_int n'"
      "timing c \<Longrightarrow> \<not> timeout_mark c \<le> ack \<Longrightarrow> ?a < k \<and> timeout_mark c = ack + word_of_int (k - ?a)"
    using ack_moves [OF a k(1)] by metis
  have tk: "\<exists>k'. 0 < k' \<and> k' \<le> u - ?a \<and> timeout_mark c = ack + word_of_int k'" if "timing c" "\<not> timeout_mark c \<le> ack"
  proof -
    have "k \<le> u"
      using a that(1) by (simp add: at_seq_def)
    then show ?thesis
      using n'(4) [OF that] by (intro exI [of _ "k - ?a"]) simp
  qed
  show ?thesis
  proof (cases "state c = TCP_ESTABLISHED")
    case True
    have a31: "?a < 2 ^ 31"
      using k True ob(1) by (auto simp: ack_sane_def)
    note adv = advance_acked [OF ob(2,3) s [OF True] un(3) pa a31 ack]
    have tk': "\<exists>k'. 0 < k' \<and> k' \<le> max 1 (u - ?a) \<and> timeout_mark c = ack + word_of_int k'" if "timing c" "\<not> timeout_mark c \<le> ack"
      using tk [OF that] by force
    have "n' \<le> max 1 (u - ?a)" "max 1 (u - ?a) \<le> used (rb_advance ob ack) + 2" "used (rb_advance ob ack) < max 1 (u - ?a)"
      using n'(1) un(2) adv(4) by (auto simp: max_def)
    note b = this
    have "outbuf (acked ack c ob) = Some (rb_advance ob ack)" "snd_nxt (acked ack c ob) = ack + word_of_int n'"
      using n'(3) True by (simp_all add: acked_def)
    then show ?thesis
      using that [of "rb_advance ob ack" n' "max 1 (u - ?a)"] adv(1,2,3,5) n'(2) b tk' by metis
  next
    case False
    have "w_seq ob + 1 - snd_una c = word_of_int u"
      using un(4) by simp
    then have "uint (w_seq ob + 1 - snd_una c) = u"
      using un us by (simp add: uint_word_of_int_eq take_bit_eq_mod)
    then have au: "?a \<le> u"
      using k False ns ob(1) by (auto simp: ack_sane_def)
    have "ack = w_seq ob + 1 - word_of_int (u - ?a)"
      using ack by (simp add: algebra_simps)
    moreover have "n' \<le> u - ?a" "u - ?a \<le> used ob + 2"
      using n'(1) un au pa by auto
    moreover have "outbuf (acked ack c ob) = Some ob" "snd_nxt (acked ack c ob) = ack + word_of_int n'"
      using n'(3) False by (simp_all add: acked_def)
    ultimately show ?thesis
      using that [of ob n' "u - ?a"] ob(2,3) n'(2) tk False by simp
  qed
qed

lemma seq_acked:
  assumes ok: "seq_ok c" "state c = TCP_ESTABLISHED \<or> closing_state (state c)"
    and k: "snd_una c < ack" "ack_sane c ack" and ob: "outbuf c = Some ob" "ringbuf_ok ob" "buf_size ob = 16384"
  shows "e_timeout c = 0 \<or> \<not> timeout_mark c \<le> ack \<Longrightarrow> seq_ok (acked ack c ob)"
    "seq_ok ((acked ack c ob)\<lparr>e_timeout := 0\<rparr>)"
    "snd_una (acked ack c ob) < snd_nxt (acked ack c ob) \<Longrightarrow> seq_ok ((acked ack c ob)\<lparr>e_timeout := e, timeout_mark := snd_nxt (acked ack c ob)\<rparr>)"
proof -
  let ?c = "acked ack c ob"
  have f: "state ?c = state c" "snd_una ?c = ack" "e_timeout ?c = e_timeout c" "timeout_mark ?c = timeout_mark c"
    by (simp_all add: acked_def ack_tcb_def)
  have st: "state c \<noteq> TCP_SYN_RECVD" "state c \<noteq> TCP_TIME_WAIT" "state c \<noteq> TCP_FIN_WAIT_2"
    using ok(2) by auto
  obtain ob' u n where a: "outbuf ?c = Some ob'" "0 \<le> n" "n \<le> u" "u \<le> used ob' + 2" "state c = TCP_ESTABLISHED \<Longrightarrow> used ob' < u"
      "ack = w_seq ob' + 1 - word_of_int u" "snd_nxt ?c = ack + word_of_int n"
      "timing c \<Longrightarrow> \<not> timeout_mark c \<le> ack \<Longrightarrow> \<exists>k. 0 < k \<and> k \<le> u \<and> timeout_mark c = ack + word_of_int k"
    using acked_at [OF assms] by metis
  show "seq_ok ?c" if h: "e_timeout c = 0 \<or> \<not> timeout_mark c \<le> ack"
  proof -
    have "\<exists>k. at_seq ob' ?c u n k"
    proof (cases "timing c")
      case True
      then obtain k where "0 < k" "k \<le> u" "timeout_mark c = ack + word_of_int k"
        using a(8) h by (auto simp: timing_def)
      then have "at_seq ob' ?c u n k"
        using a(2-7) f by (simp add: at_seq_def)
      then show ?thesis
        by blast
    next
      case False
      then have "at_seq ob' ?c u n 0"
        using a(2-7) f by (auto simp: at_seq_def timing_def)
      then show ?thesis
        by blast
    qed
    then obtain k where "at_seq ob' ?c u n k"
      by blast
    then show ?thesis
      using a f st by (intro seq_okI [of _ ob' u n k]) simp_all
  qed
  show "seq_ok (?c\<lparr>e_timeout := 0\<rparr>)"
    by (rule seq_okI [of _ ob' u n 0]) (use a f st in \<open>simp_all add: at_seq_def timing_def\<close>)
  show "seq_ok (?c\<lparr>e_timeout := e, timeout_mark := snd_nxt ?c\<rparr>)" if "snd_una ?c < snd_nxt ?c"
  proof -
    have "n \<noteq> 0"
      using that a(7) f(2) by auto
    then show ?thesis
      by (intro seq_okI [of _ ob' u n n]) (use a f st in \<open>simp_all add: at_seq_def\<close>)
  qed
qed

subsection \<open>Connections and their table\<close>

definition in_ok :: "tcb \<Rightarrow> bool" where
  "in_ok c \<longleftrightarrow> (\<exists>ib. inbuf c = Some ib \<and> read_seq c = w_seq ib - word_of_int (used ib))"

definition tcb_ok :: "tcb \<Rightarrow> bool" where
  "tcb_ok c \<longleftrightarrow> conn_ok c \<and> state c \<in> {TCP_SYN_RECVD, TCP_ESTABLISHED, TCP_FIN_WAIT_1, TCP_FIN_WAIT_2, TCP_CLOSING, TCP_LAST_ACK, TCP_TIME_WAIT} \<and>
     (cb c \<longleftrightarrow> state c = TCP_SYN_RECVD \<or> state c = TCP_ESTABLISHED) \<and> in_ok c \<and> seq_ok c"

lemmas tcb_ok_defs = tcb_ok_def conn_ok_def in_ok_def seq_ok_def at_seq_def timing_def

text \<open>Fields that play no part in the invariant.\<close>

lemma tcb_ok_upd [simp]:
  "tcb_ok (c\<lparr>e_tcb_send := a\<rparr>) = tcb_ok c" "tcb_ok (c\<lparr>last_acked := b\<rparr>) = tcb_ok c" "tcb_ok (c\<lparr>packets := b\<rparr>) = tcb_ok c"
  "tcb_ok (c\<lparr>rcv_nxt := b\<rparr>) = tcb_ok c" "tcb_ok (c\<lparr>rcv_wnd := b\<rparr>) = tcb_ok c" "tcb_ok (c\<lparr>snd_wnd := b\<rparr>) = tcb_ok c"
  "tcb_ok (c\<lparr>snd_cwnd := b\<rparr>) = tcb_ok c" "tcb_ok (c\<lparr>snd_max := b\<rparr>) = tcb_ok c" "tcb_ok (c\<lparr>atime := d\<rparr>) = tcb_ok c"
  "tcb_ok (c\<lparr>rtt_mark := b\<rparr>) = tcb_ok c" "tcb_ok (c\<lparr>srtt := i\<rparr>) = tcb_ok c" "tcb_ok (c\<lparr>sdev := i\<rparr>) = tcb_ok c"
  "tcb_ok (c\<lparr>app_data := m\<rparr>) = tcb_ok c"
  by (simp_all add: tcb_ok_defs)

lemma key_of_upd [simp]:
  "key_of (c\<lparr>e_tcb_send := a\<rparr>) = key_of c" "key_of (c\<lparr>last_acked := b\<rparr>) = key_of c" "key_of (c\<lparr>packets := b\<rparr>) = key_of c"
  "key_of (c\<lparr>rcv_nxt := b\<rparr>) = key_of c" "key_of (c\<lparr>rcv_wnd := b\<rparr>) = key_of c" "key_of (c\<lparr>snd_wnd := b\<rparr>) = key_of c"
  "key_of (c\<lparr>snd_cwnd := b\<rparr>) = key_of c" "key_of (c\<lparr>snd_max := b\<rparr>) = key_of c" "key_of (c\<lparr>atime := d\<rparr>) = key_of c"
  "key_of (c\<lparr>rtt_mark := b\<rparr>) = key_of c" "key_of (c\<lparr>srtt := i\<rparr>) = key_of c" "key_of (c\<lparr>sdev := i\<rparr>) = key_of c"
  "key_of (c\<lparr>app_data := m\<rparr>) = key_of c" "key_of (c\<lparr>e_timeout := a\<rparr>) = key_of c" "key_of (c\<lparr>timeout_mark := b\<rparr>) = key_of c"
  "key_of (c\<lparr>snd_una := b\<rparr>) = key_of c" "key_of (c\<lparr>snd_nxt := b\<rparr>) = key_of c" "key_of (c\<lparr>state := i\<rparr>) = key_of c"
  "key_of (c\<lparr>cb := q\<rparr>) = key_of c" "key_of (c\<lparr>inbuf := r\<rparr>) = key_of c" "key_of (c\<lparr>outbuf := r\<rparr>) = key_of c" "key_of (c\<lparr>read_seq := b\<rparr>) = key_of c"
  by (simp_all add: key_of_def)

definition listener :: "tcb \<Rightarrow> bool" where
  "listener l \<longleftrightarrow> state l = TCP_LISTEN \<and> cb l \<and> e_tcb_send l = 0 \<and> e_timeout l = 0 \<and> length (laddr l) = 16"

definition tcp_ok :: "ptr \<Rightarrow> world \<Rightarrow> bool" where
  "tcp_ok lt w \<longleftrightarrow> (\<exists>T. table_ok w T \<and> dom (tcbs w) = set (addrs T) \<and> conns w T listen_key = Some lt) \<and>
     (\<exists>l. tcbs w lt = Some l \<and> listener l) \<and> (\<forall>t c. tcbs w t = Some c \<longrightarrow> t \<noteq> lt \<longrightarrow> tcb_ok c)"

lemma tcp_ok_tcb: "tcp_ok lt w \<Longrightarrow> tcbs w t = Some c \<Longrightarrow> t \<noteq> lt \<Longrightarrow> tcb_ok c"
  by (auto simp: tcp_ok_def)

lemma tcp_ok_listen: "tcp_ok lt w \<Longrightarrow> tcbs w t = Some c \<Longrightarrow> state c = TCP_LISTEN \<longleftrightarrow> t = lt"
proof (cases "t = lt")
  case False
  assume "tcp_ok lt w" "tcbs w t = Some c"
  from tcp_ok_tcb [OF this False] show ?thesis
    using False by (auto simp: tcb_ok_def)
qed (auto simp: tcp_ok_def listener_def)

lemma tcp_ok_cong: "tcbs w' = tcbs w \<Longrightarrow> tcblist w' = tcblist w \<Longrightarrow> tcp_ok lt w' = tcp_ok lt w"
  by (simp add: tcp_ok_def table_ok_def conns_def key_at_def)

lemma tcp_ok_set:
  assumes "tcp_ok lt w" "tcbs w t = Some c" "key_of c' = key_of c" "if t = lt then listener c' else tcb_ok c'"
    and w': "tcbs w' = (tcbs w)(t \<mapsto> c')" "tcblist w' = tcblist w"
  shows "tcp_ok lt w'"
proof -
  obtain T where T: "table_ok w T" "dom (tcbs w) = set (addrs T)" "conns w T listen_key = Some lt"
    using assms(1) by (auto simp: tcp_ok_def)
  have "\<exists>y. tcbs w' x = Some y \<and> key_of y = key_at w x" if "x \<in> set (addrs T)" for x
  proof (cases "x = t")
    case False
    have "x \<in> dom (tcbs w)"
      using that T(2) by simp
    then obtain y where "tcbs w x = Some y"
      by auto
    then show ?thesis
      using False w'(1) by (simp add: key_at_def)
  qed (use assms(2,3) w'(1) in \<open>simp add: key_at_def\<close>)
  then have "table_ok w' T" "conns w' T = conns w T"
    using table_ok_frame [OF T(1), of w'] w'(2) by simp_all
  moreover have "dom (tcbs w') = set (addrs T)"
    using T(2) assms(2) w'(1) by auto
  moreover have "\<exists>l. tcbs w' lt = Some l \<and> listener l"
    using assms(1,4) w'(1) by (cases "t = lt") (auto simp: tcp_ok_def)
  moreover have "tcb_ok d" if "tcbs w' x = Some d" "x \<noteq> lt" for x d
    using assms(1,4) w'(1) that by (cases "x = t") (auto simp: tcp_ok_def)
  ultimately show ?thesis
    using T(3) unfolding tcp_ok_def by metis
qed

lemma tcp_ok_delete:
  assumes "tcp_ok lt w" "tcbs w t = Some c" "t \<noteq> lt"
  shows "\<exists>s. tcb_delete t w = Some (w\<lparr>tcblist := s, tcbs := (tcbs w)(t := None)\<rparr>) \<and> tcp_ok lt (w\<lparr>tcblist := s, tcbs := (tcbs w)(t := None)\<rparr>)"
proof -
  obtain T where T: "table_ok w T" "dom (tcbs w) = set (addrs T)" "conns w T listen_key = Some lt"
    using assms(1) by (auto simp: tcp_ok_def)
  have t: "t \<in> set (addrs T)"
    using T(2) assms(2) by auto
  obtain s T' where s: "tcb_delete t w = Some (w\<lparr>tcblist := s, tcbs := (tcbs w)(t := None)\<rparr>)"
      "table_ok (w\<lparr>tcblist := s, tcbs := (tcbs w)(t := None)\<rparr>) T'" "set (addrs T') = set (addrs T) - {t}"
    using tcb_delete_ok [OF T(1) t] by blast
  let ?w = "w\<lparr>tcblist := s, tcbs := (tcbs w)(t := None)\<rparr>"
  have "key_at ?w lt = key_at w lt" "lt \<in> set (addrs T')" "key_at w lt = listen_key"
    using conns_Some [OF T(1)] T(3) s(3) assms(3) by (auto simp: key_at_def)
  then have "conns ?w T' listen_key = Some lt"
    using conns_Some [OF s(2)] by simp
  moreover have "dom (tcbs ?w) = set (addrs T')"
    using T(2) s(3) by (auto simp: fun_upd_apply split: if_splits)
  moreover have "\<exists>l. tcbs ?w lt = Some l \<and> listener l" "\<forall>x d. tcbs ?w x = Some d \<longrightarrow> x \<noteq> lt \<longrightarrow> tcb_ok d"
    using assms(1,3) by (auto simp: tcp_ok_def fun_upd_apply split: if_splits)
  ultimately have "tcp_ok lt ?w"
    using s(2) unfolding tcp_ok_def by blast
  then show ?thesis
    using s(1) by blast
qed

subsection \<open>The application\<close>

text \<open>
  The room in the output buffer of a connection; for one that is gone it is the whole buffer, so that
  it never shrinks except by \<open>tcp_send\<close>.
\<close>

definition space :: "world \<Rightarrow> ptr \<Rightarrow> int" where
  "space w t = (case tcbs w t of None \<Rightarrow> 16384 | Some c \<Rightarrow> case outbuf c of None \<Rightarrow> 16384 | Some ob \<Rightarrow> rb_left ob)"

text \<open>Which connections have an application attached, and with which data pointer.\<close>

definition sess :: "world \<Rightarrow> ptr \<rightharpoonup> nat" where
  "sess w t = (case tcbs w t of None \<Rightarrow> None | Some c \<Rightarrow> if cb c \<and> state c \<noteq> TCP_LISTEN then Some (app_data c) else None)"

lemma sess_same:
  assumes "tcbs w t = Some c" "tcbs w' = (tcbs w)(t \<mapsto> c')" "cb c' = cb c" "app_data c' = app_data c" "state c' = TCP_LISTEN \<longleftrightarrow> state c = TCP_LISTEN"
  shows "sess w' = sess w"
  using assms by (auto simp: sess_def fun_eq_iff)

lemma sess_cong: "tcbs w' = tcbs w \<Longrightarrow> sess w' = sess w"
  by (simp add: sess_def fun_eq_iff)

lemma sess_gone: "tcbs w' = (tcbs w)(t := v) \<Longrightarrow> (\<And>c. v = Some c \<Longrightarrow> \<not> cb c) \<Longrightarrow> sess w' = (sess w)(t := None)"
  by (auto simp: sess_def fun_eq_iff split: option.splits)

definition app_same :: "world \<Rightarrow> world \<Rightarrow> bool" where
  "app_same w w' \<longleftrightarrow> maps w' = maps w \<and> tlist w' = tlist w \<and> num_tcp_maps w' = num_tcp_maps w \<and> umaps w' = umaps w \<and>
     ulist w' = ulist w \<and> socks w' = socks w \<and> udp_list w' = udp_list w \<and> udp_listener w' = udp_listener w"

definition tcp_same :: "world \<Rightarrow> world \<Rightarrow> bool" where
  "tcp_same w w' \<longleftrightarrow> tcbs w' = tcbs w \<and> tcblist w' = tcblist w \<and> nlist w' = nlist w"

definition sys_ok :: "iface \<Rightarrow> int \<Rightarrow> ((ptr \<rightharpoonup> nat) \<Rightarrow> world \<Rightarrow> bool) \<Rightarrow> ptr \<Rightarrow> queue \<Rightarrow> (ptr \<rightharpoonup> nat) \<Rightarrow> world \<Rightarrow> queue \<Rightarrow> bool" where
  "sys_ok ifc room app lt P S w Q \<longleftrightarrow> events_ok P w Q \<and> tcp_ok lt w \<and> nd_ok ifc room (nlist w) \<and> app S w"

text \<open>A connection is put on the list of those with something to send.\<close>

lemma mark_events:
  assumes ev: "events_ok P w Q" and c: "tcbs w t = Some c"
  shows "\<exists>w' Q' e. mark_for_if_write t w = Some w' \<and> events_ok P w' Q' \<and>
    evs.more w' = evs.more (w\<lparr>tcbs := (tcbs w)(t \<mapsto> c\<lparr>e_tcb_send := e\<rparr>)\<rparr>)"
proof -
  obtain w' e where m: "mark_for_if_write t w = Some w'" "e \<noteq> 0"
      "if e_tcb_send c \<noteq> 0 then e = e_tcb_send c \<and> w' = w
       else Q e = None \<and> evq w' (Q(e \<mapsto> (Always, Do_tcb_write t))) \<and>
         evs.more w' = evs.more (w\<lparr>tcbs := (tcbs w)(t \<mapsto> c\<lparr>e_tcb_send := e\<rparr>)\<rparr>)"
    using mark_ok [OF c events_ok_evq [OF ev]] by blast
  show ?thesis
  proof (cases "e_tcb_send c = 0")
    case True
    then have n: "Q e = None" "evq w' (Q(e \<mapsto> (Always, Do_tcb_write t)))"
        and more: "evs.more w' = evs.more (w\<lparr>tcbs := (tcbs w)(t \<mapsto> c\<lparr>e_tcb_send := e\<rparr>)\<rparr>)"
      using m(3) by simp_all
    note f = evs_frame [OF more, simplified]
    have "events_ok P w' (Q(e \<mapsto> (Always, Do_tcb_write t)))"
      by (rule tcb_add_send [OF ev c True m(2) n(1) _ _ _ n(2) f(1)]) (use f in simp_all)
    then show ?thesis
      using m(1) more by blast
  next
    case False
    then have "w' = w"
      using m(3) by simp
    moreover have "w\<lparr>tcbs := (tcbs w)(t \<mapsto> c\<lparr>e_tcb_send := e_tcb_send c\<rparr>)\<rparr> = w"
      using c by (simp add: fun_upd_idem)
    ultimately show ?thesis
      using m(1) ev by (intro exI [of _ w] exI [of _ Q] exI [of _ "e_tcb_send c"]) simp
  qed
qed

text \<open>
  The contract of an application. Its state depends on the rest of the system through the room in the
  output buffers only, and its callbacks keep it, the events and the connections in order: it is told
  of room and of data for a connection it has, and after \<open>closing\<close> it no longer has it.
\<close>

text \<open>What may become of a tcb as far as its key and its output buffer are concerned.\<close>

definition grows :: "tcb \<Rightarrow> tcb \<Rightarrow> bool" where
  "grows c c' \<longleftrightarrow> key_of c' = key_of c \<and> (outbuf c = None \<longleftrightarrow> outbuf c' = None) \<and>
     (\<forall>ob ob'. outbuf c = Some ob \<longrightarrow> outbuf c' = Some ob' \<longrightarrow> rb_left ob \<le> rb_left ob')"

lemma grows_same: "key_of c' = key_of c \<Longrightarrow> outbuf c' = outbuf c \<Longrightarrow> grows c c'"
  by (auto simp: grows_def)

locale tcp_app = link_driver ifc head for ifc head +
  fixes cbs :: tcp_callback and app :: "(ptr \<rightharpoonup> nat) \<Rightarrow> world \<Rightarrow> bool"
  assumes app_frame: "app S w \<Longrightarrow> app_same w w' \<Longrightarrow> (\<And>t m. S t = Some m \<Longrightarrow> space w t \<le> space w' t) \<Longrightarrow> app S w'"
    and output_law: "app S w \<Longrightarrow> S t = Some m \<Longrightarrow> events_ok P w Q \<Longrightarrow>
      \<exists>w' Q'. output_buffer_space cbs m (space w t) w = Some w' \<and> events_ok P w' Q' \<and> tcp_same w w' \<and> app S w'"
    and data_law: "app S w \<Longrightarrow> S t = Some m \<Longrightarrow> events_ok P w Q \<Longrightarrow>
      \<exists>w' Q'. data_available cbs m n w = Some w' \<and> events_ok P w' Q' \<and> tcp_same w w' \<and> app S w'"
    and closing_law: "app S w \<Longrightarrow> S t = Some m \<Longrightarrow> events_ok P w Q \<Longrightarrow>
      \<exists>w' Q'. closing cbs m hard w = Some w' \<and> events_ok P w' Q' \<and> tcp_same w w' \<and> app (S(t := None)) w'"
begin

abbreviation sys :: "ptr \<Rightarrow> queue \<Rightarrow> (ptr \<rightharpoonup> nat) \<Rightarrow> world \<Rightarrow> queue \<Rightarrow> bool" where
  "sys \<equiv> sys_ok ifc head app"

lemma sys_set:
  assumes s: "sys lt P0 S w Q" and c: "tcbs w t = Some c" "grows c c'" "if t = lt then listener c' else tcb_ok c'"
    and w': "events_ok P w' Q'" "tcbs w' = (tcbs w)(t \<mapsto> c')" "tcblist w' = tcblist w" "nd_ok ifc head (nlist w')" "app_same w w'"
  shows "sys lt P S w' Q'"
proof -
  have sp: "space w x \<le> space w' x" for x
    using c(1,2) w'(2) by (cases "x = t") (auto simp: space_def grows_def split: option.splits)
  show ?thesis
    unfolding sys_ok_def
  proof (intro conjI)
    show "tcp_ok lt w'"
      using tcp_ok_set [OF _ c(1) _ c(3) w'(2,3)] s c(2) by (simp add: sys_ok_def grows_def)
    show "app S w'"
      using app_frame [of S w w'] s w'(5) sp by (simp add: sys_ok_def)
  qed (use w' in simp_all)
qed

text \<open>A field of a tcb is set.\<close>

lemma sys_upd:
  assumes s: "sys lt P S w Q" and c: "tcbs w t = Some c" "grows c c'" "if t = lt then listener c' else tcb_ok c'"
    and e: "e_tcb_send c' = e_tcb_send c" "e_timeout c' = e_timeout c"
      "e_timeout c \<noteq> 0 \<Longrightarrow> state c' = TCP_TIME_WAIT \<longleftrightarrow> state c = TCP_TIME_WAIT"
  shows "sys lt P S (w\<lparr>tcbs := (tcbs w)(t \<mapsto> c')\<rparr>) Q"
proof (rule sys_set [OF s c])
  have ev: "events_ok P w Q"
    using s by (simp add: sys_ok_def)
  show "events_ok P (w\<lparr>tcbs := (tcbs w)(t \<mapsto> c')\<rparr>) Q"
    by (rule tcb_same [OF ev c(1) e]) (use events_ok_evq [OF ev] in simp_all)
qed (use s in \<open>simp_all add: sys_ok_def app_same_def\<close>)

lemma sys_mark:
  assumes s: "sys lt P S w Q" and c: "tcbs w t = Some c" "t \<noteq> lt"
  shows "\<exists>w' Q' e. mark_for_if_write t w = Some w' \<and> sys lt P S w' Q' \<and> tcbs w' = (tcbs w)(t \<mapsto> c\<lparr>e_tcb_send := e\<rparr>) \<and> app_same w w'"
proof -
  have ev: "events_ok P w Q" "tcb_ok c"
    using s tcp_ok_tcb [OF _ c] by (simp_all add: sys_ok_def)
  obtain w' Q' e where m: "mark_for_if_write t w = Some w'" "events_ok P w' Q'"
      "evs.more w' = evs.more (w\<lparr>tcbs := (tcbs w)(t \<mapsto> c\<lparr>e_tcb_send := e\<rparr>)\<rparr>)"
    using mark_events [OF ev(1) c(1)] by blast
  note f = evs_frame [OF m(3), simplified]
  have "sys lt P S w' Q'"
    by (intro sys_set [OF s c(1) grows_same _ m(2) f(1)]) (use ev c(2) s f in \<open>simp_all add: app_same_def sys_ok_def\<close>)
  then show ?thesis
    using m(1) f by (intro exI [of _ w'] exI [of _ Q'] exI [of _ e]) (simp add: app_same_def)
qed

text \<open>The retransmission timer is set, or taken away.\<close>

lemma sys_arm:
  assumes s: "sys lt P S w Q" and c: "tcbs w t = Some c" "t \<noteq> lt" "e_timeout c = 0" "state c \<noteq> TCP_TIME_WAIT"
    and ok: "\<And>e. tcb_ok (c\<lparr>e_timeout := e, timeout_mark := snd_nxt c\<rparr>)"
  shows "\<exists>w' Q' e. set_timeout t w = Some w' \<and> sys lt P S w' Q' \<and>
    tcbs w' = (tcbs w)(t \<mapsto> c\<lparr>e_timeout := e, timeout_mark := snd_nxt c\<rparr>) \<and> app_same w w'"
proof -
  have ev: "events_ok P w Q"
    using s by (simp add: sys_ok_def)
  obtain w' e where m: "set_timeout t w = Some w'" "e \<noteq> 0" "Q e = None" "evq w' (Q(e \<mapsto> (Timer, Tcp_timeout t)))"
      "evs.more w' = evs.more (w\<lparr>tcbs := (tcbs w)(t \<mapsto> c\<lparr>e_timeout := e, timeout_mark := snd_nxt c\<rparr>)\<rparr>)"
    using set_timeout_ok [OF c(1) events_ok_evq [OF ev]] by blast
  note f = evs_frame [OF m(5), simplified]
  have "events_ok P w' (Q(e \<mapsto> (Timer, Tcp_timeout t)))"
    by (rule tcb_add_timer [OF ev c(1,3) m(2,3) _ _ _ m(4) f(1)]) (use f c(4) in simp_all)
  then have "sys lt P S w' (Q(e \<mapsto> (Timer, Tcp_timeout t)))"
    by (intro sys_set [OF s c(1) grows_same _ _ f(1)]) (use c(2) s f ok in \<open>simp_all add: app_same_def sys_ok_def\<close>)
  then show ?thesis
    using m(1) f by (intro exI [of _ w'] exI [of _ "Q(e \<mapsto> (Timer, Tcp_timeout t))"] exI [of _ e]) (simp add: app_same_def)
qed

lemma sys_disarm:
  assumes s: "sys lt P S w Q" and c: "tcbs w t = Some c" "t \<noteq> lt" "e_timeout c \<noteq> 0"
  shows "\<exists>w' Q'. remove_event (e_timeout c) w = Some w' \<and> evs.more w' = evs.more w \<and>
    (\<forall>c'. e_timeout c' = 0 \<longrightarrow> e_tcb_send c' = e_tcb_send c \<longrightarrow> grows c c' \<longrightarrow> tcb_ok c' \<longrightarrow> sys lt P S (w'\<lparr>tcbs := (tcbs w)(t \<mapsto> c')\<rparr>) Q')"
proof -
  have ev: "events_ok P w Q"
    using s by (simp add: sys_ok_def)
  obtain k f where q: "Q (e_timeout c) = Some (k, f)"
    using tcb_event(2) [OF ev c(1,3)] by blast
  obtain w' where m: "remove_event (e_timeout c) w = Some w'" "evq w' (Q(e_timeout c := None))" "evs.more w' = evs.more w"
    using evl.remove_law [OF events_ok_evq [OF ev] q] by blast
  note f = evs_frame [OF m(3), simplified]
  have "sys lt P S (w'\<lparr>tcbs := (tcbs w)(t \<mapsto> c')\<rparr>) (Q(e_timeout c := None))"
    if h: "e_timeout c' = 0" "e_tcb_send c' = e_tcb_send c" "grows c c'" "tcb_ok c'" for c'
  proof -
    let ?w = "w'\<lparr>tcbs := (tcbs w)(t \<mapsto> c')\<rparr>"
    have "evq ?w (Q(e_timeout c := None))"
      using m(2) by simp
    from tcb_del_timer [OF ev c(1,3) h(1,2) this] have "events_ok P ?w (Q(e_timeout c := None))"
      using f by simp
    then show ?thesis
      by (intro sys_set [OF s c(1) h(3)]) (use h c(2) s f in \<open>simp_all add: app_same_def sys_ok_def\<close>)
  qed
  then show ?thesis
    using m(1,3) by blast
qed

text \<open>A connection is removed with its events.\<close>

lemma sys_drop:
  assumes s: "sys lt P S w Q" and c: "tcbs w t = Some c" "t \<noteq> lt"
  shows "\<exists>w' Q'. drop_tcb t w = Some w' \<and> sys lt P S w' Q' \<and> tcbs w' = (tcbs w)(t := None) \<and> app_same w w' \<and>
    (\<forall>f. Q (e_timeout c) = Some (Due, f) \<longrightarrow> gone (e_timeout c) w')"
proof -
  have ev: "events_ok P w Q" and ok: "tcp_ok lt w" "tcb_ok c"
    using s tcp_ok_tcb [OF _ c] by (simp_all add: sys_ok_def)
  note te = tcb_event [OF ev c(1)]
  have "e_tcb_send c \<noteq> 0 \<Longrightarrow> Q (e_tcb_send c) \<noteq> None" "e_timeout c \<noteq> 0 \<Longrightarrow> Q (e_timeout c) \<noteq> None \<and> e_timeout c \<noteq> e_tcb_send c"
    using te by force+
  from evl.remove_two [OF events_ok_evq [OF ev] this] obtain w1 where
    m: "do { w \<leftarrow> (if e_tcb_send c \<noteq> 0 then remove_event (e_tcb_send c) w else Some w);
        if e_timeout c \<noteq> 0 then remove_event (e_timeout c) w else Some w } = Some w1"
      "evq w1 (Q(e_tcb_send c := None, e_timeout c := None))" "evs.more w1 = evs.more w"
      "\<forall>f. Q (e_timeout c) = Some (Due, f) \<longrightarrow> gone (e_timeout c) w1"
    by blast
  note f = evs_frame [OF m(3)]
  have "tcp_ok lt w1" "tcbs w1 t = Some c"
    using ok(1) f c(1) tcp_ok_cong [of w1 w] by simp_all
  from tcp_ok_delete [OF this c(2)] obtain s1 where
    d: "tcb_delete t w1 = Some (w1\<lparr>tcblist := s1, tcbs := (tcbs w1)(t := None)\<rparr>)" "tcp_ok lt (w1\<lparr>tcblist := s1, tcbs := (tcbs w1)(t := None)\<rparr>)"
    by blast
  let ?w = "w1\<lparr>tcblist := s1, tcbs := (tcbs w1)(t := None)\<rparr>" and ?Q = "Q(e_tcb_send c := None, e_timeout c := None)"
  have "drop_tcb t w = do { w \<leftarrow> do { w \<leftarrow> (if e_tcb_send c \<noteq> 0 then remove_event (e_tcb_send c) w else Some w);
        if e_timeout c \<noteq> 0 then remove_event (e_timeout c) w else Some w }; tcb_delete t w }"
    by (simp add: drop_tcb_def c(1) bind_assoc)
  then have r: "drop_tcb t w = Some ?w"
    unfolding m(1) using d(1) by simp
  have "events_ok P ?w ?Q"
    by (rule tcb_gone [OF ev c(1)]) (use m(2) f in simp_all)
  moreover have "app S ?w"
  proof (rule app_frame [of S w])
    show "space w x \<le> space ?w x" for x
    proof (cases "x = t")
      case True
      then show ?thesis
        using ok(2) c(1) by (auto simp: space_def tcb_ok_def conn_ok_def ringbuf_ok_def rb_left_def)
    qed (use f in \<open>simp add: space_def\<close>)
  qed (use s f in \<open>simp_all add: app_same_def sys_ok_def\<close>)
  ultimately have "sys lt P S ?w ?Q"
    using d(2) s f by (simp add: sys_ok_def)
  then show ?thesis
    using r f m(4) by (intro exI [of _ ?w] exI [of _ ?Q]) (simp add: app_same_def)
qed

end

end
