(* ===== verification/Tcp_Safe.thy ===== *)
theory Tcp_Safe
  imports Tcp_Session
begin

text \<open>
  The operations of \<^verbatim>\<open>tcp.c\<close> under the invariant of \<^verbatim>\<open>Tcp_Session\<close>: each of them returns, and keeps
  the connections, the events and the application in order. The lemmas stand in the locale
  \<open>tcp_app\<close>, whose contract the relay of \<^verbatim>\<open>ptrtd-tcp.c\<close> meets.
\<close>

subsection \<open>The running event of a connection\<close>

lemma tcb_orphan_send:
  assumes "events_ok P w Q" "tcbs w t = Some c" "e_tcb_send c \<noteq> 0"
    and c': "e_tcb_send c' = 0" "e_timeout c' = e_timeout c" "state c' = state c"
    and w': "evq w' Q" "tcbs w' = (tcbs w)(t \<mapsto> c')" "maps w' = maps w" "umaps w' = umaps w"
  shows "events_ok (P(e_tcb_send c \<mapsto> (Always, Do_tcb_write t))) w' Q"
proof (rule events_orphan [OF assms(1) _ _ w'(1)])
  note h = mine_tcb [OF assms(1,2), unfolded tcb_holds_def]
  show "mine P (Owner_tcb t) Q (e_tcb_send c) = Some (Always, Do_tcb_write t)"
    using holds2_get(1) [OF h assms(3)] .
  show "Q (e_tcb_send c) = Some (Always, Do_tcb_write t)"
    using tcb_event(1) [OF assms(1-3)] .
  show "holds_events w' (Owner_tcb t) ((mine P (Owner_tcb t) Q)(e_tcb_send c := None))"
    using holds2_clear(1) [OF h] w'(2) c' by (simp add: tcb_holds_def)
qed (rule tcb_frame [OF _ w'(2-4)])

lemma tcb_orphan_timer:
  assumes "events_ok P w Q" "tcbs w t = Some c" "e_timeout c \<noteq> 0" "Q (e_timeout c) = Some v"
    and c': "e_timeout c' = 0" "e_tcb_send c' = e_tcb_send c"
    and w': "evq w' Q" "tcbs w' = (tcbs w)(t \<mapsto> c')" "maps w' = maps w" "umaps w' = umaps w"
  shows "events_ok (P(e_timeout c \<mapsto> v)) w' Q"
proof (rule events_orphan [OF assms(1) _ assms(4) w'(1)])
  note h = mine_tcb [OF assms(1,2), unfolded tcb_holds_def]
  show "mine P (Owner_tcb t) Q (e_timeout c) = Some (Timer, if state c = TCP_TIME_WAIT then Tcp_remove t else Tcp_timeout t)"
    using holds2_get(2) [OF h assms(3)] .
  show "holds_events w' (Owner_tcb t) ((mine P (Owner_tcb t) Q)(e_timeout c := None))"
    using holds2_clear(2) [OF h] w'(2) c' by (simp add: tcb_holds_def)
qed (rule tcb_frame [OF _ w'(2-4)])

subsection \<open>Fields\<close>

lemma window_update_same [simp]:
  "tcb_ok (snd (window_update c)) = tcb_ok c" "key_of (snd (window_update c)) = key_of c" "state (snd (window_update c)) = state c"
  "outbuf (snd (window_update c)) = outbuf c" "inbuf (snd (window_update c)) = inbuf c" "cb (snd (window_update c)) = cb c"
  "app_data (snd (window_update c)) = app_data c" "e_tcb_send (snd (window_update c)) = e_tcb_send c"
  "e_timeout (snd (window_update c)) = e_timeout c"
  by (simp_all add: window_update_def Let_def)

lemma tcb_ok_states: "tcb_ok c \<Longrightarrow> cb c \<Longrightarrow> state c = TCP_SYN_RECVD \<or> state c = TCP_ESTABLISHED"
  by (auto simp: tcb_ok_def)

lemma tcb_ok_parts: "tcb_ok c \<Longrightarrow> conn_ok c" "tcb_ok c \<Longrightarrow> seq_ok c" "tcb_ok c \<Longrightarrow> length (laddr c) = 16" "tcb_ok c \<Longrightarrow> length (raddr c) = 16"
  by (simp_all add: tcb_ok_def conn_ok_def)

lemma tcb_ok_outbuf:
  assumes "tcb_ok c"
  obtains ob where "outbuf c = Some ob" "ringbuf_ok ob" "buf_size ob = 16384"
  using assms by (auto simp: tcb_ok_def conn_ok_def)

lemma tcb_ok_inbuf:
  assumes "tcb_ok c"
  obtains ib where "inbuf c = Some ib" "ringbuf_ok ib" "buf_size ib = 16384" "read_seq c = w_seq ib - word_of_int (used ib)"
  using assms by (auto simp: tcb_ok_def conn_ok_def in_ok_def)

text \<open>Closing: the new state asks no more of the numbers than \<open>ESTABLISHED\<close> did.\<close>

lemma tcb_ok_close:
  assumes "tcb_ok c" "state c = TCP_ESTABLISHED" "s = TCP_FIN_WAIT_1 \<or> s = TCP_LAST_ACK"
  shows "tcb_ok (c\<lparr>cb := False, rcv_wnd := n, state := s\<rparr>)"
proof -
  obtain ob where ob: "outbuf c = Some ob"
    using tcb_ok_outbuf [OF assms(1)] by blast
  have ns: "state c \<noteq> TCP_SYN_RECVD"
    using assms(2) by simp
  obtain u n' k where a: "at_seq ob c u n' k"
    using seq_okE [OF tcb_ok_parts(2) [OF assms(1)] ns ob] by blast
  have "seq_ok (c\<lparr>cb := False, rcv_wnd := n, state := s\<rparr>)"
    by (rule seq_okI [of _ ob u n' k]) (use a ob assms(2,3) in \<open>auto simp: at_seq_def timing_def\<close>)
  then show ?thesis
    using assms by (auto simp: tcb_ok_def conn_ok_def in_ok_def)
qed

text \<open>The timer expires: everything is sent again.\<close>

lemma tcb_ok_rewind:
  assumes "tcb_ok c" "state c \<noteq> TCP_SYN_RECVD"
  shows "tcb_ok (c\<lparr>e_timeout := 0, snd_nxt := snd_una c\<rparr>)"
proof -
  obtain ob where ob: "outbuf c = Some ob"
    using tcb_ok_outbuf [OF assms(1)] by blast
  obtain u n k where a: "at_seq ob c u n k" "state c = TCP_ESTABLISHED \<Longrightarrow> used ob < u"
      "state c = TCP_FIN_WAIT_2 \<or> state c = TCP_TIME_WAIT \<Longrightarrow> u = 0"
    using seq_okE [OF tcb_ok_parts(2) [OF assms(1)] assms(2) ob] by blast
  have "seq_ok (c\<lparr>e_timeout := 0, snd_nxt := snd_una c\<rparr>)"
    by (rule seq_okI [of _ ob u 0 0]) (use a ob assms(2) in \<open>auto simp: at_seq_def timing_def\<close>)
  then show ?thesis
    using assms by (auto simp: tcb_ok_def conn_ok_def in_ok_def)
qed

lemma tcb_ok_sent:
  assumes "tcb_ok c" "state c \<noteq> TCP_SYN_RECVD" "outbuf c = Some ob"
  shows "tcb_ok (after_send c ob e tv)"
proof -
  have "ringbuf_ok ob" "buf_size ob = 16384"
    using tcb_ok_outbuf [OF assms(1)] assms(3) by auto
  from seq_after_send [OF tcb_ok_parts(2) [OF assms(1)] assms(2,3) this] show ?thesis
    using assms by (auto simp: tcb_ok_def conn_ok_def in_ok_def)
qed

text \<open>In \<open>TIME_WAIT\<close> everything is acknowledged, so no data goes out.\<close>

lemma time_wait_idle:
  assumes "tcb_ok c" "state c = TCP_TIME_WAIT" "outbuf c = Some ob"
  shows "send_len c ob = 0"
proof -
  have ob: "ringbuf_ok ob" "buf_size ob = 16384"
    using tcb_ok_outbuf [OF assms(1)] assms(3) by auto
  have "state c \<noteq> TCP_SYN_RECVD"
    using assms(2) by simp
  then obtain u n k where a: "at_seq ob c u n k" "u = 0"
    using seq_okE [OF tcb_ok_parts(2) [OF assms(1)] _ assms(3)] assms(2) by blast
  have "rb_avail ob (snd_nxt c) \<le> 0"
    using rb_avail_at [OF a(1) ob, of 0] a by (simp add: at_seq_def)
  then show ?thesis
    using length_from_seq [OF ob(1), of "snd_nxt c"] by (simp add: send_len_def)
qed

context tcp_app
begin

lemma sys_events: "sys lt P S w Q \<Longrightarrow> events_ok P w Q"
  and sys_tcb: "sys lt P S w Q \<Longrightarrow> tcbs w t = Some c \<Longrightarrow> t \<noteq> lt \<Longrightarrow> tcb_ok c"
  and sys_nd: "sys lt P S w Q \<Longrightarrow> nd_ok ifc head (nlist w)"
  and sys_app: "sys lt P S w Q \<Longrightarrow> app S w"
  unfolding sys_ok_def by (blast intro: tcp_ok_tcb)+

text \<open>A tcb changes while a segment goes out.\<close>

lemma sys_net:
  assumes s: "sys lt P S w Q" and c: "tcbs w t = Some c" "t \<noteq> lt" "grows c c'" "tcb_ok c'"
    and e: "e_tcb_send c' = e_tcb_send c" "e_timeout c' = e_timeout c" "state c' = state c" and nd: "nd_ok ifc head ns"
  shows "sys lt P S (w\<lparr>tcbs := (tcbs w)(t \<mapsto> c'), nlist := ns, sent := fs\<rparr>) Q"
proof (rule sys_set [OF s c(1,3)])
  have ev: "events_ok P w Q"
    using sys_events [OF s] .
  show "events_ok P (w\<lparr>tcbs := (tcbs w)(t \<mapsto> c'), nlist := ns, sent := fs\<rparr>) Q"
    by (rule tcb_same [OF ev c(1) e(1,2)]) (use events_ok_evq [OF ev] e(3) in simp_all)
qed (use c nd in \<open>simp_all add: app_same_def\<close>)

subsection \<open>Closing\<close>

lemma close_syn:
  assumes s: "sys lt P S w Q" and c: "tcbs w t = Some c" "t \<noteq> lt" "state c = TCP_SYN_RECVD"
  shows "\<exists>w' Q'. tcp_close ifc t 0 w = Some (0, w') \<and> sys lt P S w' Q' \<and> tcbs w' = (tcbs w)(t := None) \<and> app_same w w'"
proof -
  have ok: "tcb_ok c"
    by (rule sys_tcb [OF s c(1,2)])
  let ?c = "c\<lparr>last_acked := rcv_nxt c, packets := packets c + 1\<rparr>"
  obtain ns fs where r: "tcp_send_rst ifc t w = Some (w\<lparr>tcbs := (tcbs w)(t \<mapsto> ?c), nlist := ns, sent := sent w @ fs\<rparr>)" "nd_ok ifc head ns"
    using tcp_send_rst_ok [OF c(1) tcb_ok_parts(3,4) [OF ok] sys_nd [OF s]] by metis
  let ?w = "w\<lparr>tcbs := (tcbs w)(t \<mapsto> ?c), nlist := ns, sent := sent w @ fs\<rparr>"
  have "sys lt P S ?w Q"
    by (rule sys_net [OF s c(1,2) grows_same]) (use ok r(2) in simp_all)
  from sys_drop [OF this _ c(2), of ?c] obtain w' Q' where
    d: "drop_tcb t ?w = Some w'" "sys lt P S w' Q'" "tcbs w' = (tcbs ?w)(t := None)" "app_same ?w w'"
    by auto
  have "tcp_close ifc t 0 w = Some (0, w')"
    using c r(1) d(1) by (simp add: tcp_close_def)
  then show ?thesis
    using d(2-4) by (intro exI [of _ w'] exI [of _ Q']) (simp add: app_same_def)
qed

lemma close_established:
  assumes s: "sys lt P S w Q" and c: "tcbs w t = Some c" "t \<noteq> lt" "state c = TCP_ESTABLISHED"
  shows "\<exists>w' Q' c'. tcp_close ifc t 0 w = Some (0, w') \<and> sys lt P S w' Q' \<and> tcbs w' = (tcbs w)(t \<mapsto> c') \<and> \<not> cb c' \<and> app_same w w'"
proof -
  let ?c = "c\<lparr>cb := False, rcv_wnd := 1000, state := TCP_FIN_WAIT_1\<rparr>"
  let ?w = "w\<lparr>tcbs := (tcbs w)(t \<mapsto> ?c)\<rparr>"
  have "tcb_ok ?c"
    by (rule tcb_ok_close [OF sys_tcb [OF s c(1,2)] c(3)]) simp
  then have "sys lt P S ?w Q"
    by (intro sys_upd [OF s c(1) grows_same]) (use c(2,3) in \<open>simp_all add: key_of_def\<close>)
  from sys_mark [OF this _ c(2), of ?c] obtain w' Q' e where
    m: "mark_for_if_write t ?w = Some w'" "sys lt P S w' Q'" "tcbs w' = (tcbs ?w)(t \<mapsto> ?c\<lparr>e_tcb_send := e\<rparr>)" "app_same ?w w'"
    by auto
  have "tcp_close ifc t 0 w = Some (0, w')"
    using c m(1) by (simp add: tcp_close_def t_upd_def)
  then show ?thesis
    using m(2-4) by (intro exI [of _ w'] exI [of _ Q'] exI [of _ "?c\<lparr>e_tcb_send := e\<rparr>"]) (simp add: app_same_def)
qed

text \<open>The application has let go of the connection.\<close>

lemma close_ok:
  assumes s: "sys lt P S w Q" and c: "tcbs w t = Some c" "t \<noteq> lt" "cb c"
  shows "\<exists>w' Q' v. tcp_close ifc t 0 w = Some (0, w') \<and> sys lt P S w' Q' \<and> tcbs w' = (tcbs w)(t := v) \<and>
    sess w' = (sess w)(t := None) \<and> app_same w w'"
proof (cases "state c = TCP_SYN_RECVD")
  case True
  obtain w' Q' where d: "tcp_close ifc t 0 w = Some (0, w')" "sys lt P S w' Q'" "tcbs w' = (tcbs w)(t := None)" "app_same w w'"
    using close_syn [OF s c(1,2) True] by blast
  then show ?thesis
    using sess_gone [OF d(3)] by (intro exI [of _ w'] exI [of _ Q'] exI [of _ None]) simp
next
  case False
  then have "state c = TCP_ESTABLISHED"
    using tcb_ok_states [OF sys_tcb [OF s c(1,2)] c(3)] by simp
  from close_established [OF s c(1,2) this] obtain w' Q' c' where
    d: "tcp_close ifc t 0 w = Some (0, w')" "sys lt P S w' Q'" "tcbs w' = (tcbs w)(t \<mapsto> c')" "\<not> cb c'" "app_same w w'"
    by blast
  then show ?thesis
    using sess_gone [OF d(3)] by (intro exI [of _ w'] exI [of _ Q'] exI [of _ "Some c'"]) simp
qed

subsection \<open>Writing\<close>

lemma send_and_ack_sys:
  assumes s: "sys lt P S w Q" and c: "tcbs w t = Some c" "t \<noteq> lt" "state c \<noteq> TCP_SYN_RECVD"
  shows "\<exists>r w' Q' c'. tcp_send_and_ack ifc t w = Some (r, w') \<and> sys lt P S w' Q' \<and> tcbs w' = (tcbs w)(t \<mapsto> c') \<and>
    e_tcb_send c' = e_tcb_send c \<and> cb c' = cb c \<and> app_data c' = app_data c \<and> state c' = state c"
proof -
  have ok: "tcb_ok c"
    by (rule sys_tcb [OF s c(1,2)])
  obtain ob where ob: "outbuf c = Some ob"
    using tcb_ok_outbuf [OF ok] by blast
  show ?thesis
  proof (cases "send_len c ob = 0 \<and> \<not> send_fin c ob \<and> last_acked c \<ge> rcv_nxt c")
    case True
    have "tcp_fill c (pb_d (get_buffer ifc 1500)) = Some (send_len c ob, send_flags c ob,
        take 60 (pb_d (get_buffer ifc 1500)) @ take (nat (send_len c ob)) (from_seq ob (snd_nxt c)) @ drop (60 + nat (send_len c ob)) (pb_d (get_buffer ifc 1500)))"
      by (rule tcp_fill_ok [OF tcb_ok_parts(1) [OF ok] ob]) (simp add: buffer_d)
    then have "tcp_send_and_ack ifc t w = Some (0, w)"
      using True c(1) send_flags_fin [of c ob] by (simp add: tcp_send_and_ack_def)
    then show ?thesis
      using s c(1) by (intro exI [of _ 0] exI [of _ w] exI [of _ Q] exI [of _ c]) (simp add: fun_upd_idem)
  next
    case False
    have ev: "events_ok P w Q"
      by (rule sys_events [OF s])
    obtain r w' e ns fs where a: "tcp_send_and_ack ifc t w = Some (r, w')"
        "evs.more w' = evs.more (w\<lparr>tcbs := (tcbs w)(t \<mapsto> after_send c ob e (now w)), nlist := ns, sent := sent w @ fs\<rparr>)"
        "if e_timeout c = 0 \<and> send_len c ob > 0 then e \<noteq> 0 \<and> Q e = None \<and> evq w' (Q(e \<mapsto> (Timer, Tcp_timeout t))) else evq w' Q"
        "nd_ok ifc head ns"
      using tcp_send_and_ack_ok [OF c(1) tcb_ok_parts(1) [OF ok] ob sys_nd [OF s] events_ok_evq [OF ev] False] by metis
    let ?c = "after_send c ob e (now w)"
    note f = evs_frame [OF a(2), simplified]
    have ok': "tcb_ok ?c"
      by (rule tcb_ok_sent [OF ok c(3) ob])
    have tw: "send_len c ob = 0" if "state c = TCP_TIME_WAIT"
      using that by (rule time_wait_idle [OF ok _ ob])
    have "\<exists>Q'. events_ok P w' Q'"
    proof (cases "e_timeout c = 0 \<and> send_len c ob > 0")
      case True
      then have n: "e \<noteq> 0" "Q e = None" "evq w' (Q(e \<mapsto> (Timer, Tcp_timeout t)))"
        using a(3) by simp_all
      have "events_ok P w' (Q(e \<mapsto> (Timer, Tcp_timeout t)))"
        by (rule tcb_add_timer [OF ev c(1) _ n(1,2) _ _ _ n(3) f(1)]) (use True f tw in auto)
      then show ?thesis
        by blast
    next
      case False
      then have "evq w' Q" "e_timeout ?c = e_timeout c"
        using a(3) by auto
      then have "events_ok P w' Q"
        by (intro tcb_same [OF ev c(1) _ _ _ _ f(1)]) (use f in simp_all)
      then show ?thesis
        by blast
    qed
    then obtain Q' where "events_ok P w' Q'"
      by blast
    then have "sys lt P S w' Q'"
      by (intro sys_set [OF s c(1) grows_same _ _ f(1)]) (use ok' c(2) a(4) f in \<open>simp_all add: app_same_def key_of_def\<close>)
    then show ?thesis
      using a(1) f(1) by (intro exI [of _ r] exI [of _ w'] exI [of _ Q'] exI [of _ ?c]) simp
  qed
qed

text \<open>A tcb lets go of the event that is running.\<close>

lemma sys_release:
  assumes s: "sys lt P S w Q" and c: "tcbs w t = Some c" "t \<noteq> lt" "e_tcb_send c \<noteq> 0"
  shows "sys lt (P(e_tcb_send c \<mapsto> (Always, Do_tcb_write t))) S (w\<lparr>tcbs := (tcbs w)(t \<mapsto> c\<lparr>e_tcb_send := 0\<rparr>)\<rparr>) Q"
proof (rule sys_set [OF s c(1) grows_same])
  have ev: "events_ok P w Q"
    by (rule sys_events [OF s])
  show "events_ok (P(e_tcb_send c \<mapsto> (Always, Do_tcb_write t))) (w\<lparr>tcbs := (tcbs w)(t \<mapsto> c\<lparr>e_tcb_send := 0\<rparr>)\<rparr>) Q"
    by (rule tcb_orphan_send [OF ev c(1,3)]) (use events_ok_evq [OF ev] in simp_all)
qed (use c(2) sys_tcb [OF s c(1,2)] sys_nd [OF s] in \<open>simp_all add: app_same_def\<close>)

lemma do_tcb_write_sys:
  assumes s: "sys lt Map.empty S w Q" and c: "tcbs w t = Some c" "t \<noteq> lt" "e_tcb_send c \<noteq> 0"
  shows "\<exists>r w' Q'. do_tcb_write ifc t w = Some (r, w') \<and> sess w' = sess w \<and>
    sys lt (if r = 0 then [e_tcb_send c \<mapsto> (Always, Do_tcb_write t)] else Map.empty) S w' Q' \<and> Q' (e_tcb_send c) = Some (Always, Do_tcb_write t)"
proof -
  have keep: "Q' (e_tcb_send c) = Some (Always, Do_tcb_write t)"
    if "sys lt Map.empty S w' Q'" "tcbs w' t = Some c'" "e_tcb_send c' = e_tcb_send c" for w' Q' c'
    using tcb_event(1) [OF sys_events [OF that(1)] that(2)] that(3) c(3) by simp
  show ?thesis
  proof (cases "state c = TCP_SYN_RECVD")
    case True
    have ok: "tcb_ok c"
      by (rule sys_tcb [OF s c(1,2)])
    let ?c = "c\<lparr>last_acked := rcv_nxt c, snd_nxt := snd_nxt c + 1, packets := packets c + 1\<rparr>"
    obtain ns fs where r: "tcp_send_syn ifc t w = Some (w\<lparr>tcbs := (tcbs w)(t \<mapsto> ?c), nlist := ns, sent := sent w @ fs\<rparr>)" "nd_ok ifc head ns"
      using tcp_send_syn_ok [OF c(1) tcb_ok_parts(3,4) [OF ok] sys_nd [OF s]] by metis
    let ?w = "w\<lparr>tcbs := (tcbs w)(t \<mapsto> ?c), nlist := ns, sent := sent w @ fs\<rparr>"
    have "tcb_ok ?c"
      using ok True by (auto simp: tcb_ok_def conn_ok_def in_ok_def seq_ok_def)
    then have s1: "sys lt Map.empty S ?w Q"
      by (intro sys_net [OF s c(1,2) grows_same]) (use r(2) in \<open>simp_all add: key_of_def\<close>)
    let ?w' = "?w\<lparr>tcbs := (tcbs ?w)(t \<mapsto> ?c\<lparr>e_tcb_send := 0\<rparr>)\<rparr>"
    have s2: "sys lt [e_tcb_send c \<mapsto> (Always, Do_tcb_write t)] S ?w' Q"
      using sys_release [OF s1 _ c(2), of ?c] c(3) by simp
    have "do_tcb_write ifc t w = Some (0, ?w')"
      using c(1) True r(1) by (simp add: do_tcb_write_def t_upd_def)
    moreover have "sess ?w' = sess w"
      by (rule sess_same [OF c(1), of _ "?c\<lparr>e_tcb_send := 0\<rparr>"]) simp_all
    ultimately show ?thesis
      using s2 tcb_event(1) [OF sys_events [OF s] c(1,3)] by (intro exI [of _ 0] exI [of _ ?w'] exI [of _ Q]) simp
  next
    case False
    obtain r w1 Q1 c1 where a: "tcp_send_and_ack ifc t w = Some (r, w1)" "sys lt Map.empty S w1 Q1" "tcbs w1 = (tcbs w)(t \<mapsto> c1)"
        "e_tcb_send c1 = e_tcb_send c" "cb c1 = cb c" "app_data c1 = app_data c" "state c1 = state c"
      using send_and_ack_sys [OF s c(1,2) False] by blast
    have t1: "tcbs w1 t = Some c1"
      using a(3) by simp
    have ss: "sess w1 = sess w"
      by (rule sess_same [OF c(1) a(3)]) (use a in simp_all)
    note q = keep [OF a(2) t1 a(4)]
    show ?thesis
    proof (cases "r = 0")
      case True
      let ?w = "w1\<lparr>tcbs := (tcbs w1)(t \<mapsto> c1\<lparr>e_tcb_send := 0\<rparr>)\<rparr>"
      have "sys lt [e_tcb_send c \<mapsto> (Always, Do_tcb_write t)] S ?w Q1"
        using sys_release [OF a(2) t1 c(2)] c(3) a(4) by simp
      moreover have "do_tcb_write ifc t w = Some (0, ?w)"
        using c(1) False a(1) True t1 by (simp add: do_tcb_write_def t_upd_def)
      moreover have "sess ?w = sess w1"
        by (rule sess_same [OF t1, of _ "c1\<lparr>e_tcb_send := 0\<rparr>"]) simp_all
      ultimately show ?thesis
        using q ss by (intro exI [of _ 0] exI [of _ ?w] exI [of _ Q1]) simp
    next
      case False
      then have "do_tcb_write ifc t w = Some (1, w1)"
        using c(1,3) \<open>state c \<noteq> TCP_SYN_RECVD\<close> a(1,4) t1 by (simp add: do_tcb_write_def)
      then show ?thesis
        using a(2) q ss by (intro exI [of _ 1] exI [of _ w1] exI [of _ Q1]) simp
    qed
  qed
qed

subsection \<open>Timers\<close>

lemma tcp_timeout_sys:
  assumes s: "sys lt Map.empty S w Q" and c: "tcbs w t = Some c" "t \<noteq> lt" "e_timeout c \<noteq> 0" "state c \<noteq> TCP_TIME_WAIT"
    and q: "Q (e_timeout c) = Some v"
  shows "\<exists>w' Q'. tcp_timeout t w = Some (1, w') \<and> sys lt [e_timeout c \<mapsto> v] S w' Q' \<and> sess w' = sess w"
proof -
  have ok: "tcb_ok c"
    by (rule sys_tcb [OF s c(1,2)])
  have ns: "state c \<noteq> TCP_SYN_RECVD"
    using tcb_ok_parts(2) [OF ok] c(3) by (auto simp: seq_ok_def)
  have ev: "events_ok Map.empty w Q"
    by (rule sys_events [OF s])
  let ?c = "snd (window_update (c\<lparr>e_timeout := 0, snd_nxt := snd_una c, rtt_mark := snd_una c - 1, snd_cwnd := 0\<rparr>))"
  let ?w = "w\<lparr>tcbs := (tcbs w)(t \<mapsto> ?c)\<rparr>"
  have "tcb_ok ?c"
    using tcb_ok_rewind [OF ok ns] by simp
  moreover have "events_ok [e_timeout c \<mapsto> v] ?w Q"
    using tcb_orphan_timer [OF ev c(1,3) q, of ?c ?w] events_ok_evq [OF ev] by simp
  ultimately have "sys lt [e_timeout c \<mapsto> v] S ?w Q"
    by (intro sys_set [OF s c(1) grows_same]) (use c(2) sys_nd [OF s] in \<open>simp_all add: app_same_def\<close>)
  from sys_mark [OF this _ c(2), of ?c] obtain w' Q' e where
    m: "mark_for_if_write t ?w = Some w'" "sys lt [e_timeout c \<mapsto> v] S w' Q'" "tcbs w' = (tcbs ?w)(t \<mapsto> ?c\<lparr>e_tcb_send := e\<rparr>)"
    by auto
  have "tcp_timeout t w = Some (1, w')"
    using c(1) m(1) by (simp add: tcp_timeout_def t_upd_def)
  moreover have "sess w' = sess w"
    by (rule sess_same [OF c(1), of _ "?c\<lparr>e_tcb_send := e\<rparr>"]) (use m(3) in simp_all)
  ultimately show ?thesis
    using m(2) by blast
qed

lemma tcp_remove_sys:
  assumes s: "sys lt P S w Q" and c: "tcbs w t = Some c" "t \<noteq> lt" "state c = TCP_TIME_WAIT"
    and q: "Q (e_timeout c) = Some (Due, f)"
  shows "\<exists>w' Q'. tcp_remove t w = Some (0, w') \<and> sys lt P S w' Q' \<and> sess w' = sess w \<and> gone (e_timeout c) w'"
proof -
  obtain w' Q' where d: "drop_tcb t w = Some w'" "sys lt P S w' Q'" "tcbs w' = (tcbs w)(t := None)" "gone (e_timeout c) w'"
    using sys_drop [OF s c(1,2)] q by blast
  have "\<not> cb c"
    using sys_tcb [OF s c(1,2)] c(3) by (auto simp: tcb_ok_def)
  then have "sess w t = None"
    using c(1) by (simp add: sess_def)
  then have "sess w' = sess w"
    using sess_gone [OF d(3)] by (simp add: fun_upd_idem)
  then show ?thesis
    using d by (intro exI [of _ w'] exI [of _ Q']) (simp add: tcp_remove_def)
qed

subsection \<open>Acknowledgements\<close>

text \<open>The invariant at the end of an operation that had it at the start, with the application seen to.\<close>

lemma sys_end:
  assumes s: "sys lt P0 S0 w Q" and c: "tcbs w t = Some c" "t \<noteq> lt" "key_of c' = key_of c" "tcb_ok c'"
    and w': "events_ok P w' Q'" "tcbs w' = (tcbs w)(t \<mapsto> c')" "tcblist w' = tcblist w" "nlist w' = nlist w" "app S w'"
  shows "sys lt P S w' Q'"
  using s tcp_ok_set [OF _ c(1,3) _ w'(2,3), of lt] c(2,4) w' by (simp add: sys_ok_def)

text \<open>The retransmission timer is replaced or given up.\<close>

lemma retime_events:
  assumes ev: "events_ok P w Q" and c: "tcbs w t = Some c" "e_timeout c \<noteq> 0" "state c \<noteq> TCP_TIME_WAIT"
  shows "\<exists>w1. remove_event (e_timeout c) w = Some w1 \<and> evs.more w1 = evs.more w \<and>
    (\<exists>Q'. events_ok P (w1\<lparr>tcbs := (tcbs w)(t \<mapsto> c\<lparr>e_timeout := 0\<rparr>)\<rparr>) Q') \<and>
    (\<exists>w2 Q' e. set_timeout t w1 = Some w2 \<and> events_ok P w2 Q' \<and>
       evs.more w2 = evs.more (w\<lparr>tcbs := (tcbs w)(t \<mapsto> c\<lparr>e_timeout := e, timeout_mark := snd_nxt c\<rparr>)\<rparr>))"
proof -
  obtain k f where q: "Q (e_timeout c) = Some (k, f)"
    using tcb_event(2) [OF ev c(1,2)] by blast
  let ?Q = "Q(e_timeout c := None)"
  obtain w1 where m: "remove_event (e_timeout c) w = Some w1" "evq w1 ?Q" "evs.more w1 = evs.more w"
    using evl.remove_law [OF events_ok_evq [OF ev] q] by blast
  note f = evs_frame [OF m(3)]
  let ?w = "w1\<lparr>tcbs := (tcbs w)(t \<mapsto> c\<lparr>e_timeout := 0\<rparr>)\<rparr>"
  have e1: "events_ok P ?w ?Q"
    by (rule tcb_del_timer [OF ev c(1,2), of "c\<lparr>e_timeout := 0\<rparr>"]) (use m(2) f in simp_all)
  have c1: "tcbs w1 t = Some c"
    using c(1) f by simp
  obtain w2 e where n: "set_timeout t w1 = Some w2" "e \<noteq> 0" "?Q e = None" "evq w2 (?Q(e \<mapsto> (Timer, Tcp_timeout t)))"
      "evs.more w2 = evs.more (w1\<lparr>tcbs := (tcbs w1)(t \<mapsto> c\<lparr>e_timeout := e, timeout_mark := snd_nxt c\<rparr>)\<rparr>)"
    using set_timeout_ok [OF c1 m(2)] by blast
  note g = evs_frame [OF n(5), simplified]
  have "events_ok P w2 (?Q(e \<mapsto> (Timer, Tcp_timeout t)))"
    by (rule tcb_add_timer [OF e1, of t "c\<lparr>e_timeout := 0\<rparr>" e "c\<lparr>e_timeout := e, timeout_mark := snd_nxt c\<rparr>"])
      (use n(2-4) g f c(3) in simp_all)
  moreover have "evs.more w2 = evs.more (w\<lparr>tcbs := (tcbs w)(t \<mapsto> c\<lparr>e_timeout := e, timeout_mark := snd_nxt c\<rparr>)\<rparr>)"
    using n(5) more_tcbs [OF m(3)] f(1) by simp
  ultimately show ?thesis
    using m(1,3) n(1) e1 by blast
qed

lemma rtt_update_fields: "\<exists>a b. rtt_update tv c = c\<lparr>srtt := a, sdev := b\<rparr>"
proof -
  let ?d = "time_ago tv (rtt_time c)"
  obtain a where a: "(if srtt c > 0 then c\<lparr>srtt := int32 (2 * ?d + 8 * srtt c + 5) sdiv 10\<rparr> else c\<lparr>srtt := ?d\<rparr>) = c\<lparr>srtt := a\<rparr>"
    by (cases "srtt c > 0") simp_all
  show ?thesis
    unfolding rtt_update_def Let_def a by (cases "?d > srtt (c\<lparr>srtt := a\<rparr>)") (simp_all only: if_True if_False, blast+)
qed

text \<open>
  The first half of \<open>take_ack\<close>: the numbers move, the buffer gives up what was acknowledged, and the
  application hears of the room. The timer may now be late, so the invariant is not back yet.
\<close>

lemma ack_step:
  assumes s: "sys lt P (sess w) w Q" and c: "tcbs w t = Some c" "t \<noteq> lt" "state c = TCP_ESTABLISHED \<or> closing_state (state c)"
    and k: "snd_una c < ack" "ack_sane c ack" and ob: "outbuf c = Some ob"
  shows "\<exists>w' Q'. (if state c = TCP_ESTABLISHED then do {
             let w = w\<lparr>tcbs := (tcbs w)(t \<mapsto> (acked ack c ob)\<lparr>srtt := a, sdev := b\<rparr>)\<rparr>;
             call_cb c (output_buffer_space cbs (app_data c) (rb_left (rb_advance ob ack))) w
           }
           else Some (w\<lparr>tcbs := (tcbs w)(t \<mapsto> (acked ack c ob)\<lparr>srtt := a, sdev := b\<rparr>)\<rparr>)) = Some w' \<and>
    events_ok P w' Q' \<and> tcbs w' = (tcbs w)(t \<mapsto> (acked ack c ob)\<lparr>srtt := a, sdev := b\<rparr>) \<and> tcblist w' = tcblist w \<and>
    nlist w' = nlist w \<and> app (sess w) w'"
proof -
  let ?c = "(acked ack c ob)\<lparr>srtt := a, sdev := b\<rparr>"
  let ?w = "w\<lparr>tcbs := (tcbs w)(t \<mapsto> ?c)\<rparr>"
  have ok: "tcb_ok c"
    by (rule sys_tcb [OF s c(1,2)])
  have rb: "ringbuf_ok ob" "buf_size ob = 16384"
    using tcb_ok_outbuf [OF ok] ob by auto
  obtain ob' where ob': "outbuf ?c = Some ob'" "rb_left ob \<le> rb_left ob'"
    using acked_at [OF tcb_ok_parts(2) [OF ok] c(3) k ob rb] by simp metis
  have ev: "events_ok P ?w Q"
    by (rule tcb_same [OF sys_events [OF s] c(1), of ?c])
      (use events_ok_evq [OF sys_events [OF s]] c(3) in \<open>simp_all add: acked_def ack_tcb_def\<close>)
  have ap: "app (sess w) ?w"
  proof (rule app_frame [OF sys_app [OF s]])
    show "space w x \<le> space ?w x" for x
      using c(1) ob ob' by (cases "x = t") (simp_all add: space_def)
  qed (simp add: app_same_def)
  show ?thesis
  proof (cases "state c = TCP_ESTABLISHED")
    case True
    have cbc: "cb c"
      using ok True by (auto simp: tcb_ok_def)
    then have st: "sess w t = Some (app_data c)"
      using c(1) True by (simp add: sess_def)
    have sp: "space ?w t = rb_left (rb_advance ob ack)"
      using True by (simp add: space_def acked_def)
    obtain w' Q' where o: "output_buffer_space cbs (app_data c) (rb_left (rb_advance ob ack)) ?w = Some w'" "events_ok P w' Q'" "tcp_same ?w w'" "app (sess w) w'"
      using output_law [OF ap st ev] unfolding sp by blast
    then show ?thesis
      using True cbc by (intro exI [of _ w'] exI [of _ Q']) (simp add: call_cb_def tcp_same_def)
  next
    case False
    then show ?thesis
      using ev ap by (intro exI [of _ ?w] exI [of _ Q]) simp
  qed
qed

text \<open>The second half: the timer.\<close>

lemma ack_timer:
  assumes s: "sys lt P S0 w Q" and c: "tcbs w t = Some c" "t \<noteq> lt" "state c = TCP_ESTABLISHED \<or> closing_state (state c)"
    and k: "snd_una c < ack" "ack_sane c ack" and ob: "outbuf c = Some ob"
    and w1: "events_ok P w1 Q1" "tcbs w1 = (tcbs w)(t \<mapsto> c1)" "tcblist w1 = tcblist w" "nlist w1 = nlist w" "app S w1"
    and c1: "c1 = (acked ack c ob)\<lparr>srtt := a, sdev := b\<rparr>"
  shows "\<exists>w' Q' c'. (if e_timeout c1 \<noteq> 0 \<and> ack \<ge> timeout_mark c1 then do {
       w \<leftarrow> remove_event (e_timeout c1) w1;
       w \<leftarrow> (if snd_una c1 < snd_nxt c1 then set_timeout t w else t_upd t (\<lambda>c. c\<lparr>e_timeout := 0\<rparr>) w);
       t_upd t (\<lambda>c. c\<lparr>snd_cwnd := snd_cwnd c + mss c\<rparr>) w
     }
     else Some w1) = Some w' \<and> sys lt P S w' Q' \<and> tcbs w' = (tcbs w)(t \<mapsto> c') \<and>
    cb c' = cb c \<and> app_data c' = app_data c \<and> state c' = state c"
proof -
  have ok: "tcb_ok c"
    by (rule sys_tcb [OF s c(1,2)])
  have rb: "ringbuf_ok ob" "buf_size ob = 16384"
    using tcb_ok_outbuf [OF ok] ob by auto
  note sq = seq_acked [OF tcb_ok_parts(2) [OF ok] c(3) k ob rb]
  have f: "state c1 = state c" "cb c1 = cb c" "app_data c1 = app_data c" "key_of c1 = key_of c" "snd_una c1 = snd_una (acked ack c ob)"
      "snd_nxt c1 = snd_nxt (acked ack c ob)" "e_timeout c1 = e_timeout c" "timeout_mark c1 = timeout_mark c"
    by (simp_all add: c1 acked_def ack_tcb_def)
  have good: "tcb_ok c'" if "tcb_ok c'' = tcb_ok c'" "seq_ok c''" "state c'' = state c" "cb c'' = cb c" "laddr c'' = laddr c" "raddr c'' = raddr c" "mss c'' = mss c"
      "inbuf c'' = inbuf c" "read_seq c'' = read_seq c" "outbuf c'' = outbuf (acked ack c ob)" for c' c''
  proof -
    obtain ob' where "outbuf (acked ack c ob) = Some ob'" "ringbuf_ok ob'" "buf_size ob' = 16384"
      using acked_at [OF tcb_ok_parts(2) [OF ok] c(3) k ob rb] by metis
    then show ?thesis
      using that ok by (auto simp: tcb_ok_def conn_ok_def in_ok_def)
  qed
  have t1: "tcbs w1 t = Some c1" "state c1 \<noteq> TCP_TIME_WAIT"
    using w1(2) c(3) f(1) by auto
  show ?thesis
  proof (cases "e_timeout c1 \<noteq> 0 \<and> ack \<ge> timeout_mark c1")
    case False
    have "tcb_ok c1"
      by (rule good [of "acked ack c ob"]) (use sq(1) False f in \<open>auto simp: c1 acked_def ack_tcb_def\<close>)
    then have "sys lt P S w1 Q1"
      by (intro sys_end [OF s c(1,2) f(4) _ w1]) simp
    then show ?thesis
      unfolding if_not_P [OF False] using w1(2) f by (intro exI [of _ w1] exI [of _ Q1] exI [of _ c1]) simp
  next
    case True
    then have nz: "e_timeout c1 \<noteq> 0"
      by simp
    obtain w2 Q2 w3 Q3 e where r: "remove_event (e_timeout c1) w1 = Some w2" "evs.more w2 = evs.more w1"
        "events_ok P (w2\<lparr>tcbs := (tcbs w1)(t \<mapsto> c1\<lparr>e_timeout := 0\<rparr>)\<rparr>) Q2"
        "set_timeout t w2 = Some w3" "events_ok P w3 Q3"
        "evs.more w3 = evs.more (w1\<lparr>tcbs := (tcbs w1)(t \<mapsto> c1\<lparr>e_timeout := e, timeout_mark := snd_nxt c1\<rparr>)\<rparr>)"
      using retime_events [OF w1(1) t1(1) nz t1(2)] by blast
    note f2 = evs_frame [OF r(2)] and f3 = evs_frame [OF r(6), simplified]
    let ?more = "snd_una c1 < snd_nxt c1"
    define c2 where "c2 = (if ?more then c1\<lparr>e_timeout := e, timeout_mark := snd_nxt c1\<rparr> else c1\<lparr>e_timeout := 0\<rparr>)"
    define w4 where "w4 = (if ?more then w3 else w2\<lparr>tcbs := (tcbs w1)(t \<mapsto> c1\<lparr>e_timeout := 0\<rparr>)\<rparr>)"
    have w4: "(if ?more then set_timeout t w2 else t_upd t (\<lambda>c. c\<lparr>e_timeout := 0\<rparr>) w2) = Some w4"
        "tcbs w4 = (tcbs w)(t \<mapsto> c2)" "tcblist w4 = tcblist w" "nlist w4 = nlist w" "app_same w1 w4"
      using r(4) f2 f3 w1(2-4) t1(1) by (simp_all add: w4_def c2_def t_upd_def app_same_def)
    obtain Q4 where e4: "events_ok P w4 Q4"
      using r(3,5) unfolding w4_def by (cases ?more) simp_all
    have t4: "tcbs w4 t = Some c2"
      using w4(2) by simp
    let ?c = "c2\<lparr>snd_cwnd := snd_cwnd c2 + mss c2\<rparr>"
    let ?w = "w4\<lparr>tcbs := (tcbs w4)(t \<mapsto> ?c)\<rparr>"
    have rt: "tcb_ok (c1\<lparr>e_timeout := x, timeout_mark := y\<rparr>) = tcb_ok ((acked ack c ob)\<lparr>e_timeout := x, timeout_mark := y\<rparr>)"
      "tcb_ok (c1\<lparr>e_timeout := x\<rparr>) = tcb_ok ((acked ack c ob)\<lparr>e_timeout := x\<rparr>)" for x y
      by (simp_all add: c1 tcb_ok_defs)
    have "tcb_ok c2"
    proof (cases ?more)
      case True
      have "tcb_ok ((acked ack c ob)\<lparr>e_timeout := e, timeout_mark := snd_nxt (acked ack c ob)\<rparr>)"
        by (rule good [OF refl sq(3)]) (use True f in \<open>simp_all add: acked_def ack_tcb_def\<close>)
      then show ?thesis
        unfolding c2_def if_P [OF True] using f(6) rt(1) by simp
    next
      case False
      have "tcb_ok ((acked ack c ob)\<lparr>e_timeout := 0\<rparr>)"
        by (rule good [OF refl sq(2)]) (simp_all add: acked_def ack_tcb_def)
      then show ?thesis
        unfolding c2_def if_not_P [OF False] using rt(2) by simp
    qed
    then have "tcb_ok ?c"
      by simp
    moreover have "events_ok P ?w Q4"
      by (rule tcb_same [OF e4 t4, of ?c]) (use events_ok_evq [OF e4] in simp_all)
    moreover have "app S ?w"
    proof (rule app_frame [OF w1(5)])
      show "app_same w1 ?w"
        using w4(5) by (simp add: app_same_def)
      show "space w1 x \<le> space ?w x" for x
        using w4(2) w1(2) t1(1) by (cases "x = t") (simp_all add: space_def c2_def)
    qed
    moreover have "key_of ?c = key_of c"
      using f(4) by (simp add: c2_def)
    ultimately have "sys lt P S ?w Q4"
      by (intro sys_end [OF s c(1,2)]) (use w4 in simp_all)
    then show ?thesis
      using True r(1) w4(1,2) t4 f by (intro exI [of _ ?w] exI [of _ Q4] exI [of _ ?c]) (simp add: t_upd_def c2_def)
  qed
qed

lemma take_ack_numbers:
  assumes c: "tcbs w t = Some c"
  obtains a b where "t_upd t (\<lambda>c.
            let c = (if snd_una c \<le> rtt_mark c \<and> ack > rtt_mark c then rtt_update (now w) c else c);
                c = c\<lparr>snd_una := ack\<rparr>
            in if ack > snd_nxt c then c\<lparr>snd_nxt := ack\<rparr> else c) w =
      Some (w\<lparr>tcbs := (tcbs w)(t \<mapsto> (ack_tcb ack c)\<lparr>srtt := a, sdev := b\<rparr>)\<rparr>)"
proof -
  have "\<exists>a b. (if snd_una c \<le> rtt_mark c \<and> ack > rtt_mark c then rtt_update (now w) c else c) = c\<lparr>srtt := a, sdev := b\<rparr>"
  proof (cases "snd_una c \<le> rtt_mark c \<and> ack > rtt_mark c")
    case True
    show ?thesis
      unfolding if_P [OF True] by (rule rtt_update_fields)
  next
    case False
    then show ?thesis
      unfolding if_not_P [OF False] by (intro exI [of _ "srtt c"] exI [of _ "sdev c"]) simp
  qed
  then obtain a b where h: "(if snd_una c \<le> rtt_mark c \<and> ack > rtt_mark c then rtt_update (now w) c else c) = c\<lparr>srtt := a, sdev := b\<rparr>"
    by blast
  have "(if snd_nxt c < ack then c\<lparr>srtt := a, sdev := b, snd_una := ack, snd_nxt := ack\<rparr> else c\<lparr>srtt := a, sdev := b, snd_una := ack\<rparr>) =
      (ack_tcb ack c)\<lparr>srtt := a, sdev := b\<rparr>"
    by (cases "snd_nxt c < ack") (simp_all add: ack_tcb_def)
  then show ?thesis
    by (intro that [of b a]) (use h c in \<open>cases "snd_nxt c < ack"; simp add: t_upd_def Let_def\<close>)
qed

lemma take_ack_sys:
  assumes s: "sys lt P (sess w) w Q" and c: "tcbs w t = Some c" "t \<noteq> lt" and k: "snd_una c < ack" "ack_sane c ack"
  shows "\<exists>w' Q' c'. take_ack cbs t ack w = Some w' \<and> sys lt P (sess w) w' Q' \<and> tcbs w' = (tcbs w)(t \<mapsto> c') \<and>
    cb c' = cb c \<and> app_data c' = app_data c \<and> state c' = state c"
proof -
  have ok: "tcb_ok c"
    by (rule sys_tcb [OF s c])
  obtain ob where ob: "outbuf c = Some ob" "ringbuf_ok ob" "buf_size ob = 16384"
    using tcb_ok_outbuf [OF ok] by blast
  have us: "used ob \<le> 16384" "0 \<le> used ob"
    using ob by (simp_all add: ringbuf_ok_def)
  obtain a b where n: "t_upd t (\<lambda>c.
            let c = (if snd_una c \<le> rtt_mark c \<and> ack > rtt_mark c then rtt_update (now w) c else c);
                c = c\<lparr>snd_una := ack\<rparr>
            in if ack > snd_nxt c then c\<lparr>snd_nxt := ack\<rparr> else c) w =
      Some (w\<lparr>tcbs := (tcbs w)(t \<mapsto> (ack_tcb ack c)\<lparr>srtt := a, sdev := b\<rparr>)\<rparr>)"
    using take_ack_numbers [OF c(1)] by blast
  let ?c1 = "(ack_tcb ack c)\<lparr>srtt := a, sdev := b\<rparr>"
  have f: "state (ack_tcb ack c) = state c" "outbuf (ack_tcb ack c) = outbuf c" "cb (ack_tcb ack c) = cb c" "app_data (ack_tcb ack c) = app_data c"
    by (simp_all add: ack_tcb_def)
  consider (syn) "state c = TCP_SYN_RECVD" | (quiet) "state c = TCP_FIN_WAIT_2 \<or> state c = TCP_TIME_WAIT"
    | (data) "state c = TCP_ESTABLISHED \<or> closing_state (state c)"
    using ok by (auto simp: tcb_ok_def)
  then show ?thesis
  proof cases
    case syn
    let ?w = "w\<lparr>tcbs := (tcbs w)(t \<mapsto> ?c1)\<rparr>"
    have "take_ack cbs t ack w = Some ?w"
      unfolding take_ack_def n Option.bind.simps using syn f by (simp add: Let_def)
    moreover have "tcb_ok ?c1"
    proof -
      obtain u where u: "used ob < u" "u \<le> used ob + 2" "snd_una c = w_seq ob + 1 - word_of_int u" "e_timeout c = 0"
        using tcb_ok_parts(2) [OF ok] syn ob(1) by (auto simp: seq_ok_def)
      let ?a = "uint (ack - snd_una c)"
      have "w_seq ob + 1 - snd_una c = word_of_int u"
        using u(3) by simp
      then have "uint (w_seq ob + 1 - snd_una c) = u"
        using u us by (simp add: uint_word_of_int_eq take_bit_eq_mod)
      then have b: "?a + used ob < u"
        using k syn ob(1) by (auto simp: ack_sane_def)
      have b': "u - ?a \<le> used ob + 2"
        using u(2) uint_ge_0 [of "ack - snd_una c"] by linarith
      have "ack = w_seq ob + 1 - word_of_int (u - ?a)"
        using ahead(3) [OF k(1)] u(3) by (simp add: algebra_simps)
      then have "seq_ok (ack_tcb ack c)"
        unfolding seq_ok_def using syn ob(1) u b b' by (intro exI [of _ ob] exI [of _ "u - ?a"]) (simp add: ack_tcb_def)
      then have "tcb_ok (ack_tcb ack c)"
        using ok by (simp add: tcb_ok_def conn_ok_def in_ok_def ack_tcb_def)
      then show ?thesis
        by simp
    qed
    then have "sys lt P (sess w) ?w Q"
      by (intro sys_upd [OF s c(1) grows_same]) (use c(2) in \<open>simp_all add: ack_tcb_def\<close>)
    ultimately show ?thesis
      using f by (intro exI [of _ ?w] exI [of _ Q] exI [of _ ?c1]) simp
  next
    case quiet
    then have "state c \<noteq> TCP_SYN_RECVD"
      by auto
    from seq_okE [OF tcb_ok_parts(2) [OF ok] this ob(1)] obtain u n' k' where "at_seq ob c u n' k'" "u = 0"
      using quiet by blast
    then have "w_seq ob + 1 - snd_una c = 0"
      by (simp add: at_seq_def)
    moreover have "uint (ack - snd_una c) \<le> uint (w_seq ob + 1 - snd_una c)"
      using k quiet ob(1) by (auto simp: ack_sane_def)
    ultimately show ?thesis
      using ahead(1) [OF k(1)] by simp
  next
    case data
    let ?c2 = "(acked ack c ob)\<lparr>srtt := a, sdev := b\<rparr>"
    have c2: "state c = TCP_ESTABLISHED \<Longrightarrow> ?c1\<lparr>outbuf := Some (rb_advance ob ack)\<rparr> = ?c2" "state c \<noteq> TCP_ESTABLISHED \<Longrightarrow> ?c1 = ?c2"
      using ob(1) by (simp_all add: acked_def ack_tcb_def)
    obtain w1 Q1 where w1: "(if state c = TCP_ESTABLISHED then do {
             let w = w\<lparr>tcbs := (tcbs w)(t \<mapsto> ?c2)\<rparr>;
             call_cb c (output_buffer_space cbs (app_data c) (rb_left (rb_advance ob ack))) w
           }
           else Some (w\<lparr>tcbs := (tcbs w)(t \<mapsto> ?c2)\<rparr>)) = Some w1"
      "events_ok P w1 Q1" "tcbs w1 = (tcbs w)(t \<mapsto> ?c2)" "tcblist w1 = tcblist w" "nlist w1 = nlist w" "app (sess w) w1"
      using ack_step [OF s c data k ob(1), where a = a and b = b] by blast
    obtain w2 Q2 c' where w2: "(if e_timeout ?c2 \<noteq> 0 \<and> ack \<ge> timeout_mark ?c2 then do {
         w \<leftarrow> remove_event (e_timeout ?c2) w1;
         w \<leftarrow> (if snd_una ?c2 < snd_nxt ?c2 then set_timeout t w else t_upd t (\<lambda>c. c\<lparr>e_timeout := 0\<rparr>) w);
         t_upd t (\<lambda>c. c\<lparr>snd_cwnd := snd_cwnd c + mss c\<rparr>) w
       }
       else Some w1) = Some w2" "sys lt P (sess w) w2 Q2" "tcbs w2 = (tcbs w)(t \<mapsto> c')"
      "cb c' = cb c" "app_data c' = app_data c" "state c' = state c"
      using ack_timer [OF s c data k ob(1) w1(2-6) refl] by blast
    have "take_ack cbs t ack w = Some w2"
    proof -
      have t1: "tcbs w1 t = Some ?c2"
        using w1(3) by simp
      let ?w0 = "w\<lparr>tcbs := (tcbs w)(t \<mapsto> ?c1)\<rparr>"
      have t0: "tcbs ?w0 t = Some ?c1" "state ?c1 = state c"
        using f by simp_all
      have step: "(if state c = TCP_ESTABLISHED then do {
             ob \<leftarrow> outbuf ?c1;
             call_cb ?c1 (output_buffer_space cbs (app_data ?c1) (rb_left (rb_advance ob ack))) (?w0\<lparr>tcbs := (tcbs ?w0)(t \<mapsto> ?c1\<lparr>outbuf := Some (rb_advance ob ack)\<rparr>)\<rparr>)
           }
           else Some ?w0) = Some w1"
        using w1(1) c2 f ob(1) by (cases "state c = TCP_ESTABLISHED") (simp_all add: call_cb_def Let_def split: if_splits)
      show ?thesis
        unfolding take_ack_def n Option.bind.simps t0 unfolding Let_def t0 step Option.bind.simps t1 using w2(1) data by simp
    qed
    then show ?thesis
      using w2 by (intro exI [of _ w2] exI [of _ Q2] exI [of _ c']) simp
  qed
qed

text \<open>With nothing outstanding, and the \<open>FIN\<close> acknowledged, nothing is left and no timer runs.\<close>

lemma finished:
  assumes ok: "tcb_ok c" "closing_state (state c)" and ob: "outbuf c = Some ob" "snd_una c = snd_nxt c" "rb_avail ob (snd_nxt c) = - 1"
    and s: "s = TCP_FIN_WAIT_2 \<or> s = TCP_TIME_WAIT"
  shows "e_timeout c = 0" "tcb_ok (c\<lparr>state := s, e_timeout := (if s = TCP_TIME_WAIT then e else 0)\<rparr>)"
proof -
  have rb: "ringbuf_ok ob" "buf_size ob = 16384"
    using tcb_ok_outbuf [OF ok(1)] ob(1) by auto
  have ns: "state c \<noteq> TCP_SYN_RECVD" "state c \<noteq> TCP_TIME_WAIT"
    using ok(2) by auto
  obtain u n k where a: "at_seq ob c u n k"
    using seq_okE [OF tcb_ok_parts(2) [OF ok(1)] ns(1) ob(1)] by blast
  have n: "0 \<le> n" "n \<le> u" "u \<le> used ob + 2" "used ob \<le> 16384" "0 \<le> used ob"
    using a rb by (simp_all add: at_seq_def ringbuf_ok_def)
  have "(word_of_int n :: u32) = 0"
    using a ob(2) by (simp add: at_seq_def)
  then have "uint (word_of_int n :: u32) = 0"
    by simp
  then have "n = 0"
    using n by (simp add: uint_word_of_int_eq take_bit_eq_mod)
  then have u: "u = 0"
    using rb_avail_at [OF a rb, of 0] ob(3) n by (auto split: if_splits)
  then have "\<not> timing c"
    using a by (simp add: at_seq_def)
  then show e: "e_timeout c = 0"
    using ns(2) by (simp add: timing_def)
  have "seq_ok (c\<lparr>state := s, e_timeout := (if s = TCP_TIME_WAIT then e else 0)\<rparr>)"
    by (rule seq_okI [of _ ob 0 0 0]) (use a u \<open>n = 0\<close> ob(1) s in \<open>auto simp: at_seq_def timing_def\<close>)
  then show "tcb_ok (c\<lparr>state := s, e_timeout := (if s = TCP_TIME_WAIT then e else 0)\<rparr>)"
    using ok s by (auto simp: tcb_ok_def conn_ok_def in_ok_def)
qed

text \<open>The step into \<open>TIME_WAIT\<close>.\<close>

lemma enter_time_wait_sys:
  assumes s: "sys lt P S w Q" and c: "tcbs w t = Some c" "t \<noteq> lt" "e_timeout c = 0" "\<not> cb c"
    and ok: "\<And>e. tcb_ok (c\<lparr>state := TCP_TIME_WAIT, e_timeout := e\<rparr>)"
  shows "\<exists>w' Q'. enter_time_wait t w = Some w' \<and> sys lt P S w' Q' \<and> sess w' = sess w"
proof -
  have ev: "events_ok P w Q"
    by (rule sys_events [OF s])
  let ?w = "w\<lparr>tcbs := (tcbs w)(t \<mapsto> c\<lparr>state := TCP_TIME_WAIT\<rparr>)\<rparr>"
  have q: "evq ?w Q"
    using events_ok_evq [OF ev] by simp
  obtain e w1 where a: "add_time_event (time_future (now w) 120000) (Tcp_remove t) ?w = Some (e, w1)" "e \<noteq> 0" "Q e = None"
      "evq w1 (Q(e \<mapsto> (Timer, Tcp_remove t)))" "evs.more w1 = evs.more ?w"
    using evl.time_law [OF q] by blast
  note f = evs_frame [OF a(5), simplified]
  let ?c = "c\<lparr>state := TCP_TIME_WAIT, e_timeout := e\<rparr>"
  let ?w' = "w1\<lparr>tcbs := (tcbs w)(t \<mapsto> ?c)\<rparr>"
  have "events_ok P ?w' (Q(e \<mapsto> (Timer, Tcp_remove t)))"
    by (rule tcb_add_timer [OF ev c(1,3) a(2,3), of ?c]) (use a(4) f in simp_all)
  then have "sys lt P S ?w' (Q(e \<mapsto> (Timer, Tcp_remove t)))"
    by (intro sys_set [OF s c(1) grows_same, of ?c]) (use c(2) ok sys_nd [OF s] f in \<open>simp_all add: app_same_def\<close>)
  moreover have "enter_time_wait t w = Some ?w'"
    using c(1) a(1) f(1) by (simp add: enter_time_wait_def t_upd_def)
  moreover have "sess ?w' = sess w"
    using c(1,4) f(1) by (auto simp: sess_def fun_eq_iff)
  ultimately show ?thesis
    by blast
qed

text \<open>What a step of the handler leaves: the invariant for the sessions there now, and the tcb if it goes on.\<close>

definition goes_on :: "ptr \<Rightarrow> queue \<Rightarrow> ptr \<Rightarrow> (world + world) \<Rightarrow> bool" where
  "goes_on lt P t r \<longleftrightarrow> (case r of
     Inl w \<Rightarrow> \<exists>Q. sys lt P (sess w) w Q
   | Inr w \<Rightarrow> \<exists>Q c. sys lt P (sess w) w Q \<and> tcbs w t = Some c)"

lemma all_acked_sys:
  assumes s: "sys lt P (sess w) w Q" and c: "tcbs w t = Some c" "t \<noteq> lt" "snd_una c = snd_nxt c"
  shows "\<exists>r. all_acked cbs t w = Some r \<and> goes_on lt P t r"
proof -
  have ok: "tcb_ok c"
    by (rule sys_tcb [OF s c(1,2)])
  obtain ob where ob: "outbuf c = Some ob" "ringbuf_ok ob" "buf_size ob = 16384"
    using tcb_ok_outbuf [OF ok] by blast
  have stay: "goes_on lt P t (Inr w)"
    using s c(1) by (auto simp: goes_on_def)
  consider (syn) "state c = TCP_SYN_RECVD" | (last) "state c = TCP_LAST_ACK" | (fin) "state c = TCP_FIN_WAIT_1" | (closing) "state c = TCP_CLOSING"
    | (other) "state c = TCP_ESTABLISHED \<or> state c = TCP_FIN_WAIT_2 \<or> state c = TCP_TIME_WAIT"
    using ok by (auto simp: tcb_ok_def)
  then show ?thesis
  proof cases
    case syn
    let ?c = "c\<lparr>state := TCP_ESTABLISHED\<rparr>"
    let ?w = "w\<lparr>tcbs := (tcbs w)(t \<mapsto> ?c)\<rparr>"
    obtain u where u: "used ob < u" "u \<le> used ob + 2" "snd_una c = w_seq ob + 1 - word_of_int u" "e_timeout c = 0"
      using tcb_ok_parts(2) [OF ok] syn ob(1) by (auto simp: seq_ok_def)
    have cbc: "cb c"
      using ok syn by (auto simp: tcb_ok_def)
    have "0 \<le> used ob"
      using ob(2) by (simp add: ringbuf_ok_def)
    then have "at_seq ob ?c u 0 0"
      using u c(3) by (simp add: at_seq_def timing_def)
    then have "seq_ok ?c"
      by (intro seq_okI [of _ ob u 0 0]) (use u ob(1) in simp_all)
    then have "tcb_ok ?c"
      using ok syn by (auto simp: tcb_ok_def conn_ok_def in_ok_def)
    then have s1: "sys lt P (sess w) ?w Q"
      by (intro sys_upd [OF s c(1) grows_same]) (use c(2) syn in simp_all)
    have ss: "sess ?w = sess w"
      by (rule sess_same [OF c(1), of _ ?c]) (use syn in simp_all)
    have st: "sess w t = Some (app_data c)"
      using c(1) syn cbc by (simp add: sess_def)
    have sp: "space ?w t = rb_left ob"
      using ob(1) by (simp add: space_def)
    obtain w' Q' where o: "output_buffer_space cbs (app_data c) (rb_left ob) ?w = Some w'" "events_ok P w' Q'" "tcp_same ?w w'" "app (sess w) w'"
      using output_law [OF sys_app [OF s1] st sys_events [OF s1]] unfolding sp by blast
    have "sys lt P (sess w) w' Q'"
      using s1 o(2-4) tcp_ok_cong [of w' ?w lt] by (simp add: sys_ok_def tcp_same_def)
    moreover have "sess w' = sess w"
      using o(3) ss sess_cong [of w' ?w] by (simp add: tcp_same_def)
    moreover have "all_acked cbs t w = Some (Inr w')"
      using c(1) syn ob(1) cbc o(1) by (simp add: all_acked_def t_upd_def call_cb_def)
    ultimately show ?thesis
      using o(3) by (intro exI [of _ "Inr w'"]) (auto simp: goes_on_def tcp_same_def)
  next
    case last
    obtain w' Q' where d: "drop_tcb t w = Some w'" "sys lt P (sess w) w' Q'" "tcbs w' = (tcbs w)(t := None)"
      using sys_drop [OF s c(1,2)] by blast
    have "sess w t = None"
      using ok last c(1) by (auto simp: sess_def tcb_ok_def)
    then have "sess w' = sess w"
      using sess_gone [OF d(3)] by (simp add: fun_upd_idem)
    then show ?thesis
      using c(1) last d(1,2) by (intro exI [of _ "Inl w'"]) (auto simp: all_acked_def goes_on_def)
  next
    case fin
    show ?thesis
    proof (cases "rb_avail ob (snd_nxt c) = - 1")
      case True
      let ?c = "c\<lparr>state := TCP_FIN_WAIT_2\<rparr>"
      let ?w = "w\<lparr>tcbs := (tcbs w)(t \<mapsto> ?c)\<rparr>"
      have fe: "e_timeout c = 0" "tcb_ok (?c\<lparr>e_timeout := 0\<rparr>)"
        using finished [OF ok _ ob(1) c(3) True, of TCP_FIN_WAIT_2] fin by simp_all
      moreover have "?c\<lparr>e_timeout := 0\<rparr> = ?c"
        using fe(1) by simp
      ultimately have "tcb_ok ?c"
        by simp
      then have "sys lt P (sess w) ?w Q"
        by (intro sys_upd [OF s c(1) grows_same]) (use c(2) fin in simp_all)
      moreover have "sess ?w = sess w"
        by (rule sess_same [OF c(1), of _ ?c]) (use fin in simp_all)
      ultimately show ?thesis
        using c(1) fin ob(1) True by (intro exI [of _ "Inr ?w"]) (auto simp: all_acked_def goes_on_def t_upd_def)
    qed (use c(1) fin ob(1) stay in \<open>simp add: all_acked_def\<close>)
  next
    case closing
    show ?thesis
    proof (cases "rb_avail ob (snd_nxt c) = - 1")
      case True
      have fe: "e_timeout c = 0" "tcb_ok (c\<lparr>state := TCP_TIME_WAIT, e_timeout := e\<rparr>)" for e
        using finished [OF ok _ ob(1) c(3) True, of TCP_TIME_WAIT] closing by simp_all
      have "\<not> cb c"
        using ok closing by (auto simp: tcb_ok_def)
      from enter_time_wait_sys [OF s c(1,2) fe(1) this fe(2)] show ?thesis
        using c(1) closing ob(1) True by (auto simp: all_acked_def goes_on_def)
    next
      case False
      then show ?thesis
        using c(1) closing ob(1) s by (intro exI [of _ "Inl w"]) (auto simp: all_acked_def goes_on_def)
    qed
  next
    case other
    then show ?thesis
      using c(1) stay by (intro exI [of _ "Inr w"]) (auto simp: all_acked_def)
  qed
qed

lemma handle_ack_sys:
  assumes s: "sys lt P (sess w) w Q" and c: "tcbs w t = Some c" "t \<noteq> lt" and p: "GET_32 p 48 = Some ack" and k: "ack_sane c ack"
  shows "\<exists>r. handle_ack cbs t p w = Some r \<and> goes_on lt P t r"
proof -
  obtain w1 Q1 c1 where a: "(if ack > snd_una c then take_ack cbs t ack w else Some w) = Some w1" "sys lt P (sess w) w1 Q1"
      "tcbs w1 t = Some c1" "sess w1 = sess w"
  proof (cases "snd_una c < ack")
    case True
    obtain w' Q' c' where "take_ack cbs t ack w = Some w'" "sys lt P (sess w) w' Q'" "tcbs w' = (tcbs w)(t \<mapsto> c')"
        "cb c' = cb c" "app_data c' = app_data c" "state c' = state c"
      using take_ack_sys [OF s c True k] by blast
    then show ?thesis
      using that [of w' Q' c'] True sess_same [OF c(1), of w' c'] by simp
  next
    case False
    show ?thesis
      by (rule that [of w Q c]) (use False s c(1) in simp_all)
  qed
  note s1 = a(2) [folded a(4)]
  show ?thesis
  proof (cases "snd_una c1 = snd_nxt c1")
    case True
    then show ?thesis
      unfolding handle_ack_def p c(1) Option.bind.simps a(1,3) using all_acked_sys [OF s1 a(3) c(2) True] by simp
  next
    case False
    then show ?thesis
      unfolding handle_ack_def p c(1) Option.bind.simps a(1,3) using s1 a(3) by (auto simp: goes_on_def)
  qed
qed

subsection \<open>Data\<close>

text \<open>What the handlers below leave of a tcb: its key, its output side and its application.\<close>

definition same_out :: "tcb \<Rightarrow> tcb \<Rightarrow> bool" where
  "same_out c c' \<longleftrightarrow> state c' = state c \<and> cb c' = cb c \<and> app_data c' = app_data c \<and> e_timeout c' = e_timeout c"

lemma same_out_sess: "tcbs w t = Some c \<Longrightarrow> tcbs w' = (tcbs w)(t \<mapsto> c') \<Longrightarrow> same_out c c' \<Longrightarrow> sess w' = sess w"
  by (rule sess_same [where c = c and c' = c']) (simp_all add: same_out_def)

lemma open_window_sys:
  assumes s: "sys lt P S w Q" and c: "tcbs w t = Some c" "t \<noteq> lt"
  shows "\<exists>w' Q' c'. open_window t wnd w = Some w' \<and> sys lt P S w' Q' \<and> tcbs w' = (tcbs w)(t \<mapsto> c') \<and> same_out c c'"
proof -
  let ?c = "snd (window_update (c\<lparr>snd_wnd := wnd\<rparr>))"
  have ok: "tcb_ok ?c" "key_of ?c = key_of c"
    using sys_tcb [OF s c] by simp_all
  have upd: "sys lt P S (w\<lparr>tcbs := (tcbs w)(t \<mapsto> c')\<rparr>) Q" if "c' = ?c \<or> c' = snd (window_update ?c)" for c'
    by (rule sys_upd [OF s c(1) grows_same]) (use that ok c(2) in auto)
  consider (wake) "window_size (c\<lparr>snd_wnd := wnd\<rparr>) \<le> 0" "fst (window_update (c\<lparr>snd_wnd := wnd\<rparr>)) > 0" | (twice) "window_size (c\<lparr>snd_wnd := wnd\<rparr>) \<le> 0" "\<not> fst (window_update (c\<lparr>snd_wnd := wnd\<rparr>)) > 0"
    | (plain) "\<not> window_size (c\<lparr>snd_wnd := wnd\<rparr>) \<le> 0"
    by blast
  then show ?thesis
  proof cases
    case wake
    let ?w = "w\<lparr>tcbs := (tcbs w)(t \<mapsto> ?c)\<rparr>"
    have "sys lt P S ?w Q"
      by (rule upd) simp
    from sys_mark [OF this _ c(2), of ?c] obtain w' Q' e where
      m: "mark_for_if_write t ?w = Some w'" "sys lt P S w' Q'" "tcbs w' = (tcbs ?w)(t \<mapsto> ?c\<lparr>e_tcb_send := e\<rparr>)"
      by auto
    have "open_window t wnd w = Some w'"
      using c(1) wake m(1) by (simp add: open_window_def t_upd_def case_prod_beta)
    then show ?thesis
      using m(2,3) by (intro exI [of _ w'] exI [of _ Q'] exI [of _ "?c\<lparr>e_tcb_send := e\<rparr>"]) (simp add: same_out_def)
  next
    case twice
    let ?w = "w\<lparr>tcbs := (tcbs w)(t \<mapsto> snd (window_update ?c))\<rparr>"
    have "open_window t wnd w = Some ?w"
      using c(1) twice by (simp add: open_window_def t_upd_def case_prod_beta)
    then show ?thesis
      using upd by (intro exI [of _ ?w] exI [of _ Q] exI [of _ "snd (window_update ?c)"]) (simp add: same_out_def)
  next
    case plain
    let ?w = "w\<lparr>tcbs := (tcbs w)(t \<mapsto> ?c)\<rparr>"
    have "open_window t wnd w = Some ?w"
      using c(1) plain by (simp add: open_window_def t_upd_def)
    then show ?thesis
      using upd by (intro exI [of _ ?w] exI [of _ Q] exI [of _ ?c]) (simp add: same_out_def)
  qed
qed

end

end
