(* ===== verification/Tcp_Handler.thy ===== *)
theory Tcp_Handler
  imports Tcp_Safe
begin

text \<open>
  The handler of received segments under the invariant. The locale \<open>tcp_server\<close> adds to
  \<open>tcp_app\<close> what the application does with a new connection; in it \<open>handle_tcp\<close> returns for every
  segment whose acknowledgement number the peer could have computed, and keeps the invariant.
\<close>

lemma seq_ok_inbuf [simp]: "seq_ok (c\<lparr>inbuf := i\<rparr>) = seq_ok c" "seq_ok (c\<lparr>read_seq := n\<rparr>) = seq_ok c"
  by (simp_all add: seq_ok_def at_seq_def timing_def)

lemma in_ok_write:
  assumes "tcb_ok c" "inbuf c = Some ib" "0 \<le> n" "nat n \<le> length d"
  shows "\<exists>k ib'. rb_write ib d n = Some (k, ib') \<and> tcb_ok (c\<lparr>inbuf := Some ib'\<rparr>)"
proof -
  have ib: "ringbuf_ok ib" "buf_size ib = 16384" "read_seq c = w_seq ib - word_of_int (used ib)"
    using tcb_ok_inbuf [OF assms(1)] assms(2) by auto
  obtain ib' where w: "rb_write ib d n = Some (min n (rb_left ib), ib')" "ringbuf_ok ib'"
      "content ib' = content ib @ take (nat (min n (rb_left ib))) d"
      "w_seq ib' = w_seq ib + word_of_int (min n (rb_left ib))" "buf_size ib' = buf_size ib"
    using rb_write_ok [OF ib(1) assms(3,4)] by blast
  have "0 \<le> rb_left ib"
    using ib(1) by (simp add: rb_left_def ringbuf_ok_def)
  then have "used ib' = used ib + min n (rb_left ib)"
    using length_content [OF ib(1)] length_content [OF w(2)] w(3) assms(3,4) by simp
  then have "read_seq c = w_seq ib' - word_of_int (used ib')"
    using ib(3) w(4) by simp
  then have "tcb_ok (c\<lparr>inbuf := Some ib'\<rparr>)"
    using assms(1) w(2,5) ib(2) by (simp add: tcb_ok_def conn_ok_def in_ok_def)
  then show ?thesis
    using w(1) by blast
qed

context tcp_app
begin

text \<open>Sending and the clock touch nothing the invariant speaks of but the neighbours.\<close>

lemma sys_frame:
  assumes s: "sys lt P S w Q" and "nd_ok ifc head (nlist w')" and w': "evq w' Q = evq w Q" "tcbs w' = tcbs w" "tcblist w' = tcblist w"
    "maps w' = maps w" "umaps w' = umaps w" "app_same w w'"
  shows "sys lt P S w' Q"
proof -
  have "events_ok P w' Q"
    using s w' owned_cong [of w' w] by (simp add: sys_ok_def events_ok_def)
  moreover have "app S w'"
    using app_frame [of S w w'] s w' by (simp add: sys_ok_def space_def)
  ultimately show ?thesis
    using s assms(2) tcp_ok_cong [of w' w lt] w' by (simp add: sys_ok_def)
qed

text \<open>The application is told of data in its connection.\<close>

lemma data_sys:
  assumes s: "sys lt P S w Q" and c: "S t = Some m"
  shows "\<exists>w' Q'. data_available cbs m n w = Some w' \<and> sys lt P S w' Q' \<and> tcbs w' = tcbs w"
proof -
  obtain w' Q' where "data_available cbs m n w = Some w'" "events_ok P w' Q'" "tcp_same w w'" "app S w'"
    using data_law [OF sys_app [OF s] c sys_events [OF s]] by blast
  then show ?thesis
    using s tcp_ok_cong [of w' w lt] by (intro exI [of _ w'] exI [of _ Q']) (simp add: sys_ok_def tcp_same_def)
qed

text \<open>The receiver's side moves on and the segment is to be acknowledged.\<close>

lemma advance_rcv:
  assumes s: "sys lt P S w Q" and c: "tcbs w t = Some c" "t \<noteq> lt"
  shows "\<exists>w' Q' c'. do { w \<leftarrow> t_upd t (\<lambda>c. c\<lparr>rcv_nxt := rcv_nxt c + n\<rparr>) w; mark_for_if_write t w } = Some w' \<and>
    sys lt P S w' Q' \<and> tcbs w' = (tcbs w)(t \<mapsto> c') \<and> same_out c c'"
proof -
  let ?c = "c\<lparr>rcv_nxt := rcv_nxt c + n\<rparr>"
  let ?w = "w\<lparr>tcbs := (tcbs w)(t \<mapsto> ?c)\<rparr>"
  have "sys lt P S ?w Q"
    by (rule sys_upd [OF s c(1) grows_same]) (use sys_tcb [OF s c] c(2) in simp_all)
  from sys_mark [OF this _ c(2), of ?c] obtain w' Q' e where
    m: "mark_for_if_write t ?w = Some w'" "sys lt P S w' Q'" "tcbs w' = (tcbs ?w)(t \<mapsto> ?c\<lparr>e_tcb_send := e\<rparr>)"
    by auto
  then show ?thesis
    using c(1) by (intro exI [of _ w'] exI [of _ Q'] exI [of _ "?c\<lparr>e_tcb_send := e\<rparr>"]) (simp add: t_upd_def same_out_def)
qed

lemma recv_step:
  assumes s: "sys lt P (sess w) w Q" and c: "tcbs w t = Some c" "t \<noteq> lt" and d: "0 \<le> dlen" "nat dlen \<le> length d"
  shows "\<exists>w' Q' c'. do {
             w \<leftarrow> t_upd t (\<lambda>c. c\<lparr>rcv_nxt := rcv_nxt c + word_of_int dlen\<rparr>) w;
             w \<leftarrow> mark_for_if_write t w;
             c \<leftarrow> tcbs w t;
             if cb c then do {
               ib \<leftarrow> inbuf c;
               (_, ib) \<leftarrow> rb_write ib d dlen;
               let c = c\<lparr>inbuf := Some ib, rcv_wnd := word_of_int (rb_left ib)\<rparr>;
               let w = w\<lparr>tcbs := (tcbs w)(t \<mapsto> c)\<rparr>;
               data_available cbs (app_data c) (rb_avail ib (read_seq c)) w
             }
             else Some w
           } = Some w' \<and> sys lt P (sess w) w' Q' \<and> tcbs w' = (tcbs w)(t \<mapsto> c') \<and> same_out c c'"
proof -
  obtain w0 w1 Q1 c1 where a: "t_upd t (\<lambda>c. c\<lparr>rcv_nxt := rcv_nxt c + word_of_int dlen\<rparr>) w = Some w0" "mark_for_if_write t w0 = Some w1"
      "sys lt P (sess w) w1 Q1" "tcbs w1 = (tcbs w)(t \<mapsto> c1)" "same_out c c1"
    using advance_rcv [OF s c, of "word_of_int dlen"] by (auto simp: bind_eq_Some_conv)
  have t1: "tcbs w1 t = Some c1"
    using a(4) by simp
  have ok: "tcb_ok c1"
    by (rule sys_tcb [OF a(3) t1 c(2)])
  show ?thesis
  proof (cases "cb c1")
    case True
    obtain ib where ib: "inbuf c1 = Some ib"
      using tcb_ok_inbuf [OF ok] by blast
    obtain k ib' where wr: "rb_write ib d dlen = Some (k, ib')" "tcb_ok (c1\<lparr>inbuf := Some ib'\<rparr>)"
      using in_ok_write [OF ok ib d] by blast
    let ?c = "c1\<lparr>inbuf := Some ib', rcv_wnd := word_of_int (rb_left ib')\<rparr>"
    let ?w = "w1\<lparr>tcbs := (tcbs w1)(t \<mapsto> ?c)\<rparr>"
    have s2: "sys lt P (sess w) ?w Q1"
      by (rule sys_upd [OF a(3) t1 grows_same]) (use wr(2) c(2) in simp_all)
    have "sess w t = Some (app_data c1)"
      using c(1) a(5) True tcb_ok_states [OF ok True] by (auto simp: sess_def same_out_def)
    from data_sys [OF s2 this] obtain w' Q' where
      w': "data_available cbs (app_data c1) (rb_avail ib' (read_seq c1)) ?w = Some w'" "sys lt P (sess w) w' Q'" "tcbs w' = tcbs ?w"
      by blast
    have "tcbs w' = (tcbs w)(t \<mapsto> ?c)" "same_out c ?c"
      using w'(3) a(4,5) by (simp_all add: same_out_def)
    then show ?thesis
      unfolding a(1,2) Option.bind.simps t1 using True ib wr(1) w'(1,2) by (intro exI [of _ w'] exI [of _ Q'] exI [of _ ?c]) simp
  next
    case False
    then show ?thesis
      unfolding a(1,2) Option.bind.simps t1 using a(3-5) by (intro exI [of _ w1] exI [of _ Q1] exI [of _ c1]) simp
  qed
qed

lemma tcp_recv_data_sys:
  assumes s: "sys lt P (sess w) w Q" and c: "tcbs w t = Some c" "t \<noteq> lt" and p: "60 \<le> length p" "nat len < length p"
  shows "\<exists>fin w' Q' c'. tcp_recv_data cbs t p len w = Some (fin, w') \<and> sys lt P (sess w) w' Q' \<and> tcbs w' = (tcbs w)(t \<mapsto> c') \<and> same_out c c'"
proof -
  obtain b52 b53 where b: "mem_get p 53 = Some b53" "mem_get p 52 = Some b52"
    using p(1) by (simp add: mem_simps)
  let ?doff = "40 + 4 * drop_bit 4 (uint b52)"
  have "0 \<le> drop_bit 4 (uint b52)"
    by (simp add: drop_bit_eq_div pos_imp_zdiv_nonneg_iff)
  then have doff: "0 \<le> ?doff"
    by simp
  obtain w1 Q1 c1 where a: "(if len - ?doff > 0 then do {
             p \<leftarrow> mem_put p (nat len) [0];
             w \<leftarrow> t_upd t (\<lambda>c. c\<lparr>rcv_nxt := rcv_nxt c + word_of_int (len - ?doff)\<rparr>) w;
             w \<leftarrow> mark_for_if_write t w;
             c \<leftarrow> tcbs w t;
             if cb c then do {
               ib \<leftarrow> inbuf c;
               (_, ib) \<leftarrow> rb_write ib (drop (nat ?doff) p) (len - ?doff);
               let c = c\<lparr>inbuf := Some ib, rcv_wnd := word_of_int (rb_left ib)\<rparr>;
               let w = w\<lparr>tcbs := (tcbs w)(t \<mapsto> c)\<rparr>;
               data_available cbs (app_data c) (rb_avail ib (read_seq c)) w
             }
             else Some w
           }
           else Some w) = Some w1" "sys lt P (sess w) w1 Q1" "tcbs w1 = (tcbs w)(t \<mapsto> c1)" "same_out c c1"
  proof (cases "len - ?doff > 0")
    case True
    obtain p' where p': "mem_put p (nat len) [0] = Some p'" "length p' = length p"
      using p(2) by (auto simp: mem_put_def)
    have "nat (len - d) \<le> length (drop (nat d) p')" if "0 \<le> d" for d
      unfolding length_drop p'(2) using that p(2) by arith
    from this [OF doff] have "nat (len - ?doff) \<le> length (drop (nat ?doff) p')" .
    from recv_step [OF s c _ this] obtain w' Q' c' where "do {
             w \<leftarrow> t_upd t (\<lambda>c. c\<lparr>rcv_nxt := rcv_nxt c + word_of_int (len - ?doff)\<rparr>) w;
             w \<leftarrow> mark_for_if_write t w;
             c \<leftarrow> tcbs w t;
             if cb c then do {
               ib \<leftarrow> inbuf c;
               (_, ib) \<leftarrow> rb_write ib (drop (nat ?doff) p') (len - ?doff);
               let c = c\<lparr>inbuf := Some ib, rcv_wnd := word_of_int (rb_left ib)\<rparr>;
               let w = w\<lparr>tcbs := (tcbs w)(t \<mapsto> c)\<rparr>;
               data_available cbs (app_data c) (rb_avail ib (read_seq c)) w
             }
             else Some w
           } = Some w'" "sys lt P (sess w) w' Q'" "tcbs w' = (tcbs w)(t \<mapsto> c')" "same_out c c'"
      using True by auto
    then show ?thesis
      by (intro that [of w' Q' c']) (simp_all only: if_P [OF True] p'(1) Option.bind.simps)
  next
    case False
    show ?thesis
      by (rule that [of w Q c]) (use False s c(1) in \<open>simp_all add: fun_upd_idem same_out_def\<close>)
  qed
  have t1: "tcbs w1 t = Some c1"
    using a(3) by simp
  show ?thesis
  proof (cases "(uint b53 AND 0x3f) AND 0x1 = 0")
    case True
    then have "tcp_recv_data cbs t p len w = Some (0, w1)"
      unfolding tcp_recv_data_def b Option.bind.simps Let_def [of "40 + _"] Let_def [of "len - _"] Let_def [of "_ AND _"] a(1) by simp
    then show ?thesis
      using a(2-4) by blast
  next
    case False
    obtain w2 w3 Q3 c3 where n: "t_upd t (\<lambda>c. c\<lparr>rcv_nxt := rcv_nxt c + 1\<rparr>) w1 = Some w2" "mark_for_if_write t w2 = Some w3"
        "sys lt P (sess w) w3 Q3" "tcbs w3 = (tcbs w1)(t \<mapsto> c3)" "same_out c1 c3"
      using advance_rcv [OF a(2) t1 c(2), of 1] by (auto simp: bind_eq_Some_conv)
    have "tcp_recv_data cbs t p len w = Some (1, w3)"
      unfolding tcp_recv_data_def b Option.bind.simps Let_def [of "40 + _"] Let_def [of "len - _"] Let_def [of "_ AND _"] a(1) using False n(1,2) by simp
    moreover have "tcbs w3 = (tcbs w)(t \<mapsto> c3)" "same_out c c3"
      using n(4,5) a(3,4) by (simp_all add: same_out_def)
    ultimately show ?thesis
      using n(3) by blast
  qed
qed

text \<open>
  The peer closes: \<open>CLOSE_WAIT\<close> lasts for the call of the application's \<open>closing\<close> only, so it is no
  state of the invariant.
\<close>

lemma remote_close_sys:
  assumes s: "sys lt P (sess w) w Q" and c: "tcbs w t = Some c" "t \<noteq> lt" "state c = TCP_ESTABLISHED"
  shows "\<exists>w' Q'. tcp_remote_close cbs ifc t (w\<lparr>tcbs := (tcbs w)(t \<mapsto> c\<lparr>state := TCP_CLOSE_WAIT\<rparr>)\<rparr>) = Some w' \<and> sys lt P (sess w') w' Q'"
proof -
  let ?c1 = "c\<lparr>state := TCP_CLOSE_WAIT\<rparr>"
  let ?w1 = "w\<lparr>tcbs := (tcbs w)(t \<mapsto> ?c1)\<rparr>"
  have ok: "tcb_ok c" "cb c"
    using sys_tcb [OF s c(1,2)] c(3) by (auto simp: tcb_ok_def)
  have ev: "events_ok P ?w1 Q"
    by (rule tcb_same [OF sys_events [OF s] c(1), of ?c1]) (use events_ok_evq [OF sys_events [OF s]] c(3) in simp_all)
  have st: "sess w t = Some (app_data c)"
    using c ok(2) by (simp add: sess_def)
  have "app (sess w) ?w1"
    by (rule app_frame [OF sys_app [OF s]]) (use c(1) in \<open>auto simp: app_same_def space_def\<close>)
  from closing_law [OF this st ev] obtain w2 Q2 where
    w2: "closing cbs (app_data c) 0 ?w1 = Some w2" "events_ok P w2 Q2" "tcp_same ?w1 w2" "app ((sess w)(t := None)) w2"
    by blast
  have t2: "tcbs w2 t = Some ?c1"
    using w2(3) by (simp add: tcp_same_def)
  let ?c2 = "c\<lparr>cb := False, rcv_wnd := 1000, state := TCP_LAST_ACK\<rparr>"
  let ?w3 = "w2\<lparr>tcbs := (tcbs w2)(t \<mapsto> ?c2)\<rparr>"
  have "events_ok P ?w3 Q2"
    by (rule tcb_same [OF w2(2) t2, of ?c2]) (use events_ok_evq [OF w2(2)] in simp_all)
  moreover have "app ((sess w)(t := None)) ?w3"
    by (rule app_frame [OF w2(4)]) (use t2 in \<open>auto simp: app_same_def space_def\<close>)
  moreover have "tcb_ok ?c2"
    by (rule tcb_ok_close [OF ok(1) c(3)]) simp
  ultimately have s3: "sys lt P ((sess w)(t := None)) ?w3 Q2"
    by (intro sys_end [OF s c(1,2)]) (use w2(3) in \<open>simp_all add: tcp_same_def\<close>)
  obtain w' Q' e where m: "mark_for_if_write t ?w3 = Some w'" "sys lt P ((sess w)(t := None)) w' Q'" "tcbs w' = (tcbs ?w3)(t \<mapsto> ?c2\<lparr>e_tcb_send := e\<rparr>)"
    using sys_mark [OF s3 _ c(2), of ?c2] by auto
  have "sess w' = (sess w)(t := None)"
    by (rule sess_gone [of _ _ _ "Some (?c2\<lparr>e_tcb_send := e\<rparr>)"]) (use m(3) w2(3) in \<open>auto simp: tcp_same_def\<close>)
  moreover have "tcp_remote_close cbs ifc t ?w1 = Some w'"
    using ok(2) w2(1) t2 m(1) by (simp add: tcp_remote_close_def tcp_close_def t_upd_def)
  ultimately show ?thesis
    using m(2) by (intro exI [of _ w'] exI [of _ Q']) simp
qed

lemma old_segment_sys:
  assumes s: "sys lt P (sess w) w Q" and c: "tcbs w t = Some c" "t \<noteq> lt"
  shows "\<exists>w' Q'. do { w \<leftarrow> t_upd t (\<lambda>c. c\<lparr>last_acked := last_acked c - 1\<rparr>) w; mark_for_if_write t w } = Some w' \<and> sys lt P (sess w') w' Q'"
proof -
  let ?c = "c\<lparr>last_acked := last_acked c - 1\<rparr>"
  let ?w = "w\<lparr>tcbs := (tcbs w)(t \<mapsto> ?c)\<rparr>"
  have "sys lt P (sess w) ?w Q"
    by (rule sys_upd [OF s c(1) grows_same]) (use sys_tcb [OF s c] c(2) in simp_all)
  from sys_mark [OF this _ c(2), of ?c] obtain w' Q' e where
    m: "mark_for_if_write t ?w = Some w'" "sys lt P (sess w) w' Q'" "tcbs w' = (tcbs ?w)(t \<mapsto> ?c\<lparr>e_tcb_send := e\<rparr>)"
    by auto
  have "sess w' = sess w"
    by (rule sess_same [OF c(1), of _ "?c\<lparr>e_tcb_send := e\<rparr>"]) (use m(3) in simp_all)
  then show ?thesis
    using c(1) m(1,2) by (intro exI [of _ w'] exI [of _ Q']) (simp add: t_upd_def)
qed

lemma handle_data_sys:
  assumes s: "sys lt P (sess w) w Q" and c: "tcbs w t = Some c" "t \<noteq> lt" and p: "60 \<le> length p" "nat len < length p"
  shows "\<exists>w' Q'. handle_data cbs ifc t p len w = Some w' \<and> sys lt P (sess w') w' Q'"
proof -
  obtain seq wnd where g: "GET_32 p 44 = Some seq" "GET_16 p 54 = Some wnd"
    using p(1) by (simp add: GET_32_def GET_16_def mem_simps)
  show ?thesis
  proof (cases "seq < rcv_nxt c")
    case True
    then show ?thesis
      using old_segment_sys [OF s c] s by (cases "state c = TCP_SYN_RECVD") (auto simp: handle_data_def g c(1))
  next
    case False
    obtain w1 Q1 c1 where o: "open_window t (word_of_int wnd) w = Some w1" "sys lt P (sess w) w1 Q1" "tcbs w1 = (tcbs w)(t \<mapsto> c1)" "same_out c c1"
      using open_window_sys [OF s c] by blast
    have t1: "tcbs w1 t = Some c1"
      using o(3) by simp
    have ss: "sess w1 = sess w"
      by (rule same_out_sess [OF c(1) o(3,4)])
    note s1 = o(2) [folded ss]
    obtain fin w2 Q2 c2 where r: "tcp_recv_data cbs t p len w1 = Some (fin, w2)" "sys lt P (sess w1) w2 Q2" "tcbs w2 = (tcbs w1)(t \<mapsto> c2)" "same_out c1 c2"
      using tcp_recv_data_sys [OF s1 t1 c(2) p] by blast
    have t2: "tcbs w2 t = Some c2" "state c2 = state c1"
      using r(3,4) by (simp_all add: same_out_def)
    have s2: "sys lt P (sess w2) w2 Q2" "sess w2 = sess w1"
      using same_out_sess [OF t1 r(3,4)] r(2) by simp_all
    have ok: "tcb_ok c2"
      by (rule sys_tcb [OF r(2) t2(1) c(2)])
    have run: "handle_data cbs ifc t p len w = (
       if state c1 = TCP_FIN_WAIT_2 then (if fin \<noteq> 0 then enter_time_wait t w2 else Some w2)
       else if state c1 = TCP_FIN_WAIT_1 then (if fin \<noteq> 0 then t_upd t (\<lambda>c. c\<lparr>state := TCP_CLOSING\<rparr>) w2 else Some w2)
       else if state c1 = TCP_ESTABLISHED then (if fin \<noteq> 0 then do { w \<leftarrow> t_upd t (\<lambda>c. c\<lparr>state := TCP_CLOSE_WAIT\<rparr>) w2; tcp_remote_close cbs ifc t w } else Some w2)
       else Some w1)"
      unfolding handle_data_def g c(1) Option.bind.simps if_not_P [OF False] o(1) t1 r(1) prod.case by simp
    consider (keep) "state c1 \<noteq> TCP_FIN_WAIT_2" "state c1 \<noteq> TCP_FIN_WAIT_1" "state c1 \<noteq> TCP_ESTABLISHED"
      | (nofin) "fin = 0" "state c1 = TCP_FIN_WAIT_2 \<or> state c1 = TCP_FIN_WAIT_1 \<or> state c1 = TCP_ESTABLISHED"
      | (fw2) "fin \<noteq> 0" "state c1 = TCP_FIN_WAIT_2" | (fw1) "fin \<noteq> 0" "state c1 = TCP_FIN_WAIT_1" | (est) "fin \<noteq> 0" "state c1 = TCP_ESTABLISHED"
      by blast
    then show ?thesis
    proof cases
      case keep
      then show ?thesis
        unfolding run using s1 by auto
    next
      case nofin
      then show ?thesis
        unfolding run using s2(1) by auto
    next
      case fw2
      obtain ob where ob: "outbuf c2 = Some ob" "ringbuf_ok ob" "buf_size ob = 16384"
        using tcb_ok_outbuf [OF ok] by blast
      have ns: "state c2 \<noteq> TCP_SYN_RECVD"
        using fw2 t2(2) by simp
      obtain u n k where a: "at_seq ob c2 u n k" "u = 0"
        using seq_okE [OF tcb_ok_parts(2) [OF ok] ns ob(1)] fw2 t2(2) by metis
      then have e: "e_timeout c2 = 0" "\<not> cb c2"
        using fw2 t2(2) ok by (auto simp: at_seq_def timing_def tcb_ok_def)
      have "seq_ok (c2\<lparr>state := TCP_TIME_WAIT, e_timeout := e\<rparr>)" for e
        by (rule seq_okI [of _ ob 0 n 0]) (use a ob(1) in \<open>simp_all add: at_seq_def timing_def\<close>)
      then have "tcb_ok (c2\<lparr>state := TCP_TIME_WAIT, e_timeout := e\<rparr>)" for e
        using ok e(2) by (simp add: tcb_ok_def conn_ok_def in_ok_def)
      from enter_time_wait_sys [OF s2(1) t2(1) c(2) e this] show ?thesis
        unfolding run using fw2 by auto
    next
      case fw1
      let ?c = "c2\<lparr>state := TCP_CLOSING\<rparr>"
      let ?w = "w2\<lparr>tcbs := (tcbs w2)(t \<mapsto> ?c)\<rparr>"
      have st: "state c2 = TCP_FIN_WAIT_1"
        using fw1 t2(2) by simp
      then have "seq_ok ?c"
        using tcb_ok_parts(2) [OF ok] by (simp add: seq_ok_def at_seq_def timing_def)
      then have "tcb_ok ?c"
        using ok st by (simp add: tcb_ok_def conn_ok_def in_ok_def)
      then have "sys lt P (sess w2) ?w Q2"
        by (intro sys_upd [OF s2(1) t2(1) grows_same]) (use c(2) st in simp_all)
      moreover have "sess ?w = sess w2"
        by (rule sess_same [OF t2(1), of _ ?c]) (use st in simp_all)
      ultimately have "sys lt P (sess ?w) ?w Q2"
        by simp
      then show ?thesis
        unfolding run using fw1 t2(1) by (intro exI [of _ ?w] exI [of _ Q2]) (simp add: t_upd_def)
    next
      case est
      have "state c2 = TCP_ESTABLISHED"
        using est t2(2) by simp
      from remote_close_sys [OF s2(1) t2(1) c(2) this] show ?thesis
        unfolding run using est t2(1) by (simp add: t_upd_def)
    qed
  qed
qed

lemma handle_rst_sys:
  assumes s: "sys lt P (sess w) w Q" and c: "tcbs w t = Some c" "t \<noteq> lt"
  shows "\<exists>w' Q'. handle_rst cbs t w = Some w' \<and> sys lt P (sess w') w' Q'"
proof -
  obtain w1 Q1 where a: "(if cb c then closing cbs (app_data c) 1 w else Some w) = Some w1" "sys lt P ((sess w)(t := None)) w1 Q1" "tcbs w1 = tcbs w"
  proof (cases "cb c")
    case True
    have "sess w t = Some (app_data c)"
      using True c(1) tcb_ok_states [OF sys_tcb [OF s c] True] by (auto simp: sess_def)
    from closing_law [OF sys_app [OF s] this sys_events [OF s]] obtain w' Q' where
      "closing cbs (app_data c) 1 w = Some w'" "events_ok P w' Q'" "tcp_same w w'" "app ((sess w)(t := None)) w'"
      by blast
    then show ?thesis
      by (intro that [of w' Q']) (use True s tcp_ok_cong [of w' w lt] in \<open>simp_all add: sys_ok_def tcp_same_def\<close>)
  next
    case False
    then have "(sess w)(t := None) = sess w"
      using c(1) by (simp add: sess_def fun_upd_idem)
    then show ?thesis
      by (intro that [of w Q]) (use False s in simp_all)
  qed
  have "tcbs w1 t = Some c"
    using a(3) c(1) by simp
  from sys_drop [OF a(2) this c(2)] obtain w' Q' where
    d: "drop_tcb t w1 = Some w'" "sys lt P ((sess w)(t := None)) w' Q'" "tcbs w' = (tcbs w1)(t := None)"
    by blast
  have "sess w' = (sess w)(t := None)"
    by (rule sess_gone [of _ _ _ None]) (use d(3) a(3) in simp_all)
  then show ?thesis
    unfolding handle_rst_def c(1) Option.bind.simps a(1) using d(1,2) by (intro exI [of _ w'] exI [of _ Q']) simp
qed

end

subsection \<open>A new connection\<close>

lemma events_new:
  assumes "events_ok P w Q" "tcbs w t = None" "e_tcb_send c = 0" "e_timeout c = 0"
    and w': "evq w' Q" "tcbs w' = (tcbs w)(t \<mapsto> c)" "maps w' = maps w" "umaps w' = umaps w"
  shows "events_ok P w' Q"
proof (rule events_same [OF assms(1) w'(1), of "Owner_tcb t"])
  have "mine P (Owner_tcb t) Q = Map.empty"
    using mine_at [OF assms(1), of "Owner_tcb t"] assms(2) by simp
  then show "holds_events w' (Owner_tcb t) (mine P (Owner_tcb t) Q)"
    using w'(2) assms(3,4) by (simp add: tcb_holds_def)
qed (rule tcb_frame [OF _ w'(2-4)])

lemma session_tcb_ok:
  assumes "length la = 16" "length ra = 16"
  shows "tcb_ok (session_tcb la lp ra rp n0 m0 wnd True (fresh_tcb (Some la) lp (Some ra) rp tv))"
    "key_of (session_tcb la lp ra rp n0 m0 wnd b (fresh_tcb (Some la) lp (Some ra) rp tv)) = Conn_key rp lp ra"
    "state (session_tcb la lp ra rp n0 m0 wnd b c) = TCP_SYN_RECVD" "cb (session_tcb la lp ra rp n0 m0 wnd b c) = b"
    "e_tcb_send (session_tcb la lp ra rp n0 m0 wnd b (fresh_tcb (Some la) lp (Some ra) rp tv)) = 0"
    "e_timeout (session_tcb la lp ra rp n0 m0 wnd b (fresh_tcb (Some la) lp (Some ra) rp tv)) = 0"
proof -
  let ?c = "session_tcb la lp ra rp n0 m0 wnd True (fresh_tcb (Some la) lp (Some ra) rp tv)"
  have r: "ringbuf_ok (rb_new 16384)" "buf_size (rb_new 16384) = 16384" "used (rb_new 16384) = 0"
    using rb_new_ok [of 16384] by (simp_all add: rb_new_def)
  have f: "inbuf ?c = Some (rb_set (rb_new 16384) (n0 + 1))" "outbuf ?c = Some (rb_set (rb_new 16384) (m0 + 1))" "snd_una ?c = m0"
      "read_seq ?c = n0 + 1" "laddr ?c = la" "raddr ?c = ra" "mss ?c = 1220" "cb ?c" "state ?c = TCP_SYN_RECVD" "e_timeout ?c = 0"
    using assms by (simp_all add: session_tcb_def window_update_def Let_def fresh_tcb_def needle_def zero_tcb_def)
  have s: "ringbuf_ok (rb_set (rb_new 16384) x)" "buf_size (rb_set (rb_new 16384) x) = 16384" "used (rb_set (rb_new 16384) x) = 0"
      "w_seq (rb_set (rb_new 16384) x) = x" for x
    using rb_set_ok [OF r(1)] r by (simp_all add: rb_set_def)
  have "seq_ok ?c"
    unfolding seq_ok_def using f s by (intro exI [of _ "rb_set (rb_new 16384) (m0 + 1)"] exI [of _ 2]) simp
  then show "tcb_ok ?c"
    using f s assms by (simp add: tcb_ok_def conn_ok_def in_ok_def)
qed (use assms in \<open>simp_all add: session_tcb_def window_update_def Let_def fresh_tcb_def needle_def zero_tcb_def key_of_def\<close>)

text \<open>The table with the new connection in it.\<close>

lemma tcp_ok_insert:
  assumes ok: "tcp_ok lt w" and T: "table_ok w T" "dom (tcbs w) = set (addrs T)" "conns w T listen_key = Some lt"
    and k: "conns w T (Conn_key rp lp ra) = None" "length ra = 16" and t: "tcbs w t = None" "t \<noteq> 0" "aligned t"
  shows "\<exists>s. tcb_new t (Some la) lp (Some ra) rp w =
      Some (w\<lparr>tcbs := (tcbs w)(t \<mapsto> fresh_tcb (Some la) lp (Some ra) rp (now w)), tcblist := s\<rparr>) \<and>
    (\<forall>w' c. tcbs w' = (tcbs w)(t \<mapsto> c) \<longrightarrow> tcblist w' = s \<longrightarrow> key_of c = Conn_key rp lp ra \<longrightarrow> tcb_ok c \<longrightarrow> tcp_ok lt w')"
proof -
  have tn: "t \<notin> set (addrs T)" "lt \<in> set (addrs T)"
    using T t(1) conns_Some [OF T(1)] by blast+
  let ?c = "fresh_tcb (Some la) lp (Some ra) rp (now w)"
  obtain s T' where s: "tcb_new t (Some la) lp (Some ra) rp w = Some (w\<lparr>tcbs := (tcbs w)(t \<mapsto> ?c), tcblist := s\<rparr>)"
      "table_ok (w\<lparr>tcbs := (tcbs w)(t \<mapsto> ?c), tcblist := s\<rparr>) T'" "set (addrs T') = insert t (set (addrs T))"
    using tcb_new_ok [OF T(1) _ tn(1) t(2,3), of "Some ra" "Some la" lp rp] k by (auto simp: needle_key)
  let ?w = "w\<lparr>tcbs := (tcbs w)(t \<mapsto> ?c), tcblist := s\<rparr>"
  have "tcp_ok lt w'" if h: "tcbs w' = (tcbs w)(t \<mapsto> c)" "tcblist w' = s" "key_of c = Conn_key rp lp ra" "tcb_ok c" for w' c
  proof -
    have kt: "key_at ?w t = Conn_key rp lp ra"
      using k(2) by (simp add: key_at_def fresh_tcb_def key_of_def needle_def)
    have "\<exists>y. tcbs w' x = Some y \<and> key_of y = key_at ?w x" if "x \<in> set (addrs T')" for x
    proof (cases "x = t")
      case False
      then have "x \<in> dom (tcbs w)"
        using that s(3) T(2) by simp
      then show ?thesis
        using False h(1) by (auto simp: key_at_def)
    qed (use h(1,3) kt in simp)
    then have T': "table_ok w' T'" "conns w' T' = conns ?w T'"
      using table_ok_frame [OF s(2), of w'] h(2) by simp_all
    have "key_at ?w lt = key_at w lt"
      using tn by (auto simp: key_at_def)
    then have "conns ?w T' listen_key = Some lt"
      using conns_Some [OF s(2), of listen_key lt] conns_Some [OF T(1), of listen_key lt] T(3) s(3) by simp
    moreover have "dom (tcbs w') = set (addrs T')"
      using h(1) T(2) s(3) by auto
    moreover have "\<exists>l. tcbs w' lt = Some l \<and> listener l"
      using ok h(1) tn by (auto simp: tcp_ok_def)
    moreover have "tcb_ok d" if "tcbs w' x = Some d" "x \<noteq> lt" for x d
      using ok h(1,4) that by (cases "x = t") (auto simp: tcp_ok_def)
    ultimately show ?thesis
      using T' unfolding tcp_ok_def by metis
  qed
  then show ?thesis
    using s(1) by blast
qed

subsection \<open>A reset for a segment without a connection\<close>

context link_driver
begin

lemma fabricate_rst_ok:
  assumes p: "60 \<le> length data" and ok: "nd_ok ifc head (nlist w)"
  shows "\<exists>ck q lp rp seq ack ns fs. tcp_fabricate_rst ifc data w = Some (w\<lparr>nlist := ns, sent := sent w @ fs\<rparr>) \<and> nd_ok ifc head ns \<and>
    handed_over ifc head q (nlist w) ns fs \<and> sendable head q \<and> make_cksum (packet q) 60 = Some 0xffff \<and>
    GET_16 data 42 = Some lp \<and> GET_16 data 40 = Some rp \<and> GET_32 data 44 = Some seq \<and> GET_32 data 48 = Some ack \<and>
    packet q = tcp_bytes 20 (take 16 (drop 24 data)) (take 16 (drop 8 data)) lp rp ack (seq + 1) 0x50 0x14 0 ck"
proof -
  obtain lp rp seq ack where g: "GET_16 data 42 = Some lp" "GET_16 data 40 = Some rp" "GET_32 data 44 = Some seq" "GET_32 data 48 = Some ack"
    using p by (simp add: GET_32_def GET_16_def mem_simps)
  let ?src = "take 16 (drop 24 data)" and ?dst = "take 16 (drop 8 data)"
  have m: "mem_sub data 24 16 = Some ?src" "mem_sub data 8 16 = Some ?dst" and a: "length ?src = 16" "length ?dst = 16"
    using p by (simp_all add: mem_simps)
  have w0: "be16 0 = [0, 0]"
    by (simp add: be16_def)
  have z: "mem_put (pb_d (get_buffer ifc 60)) 0 (replicate 60 0) = Some (replicate 60 0)"
    by (simp add: buffer_d mem_put_def)
  let ?h = "tcp_bytes 20 ?src ?dst lp rp ack (seq + 1) 0x50 0x14 0"
  obtain c where c: "make_cksum (?h 0 @ []) 60 = Some c" "make_cksum (?h (NOT c) @ []) 60 = Some 0xffff"
    using tcp_cksum [OF a, where len = 60 and rest = "[]" and n = 20 and sp = lp and dp = rp and seq = ack and ack = "seq + 1" and off = "0x50" and flags = "0x14" and wnd = 0]
    by auto
  let ?q = "(pb_set (get_buffer ifc 60) (?h (NOT c)))\<lparr>pb_dlen := 60\<rparr>"
  have ld: "length (?h (NOT c)) = nat 60"
    using length_tcp_bytes [OF a] by simp
  have le: "(40 :: int) \<le> 60" "(60 :: int) \<le> 60"
    by simp_all
  note q = buffer_done [OF ld le]
  have pk: "packet ?q = ?h (NOT c)"
    unfolding q(3) using ld by simp
  obtain ns fs where n: "send_pkt ifc ?q w = Some (w\<lparr>nlist := ns, sent := sent w @ fs\<rparr>)" "nd_ok ifc head ns" "handed_over ifc head ?q (nlist w) ns fs"
    using send_pkt_ok [OF q(1) ok] by blast
  have "tcp_fabricate_rst ifc data w = send_pkt ifc ?q w"
    unfolding tcp_fabricate_rst_def Let_def z Option.bind.simps m g unfolding replicate_60
    using a c(1) by (simp add: put_simps tcp_bytes_def w0 push_bit_eq_mult)
  then show ?thesis
    using n q(1) c(2) pk g by (intro exI [of _ "NOT c"] exI [of _ ?q] exI [of _ lp] exI [of _ rp] exI [of _ seq] exI [of _ ack] exI [of _ ns] exI [of _ fs]) simp
qed

end

subsection \<open>Looking up the connection of a segment\<close>

lemma tcp_ok_lt: "tcp_ok lt w \<Longrightarrow> tcbs w lt = Some c \<Longrightarrow> listener c \<and> key_of c = listen_key"
  using conns_Some by (fastforce simp: tcp_ok_def key_at_def)

lemma tcp_ok_free:
  assumes "tcp_ok lt w" "\<forall>x c. tcbs w x = Some c \<longrightarrow> key_of c \<noteq> k"
  obtains T where "table_ok w T" "dom (tcbs w) = set (addrs T)" "conns w T listen_key = Some lt" "conns w T k = None"
proof -
  obtain T where T: "table_ok w T" "dom (tcbs w) = set (addrs T)" "conns w T listen_key = Some lt"
    using assms(1) by (auto simp: tcp_ok_def)
  have "key_at w x \<noteq> k" if "x \<in> set (addrs T)" for x
  proof -
    have "x \<in> dom (tcbs w)"
      using that T(2) by simp
    then obtain c where "tcbs w x = Some c"
      by blast
    moreover from this have "key_of c \<noteq> k"
      using assms(2) by blast
    ultimately show ?thesis
      by (simp add: key_at_def)
  qed
  then show ?thesis
    using that T by (simp add: conns_None)
qed

lemma tcb_find_tcp:
  assumes ok: "tcp_ok lt w" and ra: "length ra = 16"
  shows "\<exists>t. tcb_find (Some la) lp (Some ra) rp w = Some t \<and>
    ((\<exists>c. tcbs w t = Some c \<and> key_of c = Conn_key rp lp ra) \<or>
     (\<forall>x c. tcbs w x = Some c \<longrightarrow> key_of c \<noteq> Conn_key rp lp ra) \<and> t = (if lp > 0 then lt else 0))"
proof -
  obtain T where T: "table_ok w T" "dom (tcbs w) = set (addrs T)" "conns w T listen_key = Some lt"
    using ok by (auto simp: tcp_ok_def)
  have f: "tcb_find (Some la) lp (Some ra) rp w = (case conns w T (Conn_key rp lp ra) of
        Some x \<Rightarrow> Some x | None \<Rightarrow> if lp > 0 then conns w T listen_key else Some 0)"
    using tcb_find_ok [OF T(1), of ra la lp rp] ra by simp
  show ?thesis
  proof (cases "conns w T (Conn_key rp lp ra)")
    case None
    have "key_of c \<noteq> Conn_key rp lp ra" if "tcbs w x = Some c" for x c
    proof -
      have "x \<in> set (addrs T)"
        using that T(2) by blast
      then show ?thesis
        using None that by (auto simp: conns_None key_at_def)
    qed
    then show ?thesis
      using f None T(3) by simp
  next
    case (Some x)
    then have "x \<in> set (addrs T)" "key_at w x = Conn_key rp lp ra"
      using conns_Some [OF T(1)] by blast+
    then have "\<exists>c. tcbs w x = Some c \<and> key_of c = Conn_key rp lp ra"
      using T(2) by (force simp: key_at_def)
    then show ?thesis
      using f Some by simp
  qed
qed

subsection \<open>The handler\<close>

text \<open>
  The segments the invariant is proved for: the header is there, so is one byte behind the segment
  (\<open>tcp_recv_data\<close> writes it), the ports and the source address are not all zero, and the
  acknowledgement number fits the connection.
\<close>

definition seg_key :: "byte list \<Rightarrow> conn_key option" where
  "seg_key p = do { lp \<leftarrow> GET_16 p 42; rp \<leftarrow> GET_16 p 40; Some (Conn_key rp lp (take 16 (drop 8 p))) }"

definition seg_ok :: "byte list \<Rightarrow> int \<Rightarrow> world \<Rightarrow> bool" where
  "seg_ok p len w \<longleftrightarrow> 60 \<le> length p \<and> nat len < length p \<and> seg_key p \<noteq> Some listen_key \<and>
     (uint (p ! 53) AND 0x10 \<noteq> 0 \<longrightarrow> (\<forall>t c ack. tcbs w t = Some c \<longrightarrow> seg_key p = Some (key_of c) \<longrightarrow>
        GET_32 p 48 = Some ack \<longrightarrow> ack_sane c ack))"

text \<open>
  A server takes new connections as well. \<open>spare\<close> says that the memory the application will be given is
  unused; when it is called, the new connection is there but not yet one of its own.
\<close>

locale tcp_server = tcp_app ifc head cbs app for ifc head cbs app +
  fixes spare :: "world \<Rightarrow> bool"
  assumes spare_frame: "spare w \<Longrightarrow> app_same w w' \<Longrightarrow> spare w'"
    and incoming_law: "sys_ok ifc head app lt P ((sess w)(t := None)) w Q \<Longrightarrow> spare w \<Longrightarrow> tcbs w t = Some c \<Longrightarrow> t \<noteq> lt \<Longrightarrow>
      state c = TCP_SYN_RECVD \<Longrightarrow> \<exists>w' Q'. incoming_session cbs t w = Some w' \<and> sys_ok ifc head app lt P (sess w') w' Q'"
begin

lemma handle_listen_sys:
  assumes s: "sys lt P (sess w) w Q" and T: "table_ok w T" "dom (tcbs w) = set (addrs T)" "conns w T listen_key = Some lt"
    and k: "conns w T (Conn_key rp lp (take 16 (drop 8 p))) = None" and p: "60 \<le> length p"
    and t: "tcbs w nt = None" "nt \<noteq> 0" "aligned nt" "spare w"
  shows "\<exists>w' Q'. handle_listen cbs ifc nt p lp rp flags lt w = Some w' \<and> sys lt P (sess w') w' Q'"
proof (cases "flags = 2")
  case False
  obtain ns fs where r: "tcp_fabricate_rst ifc p w = Some (w\<lparr>nlist := ns, sent := sent w @ fs\<rparr>)" "nd_ok ifc head ns"
    using fabricate_rst_ok [OF p sys_nd [OF s]] by blast
  let ?w = "w\<lparr>nlist := ns, sent := sent w @ fs\<rparr>"
  have "sys lt P (sess ?w) ?w Q"
    using sys_frame [OF s, of ?w] r(2) sess_cong [of ?w w] by (simp add: app_same_def)
  then show ?thesis
    using False r(1) by (auto simp: handle_listen_def)
next
  case True
  let ?la = "take 16 (drop 24 p)" and ?ra = "take 16 (drop 8 p)"
  obtain irs wnd where g: "GET_32 p 44 = Some irs" "GET_16 p 54 = Some wnd"
    using p by (simp add: GET_32_def GET_16_def mem_simps)
  have m: "mem_sub p 24 16 = Some ?la" "mem_sub p 8 16 = Some ?ra" "length ?la = 16" "length ?ra = 16"
    using p by (simp_all add: mem_simps)
  have ok: "tcp_ok lt w" "tcp_ok lt w"
    using s by (simp_all add: sys_ok_def)
  then obtain l where l: "tcbs w lt = Some l" "cb l"
    by (auto simp: tcp_ok_def listener_def)
  have ln: "nt \<noteq> lt"
    using l(1) t(1) by auto
  obtain s1 where n: "tcb_new nt (Some ?la) lp (Some ?ra) rp w =
      Some (w\<lparr>tcbs := (tcbs w)(nt \<mapsto> fresh_tcb (Some ?la) lp (Some ?ra) rp (now w)), tcblist := s1\<rparr>)"
    and ins: "\<forall>w' c. tcbs w' = (tcbs w)(nt \<mapsto> c) \<longrightarrow> tcblist w' = s1 \<longrightarrow> key_of c = Conn_key rp lp ?ra \<longrightarrow> tcb_ok c \<longrightarrow> tcp_ok lt w'"
    using tcp_ok_insert [OF ok(1) T k m(4) t(1-3)] by blast
  let ?i = "push_bit 16 (isn w + 1)"
  let ?c = "session_tcb ?la lp ?ra rp irs ?i (word_of_int wnd) True (fresh_tcb (Some ?la) lp (Some ?ra) rp (now w))"
  let ?w = "w\<lparr>tcblist := s1, isn := isn w + 1, tcbs := (tcbs w)(nt \<mapsto> ?c)\<rparr>"
  note sc = session_tcb_ok [OF m(3,4)]
  have "tcp_ok lt ?w"
    using ins sc(1,2) by simp
  moreover have "events_ok P ?w Q"
    by (rule events_new [OF sys_events [OF s] t(1), of ?c]) (use sc(5,6) events_ok_evq [OF sys_events [OF s]] in simp_all)
  moreover have sn: "sess w nt = None" "(sess ?w)(nt := None) = sess w"
    using t(1) by (auto simp: sess_def fun_eq_iff)
  moreover have "app (sess w) ?w"
    by (rule app_frame [OF sys_app [OF s]]) (use sn(1) in \<open>auto simp: app_same_def space_def\<close>)
  ultimately have s2: "sys lt P ((sess ?w)(nt := None)) ?w Q"
    using s by (simp add: sys_ok_def)
  have sp: "spare ?w"
    by (rule spare_frame [OF t(4)]) (simp add: app_same_def)
  obtain w' Q' where o: "incoming_session cbs nt ?w = Some w'" "sys lt P (sess w') w' Q'"
    using incoming_law [OF s2 sp, of ?c] ln sc(3) by auto
  have "handle_listen cbs ifc nt p lp rp flags lt w = Some w'"
    using True g m n l ln o(1) sc(4) by (simp add: handle_listen_def next_isn_def t_upd_def Let_def call_cb_def)
  then show ?thesis
    using o(2) by blast
qed

lemma handle_conn_sys:
  assumes s: "sys lt P (sess w) w Q" and c: "tcbs w t = Some c" "t \<noteq> lt" and p: "60 \<le> length p" "nat len < length p"
    and k: "GET_32 p 48 = Some ack" "(flags :: int) AND 0x10 \<noteq> 0 \<Longrightarrow> ack_sane c ack"
  shows "\<exists>w' Q'. (if flags AND 0x4 \<noteq> 0 then handle_rst cbs t w
       else do {
         r \<leftarrow> (if flags AND 0x10 \<noteq> 0 then handle_ack cbs t p w else Some (Inr w));
         (case r of Inl w \<Rightarrow> Some w | Inr w \<Rightarrow> handle_data cbs ifc t p len w)
       }) = Some w' \<and> sys lt P (sess w') w' Q'"
proof (cases "flags AND 0x4 = 0")
  case True
  have "goes_on lt P t (Inr w)"
    using s c(1) by (auto simp: goes_on_def)
  then obtain r where r: "(if flags AND 0x10 \<noteq> 0 then handle_ack cbs t p w else Some (Inr w)) = Some r" "goes_on lt P t r"
    using handle_ack_sys [OF s c k(1)] k(2) by (cases "flags AND 0x10 = 0") auto
  show ?thesis
  proof (cases r)
    case (Inl w')
    then show ?thesis
      using r(2) unfolding r(1) by (auto simp: goes_on_def True)
  next
    case (Inr w')
    then obtain Q' c' where "sys lt P (sess w') w' Q'" "tcbs w' t = Some c'"
      using r(2) by (auto simp: goes_on_def)
    from handle_data_sys [OF this c(2) p] show ?thesis
      unfolding r(1) by (simp add: Inr True)
  qed
qed (use handle_rst_sys [OF s c] in simp)

lemma handle_tcp_sys:
  assumes s: "sys lt P (sess w) w Q" and p: "seg_ok p len w" and t: "tcbs w nt = None" "nt \<noteq> 0" "aligned nt" "spare w"
  shows "\<exists>w' Q'. handle_tcp cbs ifc nt p len w = Some w' \<and> sys lt P (sess w') w' Q'"
proof -
  have len: "60 \<le> length p" "nat len < length p"
    using p by (simp_all add: seg_ok_def)
  let ?la = "take 16 (drop 24 p)" and ?ra = "take 16 (drop 8 p)" and ?b = "p ! 53"
  obtain lp rp ack where g: "GET_16 p 42 = Some lp" "GET_16 p 40 = Some rp" "GET_32 p 48 = Some ack"
    using len(1) by (simp add: GET_32_def GET_16_def mem_simps)
  have m: "mem_sub p 24 16 = Some ?la" "mem_sub p 8 16 = Some ?ra" "length ?ra = 16" "mem_get p 53 = Some ?b"
    using len(1) by (simp_all add: mem_simps)
  let ?k = "Conn_key rp lp ?ra" and ?f = "uint ?b AND 0x3f"
  have k: "?k \<noteq> listen_key" "\<And>t c. tcbs w t = Some c \<Longrightarrow> key_of c = ?k \<Longrightarrow> uint ?b AND 0x10 \<noteq> 0 \<Longrightarrow> ack_sane c ack"
    using p g by (auto simp: seg_ok_def seg_key_def)
  have ok: "tcp_ok lt w"
    using s by (simp add: sys_ok_def)
  obtain t where f: "tcb_find (Some ?la) lp (Some ?ra) rp w = Some t"
      "(\<exists>c. tcbs w t = Some c \<and> key_of c = ?k) \<or> (\<forall>x c. tcbs w x = Some c \<longrightarrow> key_of c \<noteq> ?k) \<and> t = (if lp > 0 then lt else 0)"
    using tcb_find_tcp [OF ok m(3), of ?la lp rp] by blast
  have start: "handle_tcp cbs ifc nt p len w = (if t = 0 then tcp_fabricate_rst ifc p w
     else do {
       w \<leftarrow> t_upd t (\<lambda>c. c\<lparr>atime := now w\<rparr>) w;
       c \<leftarrow> tcbs w t;
       if state c = TCP_LISTEN then handle_listen cbs ifc nt p lp rp ?f t w
       else (if ?f AND 0x4 \<noteq> 0 then handle_rst cbs t w
       else do {
         r \<leftarrow> (if ?f AND 0x10 \<noteq> 0 then handle_ack cbs t p w else Some (Inr w));
         (case r of Inl w \<Rightarrow> Some w | Inr w \<Rightarrow> handle_data cbs ifc t p len w)
       })
     })"
    unfolding handle_tcp_def g m Option.bind.simps Let_def f(1) ..
  show ?thesis
  proof (cases "t = 0")
    case True
    obtain ns fs where r: "tcp_fabricate_rst ifc p w = Some (w\<lparr>nlist := ns, sent := sent w @ fs\<rparr>)" "nd_ok ifc head ns"
      using fabricate_rst_ok [OF len(1) sys_nd [OF s]] by blast
    let ?w = "w\<lparr>nlist := ns, sent := sent w @ fs\<rparr>"
    have "sys lt P (sess ?w) ?w Q"
      using sys_frame [OF s, of ?w] r(2) sess_cong [of ?w w] by (simp add: app_same_def)
    then show ?thesis
      unfolding start using True r(1) by auto
  next
    case False
    then obtain c where c: "tcbs w t = Some c"
      using f(2) ok by (auto simp: tcp_ok_def split: if_splits)
    let ?c = "c\<lparr>atime := now w\<rparr>"
    let ?w = "w\<lparr>tcbs := (tcbs w)(t \<mapsto> ?c)\<rparr>"
    have u: "t_upd t (\<lambda>c. c\<lparr>atime := now w\<rparr>) w = Some ?w" "tcbs ?w t = Some ?c" "state ?c = state c"
      using c by (simp_all add: t_upd_def)
    have "sys lt P (sess w) ?w Q"
      by (rule sys_upd [OF s c grows_same]) (use tcp_ok_tcb [OF ok c] tcp_ok_lt [OF ok] c in \<open>auto simp: listener_def\<close>)
    moreover have "sess ?w = sess w"
      by (rule sess_same [OF c, of _ ?c]) simp_all
    ultimately have s1: "sys lt P (sess ?w) ?w Q"
      by simp
    have keys: "(\<forall>x c. tcbs ?w x = Some c \<longrightarrow> key_of c \<noteq> ?k) \<longleftrightarrow> (\<forall>x c. tcbs w x = Some c \<longrightarrow> key_of c \<noteq> ?k)"
      using c by (auto simp: fun_upd_apply split: if_splits)
    show ?thesis
    proof (cases "t = lt")
      case True
      then have st: "state c = TCP_LISTEN"
        using tcp_ok_listen [OF ok c] by simp
      have "\<forall>x c. tcbs w x = Some c \<longrightarrow> key_of c \<noteq> ?k"
        using f(2) c k(1) True tcp_ok_lt [OF ok] by auto
      then have "\<forall>x c. tcbs ?w x = Some c \<longrightarrow> key_of c \<noteq> ?k"
        using keys by blast
      moreover have "tcp_ok lt ?w"
        using s1 by (simp add: sys_ok_def)
      ultimately obtain T where T: "table_ok ?w T" "dom (tcbs ?w) = set (addrs T)" "conns ?w T listen_key = Some lt" "conns ?w T ?k = None"
        using tcp_ok_free by blast
      have "tcbs ?w nt = None" "spare ?w"
        using t(1) c spare_frame [OF t(4), of ?w] by (auto simp: app_same_def)
      from handle_listen_sys [OF s1 T len(1) this(1) t(2,3) this(2)] show ?thesis
        unfolding start u if_not_P [OF False] Option.bind.simps st if_P [OF refl] unfolding True by simp
    next
      case nl: False
      then have st: "state c \<noteq> TCP_LISTEN" and key: "key_of c = ?k"
        using tcp_ok_listen [OF ok c] f(2) False c by (auto split: if_splits)
      have "?f AND 0x10 \<noteq> 0 \<Longrightarrow> ack_sane c ack"
        using k(2) [OF c key] by (simp add: and.assoc)
      moreover have "ack_sane ?c ack = ack_sane c ack"
        by (simp add: ack_sane_def)
      ultimately have sane: "?f AND 0x10 \<noteq> 0 \<Longrightarrow> ack_sane ?c ack"
        by blast
      show ?thesis
        unfolding start u if_not_P [OF False] Option.bind.simps if_not_P [OF st]
        by (rule handle_conn_sys [OF s1 u(2) nl len g(3) sane])
    qed
  qed
qed

end

end
