(* ===== verification/Relay.thy ===== *)
theory Relay
  imports Ptrtd_Tcp Tcp_Handler Udp
begin

text \<open>
  The relay as the application of the TCP stack: \<open>tcp_map_cb\<close> meets the contracts \<open>tcp_app\<close> and
  \<open>tcp_server\<close>, so every handler of the stack keeps the invariant of the daemon, and so do the relay's
  own handlers for its sockets.
\<close>

subsection \<open>The invariant of the maps\<close>

text \<open>
  Every map is in the list once, the maps are exactly those of the sessions, and a socket is only
  watched for reading while there is room for what it delivers: \<open>handle_fd_can_read\<close> leaves its event
  pointer dangling when it finds no room.
\<close>

definition relay_ok :: "(ptr \<rightharpoonup> nat) \<Rightarrow> world \<Rightarrow> bool" where
  "relay_ok S w \<longleftrightarrow> distinct (tlist w) \<and> set (tlist w) = dom (maps w) \<and> num_tcp_maps w = int (length (tlist w)) \<and>
     (\<forall>t m. S t = Some m \<longleftrightarrow> (\<exists>x. maps w m = Some x \<and> m_tcb x = t)) \<and>
     (\<forall>m x. maps w m = Some x \<longrightarrow> e_fd_read x \<noteq> 0 \<longrightarrow> 0 < space w (m_tcb x))"

definition udp_ok :: "world \<Rightarrow> bool" where
  "udp_ok w \<longleftrightarrow> umaps_ok w \<and> set (udp_list w) \<subseteq> dom (socks w) \<and> udp_listener w \<in> set (udp_list w)"

definition apps_ok :: "(ptr \<rightharpoonup> nat) \<Rightarrow> world \<Rightarrow> bool" where
  "apps_ok S w \<longleftrightarrow> relay_ok S w \<and> udp_ok w"

lemma relay_ok_session: "relay_ok S w \<Longrightarrow> S t = Some m \<Longrightarrow> \<exists>x. maps w m = Some x \<and> m_tcb x = t"
  by (simp add: relay_ok_def)

lemma relay_ok_map: "relay_ok S w \<Longrightarrow> maps w m = Some x \<Longrightarrow> S (m_tcb x) = Some m"
  by (simp add: relay_ok_def)

lemma relay_ok_room: "relay_ok S w \<Longrightarrow> maps w m = Some x \<Longrightarrow> e_fd_read x \<noteq> 0 \<Longrightarrow> 0 < space w (m_tcb x)"
  by (simp add: relay_ok_def)

lemma space_cong: "tcbs w' = tcbs w \<Longrightarrow> space w' t = space w t"
  by (simp add: space_def)

lemma udp_ok_cong: "umaps w' = umaps w \<Longrightarrow> ulist w' = ulist w \<Longrightarrow> socks w' = socks w \<Longrightarrow> udp_list w' = udp_list w \<Longrightarrow> udp_listener w' = udp_listener w \<Longrightarrow> udp_ok w' = udp_ok w"
  using umaps_ok_cong [of w' w] by (simp add: udp_ok_def)

lemma relay_frame:
  assumes "relay_ok S w" "app_same w w'" "\<And>t m. S t = Some m \<Longrightarrow> space w t \<le> space w' t"
  shows "relay_ok S w'"
proof -
  have "0 < space w' (m_tcb x)" if "maps w m = Some x" "e_fd_read x \<noteq> 0" for m x
    using relay_ok_room [OF assms(1) that] assms(3) [OF relay_ok_map [OF assms(1) that(1)]] by simp
  then show ?thesis
    using assms(1,2) by (simp add: relay_ok_def app_same_def)
qed

text \<open>A map changes, is freed, or is made.\<close>

lemma relay_set:
  assumes "relay_ok S w" "maps w m = Some x" "m_tcb x' = m_tcb x" "e_fd_read x' \<noteq> 0 \<Longrightarrow> 0 < space w (m_tcb x)"
    and w': "maps w' = (maps w)(m \<mapsto> x')" "tlist w' = tlist w" "num_tcp_maps w' = num_tcp_maps w" "tcbs w' = tcbs w"
  shows "relay_ok S w'"
proof -
  have sp: "space w' = space w"
    using space_cong [OF w'(4)] by blast
  have "(\<exists>y. maps w' n = Some y \<and> m_tcb y = t) \<longleftrightarrow> (\<exists>y. maps w n = Some y \<and> m_tcb y = t)" for n t
    using assms(2,3) w'(1) by (cases "n = m") auto
  moreover have "0 < space w (m_tcb y)" if "maps w' n = Some y" "e_fd_read y \<noteq> 0" for n y
    using that assms(1,3,4) w'(1) by (cases "n = m") (auto simp: relay_ok_def)
  moreover have "dom (maps w') = dom (maps w)"
    using assms(2) w'(1) by auto
  ultimately show ?thesis
    using assms(1) w' sp by (simp add: relay_ok_def)
qed

lemma relay_kill:
  assumes "relay_ok S w" "maps w m = Some x"
    and w': "maps w' = (maps w)(m := None)" "tlist w' = remove1 m (tlist w)" "num_tcp_maps w' = num_tcp_maps w - 1" "tcbs w' = tcbs w"
  shows "relay_ok (S(m_tcb x := None)) w'"
proof -
  have sp: "space w' = space w"
    using space_cong [OF w'(4)] by blast
  have m: "m \<in> set (tlist w)" "distinct (tlist w)"
    using assms(1,2) by (auto simp: relay_ok_def)
  have "(S(m_tcb x := None)) t = Some n \<longleftrightarrow> (\<exists>y. maps w' n = Some y \<and> m_tcb y = t)" for n t
  proof (cases "n = m")
    case True
    then show ?thesis
      using assms(1,2) w'(1) by (auto simp: relay_ok_def)
  next
    case False
    have "S t = Some n \<longleftrightarrow> (\<exists>y. maps w n = Some y \<and> m_tcb y = t)" "S (m_tcb x) = Some m"
      using assms(1,2) by (simp_all add: relay_ok_def)
    then show ?thesis
      using False w'(1) by (cases "t = m_tcb x") auto
  qed
  moreover have "0 < space w (m_tcb y)" if "maps w' n = Some y" "e_fd_read y \<noteq> 0" for n y
    using that assms(1) w'(1) by (cases "n = m") (auto simp: relay_ok_def)
  moreover have "set (tlist w') = dom (maps w')" "distinct (tlist w')"
    using assms(1) w' m by (auto simp: relay_ok_def)
  moreover have "num_tcp_maps w' = int (length (tlist w'))"
    using assms(1) w'(2,3) m length_pos_if_in_set [OF m(1)] by (simp add: relay_ok_def length_remove1 of_nat_diff Suc_leI)
  ultimately show ?thesis
    using sp by (simp add: relay_ok_def)
qed

lemma relay_new:
  assumes "relay_ok S w" "maps w m = None" "S t = None" "m_tcb x = t" "e_fd_read x = 0"
    and w': "maps w' = (maps w)(m \<mapsto> x)" "tlist w' = m # tlist w" "num_tcp_maps w' = num_tcp_maps w + 1" "\<And>t. space w' t = space w t"
  shows "relay_ok (S(t \<mapsto> m)) w'"
proof -
  have "(S(t \<mapsto> m)) u = Some n \<longleftrightarrow> (\<exists>y. maps w' n = Some y \<and> m_tcb y = u)" for n u
  proof (cases "n = m")
    case True
    then show ?thesis
      using assms(1-4) w'(1) by (auto simp: relay_ok_def)
  next
    case False
    have "S u = Some n \<longleftrightarrow> (\<exists>y. maps w n = Some y \<and> m_tcb y = u)"
      using assms(1) by (simp add: relay_ok_def)
    then show ?thesis
      using False assms(3) w'(1) by (cases "u = t") auto
  qed
  moreover have "0 < space w (m_tcb y)" if "maps w' n = Some y" "e_fd_read y \<noteq> 0" for n y
    using that assms(1,5) w'(1) by (cases "n = m") (auto simp: relay_ok_def)
  moreover have "set (tlist w') = dom (maps w')" "num_tcp_maps w' = int (length (tlist w'))" "distinct (tlist w')"
    using assms(1,2) w' by (auto simp: relay_ok_def)
  ultimately show ?thesis
    using w'(4) by (simp add: relay_ok_def)
qed

subsection \<open>The callbacks of the relay\<close>

text \<open>The state the callbacks leave alone.\<close>

definition only_maps :: "world \<Rightarrow> world \<Rightarrow> bool" where
  "only_maps w w' \<longleftrightarrow> tcp_same w w' \<and> umaps w' = umaps w \<and> ulist w' = ulist w \<and> socks w' = socks w \<and> udp_list w' = udp_list w \<and>
     udp_listener w' = udp_listener w"

lemma only_maps_udp: "only_maps w w' \<Longrightarrow> udp_ok w' = udp_ok w" "only_maps w w' \<Longrightarrow> tcp_same w w'"
  using udp_ok_cong [of w' w] by (simp_all add: only_maps_def)

lemma kill_map_ok:
  assumes ev: "events_ok P w Q" and x: "maps w m = Some x" and r: "relay_ok S w"
  shows "\<exists>w' Q'. kill_map m w = Some w' \<and> events_ok P w' Q' \<and> only_maps w w' \<and> relay_ok (S(m_tcb x := None)) w' \<and> maps w' = (maps w)(m := None)"
proof -
  let ?wh = "if m_fd x \<ge> 0 then host (Close (m_fd x)) w else w"
  have f0: "evq ?wh Q" "tcp_same w ?wh" "app_same w ?wh"
    using events_ok_evq [OF ev] by (simp_all add: host_def tcp_same_def app_same_def)
  note te = map_event [OF ev x]
  have "e_fd_write x \<noteq> 0 \<Longrightarrow> Q (e_fd_write x) \<noteq> None" "e_fd_read x \<noteq> 0 \<Longrightarrow> Q (e_fd_read x) \<noteq> None \<and> e_fd_read x \<noteq> e_fd_write x"
    using te by force+
  from evl.remove_two [OF f0(1) this] obtain w1 where
    a: "do { w \<leftarrow> (if e_fd_write x \<noteq> 0 then remove_event (e_fd_write x) ?wh else Some ?wh);
        if e_fd_read x \<noteq> 0 then remove_event (e_fd_read x) w else Some w } = Some w1"
      "evq w1 (Q(e_fd_write x := None, e_fd_read x := None))" "evs.more w1 = evs.more ?wh"
    by blast
  note f = evs_frame [OF a(3)]
  let ?w = "w1\<lparr>tlist := remove1 m (tlist w1), num_tcp_maps := num_tcp_maps w1 - 1, maps := (maps w1)(m := None)\<rparr>"
  have g: "maps ?w = (maps w)(m := None)" "tlist ?w = remove1 m (tlist w)" "num_tcp_maps ?w = num_tcp_maps w - 1" "tcbs ?w = tcbs w"
      "umaps ?w = umaps w" "only_maps w ?w"
    using f f0(2,3) by (simp_all add: tcp_same_def app_same_def only_maps_def)
  have "kill_map m w = do { w \<leftarrow> do { w \<leftarrow> (if e_fd_write x \<noteq> 0 then remove_event (e_fd_write x) ?wh else Some ?wh);
        if e_fd_read x \<noteq> 0 then remove_event (e_fd_read x) w else Some w };
        Some (w\<lparr>tlist := remove1 m (tlist w), num_tcp_maps := num_tcp_maps w - 1, maps := (maps w)(m := None)\<rparr>) }"
    by (simp add: kill_map_def x Let_def bind_assoc)
  also have "\<dots> = Some ?w"
    unfolding a(1) by simp
  finally have "kill_map m w = Some ?w" .
  moreover have "events_ok P ?w (Q(e_fd_write x := None, e_fd_read x := None))"
    by (rule map_gone [OF ev x]) (use a(2) g in simp_all)
  ultimately show ?thesis
    using relay_kill [OF r x g(1-4)] g(1,6) by blast
qed

lemma output_space_ok:
  assumes ev: "events_ok P w Q" and r: "relay_ok S w" "S t = Some m"
  shows "\<exists>w' Q'. output_space m (space w t) w = Some w' \<and> events_ok P w' Q' \<and> only_maps w w' \<and> relay_ok S w'"
proof -
  obtain x where x: "maps w m = Some x" "m_tcb x = t"
    using relay_ok_session [OF r] by blast
  show ?thesis
  proof (cases "space w t > 0 \<and> e_fd_read x = 0")
    case True
    obtain e w1 where a: "add_fd_event (m_fd x) 0 (Handle_fd_can_read m) w = Some (e, w1)" "e \<noteq> 0" "Q e = None"
        "evq w1 (Q(e \<mapsto> (Fd, Handle_fd_can_read m)))" "evs.more w1 = evs.more w"
      using evl.fd_law [OF events_ok_evq [OF ev]] by blast
    note f = evs_frame [OF a(5)]
    let ?w = "w1\<lparr>maps := (maps w)(m \<mapsto> x\<lparr>e_fd_read := e\<rparr>)\<rparr>"
    have "events_ok P ?w (Q(e \<mapsto> (Fd, Handle_fd_can_read m)))"
      by (rule map_add_read [OF ev x(1) _ a(2,3)]) (use True a(4) f in simp_all)
    moreover have "relay_ok S ?w"
      by (rule relay_set [OF r(1) x(1), of "x\<lparr>e_fd_read := e\<rparr>"]) (use True x(2) f in simp_all)
    moreover have "output_space m (space w t) w = Some ?w"
      using True x a(1) f by (simp add: output_space_def m_upd_def)
    ultimately show ?thesis
      using f by (intro exI [of _ ?w] exI [of _ "Q(e \<mapsto> (Fd, Handle_fd_can_read m))"]) (simp add: only_maps_def tcp_same_def)
  next
    case False
    then have "output_space m (space w t) w = Some w"
      using x by (auto simp: output_space_def)
    then show ?thesis
      using ev r by (intro exI [of _ w] exI [of _ Q]) (simp add: only_maps_def tcp_same_def)
  qed
qed

lemma can_read_ok:
  assumes ev: "events_ok P w Q" and r: "relay_ok S w" "S t = Some m"
  shows "\<exists>w' Q'. can_read m n w = Some w' \<and> events_ok P w' Q' \<and> only_maps w w' \<and> relay_ok S w'"
proof -
  obtain x where x: "maps w m = Some x" "m_tcb x = t"
    using relay_ok_session [OF r] by blast
  show ?thesis
  proof (cases "e_fd_write x = 0")
    case True
    obtain e w1 where a: "add_fd_event (m_fd x) 1 (Handle_fd_can_write m) w = Some (e, w1)" "e \<noteq> 0" "Q e = None"
        "evq w1 (Q(e \<mapsto> (Fd, Handle_fd_can_write m)))" "evs.more w1 = evs.more w"
      using evl.fd_law [OF events_ok_evq [OF ev]] by blast
    note f = evs_frame [OF a(5)]
    let ?w = "w1\<lparr>maps := (maps w)(m \<mapsto> x\<lparr>e_fd_write := e\<rparr>)\<rparr>"
    have "events_ok P ?w (Q(e \<mapsto> (Fd, Handle_fd_can_write m)))"
      by (rule map_add_write [OF ev x(1) True a(2,3)]) (use a(4) f in simp_all)
    moreover have "relay_ok S ?w"
      by (rule relay_set [OF r(1) x(1), of "x\<lparr>e_fd_write := e\<rparr>"]) (use f relay_ok_room [OF r(1) x(1)] in simp_all)
    moreover have "can_read m n w = Some ?w"
      using True x a(1) f by (simp add: can_read_def m_upd_def)
    ultimately show ?thesis
      using f by (intro exI [of _ ?w] exI [of _ "Q(e \<mapsto> (Fd, Handle_fd_can_write m))"]) (simp add: only_maps_def tcp_same_def)
  next
    case False
    then have "can_read m n w = Some w"
      using x by (simp add: can_read_def)
    then show ?thesis
      using ev r by (intro exI [of _ w] exI [of _ Q]) (simp add: only_maps_def tcp_same_def)
  qed
qed

subsection \<open>The relay is an application of the stack\<close>

lemma apps_frame:
  assumes "apps_ok S w" "app_same w w'" "\<And>t m. S t = Some m \<Longrightarrow> space w t \<le> space w' t"
  shows "apps_ok S w'"
  using relay_frame [OF _ assms(2,3)] assms(1,2) udp_ok_cong [of w' w] by (simp add: apps_ok_def app_same_def)

sublocale link_driver < relay: tcp_app ifc head "tcp_map_cb ifc nm fd conn" apps_ok
  for nm fd conn
proof unfold_locales
  fix S w w'
  assume "apps_ok S w" "app_same w w'" "\<And>t m. S t = Some m \<Longrightarrow> space w t \<le> space w' t"
  then show "apps_ok S w'"
    by (rule apps_frame)
next
  fix S w t m P Q
  assume a: "apps_ok S w" "S t = Some m" "events_ok P w Q"
  obtain w' Q' where "output_space m (space w t) w = Some w'" "events_ok P w' Q'" "only_maps w w'" "relay_ok S w'"
    using output_space_ok [OF a(3), of S t m] a(2) a(1) by (auto simp: apps_ok_def)
  then show "\<exists>w' Q'. output_buffer_space (tcp_map_cb ifc nm fd conn) m (space w t) w = Some w' \<and> events_ok P w' Q' \<and> tcp_same w w' \<and> apps_ok S w'"
    using a(1) only_maps_udp [of w w'] by (intro exI [of _ w'] exI [of _ Q']) (simp add: tcp_map_cb_def apps_ok_def)
next
  fix S w t m P Q n
  assume a: "apps_ok S w" "S t = Some m" "events_ok P w Q"
  obtain w' Q' where "can_read m n w = Some w'" "events_ok P w' Q'" "only_maps w w'" "relay_ok S w'"
    using can_read_ok [OF a(3), of S t m n] a(2) a(1) by (auto simp: apps_ok_def)
  then show "\<exists>w' Q'. data_available (tcp_map_cb ifc nm fd conn) m n w = Some w' \<and> events_ok P w' Q' \<and> tcp_same w w' \<and> apps_ok S w'"
    using a(1) only_maps_udp [of w w'] by (intro exI [of _ w'] exI [of _ Q']) (simp add: tcp_map_cb_def apps_ok_def)
next
  fix S w t m P Q hard
  assume a: "apps_ok S w" "S t = Some m" "events_ok P w Q"
  obtain x where x: "maps w m = Some x" "m_tcb x = t"
    using relay_ok_session [of S w t m] a(1,2) by (auto simp: apps_ok_def)
  obtain w' Q' where "kill_map m w = Some w'" "events_ok P w' Q'" "only_maps w w'" "relay_ok (S(t := None)) w'"
    using kill_map_ok [OF a(3) x(1), of S] a(1) x(2) by (auto simp: apps_ok_def)
  then show "\<exists>w' Q'. closing (tcp_map_cb ifc nm fd conn) m hard w = Some w' \<and> events_ok P w' Q' \<and> tcp_same w w' \<and> apps_ok (S(t := None)) w'"
    using a(1) only_maps_udp [of w w'] by (intro exI [of _ w'] exI [of _ Q']) (simp add: tcp_map_cb_def map_closing_def apps_ok_def)
qed

subsection \<open>Sending and reading for the relay\<close>

text \<open>\<open>tcp_send\<close> takes the room the application asked for, so what it owes the application is shown after it.\<close>

lemma tcb_ok_append:
  assumes "tcb_ok c" "outbuf c = Some ob" "0 \<le> n" "nat n \<le> length d" "n \<le> rb_left ob" "cb c"
  shows "\<exists>ob'. rb_write ob d n = Some (n, ob') \<and> tcb_ok (c\<lparr>outbuf := Some ob'\<rparr>) \<and> rb_left ob' = rb_left ob - n \<and>
    content ob' = content ob @ take (nat n) d"
proof -
  have ob: "ringbuf_ok ob" "buf_size ob = 16384"
    using tcb_ok_outbuf [OF assms(1)] assms(2) by auto
  obtain ob' where w: "rb_write ob d n = Some (n, ob')" "ringbuf_ok ob'" "content ob' = content ob @ take (nat n) d"
      "w_seq ob' = w_seq ob + word_of_int n" "buf_size ob' = buf_size ob"
    using rb_write_ok [OF ob(1) assms(3,4)] assms(5) by (auto simp: min_def)
  have us: "used ob' = used ob + n"
    using length_content [OF ob(1)] length_content [OF w(2)] w(3) assms(3,4) by simp
  have "seq_ok (c\<lparr>outbuf := Some ob'\<rparr>)"
  proof (cases "state c = TCP_SYN_RECVD")
    case True
    then obtain u where "used ob < u" "u \<le> used ob + 2" "snd_una c = w_seq ob + 1 - word_of_int u" "e_timeout c = 0"
      using tcb_ok_parts(2) [OF assms(1)] assms(2) by (auto simp: seq_ok_def)
    then show ?thesis
      unfolding seq_ok_def using True us w(4) by (intro exI [of _ ob'] exI [of _ "u + n"]) simp
  next
    case False
    then have st: "state c = TCP_ESTABLISHED"
      using tcb_ok_states [OF assms(1,6)] by simp
    obtain u k j where a: "at_seq ob c u k j" "used ob < u"
      using seq_okE [OF tcb_ok_parts(2) [OF assms(1)] False assms(2)] st by metis
    have "at_seq ob' (c\<lparr>outbuf := Some ob'\<rparr>) (u + n) k j"
      using a us w(4) assms(3) by (auto simp: at_seq_def timing_def)
    then show ?thesis
      by (intro seq_okI [of _ ob' "u + n" k j]) (use st a(2) us in simp_all)
  qed
  then have "tcb_ok (c\<lparr>outbuf := Some ob'\<rparr>)"
    using assms(1) w(2,5) ob(2) by (simp add: tcb_ok_def conn_ok_def in_ok_def)
  then show ?thesis
    using w(1,3,5) us by (simp add: rb_left_def)
qed

lemma tcp_send_ok:
  assumes ev: "events_ok P w Q" and tc: "tcp_ok lt w" and c: "tcbs w t = Some c" "t \<noteq> lt" "cb c" "outbuf c = Some ob"
    and n: "0 \<le> n" "nat n \<le> length d" "n \<le> rb_left ob"
  shows "\<exists>w' Q' c' ob'. tcp_send t d n w = Some (0, w') \<and> events_ok P w' Q' \<and> tcp_ok lt w' \<and> tcbs w' = (tcbs w)(t \<mapsto> c') \<and>
    sess w' = sess w \<and> app_same w w' \<and> nlist w' = nlist w \<and> outbuf c' = Some ob' \<and> rb_left ob' = rb_left ob - n \<and>
    content ob' = content ob @ take (nat n) d"
proof -
  obtain ob' where o: "rb_write ob d n = Some (n, ob')" "tcb_ok (c\<lparr>outbuf := Some ob'\<rparr>)" "rb_left ob' = rb_left ob - n"
      "content ob' = content ob @ take (nat n) d"
    using tcb_ok_append [OF tcp_ok_tcb [OF tc c(1,2)] c(4) n c(3)] by blast
  let ?c = "c\<lparr>outbuf := Some ob'\<rparr>"
  let ?w = "w\<lparr>tcbs := (tcbs w)(t \<mapsto> ?c)\<rparr>"
  have ev1: "events_ok P ?w Q"
    by (rule tcb_same [OF ev c(1), of ?c]) (use events_ok_evq [OF ev] in simp_all)
  have t1: "tcbs ?w t = Some ?c"
    by simp
  obtain w' Q' e where m: "(if window_size c > 0 then mark_for_if_write t ?w else Some ?w) = Some w'" "events_ok P w' Q'"
      "evs.more w' = evs.more (?w\<lparr>tcbs := (tcbs ?w)(t \<mapsto> ?c\<lparr>e_tcb_send := e\<rparr>)\<rparr>)"
  proof (cases "window_size c > 0")
    case True
    then show ?thesis
      using mark_events [OF ev1 t1] that by auto
  next
    case False
    show ?thesis
      by (rule that [of ?w Q "e_tcb_send c"]) (use False ev1 in simp_all)
  qed
  note f = evs_frame [OF m(3), simplified]
  let ?c' = "?c\<lparr>e_tcb_send := e\<rparr>"
  have "tcp_ok lt w'"
    by (rule tcp_ok_set [OF tc c(1), of ?c']) (use o(2) f c(2) in simp_all)
  moreover have "sess w' = sess w"
    by (rule sess_same [OF c(1), of _ ?c']) (use f in simp_all)
  moreover have "tcp_send t d n w = Some (0, w')"
    unfolding tcp_send_def c(1,4) Option.bind.simps o(1) prod.case Let_def m(1) ..
  ultimately show ?thesis
    using m(2) f o(3,4) by (intro exI [of _ w'] exI [of _ Q'] exI [of _ ?c'] exI [of _ ob']) (simp add: app_same_def)
qed

text \<open>Reading takes everything there is: the buffer is smaller than what the relay asks for.\<close>

lemma in_ok_read:
  assumes "tcb_ok c" "inbuf c = Some ib"
  shows "rb_avail ib (read_seq c) = used ib" "rb_read ib (read_seq c) (used ib) = Some (used ib, content ib)" "used ib \<le> 16384"
    "tcb_ok (c\<lparr>read_seq := read_seq c + word_of_int (used ib), inbuf := Some (rb_advance ib (read_seq c + word_of_int (used ib)))\<rparr>)"
    "content (rb_advance ib (read_seq c + word_of_int (used ib))) = []"
proof -
  have ib: "ringbuf_ok ib" "buf_size ib = 16384" "read_seq c = w_seq ib - word_of_int (used ib)"
    using tcb_ok_inbuf [OF assms(1)] assms(2) by auto
  show us: "used ib \<le> 16384"
    using ib by (simp add: ringbuf_ok_def)
  have us0: "0 \<le> used ib"
    using ib by (simp add: ringbuf_ok_def)
  have d: "sint (w_seq ib - read_seq c) = used ib"
    unfolding ib(3) using sint_small [of "used ib"] us us0 by simp
  then show "rb_avail ib (read_seq c) = used ib"
    by (simp add: rb_avail_def)
  have len: "int (length (content ib)) = used ib"
    by (rule length_content [OF ib(1)])
  show "rb_read ib (read_seq c) (used ib) = Some (used ib, content ib)"
  proof (cases "used ib = 0")
    case True
    then show ?thesis
      using d len by (simp add: rb_read_def)
  next
    case False
    then show ?thesis
      using rb_read_ok [OF ib(1) d [symmetric], of "used ib"] us0 len by simp
  qed
  have s: "read_seq c + word_of_int (used ib) = w_seq ib"
    using ib(3) by simp
  note adv = rb_advance_beyond [OF ib(1), of "w_seq ib", simplified]
  show "tcb_ok (c\<lparr>read_seq := read_seq c + word_of_int (used ib), inbuf := Some (rb_advance ib (read_seq c + word_of_int (used ib)))\<rparr>)"
    unfolding s using assms(1) adv ib(2) by (simp add: tcb_ok_def conn_ok_def in_ok_def)
  show "content (rb_advance ib (read_seq c + word_of_int (used ib))) = []"
    unfolding s by (rule adv)
qed

context link_driver
begin

abbreviation relay_sys :: "ptr \<Rightarrow> queue \<Rightarrow> (ptr \<rightharpoonup> nat) \<Rightarrow> world \<Rightarrow> queue \<Rightarrow> bool" where
  "relay_sys \<equiv> sys_ok ifc head apps_ok"

lemma tcp_read_sys:
  assumes s: "relay_sys lt P S w Q" and c: "tcbs w t = Some c" "t \<noteq> lt" "inbuf c = Some ib"
  shows "\<exists>w' Q' c'. tcp_read t 65536 w = Some (used ib, content ib, w') \<and> relay_sys lt P S w' Q' \<and> tcbs w' = (tcbs w)(t \<mapsto> c') \<and>
    sess w' = sess w \<and> app_same w w' \<and> calls w' = calls w \<and> (\<exists>ib'. inbuf c' = Some ib' \<and> content ib' = [])"
proof -
  note rd = in_ok_read [OF relay.sys_tcb [OF s c(1,2)] c(3)]
  let ?s = "read_seq c + word_of_int (used ib)"
  let ?ib = "rb_advance ib ?s"
  let ?b = "rb_left ib = 0"
  let ?c = "(if ?b then (\<lambda>c. c\<lparr>last_acked := last_acked c - 1\<rparr>) else (\<lambda>c. c)) (c\<lparr>read_seq := ?s, inbuf := Some ?ib, rcv_wnd := word_of_int (rb_left ?ib)\<rparr>)"
  let ?w = "w\<lparr>tcbs := (tcbs w)(t \<mapsto> ?c)\<rparr>"
  have ok: "tcb_ok ?c" "key_of ?c = key_of c" "outbuf ?c = outbuf c" "state ?c = state c" "cb ?c = cb c" "app_data ?c = app_data c"
      "e_tcb_send ?c = e_tcb_send c" "e_timeout ?c = e_timeout c" "inbuf ?c = Some ?ib"
    using rd(4) by simp_all
  have s1: "relay_sys lt P S ?w Q"
    by (rule relay.sys_upd [OF s c(1) grows_same]) (use ok c(2) in simp_all)
  obtain w' Q' c' where m: "(if ?b then mark_for_if_write t ?w else Some ?w) = Some w'" "relay_sys lt P S w' Q'" "tcbs w' = (tcbs w)(t \<mapsto> c')"
      "cb c' = cb c" "app_data c' = app_data c" "state c' = state c" "app_same w w'" "calls w' = calls w" "inbuf c' = Some ?ib"
  proof (cases ?b)
    case True
    have t1: "tcbs ?w t = Some ?c"
      by simp
    obtain w' Q' e where n: "mark_for_if_write t ?w = Some w'" "events_ok P w' Q'" "evs.more w' = evs.more (?w\<lparr>tcbs := (tcbs ?w)(t \<mapsto> ?c\<lparr>e_tcb_send := e\<rparr>)\<rparr>)"
      using mark_events [OF relay.sys_events [OF s1] t1] by blast
    let ?c' = "?c\<lparr>e_tcb_send := e\<rparr>"
    have f: "tcbs w' = (tcbs w)(t \<mapsto> ?c')" "tcblist w' = tcblist w" "nlist w' = nlist w" "app_same w w'" "calls w' = calls w"
      using evs_frame [OF n(3)] by (simp_all add: app_same_def)
    have ok': "tcb_ok ?c'" "key_of ?c' = key_of c" "outbuf ?c' = outbuf c" "state ?c' = state c" "cb ?c' = cb c" "app_data ?c' = app_data c"
        "inbuf ?c' = Some ?ib"
      using ok by simp_all
    have "relay_sys lt P S w' Q'"
      by (rule relay.sys_set [OF s c(1) grows_same _ n(2) f(1)]) (use ok' c(2) f relay.sys_nd [OF s] in simp_all)
    then show ?thesis
      by (intro that [of w' Q' ?c']) (use True n(1) f ok' in simp_all)
  next
    case False
    show ?thesis
      by (rule that [of ?w Q ?c]) (use False s1 ok in \<open>simp_all add: app_same_def\<close>)
  qed
  have "tcp_read t 65536 w = Some (used ib, content ib, w')"
    unfolding tcp_read_def c(1,3) Option.bind.simps using rd(1-3) m(1) by (cases ?b) (simp_all add: Let_def)
  moreover have "sess w' = sess w"
    by (rule sess_same [OF c(1) m(3)]) (use m in simp_all)
  ultimately show ?thesis
    using m rd(5) by blast
qed

subsection \<open>The handlers of the relay\<close>

lemma relay_ok_sys: "relay_sys lt P S w Q \<Longrightarrow> relay_ok S w" "relay_sys lt P S w Q \<Longrightarrow> udp_ok w"
  by (simp_all add: sys_ok_def apps_ok_def)

text \<open>The connection of a map.\<close>

lemma map_tcb:
  assumes s: "relay_sys lt P (sess w) w Q" and x: "maps w m = Some x"
  obtains c where "tcbs w (m_tcb x) = Some c" "cb c" "m_tcb x \<noteq> lt" "app_data c = m"
proof -
  have "sess w (m_tcb x) = Some m"
    by (rule relay_ok_map [OF relay_ok_sys(1) [OF s] x])
  then obtain c where c: "tcbs w (m_tcb x) = Some c" "cb c" "state c \<noteq> TCP_LISTEN" "app_data c = m"
    by (auto simp: sess_def split: option.splits if_splits)
  then have "m_tcb x \<noteq> lt"
    using s tcp_ok_listen [of lt w "m_tcb x" c] by (auto simp: sys_ok_def)
  then show ?thesis
    using that c by blast
qed

text \<open>A change of a map that lets go of an event, or of nothing.\<close>

lemma relay_upd:
  assumes s: "relay_sys lt P S w Q" and x: "maps w m = Some x" "m_tcb x' = m_tcb x" "e_fd_read x' \<noteq> 0 \<Longrightarrow> e_fd_read x \<noteq> 0"
    and w': "events_ok P' w' Q'" "w' = w\<lparr>maps := (maps w)(m \<mapsto> x')\<rparr>"
  shows "relay_sys lt P' S w' Q'"
proof -
  have "relay_ok S w'"
    by (rule relay_set [OF relay_ok_sys(1) [OF s] x(1,2)]) (use relay_ok_room [OF relay_ok_sys(1) [OF s] x(1)] x(3) w'(2) in simp_all)
  moreover have "udp_ok w'" "tcp_ok lt w'"
    using relay_ok_sys(2) [OF s] s udp_ok_cong [of w' w] tcp_ok_cong [of w' w lt] w'(2) by (simp_all add: sys_ok_def)
  ultimately show ?thesis
    using s w' by (simp add: sys_ok_def apps_ok_def)
qed

text \<open>Both ends are closed.\<close>

lemma close_and_kill:
  assumes s: "relay_sys lt P (sess w) w Q" and x: "maps w m = Some x"
  shows "\<exists>w1 w' Q'. tcp_close ifc (m_tcb x) 0 w = Some (0, w1) \<and> kill_map m w1 = Some w' \<and> relay_sys lt P (sess w') w' Q'"
proof -
  obtain c where c: "tcbs w (m_tcb x) = Some c" "cb c" "m_tcb x \<noteq> lt"
    using map_tcb [OF s x] by blast
  obtain w1 Q1 v where w1: "tcp_close ifc (m_tcb x) 0 w = Some (0, w1)" "relay_sys lt P (sess w) w1 Q1" "tcbs w1 = (tcbs w)(m_tcb x := v)"
      "sess w1 = (sess w)(m_tcb x := None)" "app_same w w1"
    using relay.close_ok [OF s c(1,3,2)] by blast
  have x1: "maps w1 m = Some x"
    using w1(5) x by (simp add: app_same_def)
  obtain w' Q' where k: "kill_map m w1 = Some w'" "events_ok P w' Q'" "only_maps w1 w'" "relay_ok ((sess w)(m_tcb x := None)) w'"
    using kill_map_ok [OF relay.sys_events [OF w1(2)] x1 relay_ok_sys(1) [OF w1(2)]] by blast
  have "sess w' = sess w1"
    using sess_cong [of w' w1] k(3) by (simp add: only_maps_def tcp_same_def)
  moreover have "tcp_ok lt w'" "nlist w' = nlist w1"
    using tcp_ok_cong [of w' w1 lt] k(3) w1(2) by (simp_all add: only_maps_def tcp_same_def sys_ok_def)
  ultimately have "relay_sys lt P (sess w') w' Q'"
    using w1(2,4) k(2-4) only_maps_udp(1) [OF k(3)] by (simp add: sys_ok_def apps_ok_def)
  then show ?thesis
    using w1(1) k(1) by blast
qed

text \<open>
  What a descriptor's handler leaves: its event is still listed, and if the handler returned 0 its
  owner has let go of it.
\<close>

definition handled :: "ptr \<Rightarrow> eptr \<Rightarrow> ekind \<Rightarrow> int \<Rightarrow> world \<Rightarrow> bool" where
  "handled lt e k r w \<longleftrightarrow> (\<exists>Q f. relay_sys lt (if r = 0 then [e \<mapsto> (k, f)] else Map.empty) (sess w) w Q \<and> Q e = Some (k, f))"

lemma handledI:
  assumes "relay_sys lt [e \<mapsto> (k, f)] (sess w) w Q"
  shows "handled lt e k 0 w"
proof -
  have "[e \<mapsto> (k, f)] \<subseteq>\<^sub>m Q"
    using assms by (simp add: sys_ok_def events_ok_def)
  then have "Q e = Some (k, f)"
    by (simp add: map_le_def)
  then show ?thesis
    unfolding handled_def using assms by auto
qed

lemma handle_fd_can_read_sys:
  assumes s: "relay_sys lt Map.empty (sess w) w Q" and x: "maps w m = Some x" "e_fd_read x \<noteq> 0"
    and rd: "\<And>n. 0 < n \<Longrightarrow> fst (rd n) \<le> n \<and> nat (fst (rd n)) \<le> length (snd (snd (rd n)))"
    and cob: "tcbs w (m_tcb x) = Some c" "outbuf c = Some ob"
  shows "\<exists>r w'. handle_fd_can_read ifc rd m w = Some (r, w') \<and> handled lt (e_fd_read x) Fd r w' \<and>
    (fst (rd (rb_left ob)) > 0 \<longrightarrow> (\<exists>c' ob'. tcbs w' (m_tcb x) = Some c' \<and> outbuf c' = Some ob' \<and>
       content ob' = content ob @ take (nat (fst (rd (rb_left ob)))) (snd (snd (rd (rb_left ob))))))"
proof -
  let ?t = "m_tcb x" and ?v = "(Fd, Handle_fd_can_read m)"
  have c: "tcbs w ?t = Some c" "cb c" "?t \<noteq> lt" "app_data c = m"
    using map_tcb [OF s x(1)] cob(1) by auto
  have ob: "outbuf c = Some ob" "ringbuf_ok ob" "buf_size ob = 16384"
    using tcb_ok_outbuf [OF relay.sys_tcb [OF s c(1,3)]] cob(2) by auto
  have ev: "events_ok Map.empty w Q"
    by (rule relay.sys_events [OF s])
  have sp: "0 < rb_left ob" "rb_left ob \<le> 16384"
    using relay_ok_room [OF relay_ok_sys(1) [OF s] x] c(1) ob by (simp_all add: space_def rb_left_def ringbuf_ok_def)
  obtain n again tb where n: "rd (rb_left ob) = (n, again, tb)" "n \<le> rb_left ob" "nat n \<le> length tb"
    using rd [OF sp(1)] by (cases "rd (rb_left ob)") auto
  have run: "handle_fd_can_read ifc rd m w = (if n \<le> 0 then
         (if n = - 1 \<and> again then Some (1, w)
          else do {
            w \<leftarrow> m_upd m (\<lambda>x. x\<lparr>e_fd_read := 0\<rparr>) w;
            (_, w) \<leftarrow> tcp_close ifc (m_tcb x) 0 w;
            w \<leftarrow> kill_map m w;
            Some (0, w)
          })
       else do {
         (_, w) \<leftarrow> tcp_send (m_tcb x) tb n w;
         space \<leftarrow> tcp_get_output_space (m_tcb x) w;
         (if space = 0 then do {
            w \<leftarrow> m_upd m (\<lambda>x. x\<lparr>e_fd_read := 0\<rparr>) w;
            Some (0, w)
          }
          else Some (1, w))
       })"
    unfolding handle_fd_can_read_def x(1) Option.bind.simps using c(1) ob(1) sp n(1) by (simp add: tcp_get_output_space_def)
  consider (retry) "n \<le> 0" "n = - 1" "again" | (close) "n \<le> 0" "\<not> (n = - 1 \<and> again)" | (data) "0 < n"
    by linarith
  then show ?thesis
  proof cases
    case retry
    have "handled lt (e_fd_read x) Fd 1 w"
      unfolding handled_def using s map_event(1) [OF ev x] by auto
    then show ?thesis
      unfolding run using retry n(1) by auto
  next
    case close
    let ?x = "x\<lparr>e_fd_read := 0\<rparr>"
    let ?w = "w\<lparr>maps := (maps w)(m \<mapsto> ?x)\<rparr>"
    have "events_ok [e_fd_read x \<mapsto> ?v] ?w Q"
      by (rule map_orphan_read [OF ev x]) (use events_ok_evq [OF ev] in simp_all)
    then have "relay_sys lt [e_fd_read x \<mapsto> ?v] (sess w) ?w Q"
      by (intro relay_upd [OF s x(1), of ?x]) simp_all
    moreover have "sess ?w = sess w"
      by (rule sess_cong) simp
    ultimately have "relay_sys lt [e_fd_read x \<mapsto> ?v] (sess ?w) ?w Q"
      by simp
    from close_and_kill [OF this, of m ?x] obtain w1 w' Q' where
      k: "tcp_close ifc ?t 0 ?w = Some (0, w1)" "kill_map m w1 = Some w'" "relay_sys lt [e_fd_read x \<mapsto> ?v] (sess w') w' Q'"
      by auto
    have "handle_fd_can_read ifc rd m w = Some (0, w')"
      unfolding run using close x(1) k(1,2) by (simp add: m_upd_def)
    then show ?thesis
      using handledI [OF k(3)] close(1) n(1) by auto
  next
    case data
    obtain w1 Q1 c1 ob1 where w1: "tcp_send ?t tb n w = Some (0, w1)" "events_ok Map.empty w1 Q1" "tcp_ok lt w1" "tcbs w1 = (tcbs w)(?t \<mapsto> c1)"
        "sess w1 = sess w" "app_same w w1" "nlist w1 = nlist w" "outbuf c1 = Some ob1" "rb_left ob1 = rb_left ob - n"
        "content ob1 = content ob @ take (nat n) tb"
      using tcp_send_ok [OF ev _ c(1,3,2) ob(1), of n tb] s data n(2,3) by (auto simp: sys_ok_def)
    have x1: "maps w1 m = Some x"
      using w1(6) x(1) by (simp add: app_same_def)
    have room: "tcp_get_output_space ?t w1 = Some (rb_left ob - n)" "space w1 ?t = rb_left ob - n"
      using w1(4,8,9) by (simp_all add: tcp_get_output_space_def space_def)
    have other: "space w1 t = space w t" if "t \<noteq> ?t" for t
      using that w1(4) by (simp add: space_def)
    have only: "m' = m" if "maps w m' = Some y" "m_tcb y = ?t" for m' y
      using relay_ok_map [OF relay_ok_sys(1) [OF s] that(1)] relay_ok_map [OF relay_ok_sys(1) [OF s] x(1)] that(2) by simp
    have rest: "relay_sys lt P (sess w') w' Q'"
      if "events_ok P w' Q'" "w' = w1\<lparr>maps := (maps w1)(m \<mapsto> x')\<rparr>" "m_tcb x' = ?t" "e_fd_read x' \<noteq> 0 \<Longrightarrow> n < rb_left ob" for P w' Q' x'
    proof -
      have "relay_ok (sess w) w'"
        unfolding relay_ok_def
      proof (intro conjI allI impI)
        fix t m'
        show "sess w t = Some m' \<longleftrightarrow> (\<exists>y. maps w' m' = Some y \<and> m_tcb y = t)"
          using relay_ok_sys(1) [OF s] w1(6) x(1) that(2,3) by (cases "m' = m") (auto simp: relay_ok_def app_same_def)
      next
        fix m' y
        assume y: "maps w' m' = Some y" "e_fd_read y \<noteq> 0"
        show "0 < space w' (m_tcb y)"
        proof (cases "m' = m")
          case True
          then show ?thesis
            using y that(2-4) room(2) space_cong [of w' w1] by simp
        next
          case False
          then have my: "maps w m' = Some y"
            using y(1) that(2) w1(6) by (simp add: app_same_def)
          have ne: "m_tcb y \<noteq> ?t"
            using only [OF my] False by blast
          show ?thesis
            using other [OF ne] relay_ok_room [OF relay_ok_sys(1) [OF s] my y(2)] that(2) space_cong [of w' w1] by simp
        qed
      qed (use relay_ok_sys(1) [OF s] w1(6) that(2) x(1) in \<open>auto simp: relay_ok_def app_same_def\<close>)
      moreover have "udp_ok w'" "tcp_ok lt w'" "sess w' = sess w" "nlist w' = nlist w"
        using relay_ok_sys(2) [OF s] udp_ok_cong [of w' w] tcp_ok_cong [of w' w1 lt] sess_cong [of w' w1] w1 that(2) by (simp_all add: app_same_def)
      ultimately show ?thesis
        using that(1) s by (simp add: sys_ok_def apps_ok_def)
    qed
    show ?thesis
    proof (cases "n = rb_left ob")
      case True
      let ?x = "x\<lparr>e_fd_read := 0\<rparr>"
      let ?w = "w1\<lparr>maps := (maps w1)(m \<mapsto> ?x)\<rparr>"
      have "events_ok [e_fd_read x \<mapsto> ?v] ?w Q1"
        by (rule map_orphan_read [OF w1(2) x1 x(2)]) (use events_ok_evq [OF w1(2)] in simp_all)
      then have "relay_sys lt [e_fd_read x \<mapsto> ?v] (sess ?w) ?w Q1"
        by (rule rest [where x' = ?x]) simp_all
      moreover have "handle_fd_can_read ifc rd m w = Some (0, ?w)"
        unfolding run using data w1(1) room(1) True x1 by (simp add: m_upd_def)
      moreover have "tcbs ?w ?t = Some c1"
        using w1(4) by simp
      ultimately show ?thesis
        using handledI w1(8,10) n(1) by fastforce
    next
      case False
      have id: "w1\<lparr>maps := (maps w1)(m \<mapsto> x)\<rparr> = w1"
        using x1 by (simp add: fun_upd_idem)
      have "relay_sys lt Map.empty (sess w1) w1 Q1"
        by (rule rest [OF w1(2), of x]) (use id n(2) False in auto)
      then have "handled lt (e_fd_read x) Fd 1 w1"
        unfolding handled_def using map_event(1) [OF w1(2) x1 x(2)] by auto
      moreover have "handle_fd_can_read ifc rd m w = Some (1, w1)"
        unfolding run using data w1(1) room(1) False by simp
      moreover have "tcbs w1 ?t = Some c1"
        using w1(4) by simp
      ultimately show ?thesis
        using w1(8,10) n(1) by auto
    qed
  qed
qed

text \<open>The relay lets go of the write event of a map.\<close>

lemma release_write:
  assumes s: "relay_sys lt P (sess w) w Q" and x: "maps w m = Some x" "e_fd_write x \<noteq> 0" and q: "Q (e_fd_write x) = Some v"
  shows "relay_sys lt (P(e_fd_write x \<mapsto> v)) (sess (w\<lparr>maps := (maps w)(m \<mapsto> x\<lparr>e_fd_write := 0\<rparr>)\<rparr>)) (w\<lparr>maps := (maps w)(m \<mapsto> x\<lparr>e_fd_write := 0\<rparr>)\<rparr>) Q"
proof -
  let ?w = "w\<lparr>maps := (maps w)(m \<mapsto> x\<lparr>e_fd_write := 0\<rparr>)\<rparr>"
  have ev: "events_ok P w Q"
    by (rule relay.sys_events [OF s])
  have "events_ok (P(e_fd_write x \<mapsto> v)) ?w Q"
    by (rule map_orphan_write [OF ev x q]) (use events_ok_evq [OF ev] in simp_all)
  then have "relay_sys lt (P(e_fd_write x \<mapsto> v)) (sess w) ?w Q"
    by (intro relay_upd [OF s x(1), of "x\<lparr>e_fd_write := 0\<rparr>"]) simp_all
  moreover have "sess ?w = sess w"
    by (rule sess_cong) simp
  ultimately show ?thesis
    by simp
qed

text \<open>
  Writing to the host: the whole input buffer goes out in one call. A \<open>write\<close> that fails with
  \<open>EAGAIN\<close> is excluded: the handler has let go of its event by then and asks for it to stay.
\<close>

lemma handle_fd_can_write_sys:
  assumes s: "relay_sys lt Map.empty (sess w) w Q" and x: "maps w m = Some x" "e_fd_write x \<noteq> 0"
    and c: "tcbs w (m_tcb x) = Some c" "inbuf c = Some ib" and wr: "wr (content ib) = Some (n, again)" "\<not> (n = - 1 \<and> again)"
  shows "\<exists>w'. handle_fd_can_write ifc wr m w = Some (0, w') \<and> handled lt (e_fd_write x) Fd 0 w' \<and>
    (n > 0 \<longrightarrow> calls w' = calls w @ [Write (m_fd x) (content ib)] \<and>
       (\<exists>c' ib'. tcbs w' (m_tcb x) = Some c' \<and> inbuf c' = Some ib' \<and> content ib' = []))"
proof -
  let ?t = "m_tcb x"
  have nl: "?t \<noteq> lt"
    using map_tcb [OF s x(1)] by blast
  obtain w1 Q1 c1 where w1: "tcp_read ?t 65536 w = Some (used ib, content ib, w1)" "relay_sys lt Map.empty (sess w) w1 Q1" "tcbs w1 = (tcbs w)(?t \<mapsto> c1)"
      "sess w1 = sess w" "app_same w w1" "calls w1 = calls w" "\<exists>ib'. inbuf c1 = Some ib' \<and> content ib' = []"
    using tcp_read_sys [OF s c(1) nl c(2)] by blast
  have us: "0 \<le> used ib" "used ib < 65536"
    using in_ok_read(3) [OF relay.sys_tcb [OF s c(1) nl] c(2)] tcb_ok_inbuf [OF relay.sys_tcb [OF s c(1) nl]] c(2)
    by (auto simp: ringbuf_ok_def)
  have x1: "maps w1 m = Some x"
    using w1(5) x(1) by (simp add: app_same_def)
  note s1 = w1(2) [folded w1(4)]
  obtain f where fq: "Q1 (e_fd_write x) = Some (Fd, f)"
    using map_event(2) [OF relay.sys_events [OF s1] x1 x(2)] by blast
  let ?x = "x\<lparr>e_fd_write := 0\<rparr>"
  let ?w = "host (Write (m_fd x) (content ib)) (w1\<lparr>maps := (maps w1)(m \<mapsto> ?x)\<rparr>)"
  have "relay_sys lt [e_fd_write x \<mapsto> (Fd, f)] (sess (w1\<lparr>maps := (maps w1)(m \<mapsto> ?x)\<rparr>)) (w1\<lparr>maps := (maps w1)(m \<mapsto> ?x)\<rparr>) Q1"
    by (rule release_write [OF s1 x1 x(2) fq])
  from relay.sys_frame [OF this, of ?w] have s2: "relay_sys lt [e_fd_write x \<mapsto> (Fd, f)] (sess ?w) ?w Q1"
    using relay.sys_nd [OF s1] sess_cong [of ?w "w1\<lparr>maps := (maps w1)(m \<mapsto> ?x)\<rparr>"] by (simp add: host_def app_same_def)
  have x2: "maps ?w m = Some ?x" and u1: "m_upd m (\<lambda>x. x\<lparr>e_fd_write := 0\<rparr>) w1 = Some (w1\<lparr>maps := (maps w1)(m \<mapsto> ?x)\<rparr>)"
    using x1 by (simp_all add: host_def m_upd_def)
  have run: "handle_fd_can_write ifc wr m w = (if n \<le> 0 then
       (if n = - 1 \<and> again then Some (1, ?w)
        else do {
          w \<leftarrow> m_upd m (\<lambda>x. x\<lparr>e_fd_write := 0\<rparr>) ?w;
          (_, w) \<leftarrow> tcp_close ifc (m_tcb x) 0 w;
          w \<leftarrow> kill_map m w;
          Some (0, w)
        })
     else Some (0, ?w))"
    unfolding handle_fd_can_write_def x(1) Option.bind.simps w1(1) prod.case using us u1 x2 wr(1) by (simp add: Let_def)
  show ?thesis
  proof (cases "n \<le> 0")
    case True
    have "m_upd m (\<lambda>x. x\<lparr>e_fd_write := 0\<rparr>) ?w = Some ?w"
      using x2 by (simp add: m_upd_def fun_upd_idem)
    moreover obtain w2 w' Q' where k: "tcp_close ifc ?t 0 ?w = Some (0, w2)" "kill_map m w2 = Some w'" "relay_sys lt [e_fd_write x \<mapsto> (Fd, f)] (sess w') w' Q'"
      using close_and_kill [OF s2 x2] by auto
    ultimately have "handle_fd_can_write ifc wr m w = Some (0, w')"
      unfolding run using True wr(2) by auto
    then show ?thesis
      using handledI [OF k(3)] True by auto
  next
    case False
    then have "handle_fd_can_write ifc wr m w = Some (0, ?w)"
      unfolding run by simp
    then show ?thesis
      using handledI [OF s2] w1(3,6,7) by (auto simp: host_def)
  qed
qed

lemma accept_sys:
  assumes s: "relay_sys lt P (sess w) w Q" and x: "maps w m = Some x"
  shows "\<exists>w' Q'. tcp_accept (m_tcb x) w = Some (0, w') \<and> relay_sys lt P (sess w') w' Q'"
proof -
  obtain c where c: "tcbs w (m_tcb x) = Some c" "m_tcb x \<noteq> lt"
    using map_tcb [OF s x] by blast
  obtain w' Q' e where m: "mark_for_if_write (m_tcb x) w = Some w'" "relay_sys lt P (sess w) w' Q'" "tcbs w' = (tcbs w)(m_tcb x \<mapsto> c\<lparr>e_tcb_send := e\<rparr>)"
    using relay.sys_mark [OF s c] by blast
  have "sess w' = sess w"
    by (rule sess_same [OF c(1) m(3)]) simp_all
  then show ?thesis
    using m(1,2) by (intro exI [of _ w'] exI [of _ Q']) (simp add: tcp_accept_def)
qed

lemma handle_fd_did_connect_sys:
  assumes s: "relay_sys lt Map.empty (sess w) w Q" and x: "maps w m = Some x" "e_fd_write x \<noteq> 0"
  shows "\<exists>w'. handle_fd_did_connect ifc ret m w = Some (0, w') \<and> handled lt (e_fd_write x) Fd 0 w'"
proof -
  obtain f where fq: "Q (e_fd_write x) = Some (Fd, f)"
    using map_event(2) [OF relay.sys_events [OF s] x] by blast
  let ?x = "x\<lparr>e_fd_write := 0\<rparr>"
  let ?w = "w\<lparr>maps := (maps w)(m \<mapsto> ?x)\<rparr>"
  note s1 = release_write [OF s x fq]
  have x1: "maps ?w m = Some ?x" "m_upd m (\<lambda>x. x\<lparr>e_fd_write := 0\<rparr>) w = Some ?w"
    using x(1) by (simp_all add: m_upd_def)
  show ?thesis
  proof (cases "ret = 0")
    case True
    obtain w' Q' where "tcp_accept (m_tcb x) ?w = Some (0, w')" "relay_sys lt [e_fd_write x \<mapsto> (Fd, f)] (sess w') w' Q'"
      using accept_sys [OF s1 x1(1)] by auto
    then show ?thesis
      using True x(1) x1(2) handledI by (intro exI [of _ w']) (auto simp: handle_fd_did_connect_def)
  next
    case False
    obtain w2 w' Q' where "tcp_close ifc (m_tcb x) 0 ?w = Some (0, w2)" "kill_map m w2 = Some w'" "relay_sys lt [e_fd_write x \<mapsto> (Fd, f)] (sess w') w' Q'"
      using close_and_kill [OF s1 x1(1)] by auto
    then show ?thesis
      using False x(1) x1(2) handledI by (intro exI [of _ w']) (auto simp: handle_fd_did_connect_def)
  qed
qed

subsection \<open>New sessions\<close>

lemma incoming_sys:
  assumes s: "relay_sys lt P ((sess w)(t := None)) w Q" and m: "maps w nm = None" and c: "tcbs w t = Some c" "t \<noteq> lt" "state c = TCP_SYN_RECVD"
  shows "\<exists>w' Q'. incoming ifc nm fd conn t w = Some w' \<and> relay_sys lt P (sess w') w' Q'"
proof -
  let ?x = "\<lparr>m_fd = fd, m_tcb = t, e_fd_read = 0, e_fd_write = 0\<rparr>" and ?c = "c\<lparr>app_data := nm\<rparr>"
  let ?w = "w\<lparr>num_tcp_maps := num_tcp_maps w + 1, tlist := nm # tlist w, maps := (maps w)(nm \<mapsto> ?x), tcbs := (tcbs w)(t \<mapsto> ?c)\<rparr>"
  let ?wm = "w\<lparr>num_tcp_maps := num_tcp_maps w + 1, tlist := nm # tlist w, maps := (maps w)(nm \<mapsto> ?x)\<rparr>"
  have ok: "tcb_ok c" "cb c"
    using relay.sys_tcb [OF s c(1,2)] c(3) by (auto simp: tcb_ok_def)
  have ev: "events_ok P w Q"
    by (rule relay.sys_events [OF s])
  have evm: "events_ok P ?wm Q"
    by (rule map_new [OF ev m, of ?x]) (use events_ok_evq [OF ev] in simp_all)
  have "events_ok P ?w Q"
    by (rule tcb_same [OF evm, of t c ?c]) (use c(1) events_ok_evq [OF ev] in simp_all)
  moreover have "tcp_ok lt ?w"
    by (rule tcp_ok_set [of lt w t c ?c]) (use s c ok(1) in \<open>simp_all add: sys_ok_def\<close>)
  moreover have "relay_ok (((sess w)(t := None))(t \<mapsto> nm)) ?w"
    by (rule relay_new [OF relay_ok_sys(1) [OF s] m, of t ?x]) (use c(1) in \<open>auto simp: space_def\<close>)
  moreover have "sess ?w = ((sess w)(t := None))(t \<mapsto> nm)"
    using c ok(2) by (auto simp: sess_def fun_eq_iff)
  moreover have "udp_ok ?w"
    using relay_ok_sys(2) [OF s] udp_ok_cong [of ?w w] by simp
  ultimately have s1: "relay_sys lt P (sess ?w) ?w Q"
    using s by (simp add: sys_ok_def apps_ok_def)
  have x1: "maps ?w nm = Some ?x"
    by simp
  obtain addr where a: "mem_sub (laddr ?c) 12 4 = Some addr"
    using tcb_ok_parts(3) [OF ok(1)] by (simp add: mem_simps)
  let ?h = "host (Connect fd addr (lport c)) ?w"
  have s2: "relay_sys lt P (sess ?h) ?h Q"
    using relay.sys_frame [OF s1, of ?h] relay.sys_nd [OF s1] sess_cong [of ?h ?w] by (simp add: host_def app_same_def)
  have x2: "maps ?h nm = Some ?x"
    by (simp add: host_def)
  have run: "incoming ifc nm fd conn t w = (if fd < 0 then do { (_, w) \<leftarrow> tcp_close ifc t 0 ?w; kill_map nm w }
     else if fst conn < 0 then
         (if snd conn then do {
            (e, w) \<leftarrow> add_fd_event fd 1 (Handle_fd_did_connect nm) ?h;
            m_upd nm (\<lambda>x. x\<lparr>e_fd_write := e\<rparr>) w
          }
          else do { (_, w) \<leftarrow> tcp_close ifc t 0 ?h; kill_map nm w })
       else do { (_, w) \<leftarrow> tcp_accept t ?h; Some w })"
    unfolding incoming_def Let_def using c(1) a by (simp add: t_upd_def tcp_get_laddr_def tcp_get_lport_def)
  consider (nosock) "fd < 0" | (wait) "0 \<le> fd" "fst conn < 0" "snd conn" | (refused) "0 \<le> fd" "fst conn < 0" "\<not> snd conn" | (done_now) "0 \<le> fd" "0 \<le> fst conn"
    by linarith
  then show ?thesis
  proof cases
    case nosock
    then show ?thesis
      unfolding run using close_and_kill [OF s1 x1] by auto
  next
    case wait
    have evh: "events_ok P ?h Q"
      by (rule relay.sys_events [OF s2])
    obtain e w1 where e: "add_fd_event fd 1 (Handle_fd_did_connect nm) ?h = Some (e, w1)" "e \<noteq> 0" "Q e = None"
        "evq w1 (Q(e \<mapsto> (Fd, Handle_fd_did_connect nm)))" "evs.more w1 = evs.more ?h"
      using evl.fd_law [OF events_ok_evq [OF evh]] by blast
    have f: "tcbs w1 = tcbs ?h" "tcblist w1 = tcblist ?h" "nlist w1 = nlist ?h" "maps w1 = maps ?h" "tlist w1 = tlist ?h" "num_tcp_maps w1 = num_tcp_maps ?h"
        "umaps w1 = umaps ?h" "ulist w1 = ulist ?h" "socks w1 = socks ?h" "udp_list w1 = udp_list ?h" "udp_listener w1 = udp_listener ?h"
      using evs_frame [OF e(5)] by blast+
    let ?v = "w1\<lparr>maps := (maps ?h)(nm \<mapsto> ?x\<lparr>e_fd_write := e\<rparr>)\<rparr>"
    have "events_ok P ?v (Q(e \<mapsto> (Fd, Handle_fd_did_connect nm)))"
      by (rule map_add_write [OF evh x2 _ e(2,3)]) (use e(4) f in simp_all)
    moreover have "relay_ok (sess ?h) ?v"
      by (rule relay_set [OF relay_ok_sys(1) [OF s2] x2, of "?x\<lparr>e_fd_write := e\<rparr>"]) (use f in simp_all)
    moreover have "sess ?v = sess ?h" "tcp_ok lt ?v" "udp_ok ?v" "nlist ?v = nlist ?h"
      using s2 f sess_cong [of ?v ?h] tcp_ok_cong [of ?v ?h lt] udp_ok_cong [of ?v ?h] by (simp_all add: sys_ok_def apps_ok_def)
    ultimately have "relay_sys lt P (sess ?v) ?v (Q(e \<mapsto> (Fd, Handle_fd_did_connect nm)))"
      using s2 by (simp add: sys_ok_def apps_ok_def)
    moreover have "incoming ifc nm fd conn t w = Some ?v"
      unfolding run using wait e(1) f(4) x2 by (simp add: m_upd_def)
    ultimately show ?thesis
      by blast
  next
    case refused
    then show ?thesis
      unfolding run using close_and_kill [OF s2 x2] by auto
  next
    case done_now
    then show ?thesis
      unfolding run using accept_sys [OF s2 x2] by auto
  qed
qed

end

sublocale link_driver < server: tcp_server ifc head "tcp_map_cb ifc nm fd conn" apps_ok "\<lambda>w. maps w nm = None"
  for nm fd conn
proof unfold_locales
  fix lt P w t Q c
  assume "sys_ok ifc head apps_ok lt P ((sess w)(t := None)) w Q" "maps w nm = None" "tcbs w t = Some c" "t \<noteq> lt" "state c = TCP_SYN_RECVD"
  from incoming_sys [OF this]
  show "\<exists>w' Q'. incoming_session (tcp_map_cb ifc nm fd conn) t w = Some w' \<and> sys_ok ifc head apps_ok lt P (sess w') w' Q'"
    by (simp add: tcp_map_cb_def)
qed (simp add: app_same_def)

end
