(* ===== verification/Loop_Safe.thy ===== *)
theory Loop_Safe
  imports Event_Loop Ownership
begin

text \<open>
  The event loop over handlers that keep an invariant. The locale \<open>loop_handlers\<close> is the contract
  between \<^verbatim>\<open>event.c\<close> and the callbacks: a callback returns, its event stays listed until the loop
  removes it, and it has let go of the event if and only if it returns 0. Under it every pass
  through the loop ends: the lists of descriptor and of always events are ordered by address, and the
  loops move to smaller addresses.
\<close>

subsection \<open>Walking the lists\<close>

lemma sorted_next:
  assumes "sorted_wrt (>) xs" "xs = us @ e # vs" "vs \<noteq> []"
  shows "hd vs < (e :: eptr)"
  using assms by (cases vs) (auto simp: sorted_wrt_append)

lemma list_next:
  assumes l: "list_ok K h p xs" "e \<in> set xs" "sorted_wrt (>) xs"
  obtains ev where "h e = Some ev" "K ev" "ev_next ev = 0 \<or> ev_next ev \<in> set xs \<and> ev_next ev < e"
proof -
  obtain us vs where x: "xs = us @ e # vs"
    using l(2) split_list by fastforce
  obtain ev where ev: "h e = Some ev" "K ev"
    using l(1,2) dseg_mem [of h 0 p xs 0 e] by (auto simp: list_ok_def)
  have "dseg h 0 p (us @ e # vs) 0"
    using l(1) x by (simp add: list_ok_def)
  from dseg_mid(2) [OF this ev(1)] have "ev_next ev = 0 \<or> ev_next ev \<in> set xs \<and> ev_next ev < e"
    using sorted_next [OF l(3) x] x by (cases vs) auto
  then show ?thesis
    using that ev by blast
qed

lemma queue_Fd:
  assumes "evq w Q" "Q e = Some (Fd, f)"
  obtains ev fd wr where "ev_heap w e = Some ev" "ev_func ev = f" "ev_ev ev = Ev_fd fd wr"
    "ev_next ev = 0 \<or> (\<exists>g. Q (ev_next ev) = Some (Fd, g)) \<and> ev_next ev < e"
proof -
  obtain ts fs as where r: "evs_rep w ts fs as" "Q = queue_of (ev_heap w) ts fs as" "sorted_wrt (>) fs"
    using assms(1) by (rule evq_obtain)
  have d: "set ts \<inter> set fs = {}"
    using r(1) by (auto simp: evs_rep_def)
  have Q: "Q x = Some (Fd, ev_func ev)" if "x \<in> set fs" "ev_heap w x = Some ev" for x ev
    using that d r(2) by (auto simp: queue_of_def list_of_def)
  have e: "e \<in> set fs"
    using assms(2) r(2) by (auto simp: queue_of_def list_of_def bind_eq_Some_conv split: if_splits)
  have l: "list_ok is_fd (ev_heap w) (fd_event_list w) fs"
    using r(1) by (simp add: evs_rep_def)
  obtain ev where ev: "ev_heap w e = Some ev" "is_fd ev" "ev_next ev = 0 \<or> ev_next ev \<in> set fs \<and> ev_next ev < e"
    using list_next [OF l e r(3)] by blast
  obtain fd wr where "ev_ev ev = Ev_fd fd wr"
    using ev(2) by (auto simp: is_fd_def split: ev_union.splits)
  moreover have "ev_next ev = 0 \<or> (\<exists>g. Q (ev_next ev) = Some (Fd, g)) \<and> ev_next ev < e"
    using ev(3) Q evs_rep_mem(2) [OF r(1)] by blast
  ultimately show ?thesis
    using that ev(1) Q [OF e ev(1)] assms(2) by auto
qed

lemma queue_Always:
  assumes "evq w Q" "Q e = Some (Always, f)"
  obtains ev where "ev_heap w e = Some ev" "ev_func ev = f" "ev_next ev = 0 \<or> (\<exists>g. Q (ev_next ev) = Some (Always, g)) \<and> ev_next ev < e"
proof -
  obtain ts fs as where r: "evs_rep w ts fs as" "Q = queue_of (ev_heap w) ts fs as" "sorted_wrt (>) as"
    using assms(1) by (rule evq_obtain)
  have d: "set ts \<inter> set as = {}" "set fs \<inter> set as = {}"
    using r(1) by (auto simp: evs_rep_def)
  have Q: "Q x = Some (Always, ev_func ev)" if "x \<in> set as" "ev_heap w x = Some ev" for x ev
    using that d r(2) by (auto simp: queue_of_def list_of_def)
  have e: "e \<in> set as"
    using assms(2) r(2) by (auto simp: queue_of_def list_of_def bind_eq_Some_conv split: if_splits)
  have l: "list_ok is_always (ev_heap w) (always_event_list w) as"
    using r(1) by (simp add: evs_rep_def)
  obtain ev where ev: "ev_heap w e = Some ev" "ev_next ev = 0 \<or> ev_next ev \<in> set as \<and> ev_next ev < e"
    using list_next [OF l e r(3)] by blast
  moreover have "ev_next ev = 0 \<or> (\<exists>g. Q (ev_next ev) = Some (Always, g)) \<and> ev_next ev < e"
    using ev(2) Q evs_rep_mem(2) [OF r(1)] by blast
  ultimately show ?thesis
    using that Q [OF e ev(1)] assms(2) by auto
qed

lemma queue_heads:
  assumes "evq w Q"
  shows "fd_event_list w = 0 \<or> (\<exists>f. Q (fd_event_list w) = Some (Fd, f))"
    "always_event_list w = 0 \<or> (\<exists>f. Q (always_event_list w) = Some (Always, f))"
    "time_event_list w = 0 \<or> (\<exists>k f tm. Q (time_event_list w) = Some (k, f) \<and> (k = Timer \<or> k = Due) \<and> event_time (time_event_list w) w = Some tm)"
proof -
  obtain ts fs as where r: "evs_rep w ts fs as" "Q = queue_of (ev_heap w) ts fs as"
    using assms by (rule evq_obtain)
  have d: "set ts \<inter> set as = {}" "set fs \<inter> set as = {}" "set ts \<inter> set fs = {}"
    using r(1) by (auto simp: evs_rep_def)
  have h: "time_event_list w = head ts" "fd_event_list w = head fs" "always_event_list w = head as"
    using r(1) by (auto simp: evs_rep_def list_ok_def dseg_0_head)
  have hd: "head xs = 0 \<or> head xs \<in> set xs" for xs
    by (cases xs) auto
  show "fd_event_list w = 0 \<or> (\<exists>f. Q (fd_event_list w) = Some (Fd, f))"
    using hd [of fs] h(2) d evs_rep_mem(2) [OF r(1), of "head fs"] r(2) by (auto simp: queue_of_def list_of_def)
  show "always_event_list w = 0 \<or> (\<exists>f. Q (always_event_list w) = Some (Always, f))"
    using hd [of as] h(3) d evs_rep_mem(2) [OF r(1), of "head as"] r(2) by (auto simp: queue_of_def list_of_def)
  show "time_event_list w = 0 \<or> (\<exists>k f tm. Q (time_event_list w) = Some (k, f) \<and> (k = Timer \<or> k = Due) \<and> event_time (time_event_list w) w = Some tm)"
  proof (cases "head ts = 0")
    case False
    then have t: "head ts \<in> set ts"
      using hd [of ts] by simp
    then obtain ev where ev: "ev_heap w (head ts) = Some ev"
      using evs_rep_mem(2) [OF r(1), of "head ts"] by blast
    then have "is_time ev"
      using r(1) t by (simp add: evs_rep_def list_ok_def)
    then obtain tm where "ev_ev ev = Ev_time tm"
      by (auto simp: is_time_def split: ev_union.splits)
    then show ?thesis
      using h(1) t ev r(2) by (auto simp: queue_of_def list_of_def event_time_def)
  qed (use h(1) in simp)
qed

text \<open>The loop marks the timer it runs.\<close>

lemma queue_mark_due:
  assumes "evq w Q" "Q e = Some (k, f)" "k = Timer \<or> k = Due"
  shows "\<exists>w' ev. ev_upd e (\<lambda>ev. ev\<lparr>ev_remove := 1\<rparr>) w = Some w' \<and> evq w' (Q(e \<mapsto> (Due, f))) \<and> evs.more w' = evs.more w \<and>
    ev_heap w' e = Some ev \<and> ev_func ev = f"
proof -
  obtain ts fs as where r: "evs_rep w ts fs as" "Q = queue_of (ev_heap w) ts fs as" "sorted_wrt (>) fs" "sorted_wrt (>) as"
    using assms(1) by (rule evq_obtain)
  have e: "e \<in> set ts"
    using assms(2,3) r(2) by (auto simp: queue_of_def list_of_def bind_eq_Some_conv split: if_splits)
  obtain ev where ev: "ev_heap w e = Some ev" "ev_func ev = f"
    using assms(2) r(2) by (auto simp: queue_of_def bind_eq_Some_conv)
  let ?ev = "ev\<lparr>ev_remove := 1\<rparr>"
  let ?h = "(ev_heap w)(e \<mapsto> ?ev)"
  let ?w = "w\<lparr>ev_heap := ?h\<rparr>"
  have seg: "dseg ?h pv p xs q = dseg (ev_heap w) pv p xs q" for pv p xs q
    using ev(1) by (induction xs arbitrary: pv p) (auto simp: fun_upd_apply split: option.splits)
  have rest: "?h x = ev_heap w x \<or> x = e \<and> ?h x = Some ?ev" for x
    by (simp add: fun_upd_apply)
  have k: "is_time ?ev = is_time ev" "is_fd ?ev = is_fd ev" "is_always ?ev = is_always ev"
    by (simp_all add: is_time_def is_fd_def is_always_def)
  have "list_ok K ?h p xs" if "list_ok K (ev_heap w) p xs" "K ?ev = K ev" for K p xs
    using that seg ev(1) by (auto simp: list_ok_def fun_upd_apply)
  then have "evs_rep ?w ts fs as"
    using r(1) k ev(1) unfolding evs_rep_def by (auto simp: dom_ok_def fun_upd_apply split: if_splits)
  moreover have "queue_of ?h ts fs as = Q(e \<mapsto> (Due, f))"
    using r(2) e ev by (auto simp: queue_of_def list_of_def fun_upd_apply fun_eq_iff)
  ultimately have "evq ?w (Q(e \<mapsto> (Due, f)))"
    using r(3,4) unfolding evq_def by (intro exI [of _ ts] exI [of _ fs] exI [of _ as]) simp
  then show ?thesis
    using ev by (intro exI [of _ ?w] exI [of _ ?ev]) (simp add: ev_upd_def)
qed

subsection \<open>Emptying the lists\<close>

lemma drain_step:
  assumes "evs_rep w ts fs as" "e \<in> set ts \<union> set fs \<union> set as"
  obtains w' where "remove_event e w = Some w'" "evs_rep w' (remove1 e ts) (remove1 e fs) (remove1 e as)"
    "evs.more w' = evs.more w"
  using remove_event_ok [OF assms] by fastforce

lemma rep_heads:
  assumes "evs_rep w ts fs as"
  shows "time_event_list w = head ts" "fd_event_list w = head fs" "always_event_list w = head as"
    "e \<in> set ts \<Longrightarrow> \<exists>ev. ev_heap w e = Some ev \<and> ev_type ev = EVENT_TIME"
    "e \<in> set fs \<Longrightarrow> \<exists>ev. ev_heap w e = Some ev \<and> ev_type ev = EVENT_FD"
    "e \<in> set as \<Longrightarrow> \<exists>ev. ev_heap w e = Some ev \<and> ev_type ev = EVENT_ALWAYS"
    "e \<in> set ts \<union> set fs \<union> set as \<Longrightarrow> e \<noteq> 0"
  using assms evs_rep_mem [OF assms, of e]
  by (auto simp: evs_rep_def list_ok_def dseg_0_head is_time_def is_fd_def is_always_def)

lemma drain_time_empties: "evs_rep w ts fs as \<Longrightarrow> \<exists>w'. drain_time w = Some w' \<and> evs_rep w' [] fs as \<and> evs.more w' = evs.more w"
proof (induction ts arbitrary: w)
  case Nil
  then show ?case
    using rep_heads(1) [OF Nil] by (subst drain_time.simps) auto
next
  case (Cons e ts)
  obtain ev where h: "time_event_list w = e" "e \<noteq> 0" "ev_heap w e = Some ev" "ev_type ev = EVENT_TIME" "e \<notin> set fs" "e \<notin> set as"
    using rep_heads(1) [OF Cons.prems] rep_heads(4,7) [OF Cons.prems, of e] Cons.prems by (auto simp: evs_rep_def)
  obtain w' where w': "remove_event e w = Some w'" "evs_rep w' ts fs as" "evs.more w' = evs.more w"
    using drain_step [OF Cons.prems, of e] h(5,6) by (auto simp: remove1_idem)
  have "drain_time w = drain_time w'"
    using w'(1) h by (subst drain_time.simps) (auto simp: remove_event_def bind_eq_Some_conv)
  then show ?case
    using Cons.IH [OF w'(2)] w'(3) by simp
qed

lemma drain_fd_empties: "evs_rep w [] fs as \<Longrightarrow> \<exists>w'. drain_fd w = Some w' \<and> evs_rep w' [] [] as \<and> evs.more w' = evs.more w"
proof (induction fs arbitrary: w)
  case Nil
  then show ?case
    using rep_heads(2) [OF Nil] by (subst drain_fd.simps) auto
next
  case (Cons e fs)
  obtain ev where h: "fd_event_list w = e" "e \<noteq> 0" "ev_heap w e = Some ev" "ev_type ev = EVENT_FD" "e \<notin> set as"
    using rep_heads(2) [OF Cons.prems] rep_heads(5,7) [OF Cons.prems, of e] Cons.prems by (auto simp: evs_rep_def)
  obtain w' where w': "remove_event e w = Some w'" "evs_rep w' [] fs as" "evs.more w' = evs.more w"
    using drain_step [OF Cons.prems, of e] h(5) by (auto simp: remove1_idem)
  have "drain_fd w = drain_fd w'"
    using w'(1) h by (subst drain_fd.simps) (auto simp: remove_event_def bind_eq_Some_conv)
  then show ?case
    using Cons.IH [OF w'(2)] w'(3) by simp
qed

lemma drain_always_empties: "evs_rep w [] [] as \<Longrightarrow> \<exists>w'. drain_always w = Some w' \<and> evs_rep w' [] [] [] \<and> evs.more w' = evs.more w"
proof (induction as arbitrary: w)
  case Nil
  then show ?case
    using rep_heads(3) [OF Nil] by (subst drain_always.simps) auto
next
  case (Cons e as)
  obtain ev where h: "always_event_list w = e" "e \<noteq> 0" "ev_heap w e = Some ev" "ev_type ev = EVENT_ALWAYS"
    using rep_heads(3) [OF Cons.prems] rep_heads(6,7) [OF Cons.prems, of e] by auto
  obtain w' where w': "remove_event e w = Some w'" "evs_rep w' [] [] as" "evs.more w' = evs.more w"
    using drain_step [OF Cons.prems, of e] by auto
  have "drain_always w = drain_always w'"
    using w'(1) h by (subst drain_always.simps) (auto simp: remove_event_def bind_eq_Some_conv)
  then show ?case
    using Cons.IH [OF w'(2)] w'(3) by simp
qed

lemma drain_all:
  assumes "evq w Q"
  shows "\<exists>w'. do { w \<leftarrow> drain_time w; w \<leftarrow> drain_fd w; drain_always w } = Some w' \<and>
    time_event_list w' = 0 \<and> fd_event_list w' = 0 \<and> always_event_list w' = 0 \<and> evq w' Map.empty \<and> evs.more w' = evs.more w"
proof -
  obtain ts fs as where r: "evs_rep w ts fs as"
    using assms by (rule evq_obtain)
  obtain w1 w2 w3 where w: "drain_time w = Some w1" "drain_fd w1 = Some w2" "drain_always w2 = Some w3" "evs_rep w3 [] [] []"
      "evs.more w3 = evs.more w"
    using drain_time_empties [OF r] drain_fd_empties drain_always_empties by metis
  have "evq w3 Map.empty"
    using w(4) unfolding evq_def by (intro exI [of _ "[]"]) (auto simp: queue_of_def list_of_def)
  then show ?thesis
    using w rep_heads(1-3) [OF w(4)] by simp
qed

subsection \<open>The contract of the callbacks\<close>

text \<open>A round in which the clients of the status page do not hold the daemon up.\<close>

definition round_ok :: "round_env \<Rightarrow> bool" where
  "round_ok r \<longleftrightarrow> list_all client_ok (fst (snd r))"

locale loop_handlers =
  fixes inv :: "queue \<Rightarrow> world \<Rightarrow> queue \<Rightarrow> bool" and run :: run_fun
  assumes inv_queue: "inv P w Q \<Longrightarrow> evq w Q"
    and run_law: "inv Map.empty w Q \<Longrightarrow> Q e = Some (k, f) \<Longrightarrow> k = Fd \<or> k = Always \<Longrightarrow>
      \<exists>r w' Q' g. run f w = Some (r, w') \<and> inv (if r = 0 then [e \<mapsto> (k, g)] else Map.empty) w' Q' \<and> Q' e = Some (k, g)"
    and due_law: "inv Map.empty w Q \<Longrightarrow> Q e = Some (Due, f) \<Longrightarrow>
      \<exists>r w' Q'. run f w = Some (r, w') \<and> (inv [e \<mapsto> (Due, f)] w' Q' \<or> inv Map.empty w' Q' \<and> gone e w')"
    and reap_law: "inv [e \<mapsto> v] w Q \<Longrightarrow> evq w' (Q(e := None)) \<Longrightarrow> evs.more w' = evs.more w \<Longrightarrow> inv Map.empty w' (Q(e := None))"
    and mark_law: "inv Map.empty w Q \<Longrightarrow> Q e = Some (k, f) \<Longrightarrow> k = Timer \<or> k = Due \<Longrightarrow> evq w' (Q(e \<mapsto> (Due, f))) \<Longrightarrow>
      evs.more w' = evs.more w \<Longrightarrow> inv Map.empty w' (Q(e \<mapsto> (Due, f)))"
    and clock_law: "inv Map.empty w Q \<Longrightarrow> inv Map.empty (w\<lparr>now := tv\<rparr>) Q"
    and listed_law: "inv [e \<mapsto> v] w Q \<Longrightarrow> Q e = Some v"
    and report_law: "inv Map.empty w Q \<Longrightarrow> list_all client_ok cls \<Longrightarrow> write_status_report cls u w \<noteq> None"
begin

text \<open>The loop removes the event of a callback that let go of it.\<close>

lemma reap:
  assumes "inv [e \<mapsto> (k, g)] w Q"
  shows "\<exists>w'. remove_event e w = Some w' \<and> inv Map.empty w' (Q(e := None))"
proof -
  obtain w' where "remove_event e w = Some w'" "evq w' (Q(e := None))" "evs.more w' = evs.more w"
    using evl.remove_law [OF inv_queue [OF assms] listed_law [OF assms]] by blast
  then show ?thesis
    using reap_law [OF assms] by blast
qed

lemma fd_round_returns:
  assumes "inv Map.empty w Q" "e = 0 \<or> (\<exists>f. Q e = Some (Fd, f))"
  shows "\<exists>w' Q'. fd_round ready run e w = Some w' \<and> inv Map.empty w' Q'"
  using assms
proof (induction e arbitrary: w Q rule: less_induct)
  case (less e)
  show ?case
  proof (cases "e = 0")
    case True
    then show ?thesis
      using less.prems(1) by (subst fd_round.simps) auto
  next
    case False
    then obtain f where f: "Q e = Some (Fd, f)"
      using less.prems(2) by blast
    obtain ev fd wr where ev: "ev_heap w e = Some ev" "ev_func ev = f" "ev_ev ev = Ev_fd fd wr"
      using queue_Fd [OF inv_queue [OF less.prems(1)] f] by blast
    obtain r w1 Q1 g where a: "(if ready (fd, wr) then run f w else Some (1, w)) = Some (r, w1)"
        "inv (if r = 0 then [e \<mapsto> (Fd, g)] else Map.empty) w1 Q1" "Q1 e = Some (Fd, g)"
    proof (cases "ready (fd, wr)")
      case True
      then show ?thesis
        using run_law [OF less.prems(1) f] that by auto
    next
      case no: False
      show ?thesis
        by (rule that [of 1 w f Q]) (use no less.prems(1) f in simp_all)
    qed
    obtain ev1 where ev1: "ev_heap w1 e = Some ev1" "ev_next ev1 = 0 \<or> (\<exists>g. Q1 (ev_next ev1) = Some (Fd, g)) \<and> ev_next ev1 < e"
      using queue_Fd [OF inv_queue [OF a(2)] a(3)] by metis
    have step: "fd_round ready run e w = (if r = 0 then do { w \<leftarrow> remove_event e w1; fd_round ready run (ev_next ev1) w }
        else fd_round ready run (ev_next ev1) w1)"
      unfolding fd_round.simps [of ready run e w] if_not_P [OF False] ev Option.bind.simps ev_union.case a(1) prod.case ev1(1) Let_def ..
    have nx: "ev_next ev1 < e"
      using ev1(2) False by auto
    show ?thesis
    proof (cases "r = 0")
      case True
      then have "inv [e \<mapsto> (Fd, g)] w1 Q1"
        using a(2) by simp
      from reap [OF this] obtain w2 where w2: "remove_event e w1 = Some w2" "inv Map.empty w2 (Q1(e := None))"
        by blast
      have "ev_next ev1 = 0 \<or> (\<exists>f. (Q1(e := None)) (ev_next ev1) = Some (Fd, f))"
        using ev1(2) nx by (auto simp: fun_upd_apply)
      from less.IH [OF nx w2(2) this] show ?thesis
        unfolding step using True w2(1) by simp
    next
      case r: False
      then have "inv Map.empty w1 Q1"
        using a(2) by simp
      moreover have "ev_next ev1 = 0 \<or> (\<exists>f. Q1 (ev_next ev1) = Some (Fd, f))"
        using ev1(2) by blast
      ultimately show ?thesis
        unfolding step using less.IH [OF nx] r by simp
    qed
  qed
qed

lemma always_round_returns:
  assumes "inv Map.empty w Q" "e = 0 \<or> (\<exists>f. Q e = Some (Always, f))"
  shows "\<exists>w' Q'. always_round run e w = Some w' \<and> inv Map.empty w' Q'"
  using assms
proof (induction e arbitrary: w Q rule: less_induct)
  case (less e)
  show ?case
  proof (cases "e = 0")
    case True
    then show ?thesis
      using less.prems(1) by (subst always_round.simps) auto
  next
    case False
    then obtain f where f: "Q e = Some (Always, f)"
      using less.prems(2) by blast
    obtain ev where ev: "ev_heap w e = Some ev" "ev_func ev = f"
      using queue_Always [OF inv_queue [OF less.prems(1)] f] by blast
    obtain r w1 Q1 g where a: "run f w = Some (r, w1)" "inv (if r = 0 then [e \<mapsto> (Always, g)] else Map.empty) w1 Q1" "Q1 e = Some (Always, g)"
      using run_law [OF less.prems(1) f] by auto
    obtain ev1 where ev1: "ev_heap w1 e = Some ev1" "ev_next ev1 = 0 \<or> (\<exists>g. Q1 (ev_next ev1) = Some (Always, g)) \<and> ev_next ev1 < e"
      using queue_Always [OF inv_queue [OF a(2)] a(3)] by metis
    have step: "always_round run e w = (if r = 0 then do { w \<leftarrow> remove_event e w1; always_round run (ev_next ev1) w }
        else always_round run (ev_next ev1) w1)"
      by (subst always_round.simps) (simp add: False ev a(1) ev1(1) Let_def)
    have nx: "ev_next ev1 < e"
      using ev1(2) False by auto
    show ?thesis
    proof (cases "r = 0")
      case True
      then have "inv [e \<mapsto> (Always, g)] w1 Q1"
        using a(2) by simp
      from reap [OF this] obtain w2 where w2: "remove_event e w1 = Some w2" "inv Map.empty w2 (Q1(e := None))"
        by blast
      have "ev_next ev1 = 0 \<or> (\<exists>f. (Q1(e := None)) (ev_next ev1) = Some (Always, f))"
        using ev1(2) nx by (auto simp: fun_upd_apply)
      from less.IH [OF nx w2(2) this] show ?thesis
        unfolding step using True w2(1) by simp
    next
      case r: False
      then have "inv Map.empty w1 Q1"
        using a(2) by simp
      moreover have "ev_next ev1 = 0 \<or> (\<exists>f. Q1 (ev_next ev1) = Some (Always, f))"
        using ev1(2) by blast
      ultimately show ?thesis
        unfolding step using less.IH [OF nx] r by simp
    qed
  qed
qed

lemma run_timer_returns:
  assumes i: "inv Map.empty w Q" and e: "Q e = Some (k, f)" "k = Timer \<or> k = Due"
  shows "\<exists>w' Q'. run_timer run e w = Some w' \<and> inv Map.empty w' Q'"
proof -
  obtain w1 ev where m: "ev_upd e (\<lambda>ev. ev\<lparr>ev_remove := 1\<rparr>) w = Some w1" "evq w1 (Q(e \<mapsto> (Due, f)))" "evs.more w1 = evs.more w"
      "ev_heap w1 e = Some ev" "ev_func ev = f"
    using queue_mark_due [OF inv_queue [OF i] e] by blast
  let ?Q = "Q(e \<mapsto> (Due, f))"
  have i1: "inv Map.empty w1 ?Q"
    by (rule mark_law [OF i e m(2,3)])
  have "?Q e = Some (Due, f)"
    by simp
  from due_law [OF i1 this] obtain r w2 Q2 where d: "run f w1 = Some (r, w2)" "inv [e \<mapsto> (Due, f)] w2 Q2 \<or> inv Map.empty w2 Q2 \<and> gone e w2"
    by blast
  have step: "run_timer run e w = do { ev \<leftarrow> ev_heap w2 e; (if ev_remove ev \<noteq> 0 then remove_event e w2 else Some w2) }"
    unfolding run_timer_def m(1,4) Option.bind.simps m(5) d(1) by simp
  show ?thesis
  proof (cases "gone e w2 \<and> inv Map.empty w2 Q2")
    case True
    then show ?thesis
      unfolding step using gone_remove [of e w2] by (auto simp: gone_def)
  next
    case False
    then have i2: "inv [e \<mapsto> (Due, f)] w2 Q2"
      using d(2) by blast
    obtain w3 where w3: "remove_event e w2 = Some w3" "inv Map.empty w3 (Q2(e := None))"
      using reap [OF i2] by blast
    moreover obtain ev2 where "ev_heap w2 e = Some ev2" "ev_remove ev2 \<noteq> 0"
      using inv_queue [OF i2] listed_law [OF i2] by (auto simp: evq_def queue_of_def list_of_def bind_eq_Some_conv split: if_splits)
    ultimately show ?thesis
      unfolding step by auto
  qed
qed

lemma fd_watch_returns:
  assumes "evq w Q" "e = 0 \<or> (\<exists>f. Q e = Some (Fd, f))"
  shows "\<exists>ws h. fd_watch e n w = Some (ws, h)"
  using assms(2)
proof (induction e arbitrary: n rule: less_induct)
  case (less e)
  show ?case
  proof (cases "e = 0")
    case True
    then show ?thesis
      by (subst fd_watch.simps) simp
  next
    case False
    then obtain f where "Q e = Some (Fd, f)"
      using less.prems by blast
    from queue_Fd [OF assms(1) this] obtain ev fd wr where ev: "ev_heap w e = Some ev" "ev_ev ev = Ev_fd fd wr"
        "ev_next ev = 0 \<or> (\<exists>g. Q (ev_next ev) = Some (Fd, g)) \<and> ev_next ev < e"
      by metis
    then obtain ws h where "fd_watch (ev_next ev) (max_int fd n) w = Some (ws, h)"
      using less.IH [of "ev_next ev" "max_int fd n"] False by auto
    then show ?thesis
      using False ev by (subst fd_watch.simps) simp
  qed
qed

text \<open>A pass through the loop, whatever \<open>select\<close> answers.\<close>

lemma event_round_returns:
  assumes i: "inv Map.empty w Q" and ok: "round_ok r"
  shows "\<exists>w' Q'. event_round ssock r run w = Some w' \<and> inv Map.empty w' Q'"
proof -
  note hd = queue_heads [OF inv_queue [OF i]]
  obtain sel cls u where r: "r = (sel, cls, u)"
    by (cases r) auto
  obtain ws0 h where fw: "fd_watch (fd_event_list w) (if ssock \<ge> 0 then max_int ssock (- 1) else - 1) w = Some (ws0, h)"
    using fd_watch_returns [OF inv_queue [OF i] hd(1)] by blast
  let ?ws = "if ssock \<ge> 0 then (ssock, 0) # ws0 else ws0"
  have rest: "\<exists>w' Q'. do { w \<leftarrow> (if ret > 0 then do { w \<leftarrow> fd_round ready run (fd_event_list w) w; status_round ssock ready cls u w } else Some w);
      always_round run (always_event_list w) w } = Some w' \<and> inv Map.empty w' Q'"
    if i: "inv Map.empty w Q" for ret :: int and ready and w :: world and Q
  proof -
    obtain w0 Q0 where w0: "fd_round ready run (fd_event_list w) w = Some w0" "inv Map.empty w0 Q0"
      using fd_round_returns [OF i queue_heads(1) [OF inv_queue [OF i]], of ready] by blast
    have "status_round ssock ready cls u w0 = Some w0"
      using report_law [OF w0(2), of cls u] ok r by (auto simp: status_round_def round_ok_def)
    then obtain w1 Q1 where w1: "(if ret > 0 then do { w \<leftarrow> fd_round ready run (fd_event_list w) w; status_round ssock ready cls u w } else Some w) = Some w1"
        "inv Map.empty w1 Q1"
      using w0 i by (cases "ret > 0") auto
    show ?thesis
      unfolding w1(1) using always_round_returns [OF w1(2) queue_heads(2) [OF inv_queue [OF w1(2)]]] by simp
  qed
  show ?thesis
  proof (cases "time_event_list w = 0")
    case True
    obtain ret ready tv where s: "sel ?ws (h + 1) None = (ret, ready, tv)"
      by (meson prod_cases3)
    show ?thesis
      unfolding r event_round.simps fw using rest [OF clock_law [OF i, of tv], where ret = ret and ready = ready] True s by simp
  next
    case False
    then obtain k f tm where t: "Q (time_event_list w) = Some (k, f)" "k = Timer \<or> k = Due" "event_time (time_event_list w) w = Some tm"
      using hd(3) by auto
    let ?d = "- time_ago (now w) tm"
    obtain ret ready w1 where w1: "(if ?d > 0
             then let (ret, ready, tv) = sel ?ws (h + 1) (Some (if always_event_list w \<noteq> 0 then 0 else ?d)) in (ret, ready, w\<lparr>now := tv\<rparr>)
             else (0, (\<lambda>_. False), w)) = (ret, ready, w1)"
      by (meson prod_cases3)
    have i1: "inv Map.empty w1 Q"
      using w1 i clock_law [OF i] by (auto split: if_splits prod.splits)
    obtain w2 Q2 where w2: "(if ret = 0 then run_timer run (time_event_list w) w1 else Some w1) = Some w2" "inv Map.empty w2 Q2"
      using run_timer_returns [OF i1 t(1,2)] i1 by (cases "ret = 0") auto
    show ?thesis
      unfolding r event_round.simps fw using rest [OF w2(2), where ret = ret and ready = ready] False t(3) w1 w2(1) by (simp add: Let_def)
  qed
qed

lemma event_rounds_return:
  assumes "inv Map.empty w Q" "list_all round_ok rs"
  shows "\<exists>w' Q'. event_rounds ssock rs run w = Some w' \<and> inv Map.empty w' Q'"
  using assms
proof (induction rs arbitrary: w Q)
  case (Cons r rs)
  have "round_ok r"
    using Cons.prems(2) by simp
  then obtain w1 Q1 where "event_round ssock r run w = Some w1" "inv Map.empty w1 Q1"
    using event_round_returns [OF Cons.prems(1), of r ssock] by blast
  then show ?case
    using Cons.IH Cons.prems(2) by simp
qed auto

text \<open>The whole loop: it ends with every list empty; the rest of the state is that after the last pass.\<close>

lemma event_loop_returns:
  assumes "inv Map.empty w Q" "list_all round_ok rs"
  shows "\<exists>w1 Q1 w'. event_loop ssock rs run w = Some w' \<and> inv Map.empty w1 Q1 \<and> evs.more w' = evs.more w1 \<and>
    time_event_list w' = 0 \<and> fd_event_list w' = 0 \<and> always_event_list w' = 0"
proof -
  obtain w1 Q1 where w1: "event_rounds ssock rs run w = Some w1" "inv Map.empty w1 Q1"
    using event_rounds_return [OF assms] by blast
  show ?thesis
    unfolding event_loop_def w1(1) Option.bind.simps using drain_all [OF inv_queue [OF w1(2)]] w1(2) by blast
qed

end

end
