(* ===== verification/Daemon.thy ===== *)
theory Daemon
  imports Ptrtd Relay Loop_Safe
begin

text \<open>
  The daemon as a whole. The callbacks of the event loop, put together by \<open>run_callback\<close>, meet the
  contract of the loop; so from the state after start-up the daemon runs for any number of
  passes without a fault, for every behaviour of \<open>select\<close>, of the sockets and of the link that
  \<open>env_ok\<close> allows.
\<close>

subsection \<open>The event that is run\<close>

lemma which_tcb:
  assumes "events_ok Map.empty w Q" "Q e = Some (k, f)" "owner_of f = Owner_tcb t"
  obtains c where "tcbs w t = Some c" "e \<noteq> 0" "e = e_tcb_send c \<and> k = Always \<and> f = Do_tcb_write t \<or>
    e = e_timeout c \<and> (k = Timer \<or> k = Due) \<and> f = (if state c = TCP_TIME_WAIT then Tcp_remove t else Tcp_timeout t)"
proof -
  have m: "mine Map.empty (Owner_tcb t) Q e = Some (listed k, f)"
    using assms(2,3) by (simp add: mine_Some)
  obtain c where c: "tcbs w t = Some c"
    using mine_at [OF assms(1), of "Owner_tcb t"] m by (cases "tcbs w t") auto
  from holds2_which [OF mine_tcb [OF assms(1) c, unfolded tcb_holds_def] m] show ?thesis
    using that [OF c] by auto
qed

lemma which_map:
  assumes "events_ok Map.empty w Q" "Q e = Some (k, f)" "owner_of f = Owner_map m"
  obtains x where "maps w m = Some x" "e \<noteq> 0" "k = Fd" "e = e_fd_read x \<and> f = Handle_fd_can_read m \<or>
    e = e_fd_write x \<and> (f = Handle_fd_can_write m \<or> f = Handle_fd_did_connect m)"
proof -
  have m: "mine Map.empty (Owner_map m) Q e = Some (listed k, f)"
    using assms(2,3) by (simp add: mine_Some)
  obtain x where x: "maps w m = Some x"
    using mine_at [OF assms(1), of "Owner_map m"] m by (cases "maps w m") auto
  obtain g where g: "g = Handle_fd_can_write m \<or> g = Handle_fd_did_connect m"
      and h: "holds2 (e_fd_read x) (Fd, Handle_fd_can_read m) (e_fd_write x) (Fd, g) (mine Map.empty (Owner_map m) Q)"
    using mine_map [OF assms(1) x] by (auto simp: map_holds_def)
  from holds2_which [OF h m] show ?thesis
    using that [OF x] g by auto
qed

lemma which_umap:
  assumes "events_ok Map.empty w Q" "Q e = Some (k, f)" "owner_of f = Owner_umap m"
  obtains u where "umaps w m = Some u" "e = um_e_fd_read u \<and> k = Fd \<and> f = Handle_udp_read m \<or>
    e = um_e_stale u \<and> (k = Timer \<or> k = Due) \<and> f = Remove_udp_map m"
proof -
  have m: "mine Map.empty (Owner_umap m) Q e = Some (listed k, f)"
    using assms(2,3) by (simp add: mine_Some)
  obtain u where u: "umaps w m = Some u"
    using mine_at [OF assms(1), of "Owner_umap m"] m by (cases "umaps w m") auto
  have "holds2 (um_e_fd_read u) (Fd, Handle_udp_read m) (um_e_stale u) (Timer, Remove_udp_map m) (mine Map.empty (Owner_umap m) Q)"
    using mine_umap [OF assms(1) u] by (simp add: umap_holds_def)
  from holds2_which [OF this m] show ?thesis
    using that [OF u] by auto
qed

text \<open>The interface's event belongs to nobody else, so it may count as one without an owner.\<close>

lemma iface_orphan:
  assumes "events_ok Map.empty w Q" "Q e = Some (Fd, Iface_read)"
  shows "events_ok [e \<mapsto> (Fd, Iface_read)] w Q"
proof -
  have m: "mine Map.empty Owner_iface Q e = Some (Fd, Iface_read)"
    using assms(2) by (simp add: mine_Some)
  have "holds_events w Owner_iface ((mine Map.empty Owner_iface Q)(e := None))"
    using mine_at [OF assms(1), of Owner_iface] by (auto simp: fun_upd_apply)
  from events_orphan [OF assms(1) m assms(2) events_ok_evq [OF assms(1)] _ this] show ?thesis
    by simp
qed

lemma iface_adopt:
  assumes "events_ok [e \<mapsto> (Fd, Iface_read)] w Q"
  shows "events_ok Map.empty w Q" "Q e = Some (Fd, Iface_read)"
proof -
  show q: "Q e = Some (Fd, Iface_read)"
    using assms by (simp add: events_ok_def map_le_def)
  show "events_ok Map.empty w Q"
  proof (rule events_okI [OF events_ok_evq [OF assms]])
    have "mine Map.empty y Q = (if y = Owner_iface then (mine [e \<mapsto> (Fd, Iface_read)] y Q)(e \<mapsto> (Fd, Iface_read)) else mine [e \<mapsto> (Fd, Iface_read)] y Q)" for y
      using q by (auto simp: mine_def own_def restrict_map_def fun_upd_apply fun_eq_iff)
    then show "holds_events w y (mine Map.empty y Q)" for y
      using mine_at [OF assms, of y] by (cases y) (auto simp: fun_upd_apply)
  qed simp
qed

subsection \<open>Packets\<close>

text \<open>
  What a received packet must be for its handler to be safe. Of an ICMPv6 message: an echo request is
  long enough, and an advertisement carries a link address where the link has them. Of a TCP segment:
  \<open>seg_ok\<close>, and \<open>ALLOC\<close> returns memory that is not in use. Of a datagram: a socket can be had. Other
  next headers than these and hop-by-hop options lead to \<open>icmp_send_error\<close>.
\<close>

definition packet_ok :: "iface \<Rightarrow> env \<Rightarrow> pbuf \<Rightarrow> world \<Rightarrow> bool" where
  "packet_ok ifc v p w \<longleftrightarrow> (let d = pb_d p; len = pb_dlen p in
     if d ! 6 = 58 then (d ! 40 = 128 \<longrightarrow> 48 \<le> len) \<and> (d ! 40 = 136 \<longrightarrow> hwaddr_len ifc = 0 \<or> d ! 64 = 2)
     else if d ! 6 = 6 then seg_ok d len w \<and> tcbs w (new_tcb v) = None \<and> new_tcb v \<noteq> 0 \<and> aligned (new_tcb v) \<and> maps w (new_map v) = None
     else if d ! 6 = 17 then umaps w (new_umap v) = None \<and> 0 \<le> usock_fd v
     else d ! 6 = 0)"

lemma relay_cong: "maps w' = maps w \<Longrightarrow> tlist w' = tlist w \<Longrightarrow> num_tcp_maps w' = num_tcp_maps w \<Longrightarrow> tcbs w' = tcbs w \<Longrightarrow> relay_ok S w' = relay_ok S w"
  using space_cong [of w' w] by (simp add: relay_ok_def)

lemma make_cksum_some:
  assumes "8 \<le> length p" "nat len \<le> length p"
  shows "\<exists>s. make_cksum p len = Some s"
proof (cases "8 \<le> len")
  case False
  then have "nat (len - 8) = 0"
    by simp
  then show ?thesis
    using assms(1) by (simp add: make_cksum_def GET_16_def mem_simps)
qed (use make_cksum_eq assms(2) in blast)

context link_driver
begin

lemma udp_sys:
  assumes s: "relay_sys lt P0 S w Q" and w': "events_ok P w' Q'" "umaps_ok w'" "udp_frame w w'" "nd_ok ifc head (nlist w')"
  shows "relay_sys lt P S w' Q'" "sess w' = sess w"
proof -
  have f: "tcbs w' = tcbs w" "tcblist w' = tcblist w" "maps w' = maps w" "tlist w' = tlist w" "num_tcp_maps w' = num_tcp_maps w"
      "socks w' = socks w" "udp_list w' = udp_list w" "udp_listener w' = udp_listener w"
    using w'(3) by (simp_all add: udp_frame_fields)
  show "relay_sys lt P S w' Q'"
    using s w'(1,2,4) f relay_cong [of w' w S] tcp_ok_cong [of w' w lt] by (simp add: sys_ok_def apps_ok_def udp_ok_def)
  show "sess w' = sess w"
    by (rule sess_cong [OF f(1)])
qed

lemma handle_packet_sys:
  assumes s: "relay_sys lt P (sess w) w Q" and p: "packet_ok ifc v p w" and d: "72 \<le> length (pb_d p)" "nat (pb_dlen p) \<le> length (pb_d p)"
  shows "\<exists>w' Q'. handle_packet ifc v p w = Some (Inr w') \<and> relay_sys lt P (sess w') w' Q'"
proof -
  let ?d = "pb_d p" and ?n = "pb_dlen p"
  obtain ck where ck: "make_cksum ?d ?n = Some ck"
    using make_cksum_some [of ?d ?n] d by auto
  have b: "mem_get ?d 6 = Some (?d ! 6)"
    using d by (simp add: mem_simps)
  consider (icmp) "?d ! 6 = 58" | (tcp) "?d ! 6 = 6" | (udp) "?d ! 6 = 17" | (hop) "?d ! 6 = 0"
    using p by (auto simp: packet_ok_def Let_def split: if_splits)
  then show ?thesis
  proof cases
    case icmp
    then have "?d ! 40 = 128 \<Longrightarrow> 48 \<le> ?n" "?d ! 40 = 136 \<Longrightarrow> hwaddr_len ifc = 0 \<or> ?d ! 64 = 2"
      using p by (simp_all add: packet_ok_def Let_def)
    from handle_icmp_ok [OF relay.sys_nd [OF s] d this] obtain ns fs where
      h: "handle_icmp ifc ?d ?n w = Some (w\<lparr>nlist := ns, sent := sent w @ fs\<rparr>)" "nd_ok ifc head ns"
      by blast
    let ?w = "w\<lparr>nlist := ns, sent := sent w @ fs\<rparr>"
    have "relay_sys lt P (sess ?w) ?w Q"
      using relay.sys_frame [OF s, of ?w] h(2) sess_cong [of ?w w] by (simp add: app_same_def)
    then show ?thesis
      unfolding handle_packet_def ck b using icmp h(1) by auto
  next
    case tcp
    then have "seg_ok ?d ?n w" "tcbs w (new_tcb v) = None" "new_tcb v \<noteq> 0" "aligned (new_tcb v)" "maps w (new_map v) = None"
      using p by (simp_all add: packet_ok_def Let_def)
    from server.handle_tcp_sys [where fd = "sock_fd v" and conn = "conn_res v", OF s this] show ?thesis
      unfolding handle_packet_def ck b using tcp by auto
  next
    case udp
    then have u: "umaps w (new_umap v) = None" "0 \<le> usock_fd v"
      using p by (simp_all add: packet_ok_def Let_def)
    show ?thesis
    proof (cases "udp_list w = []")
      case True
      then show ?thesis
        unfolding handle_packet_def ck b using udp s by (auto simp: handle_udp_def)
    next
      case False
      then have "hd (udp_list w) \<in> dom (socks w)"
        using relay_ok_sys(2) [OF s] hd_in_set [of "udp_list w"] by (simp add: udp_ok_def subset_iff)
      then obtain sk where sk: "socks w (hd (udp_list w)) = Some sk"
        by blast
      let ?la = "take 16 (drop 24 ?d)" and ?ra = "take 16 (drop 8 ?d)"
      have m: "mem_sub ?d 24 16 = Some ?la" "mem_sub ?d 8 16 = Some ?ra" "length ?la = 16" "length ?ra = 16" "nat (?n - 48) \<le> length (drop 48 ?d)"
        using d by (simp_all add: mem_simps)
      obtain lp rp where g: "GET_16 ?d 42 = Some lp" "GET_16 ?d 40 = Some rp"
        using d(1) by (simp add: GET_16_def mem_simps)
      have um: "umaps_ok w"
        using relay_ok_sys(2) [OF s] by (simp add: udp_ok_def)
      obtain w' Q' where i: "udp_incoming (new_umap v) (usock_fd v) (drop 48 ?d) (?n - 48) ?la lp ?ra rp w = Some (Inr w')"
          "events_ok P w' Q'" "umaps_ok w'" "udp_frame w w'" "nlist w' = nlist w"
        using udp_incoming_ok [OF relay.sys_events [OF s] um u m(4,3,5), of lp rp] by blast
      have nd: "nd_ok ifc head (nlist w')"
        using relay.sys_nd [OF s] i(5) by simp
      note us = udp_sys [OF s i(2-4) nd]
      then show ?thesis
        unfolding handle_packet_def ck b using udp False sk m g i(1) by (auto simp: handle_udp_def)
    qed
  next
    case hop
    then show ?thesis
      unfolding handle_packet_def ck b using s by auto
  qed
qed

lemmas do_tcb_write_keeps = relay.do_tcb_write_sys
lemmas tcp_timeout_keeps = relay.tcp_timeout_sys
lemmas tcp_remove_keeps = relay.tcp_remove_sys
lemmas session_tcb = relay.sys_tcb
lemmas frame_keeps = relay.sys_frame
lemmas tcp_keeps = server.handle_tcp_sys

end

subsection \<open>Frames\<close>

text \<open>
  The buffer that the packet handler gets from a frame, for each driver; \<open>None\<close> if the frame is
  dropped.
\<close>

definition ether_in :: "pbuf \<Rightarrow> pbuf option" where
  "ether_in p = (if GET_16 (pb_d p) 12 = Some ETHERNET_IPV6_TYPE then Some (snd (pbuf_drop p 14)) else None)"

fun delivered :: "link_if \<Rightarrow> byte list \<Rightarrow> pbuf option" where
  "delivered (Tun _) fr = do {
     r \<leftarrow> tuntap_do_read (Some fr) (pbuf_new 1284);
     (case r of Inr (rc, p) \<Rightarrow> if rc = 0 then Some p else None | _ \<Rightarrow> None)
   }"
| "delivered (Tap _) fr = do {
     r \<leftarrow> tuntap_do_read (Some fr) (snd (pbuf_drop (pbuf_new 1298) 4));
     (case r of Inr (rc, p) \<Rightarrow> ether_in p | _ \<Rightarrow> None)
   }"
| "delivered (Ip802 i) fr = do {
     r \<leftarrow> socket_read (ip_ife i) (ip_iface i) (Some fr);
     (case r of Inr p \<Rightarrow> ether_in p | _ \<Rightarrow> None)
   }"
| "delivered (Uml i) fr = do {
     r \<leftarrow> socket_read (uml_ife i) (uml_sw_iface i) (Some fr);
     (case r of Inr p \<Rightarrow> ether_in p | _ \<Rightarrow> None)
   }"

fun link_ok :: "link_if \<Rightarrow> bool" where
  "link_ok (Ip802 i) \<longleftrightarrow> mac_ok (ip_ife i)"
| "link_ok (Uml i) \<longleftrightarrow> mac_ok (uml_ife i)"
| "link_ok _ \<longleftrightarrow> True"

lemma link_ok_driver: "link_ok l \<Longrightarrow> \<exists>room. driver (link_iface l) room"
  by (cases l) (auto simp: driver_def)

lemma fill_ok:
  assumes "pbuf_ok p" "int (length data) \<le> pb_max p"
  shows "\<exists>d. mem_put (pb_d p) 0 data = Some d \<and> pbuf_ok ((pb_set p d)\<lparr>pb_dlen := int (length data)\<rparr>) \<and> pb_max (pb_set p d) = pb_max p \<and>
    length (pb_d (pb_set p d)) = length (pb_d p)"
proof -
  have l: "length data \<le> length (pb_d p)"
    using length_pb_d [OF assms(1)] assms(2) by linarith
  let ?d = "data @ drop (length data) (pb_d p)"
  have "length ?d = length (pb_d p)"
    using l by simp
  note s = pb_set_ok [OF assms(1) this]
  have "mem_put (pb_d p) 0 data = Some ?d"
    using l by (simp add: mem_put_def)
  moreover have "pbuf_ok ((pb_set p ?d)\<lparr>pb_dlen := int (length data)\<rparr>)"
    using s(1,4) assms(2) by (intro pbuf_ok_dlen) simp_all
  ultimately show ?thesis
    using s l by (intro exI [of _ ?d]) simp
qed

lemma take_max: "pbuf_ok p \<Longrightarrow> int (length (take (nat (pb_max p)) data)) \<le> pb_max p"
  by (auto simp: pbuf_ok_def min_def)

lemma tuntap_read_some:
  assumes p: "pbuf_ok p" "4 \<le> pb_max p"
  shows "\<exists>rc q. tuntap_do_read (Some fr) p = Some (Inr (rc, q)) \<and> pbuf_ok q \<and> pb_max p - 4 \<le> pb_max q"
proof -
  let ?data = "take (nat (pb_max p)) fr"
  obtain d where d: "mem_put (pb_d p) 0 ?data = Some d" "pbuf_ok ((pb_set p d)\<lparr>pb_dlen := int (length ?data)\<rparr>)"
      "pb_max (pb_set p d) = pb_max p" "length (pb_d (pb_set p d)) = length (pb_d p)"
    using fill_ok [OF p(1) take_max [OF p(1)]] by blast
  define q where "q = (pb_set p d)\<lparr>pb_dlen := int (length ?data)\<rparr>"
  have q: "pbuf_ok q" "pb_max q = pb_max p" "4 \<le> length (pb_d q)"
    using d(2-4) length_pb_d [OF p(1)] p(2) by (auto simp: q_def)
  obtain ty where ty: "GET_16 (pb_d q) 2 = Some ty"
    using q(3) by (simp add: GET_16_def mem_simps)
  have "tuntap_do_read (Some fr) p = Some (Inr (if pb_dlen q > 4 \<and> ty = ETH_P_IPV6 then (0, snd (pbuf_drop q 4)) else (- 1, q)))"
    unfolding tuntap_do_read_def option.case Let_def d(1) Option.bind.simps q_def [symmetric] using ty by simp
  moreover have "pbuf_ok (snd (pbuf_drop q 4))" "pb_max (snd (pbuf_drop q 4)) = pb_max p - 4"
    using pbuf_drop_ok [OF q(1), of 4] q(2) p(2) by (simp_all add: pbuf_drop_def Let_def)
  ultimately show ?thesis
    using q(1,2) by (cases "pb_dlen q > 4 \<and> ty = ETH_P_IPV6") auto
qed

lemma socket_read_some:
  assumes i: "mac_ok i" "0 \<le> mtu ifc" and fr: "fr \<noteq> []"
  shows "\<exists>q. socket_read i ifc (Some fr) = Some (Inr q) \<and> pbuf_ok q \<and> pb_max q = mtu ifc + 14"
proof -
  let ?p = "snd (pbuf_drop (pbuf_new (mtu ifc + head_size i)) (head_size i - 14))"
  have p: "pbuf_ok ?p" "pb_max ?p = mtu ifc + 14"
    using i pbuf_drop_ok [OF pbuf_new_ok, of "mtu ifc + 14" 0] by (simp_all add: mac_ok_def pbuf_drop_def pbuf_new_def Let_def)
  let ?data = "take (nat (pb_max ?p)) fr"
  obtain d where d: "mem_put (pb_d ?p) 0 ?data = Some d" "pbuf_ok ((pb_set ?p d)\<lparr>pb_dlen := int (length ?data)\<rparr>)" "pb_max (pb_set ?p d) = pb_max ?p"
    using fill_ok [OF p(1) take_max [OF p(1)]] by blast
  have "?data \<noteq> []"
    using fr p(2) i(2) by simp
  then show ?thesis
    unfolding socket_read_def Let_def option.case d(1) Option.bind.simps using d(2,3) p(2) by simp
qed

lemma ether_in_ok:
  assumes "pbuf_ok p" "86 \<le> pb_max p"
  shows "ether_pkt_in handle p w = (case ether_in p of None \<Rightarrow> Some (Inr w) | Some q \<Rightarrow> handle q w)"
    "ether_in p = Some q \<Longrightarrow> pbuf_ok q \<and> 72 \<le> pb_max q"
proof -
  have l: "86 \<le> length (pb_d p)"
    using length_pb_d [OF assms(1)] assms(2) by linarith
  then obtain ty where "GET_16 (pb_d p) 12 = Some ty"
    by (simp add: GET_16_def mem_simps)
  then show "ether_pkt_in handle p w = (case ether_in p of None \<Rightarrow> Some (Inr w) | Some q \<Rightarrow> handle q w)"
    using l by (simp add: ether_pkt_in_def ether_in_def mem_simps)
  assume "ether_in p = Some q"
  then show "pbuf_ok q \<and> 72 \<le> pb_max q"
    using pbuf_drop_ok [OF assms(1), of 14] assms(2) by (auto simp: ether_in_def pbuf_drop_def Let_def split: if_splits)
qed

fun frame_ok :: "link_if \<Rightarrow> byte list \<Rightarrow> bool" where
  "frame_ok (Ip802 _) fr \<longleftrightarrow> fr \<noteq> []"
| "frame_ok (Uml _) fr \<longleftrightarrow> fr \<noteq> []"
| "frame_ok _ fr \<longleftrightarrow> True"

lemma iface_read_ok:
  assumes l: "link_ok l" "frame_ok l fr"
  shows "iface_read l (Some fr) handle w =
      (case delivered l fr of None \<Rightarrow> Some (Inr (1, w)) | Some p \<Rightarrow> map_option (map_sum id (Pair 1)) (handle p w))"
    "delivered l fr = Some p \<Longrightarrow> pbuf_ok p \<and> 72 \<le> pb_max p"
proof -
  have b: "bind x (\<lambda>r. Some (map_sum id (Pair 1) r)) = map_option (map_sum id (Pair (1 :: int))) x" for x :: "(int + world) option"
    by (cases x) simp_all
  have e: "map_option (map_sum id (Pair (1 :: int))) (case y of None \<Rightarrow> Some (Inr w) | Some q \<Rightarrow> handle q w) =
      (case y of None \<Rightarrow> Some (Inr (1, w)) | Some q \<Rightarrow> map_option (map_sum id (Pair 1)) (handle q w))" for y
    by (cases y) simp_all
  have r: "iface_read l (Some fr) handle w =
        (case delivered l fr of None \<Rightarrow> Some (Inr (1, w)) | Some p \<Rightarrow> map_option (map_sum id (Pair 1)) (handle p w)) \<and>
      (\<forall>p. delivered l fr = Some p \<longrightarrow> pbuf_ok p \<and> 72 \<le> pb_max p)"
  proof (cases l)
    case (Tun n)
    have "pbuf_ok (pbuf_new 1284)" "pb_max (pbuf_new 1284) = 1284"
      using pbuf_new_ok [of 1284] by (simp_all add: pbuf_new_def)
    then obtain rc q where "tuntap_do_read (Some fr) (pbuf_new 1284) = Some (Inr (rc, q))" "pbuf_ok q" "1280 \<le> pb_max q"
      using tuntap_read_some [of "pbuf_new 1284" fr] by auto
    then show ?thesis
      using Tun by (simp add: tun_read_callback_def tun_iface_def b)
  next
    case (Tap n)
    let ?p = "snd (pbuf_drop (pbuf_new 1298) 4)"
    have "pbuf_ok ?p" "pb_max ?p = 1294"
      using pbuf_drop_ok [OF pbuf_new_ok, of 1298 4] by (simp_all add: pbuf_drop_def pbuf_new_def)
    then obtain rc q where q: "tuntap_do_read (Some fr) ?p = Some (Inr (rc, q))" "pbuf_ok q" "1290 \<le> pb_max q"
      using tuntap_read_some [of ?p fr] by auto
    then show ?thesis
      using Tap ether_in_ok(1) [OF q(2), of handle w] ether_in_ok(2) [OF q(2)]
      by (simp add: tap_read_callback_def tap_iface_def tap_ether_def b e)
  next
    case (Ip802 i)
    have "mtu (ip_iface i) = 1280"
      by (simp add: ip_iface_def)
    then obtain q where q: "socket_read (ip_ife i) (ip_iface i) (Some fr) = Some (Inr q)" "pbuf_ok q" "pb_max q = 1294"
      using socket_read_some [of "ip_ife i" "ip_iface i" fr] l Ip802 by auto
    then show ?thesis
      using Ip802 ether_in_ok(1) [OF q(2), of handle w] ether_in_ok(2) [OF q(2)] by (simp add: ip_read_callback_def b e)
  next
    case (Uml i)
    have "mtu (uml_sw_iface i) = 1280"
      by (simp add: uml_sw_iface_def)
    then obtain q where q: "socket_read (uml_ife i) (uml_sw_iface i) (Some fr) = Some (Inr q)" "pbuf_ok q" "pb_max q = 1294"
      using socket_read_some [of "uml_ife i" "uml_sw_iface i" fr] l Uml by auto
    then show ?thesis
      using Uml ether_in_ok(1) [OF q(2), of handle w] ether_in_ok(2) [OF q(2)] by (simp add: uml_sw_read_callback_def b e)
  qed
  then show "iface_read l (Some fr) handle w =
      (case delivered l fr of None \<Rightarrow> Some (Inr (1, w)) | Some p \<Rightarrow> map_option (map_sum id (Pair 1)) (handle p w))"
    by blast
  show "delivered l fr = Some p \<Longrightarrow> pbuf_ok p \<and> 72 \<le> pb_max p"
    using r by blast
qed

subsection \<open>The callbacks\<close>

text \<open>
  What the world outside does in one call of a callback: a frame is delivered and holds a packet whose
  handler is safe; \<open>read\<close> does not return more than was asked for; \<open>write\<close> does not raise \<open>SIGPIPE\<close> and
  does not return \<open>EAGAIN\<close> on a socket that \<open>select\<close> reported; \<open>recvfrom\<close> succeeds and reports an IPv4 address.
\<close>

definition env_ok :: "link_if \<Rightarrow> env \<Rightarrow> callback \<Rightarrow> world \<Rightarrow> bool" where
  "env_ok l v f w \<longleftrightarrow> (case f of
       Iface_read \<Rightarrow> (case link_rd v of
           None \<Rightarrow> False
         | Some fr \<Rightarrow> frame_ok l fr \<and> (case delivered l fr of None \<Rightarrow> True | Some p \<Rightarrow> packet_ok (link_iface l) v p w))
     | Handle_fd_can_read m \<Rightarrow> (\<forall>n. 0 < n \<longrightarrow> fst (rd_res v n) \<le> n \<and> nat (fst (rd_res v n)) \<le> length (snd (snd (rd_res v n))))
     | Handle_fd_can_write m \<Rightarrow> (\<forall>tb. case wr_res v tb of None \<Rightarrow> False | Some (n, again) \<Rightarrow> \<not> (n = - 1 \<and> again))
     | Handle_udp_read m \<Rightarrow> 12 \<le> length (stack_pfx v) \<and> (case recv_res v of None \<Rightarrow> False | Some (tb, src, port) \<Rightarrow> length src = 4)
     | _ \<Rightarrow> True)"

lemma iface_read_sys:
  assumes l: "link_driver (link_iface l) room" "link_ok l" and s: "sys_ok (link_iface l) room apps_ok lt P (sess w) w Q"
    and v: "env_ok l v Iface_read w"
  shows "\<exists>w' Q'. run_callback l v Iface_read w = Some (1, w') \<and> sys_ok (link_iface l) room apps_ok lt P (sess w') w' Q'"
proof -
  obtain fr where fr: "link_rd v = Some fr" "frame_ok l fr"
    using v by (auto simp: env_ok_def split: option.splits)
  note r = iface_read_ok [OF l(2) fr(2)]
  show ?thesis
  proof (cases "delivered l fr")
    case None
    then show ?thesis
      using s fr(1) r(1) by (auto simp: run_callback_def)
  next
    case (Some p)
    then have p: "packet_ok (link_iface l) v p w" "pbuf_ok p" "72 \<le> pb_max p"
      using v fr(1) r(2) [OF Some] by (simp_all add: env_ok_def)
    have "72 \<le> length (pb_d p)" "nat (pb_dlen p) \<le> length (pb_d p)"
      using length_pb_d [OF p(2)] p(2,3) by (auto simp: pbuf_ok_def)
    from link_driver.handle_packet_sys [OF l(1) s p(1) this] obtain w' Q' where
      "handle_packet (link_iface l) v p w = Some (Inr w')" "sys_ok (link_iface l) room apps_ok lt P (sess w') w' Q'"
      by blast
    then show ?thesis
      using Some fr(1) r(1) by (auto simp: run_callback_def)
  qed
qed

subsection \<open>The daemon meets the contract of the loop\<close>

fun link_room :: "link_if \<Rightarrow> int" where
  "link_room (Tun _) = 4"
| "link_room (Tap _) = 18"
| "link_room _ = 14"

lemma link_driver_ok: "link_ok l \<Longrightarrow> link_driver (link_iface l) (link_room l)"
  by (cases l) (simp_all add: tun.link_driver_axioms tap.link_driver_axioms ip_link uml_link)

text \<open>
  The invariant of the daemon: the event queue with the owners of its events, the connection table, the
  neighbour table, and the sessions and maps of the relays. \<open>P\<close> are events about to be removed.
\<close>

definition daemon_inv :: "link_if \<Rightarrow> ptr \<Rightarrow> queue \<Rightarrow> world \<Rightarrow> queue \<Rightarrow> bool" where
  "daemon_inv l lt P w Q \<longleftrightarrow> sys_ok (link_iface l) (link_room l) apps_ok lt P (sess w) w Q"

definition daemon_ok :: "link_if \<Rightarrow> ptr \<Rightarrow> world \<Rightarrow> bool" where
  "daemon_ok l lt w \<longleftrightarrow> (\<exists>Q. daemon_inv l lt Map.empty w Q)"

lemma inv_tcb_not_listener:
  assumes "daemon_inv l lt P w Q" "tcbs w t = Some c" "e_tcb_send c \<noteq> 0 \<or> e_timeout c \<noteq> 0"
  shows "t \<noteq> lt"
  using assms by (auto simp: daemon_inv_def sys_ok_def tcp_ok_def listener_def)

lemma inv_events: "daemon_inv l lt P w Q \<Longrightarrow> events_ok P w Q"
  by (simp add: daemon_inv_def sys_ok_def)

lemma run_keeps:
  assumes l: "link_ok l" and i: "daemon_inv l lt Map.empty w Q" and e: "Q e = Some (k, f)" "k = Fd \<or> k = Always" and v: "env_ok l v f w"
  shows "\<exists>r w' Q' g. run_callback l v f w = Some (r, w') \<and> daemon_inv l lt (if r = 0 then [e \<mapsto> (k, g)] else Map.empty) w' Q' \<and> Q' e = Some (k, g)"
proof -
  note ld = link_driver_ok [OF l] and s = i [unfolded daemon_inv_def] and ev = inv_events [OF i]
  show ?thesis
  proof (cases "owner_of f")
    case (Owner_tcb t)
    obtain c where c: "tcbs w t = Some c" "e \<noteq> 0" "e = e_tcb_send c" "k = Always" "f = Do_tcb_write t"
      by (rule which_tcb [OF ev e(1) Owner_tcb]) (use e(2) in auto)
    have "t \<noteq> lt" "e_tcb_send c \<noteq> 0"
      using inv_tcb_not_listener [OF i c(1)] c(2,3) by auto
    from link_driver.do_tcb_write_keeps [OF ld s c(1) this] obtain r w' Q' where
      w': "do_tcb_write (link_iface l) t w = Some (r, w')" "sess w' = sess w" "Q' (e_tcb_send c) = Some (Always, Do_tcb_write t)"
        "sys_ok (link_iface l) (link_room l) apps_ok lt (if r = 0 then [e_tcb_send c \<mapsto> (Always, Do_tcb_write t)] else Map.empty) (sess w) w' Q'"
      by blast
    show ?thesis
      unfolding c(3-5) daemon_inv_def using w'
      by (intro exI [of _ r] exI [of _ w'] exI [of _ Q'] exI [of _ "Do_tcb_write t"]) (simp add: run_callback_def)
  next
    case (Owner_map m)
    obtain x where x: "maps w m = Some x" "e \<noteq> 0" "k = Fd" "e = e_fd_read x \<and> f = Handle_fd_can_read m \<or>
        e = e_fd_write x \<and> (f = Handle_fd_can_write m \<or> f = Handle_fd_did_connect m)"
      using which_map [OF ev e(1) Owner_map] by blast
    have "\<exists>r w'. run_callback l v f w = Some (r, w') \<and> link_driver.handled (link_iface l) (link_room l) lt e Fd r w'"
      using x(4)
    proof (elim disjE conjE)
      assume f: "e = e_fd_read x" "f = Handle_fd_can_read m"
      obtain c ob where "tcbs w (m_tcb x) = Some c" "outbuf c = Some ob"
        by (rule link_driver.map_tcb [OF ld s x(1)]) (metis tcb_ok_outbuf link_driver.session_tcb [OF ld s])
      then show ?thesis
        using link_driver.handle_fd_can_read_sys [OF ld s x(1), of "rd_res v" c ob] x(2) v f by (auto simp: run_callback_def env_ok_def)
    next
      assume f: "e = e_fd_write x" "f = Handle_fd_can_write m"
      obtain c ib where "tcbs w (m_tcb x) = Some c" "inbuf c = Some ib"
        by (rule link_driver.map_tcb [OF ld s x(1)]) (metis tcb_ok_inbuf link_driver.session_tcb [OF ld s])
      moreover obtain n again where "wr_res v (content ib) = Some (n, again)" "\<not> (n = - 1 \<and> again)"
        using v f(2) by (auto simp: env_ok_def split: option.splits)
      ultimately show ?thesis
        using link_driver.handle_fd_can_write_sys [OF ld s x(1), of c ib "wr_res v" n again] x(2) f by (auto simp: run_callback_def)
    next
      assume f: "e = e_fd_write x" "f = Handle_fd_did_connect m"
      show ?thesis
        using link_driver.handle_fd_did_connect_sys [OF ld s x(1), of "so_error v"] x(2) f by (auto simp: run_callback_def)
    qed
    then obtain r w' Q' g where w': "run_callback l v f w = Some (r, w')" "Q' e = Some (Fd, g)"
        "sys_ok (link_iface l) (link_room l) apps_ok lt (if r = 0 then [e \<mapsto> (Fd, g)] else Map.empty) (sess w') w' Q'"
      unfolding link_driver.handled_def [OF ld] by blast
    show ?thesis
      unfolding x(3) daemon_inv_def using w' by (intro exI [of _ r] exI [of _ w'] exI [of _ Q'] exI [of _ g]) simp
  next
    case (Owner_umap m)
    obtain u where u: "umaps w m = Some u" "e = um_e_fd_read u" "k = Fd" "f = Handle_udp_read m"
      by (rule which_umap [OF ev e(1) Owner_umap]) (use e(2) in auto)
    obtain tb src port where rv: "recv_res v = Some (tb, src, port)" "length src = 4" "12 \<le> length (stack_pfx v)"
      using v u(4) by (auto simp: env_ok_def split: option.splits)
    have um: "umaps_ok w"
      using s by (simp add: sys_ok_def apps_ok_def udp_ok_def)
    have nd: "nd_ok (link_iface l) (link_room l) (nlist w)"
      using s by (simp add: sys_ok_def)
    from link_driver.handle_udp_read_ok [OF ld ev um u(1) nd rv(3,2)] obtain w' Q' where
      w': "handle_udp_read (link_iface l) (stack_pfx v) (Some (tb, src, port)) m w = Some (Inr (1, w'))" "events_ok Map.empty w' Q'"
        "umaps_ok w'" "umaps w' = umaps w" "udp_frame w w'" "nd_ok (link_iface l) (link_room l) (nlist w')"
      by blast
    note us = link_driver.udp_sys [OF ld s w'(2,3,5,6)]
    have "holds2 (um_e_fd_read u) (Fd, Handle_udp_read m) (um_e_stale u) (Timer, Remove_udp_map m) (mine Map.empty (Owner_umap m) Q')"
        "um_e_fd_read u \<noteq> 0"
      using mine_umap [OF w'(2), of m u] u(1) w'(4) by (simp_all add: umap_holds_def)
    from holds2_get(1) [OF this] have "Q' e = Some (Fd, Handle_udp_read m)"
      using u(2) by (auto simp: mine_Some)
    then show ?thesis
      using w'(1) rv(1) us u(3,4) by (auto simp: run_callback_def daemon_inv_def)
  next
    case Owner_iface
    then have f: "f = Iface_read"
      by (cases f) simp_all
    have "mine Map.empty Owner_iface Q e = Some (listed k, f)"
      using e(1) Owner_iface by (simp add: mine_Some)
    then have k: "k = Fd"
      using mine_at [OF ev, of Owner_iface] e(2) by fastforce
    have o: "sys_ok (link_iface l) (link_room l) apps_ok lt [e \<mapsto> (Fd, Iface_read)] (sess w) w Q"
      using s iface_orphan [OF ev] e(1) f k by (simp add: sys_ok_def)
    obtain w' Q' where w': "run_callback l v Iface_read w = Some (1, w')"
        "sys_ok (link_iface l) (link_room l) apps_ok lt [e \<mapsto> (Fd, Iface_read)] (sess w') w' Q'"
      using iface_read_sys [OF ld l o] v f by blast
    then show ?thesis
      using iface_adopt [of e w' Q'] f k by (auto simp: daemon_inv_def sys_ok_def)
  qed
qed

lemma due_callback_keeps:
  assumes l: "link_ok l" and i: "daemon_inv l lt Map.empty w Q" and e: "Q e = Some (Due, f)"
  shows "\<exists>r w' Q'. run_callback l v f w = Some (r, w') \<and>
    (daemon_inv l lt [e \<mapsto> (Due, f)] w' Q' \<or> daemon_inv l lt Map.empty w' Q' \<and> gone e w')"
proof -
  note ld = link_driver_ok [OF l] and s = i [unfolded daemon_inv_def] and ev = inv_events [OF i]
  show ?thesis
  proof (cases "owner_of f")
    case (Owner_tcb t)
    obtain c where c: "tcbs w t = Some c" "e \<noteq> 0" "e = e_timeout c" "f = (if state c = TCP_TIME_WAIT then Tcp_remove t else Tcp_timeout t)"
      by (rule which_tcb [OF ev e Owner_tcb]) auto
    have nl: "t \<noteq> lt" "e_timeout c \<noteq> 0"
      using inv_tcb_not_listener [OF i c(1)] c(2,3) by auto
    show ?thesis
    proof (cases "state c = TCP_TIME_WAIT")
      case True
      then show ?thesis
        using link_driver.tcp_remove_keeps [OF ld s c(1) nl(1) True, of f] e c(3,4) by (auto simp: run_callback_def daemon_inv_def)
    next
      case False
      then show ?thesis
        using link_driver.tcp_timeout_keeps [OF ld s c(1) nl False, of "(Due, f)"] e c(3,4) by (auto simp: run_callback_def daemon_inv_def)
    qed
  next
    case (Owner_map m)
    then show ?thesis
      using which_map [OF ev e Owner_map] by blast
  next
    case (Owner_umap m)
    have f: "f = Remove_udp_map m"
      by (rule which_umap [OF ev e Owner_umap]) auto
    have "umaps_ok w"
      using s by (simp add: sys_ok_def apps_ok_def udp_ok_def)
    from remove_udp_map_ok [OF ev e [unfolded f] this] obtain w' Q' where
      w': "remove_udp_map m w = Some (0, w')" "events_ok [e \<mapsto> (Due, f)] w' Q'" "umaps_ok w'" "udp_frame w w'" "nlist w' = nlist w"
      using f by blast
    then have "nd_ok (link_iface l) (link_room l) (nlist w')"
      using s by (simp add: sys_ok_def)
    from link_driver.udp_sys [OF ld s w'(2-4) this] show ?thesis
      using w'(1) f by (auto simp: run_callback_def daemon_inv_def)
  next
    case Owner_iface
    then have "mine Map.empty Owner_iface Q e = Some (Timer, f)"
      using e by (simp add: mine_Some)
    then show ?thesis
      using mine_at [OF ev, of Owner_iface] by fastforce
  qed
qed

text \<open>The environment of a run: it may depend on the callback and on the state in which it is called.\<close>

definition daemon_env :: "link_if \<Rightarrow> ptr \<Rightarrow> (callback \<Rightarrow> world \<Rightarrow> env) \<Rightarrow> bool" where
  "daemon_env l lt v \<longleftrightarrow> (\<forall>f w. daemon_ok l lt w \<longrightarrow> env_ok l (v f w) f w)"

abbreviation run_all :: "link_if \<Rightarrow> (callback \<Rightarrow> world \<Rightarrow> env) \<Rightarrow> run_fun" where
  "run_all l v \<equiv> \<lambda>f w. run_callback l (v f w) f w"

lemma inv_same_rest:
  assumes i: "daemon_inv l lt P w Q" and e: "events_ok P' w' Q'" and m: "world.nlist w' = nlist w" "tcbs w' = tcbs w" "tcblist w' = tcblist w"
    and a: "app_same w w'"
  shows "daemon_inv l lt P' w' Q'"
proof -
  have f: "maps w' = maps w" "tlist w' = tlist w" "num_tcp_maps w' = num_tcp_maps w" "umaps w' = umaps w" "ulist w' = ulist w"
      "socks w' = socks w" "udp_list w' = udp_list w" "udp_listener w' = udp_listener w"
    using a by (simp_all add: app_same_def)
  show ?thesis
    using i e m(1) relay_cong [OF f(1-3) m(2)] udp_ok_cong [OF f(4-8)] tcp_ok_cong [OF m(2,3), of lt] sess_cong [OF m(2)]
    by (simp add: daemon_inv_def sys_ok_def apps_ok_def)
qed

lemma tcp_ok_printable:
  assumes "tcp_ok lt w" "tcbs w x = Some c"
  shows "printable c"
proof (cases "x = lt")
  case True
  then show ?thesis
    using tcp_ok_lt [OF assms(1)] assms(2) by (simp add: listener_def printable_def)
next
  case False
  show ?thesis
    using tcp_ok_tcb [OF assms False] by (auto simp: tcb_ok_def conn_ok_def printable_def)
qed

lemma daemon_loop:
  assumes l: "link_ok l" and v: "daemon_env l lt v"
  shows "loop_handlers (daemon_inv l lt) (run_all l v)"
proof
  fix P w Q
  show "daemon_inv l lt P w Q \<Longrightarrow> evq w Q"
    using inv_events events_ok_evq by blast
next
  fix w Q e k f
  assume i: "daemon_inv l lt Map.empty w Q" "Q e = Some (k, f)" "k = Fd \<or> k = Always"
  have "env_ok l (v f w) f w"
    using v i(1) by (auto simp: daemon_env_def daemon_ok_def)
  then show "\<exists>r w' Q' g. run_all l v f w = Some (r, w') \<and> daemon_inv l lt (if r = 0 then [e \<mapsto> (k, g)] else Map.empty) w' Q' \<and> Q' e = Some (k, g)"
    by (rule run_keeps [OF l i])
next
  fix w Q e f
  assume "daemon_inv l lt Map.empty w Q" "Q e = Some (Due, f)"
  then show "\<exists>r w' Q'. run_all l v f w = Some (r, w') \<and> (daemon_inv l lt [e \<mapsto> (Due, f)] w' Q' \<or> daemon_inv l lt Map.empty w' Q' \<and> gone e w')"
    by (rule due_callback_keeps [OF l])
next
  fix e x w Q w'
  assume i: "daemon_inv l lt [e \<mapsto> x] w Q" "evq w' (Q(e := None))" "evs.more w' = evs.more w"
  show "daemon_inv l lt Map.empty w' (Q(e := None))"
    using inv_same_rest [OF i(1) events_reap [OF inv_events [OF i(1)] i(2,3)]] evs_frame [OF i(3)] by (simp add: app_same_def)
next
  fix w Q e k f w'
  assume i: "daemon_inv l lt Map.empty w Q" "Q e = Some (k, f)" "k = Timer \<or> k = Due" "evq w' (Q(e \<mapsto> (Due, f)))" "evs.more w' = evs.more w"
  note fr = evs_frame [OF i(5)]
  have "mine Map.empty y (Q(e \<mapsto> (Due, f))) = mine Map.empty y Q" for y
    using i(2,3) by (auto simp: mine_def own_def restrict_map_def fun_eq_iff)
  then have "events_ok Map.empty w' (Q(e \<mapsto> (Due, f)))"
    using mine_at [OF inv_events [OF i(1)]] events_cong [of w' w] fr by (intro events_okI i(4)) simp_all
  then show "daemon_inv l lt Map.empty w' (Q(e \<mapsto> (Due, f)))"
    using inv_same_rest [OF i(1)] fr by (simp add: app_same_def)
next
  fix w Q tv
  assume i: "daemon_inv l lt Map.empty w Q"
  have "events_ok Map.empty (w\<lparr>now := tv\<rparr>) Q"
    using events_frame [OF inv_events [OF i], of "w\<lparr>now := tv\<rparr>"] events_ok_evq [OF inv_events [OF i]] by simp
  then show "daemon_inv l lt Map.empty (w\<lparr>now := tv\<rparr>) Q"
    using inv_same_rest [OF i] by (simp add: app_same_def)
next
  fix e x w Q
  assume "daemon_inv l lt [e \<mapsto> x] w Q"
  then show "Q e = Some x"
    using inv_events by (force simp: events_ok_def map_le_def)
next
  fix w Q cls u
  assume i: "daemon_inv l lt Map.empty w Q" "list_all client_ok cls"
  then have t: "tcp_ok lt w"
    by (simp add: daemon_inv_def sys_ok_def)
  then obtain T where T: "table_ok w T"
    by (auto simp: tcp_ok_def)
  show "write_status_report cls u w \<noteq> None"
    by (rule write_status_report_returns [OF T tcp_ok_printable [OF t] i(2)])
qed

subsection \<open>Start-up\<close>

text \<open>A device is either refused, and the program ends with status 1, or its descriptor is watched.\<close>

lemma create_func_ok:
  assumes q: "evq w Q" and n: "case dev of None \<Rightarrow> True | Some d \<Rightarrow> length d < 16"
  shows "create_func drv k dev w = Some (Inl 1) \<or> (\<exists>l w' e. create_func drv k dev w = Some (Inr (l, w')) \<and> link_ok l \<and>
    Q e = None \<and> evq w' (Q(e \<mapsto> (Fd, Iface_read))) \<and> evs.more w' = evs.more w)" (is "?refused \<or> ?created")
proof -
  have add: "\<exists>w' e. add_fd_event fd 0 Iface_read w = Some (e, w') \<and> Q e = None \<and> evq w' (Q(e \<mapsto> (Fd, Iface_read))) \<and> evs.more w' = evs.more w" for fd
    using evl.fd_law [OF q, of fd 0 Iface_read] by blast
  have created: ?created if "create_func drv k dev w = map_option (\<lambda>(_, w). Inr (l, w)) (add_fd_event fd 0 Iface_read w)" "link_ok l" for l fd
    using add [of fd] that by auto
  have dev: "get_tun (tun_k k) dev tap = Some (Inl 1) \<or> (\<exists>name fd. get_tun (tun_k k) dev tap = Some (Inr (name, fd)))" for tap
    using n by (auto simp: get_tun_def split: option.splits prod.splits)
  have b: "do { (_, w) \<leftarrow> x; Some (Inr (y, w)) } = map_option (\<lambda>(_, w). Inr (y, w)) x" for x :: "(eptr \<times> world) option" and y :: 'x
    by (cases x) auto
  have mm: "map_option (map_sum id (map_prod g id)) (map_option (\<lambda>(_, w). Inr (y, w)) x) = map_option (\<lambda>(_, w). Inr (g y, w)) x"
    for x :: "(eptr \<times> world) option" and y :: 'x and g :: "'x \<Rightarrow> link_if"
    by (cases x) auto
  show ?thesis
  proof (cases drv)
    case Drv_tun
    show ?thesis
      using dev [of False]
    proof (elim disjE exE)
      fix name fd
      assume "get_tun (tun_k k) dev False = Some (Inr (name, fd))"
      then show ?thesis
        using Drv_tun created [of "Tun name" fd] by (simp add: create_func_def tun_new_if_def b mm)
    qed (simp add: Drv_tun create_func_def tun_new_if_def)
  next
    case Drv_tap
    show ?thesis
      using dev [of True]
    proof (elim disjE exE)
      fix name fd
      assume "get_tun (tun_k k) dev True = Some (Inr (name, fd))"
      then show ?thesis
        using Drv_tap created [of "Tap name" fd] by (simp add: create_func_def tap_new_if_def b mm)
    qed (simp add: Drv_tap create_func_def tap_new_if_def)
  next
    case Drv_802ip
    show ?thesis
    proof (cases "ip_new_if (ip_k k) w = Some (Inl 1)")
      case False
      then obtain port where "ip_new_if (ip_k k) w = map_option (\<lambda>(_, w). Inr (\<lparr>ip_ife = ip_ether port, mcast_addr = ip_group,
          mfd = m_socket (ip_k k), ufd = u_socket (ip_k k)\<rparr>, w)) (add_fd_event (m_socket (ip_k k)) 0 Iface_read w)"
        using bind_port_error [of 25600 "u_bind (ip_k k)"] by (auto simp: ip_new_if_def Let_def b split: if_splits sum.splits)
      then show ?thesis
        using Drv_802ip created [of "Ip802 \<lparr>ip_ife = ip_ether port, mcast_addr = ip_group, mfd = m_socket (ip_k k), ufd = u_socket (ip_k k)\<rparr>" "m_socket (ip_k k)"]
        by (simp add: create_func_def mm) (simp add: mac_ok_def ip_ether_def)
    qed (simp add: Drv_802ip create_func_def)
  next
    case Drv_uml_sw
    show ?thesis
    proof (cases "uml_sw_new_if (uml_k k) (pid k) w = Some (Inl 1)")
      case False
      define hw :: "byte list" where "hw = [2, 0] @ be32 (word_of_nat (pid k))"
      have hw: "PUT_32 [2, 0, 0, 0, 0, 0] 2 (word_of_nat (pid k)) = Some hw" "length hw = 6"
        by (simp_all add: PUT_be mem_put_def hw_def be32_def)
      with False obtain i req where "uml_sw_new_if (uml_k k) (pid k) w = map_option (\<lambda>(_, w). Inr ((i, req), w)) (add_fd_event (d_socket (uml_k k)) 0 Iface_read w)"
          "mac_ok (uml_ife i)"
        by (auto simp: uml_sw_new_if_def Let_def b mac_ok_def split: if_splits)
      then show ?thesis
        using Drv_uml_sw created [of "Uml i" "d_socket (uml_k k)"] by (simp add: create_func_def mm)
    qed (simp add: Drv_uml_sw create_func_def)
  qed
qed

lemma tcp_start:
  assumes "t \<noteq> 0" "aligned t"
  shows "\<exists>c s. ptrtd_tcp_init t (start_world tv) = Some ((start_world tv)\<lparr>tcbs := [t \<mapsto> c], tcblist := s\<rparr>) \<and>
    tcp_ok t ((start_world tv)\<lparr>tcbs := [t \<mapsto> c], tcblist := s\<rparr>) \<and> listener c"
proof -
  let ?w = "start_world tv" and ?c = "fresh_tcb None 0 None 0 tv"
  have w: "tcbs ?w = Map.empty" "now ?w = tv"
    by (simp_all add: start_world_def)
  obtain s T where n: "tcb_new t None 0 None 0 ?w = Some (?w\<lparr>tcbs := [t \<mapsto> ?c], tcblist := s\<rparr>)"
      "table_ok (?w\<lparr>tcbs := [t \<mapsto> ?c], tcblist := s\<rparr>) T" "set (addrs T) = {t}"
    using tcb_new_ok [OF table_start [of tv], of None t None 0 0] assms w by (auto simp: conns_start)
  let ?l = "?c\<lparr>cb := True, state := TCP_LISTEN\<rparr>"
  let ?w' = "?w\<lparr>tcbs := [t \<mapsto> ?l], tcblist := s\<rparr>"
  have init: "ptrtd_tcp_init t ?w = Some ?w'"
    using n(1) by (simp add: ptrtd_tcp_init_def tcp_listen_def t_upd_def)
  have k: "key_of ?l = listen_key" "length (raddr ?l) = 16"
    by (simp_all add: fresh_tcb_def key_of_def needle_def listen_key_def)
  have T: "table_ok ?w' T"
    using table_ok_frame(1) [OF n(2), of ?w'] n(3) by (simp add: key_at_def key_of_def)
  then have "conns ?w' T listen_key = Some t"
    using n(3) k(1) by (subst conns_Some [OF T]) (simp add: key_at_def)
  moreover have "listener ?l"
    by (simp add: listener_def fresh_tcb_def needle_def zero_tcb_def)
  ultimately have "tcp_ok t ?w'"
    using T n(3) unfolding tcp_ok_def by auto
  then show ?thesis
    using init \<open>listener ?l\<close> by blast
qed

lemma listeners_start:
  assumes t: "t \<noteq> 0" "aligned t"
  shows "\<exists>w. do { w \<leftarrow> ptrtd_tcp_init t (start_world tv); ptrtd_udp_init us w } = Some w \<and> nlist w = [] \<and>
    dom (tcbs w) = {t} \<and> maps w = Map.empty \<and> daemon_inv l t Map.empty w Map.empty"
proof -
  obtain c s where c: "ptrtd_tcp_init t (start_world tv) = Some ((start_world tv)\<lparr>tcbs := [t \<mapsto> c], tcblist := s\<rparr>)"
      "tcp_ok t ((start_world tv)\<lparr>tcbs := [t \<mapsto> c], tcblist := s\<rparr>)" "listener c"
    using tcp_start [OF t] by blast
  let ?w = "(start_world tv)\<lparr>tcbs := [t \<mapsto> c], tcblist := s, udp_list := [us], socks := [us \<mapsto> \<lparr>us_laddr = replicate 16 0, us_lport = 0\<rparr>], udp_listener := us\<rparr>"
  have w: "nlist ?w = []" "maps ?w = Map.empty" "umaps ?w = Map.empty" "tlist ?w = []" "ulist ?w = []" "num_tcp_maps ?w = 0"
    and z: "udp_list (start_world tv) = []" "socks (start_world tv) = Map.empty"
    by (simp_all add: start_world_def)
  have "events_ok Map.empty ?w Map.empty"
  proof (rule events_okI)
    show "evq ?w Map.empty"
      using evq_start [of tv] by simp
    have "tcb_holds t c Map.empty"
      using c(3) by (simp add: tcb_holds_def listener_def)
    moreover have "mine Map.empty y Map.empty = Map.empty" for y
      by (simp add: mine_def own_def)
    ultimately show "holds_events ?w y (mine Map.empty y Map.empty)" for y
      using w by (cases y) (simp_all split: option.splits)
  qed simp
  moreover have "tcp_ok t ?w"
    using c(2) tcp_ok_cong [of ?w "(start_world tv)\<lparr>tcbs := [t \<mapsto> c], tcblist := s\<rparr>" t] by simp
  moreover have "relay_ok (sess ?w) ?w"
    using w c(3) by (simp add: relay_ok_def sess_def listener_def)
  moreover have "udp_ok ?w"
    using w by (simp add: udp_ok_def umaps_ok_def)
  ultimately have "daemon_inv l t Map.empty ?w Map.empty"
    using w(1) by (simp add: daemon_inv_def sys_ok_def apps_ok_def)
  then show ?thesis
    using c(1) w(1,2) z by (intro exI [of _ ?w]) (simp add: ptrtd_udp_init_def udp_open_def)
qed

lemma iface_commands_some:
  assumes "8 \<le> length prefix"
  shows "\<exists>cs. iface_commands n prefix plen = Some cs"
proof -
  have g: "\<exists>v. GET_16 prefix i = Some v" if "i + 1 < length prefix" for i
    using that by (simp add: GET_16_def mem_get_def)
  obtain a b c d where "GET_16 prefix 0 = Some a" "GET_16 prefix 2 = Some b" "GET_16 prefix 4 = Some c" "GET_16 prefix 6 = Some d"
    using g [of 0] g [of 2] g [of 4] g [of 6] assms by auto
  then show ?thesis
    unfolding iface_commands_def by (simp del: append.simps)
qed

lemma daemon_start:
  assumes t: "t \<noteq> 0" "aligned t" and p: "8 \<le> length prefix" and n: "case dev of None \<Rightarrow> True | Some d \<Rightarrow> length d < 16"
  shows "ptrtd_start t us k prefix plen type dev (start_world tv) = Some (Inl 1) \<or>
    (\<exists>l cmds w. ptrtd_start t us k prefix plen type dev (start_world tv) = Some (Inr ((l, cmds), w)) \<and> link_ok l \<and> daemon_ok l t w)"
proof -
  obtain w where w: "do { w \<leftarrow> ptrtd_tcp_init t (start_world tv); ptrtd_udp_init us w } = Some w" "nlist w = []"
    using listeners_start [OF t] by blast
  have i: "daemon_inv l t Map.empty w Map.empty" for l
    using listeners_start [OF t, of tv us l] w(1) by auto
  have run: "ptrtd_start t us k prefix plen type dev (start_world tv) = init_iface k prefix plen type dev w"
    using w(1) by (auto simp: ptrtd_start_def bind_eq_Some_conv)
  show ?thesis
  proof (cases "create_iface type (init_iface_drivers [])")
    case None
    then show ?thesis
      unfolding run by (simp add: init_iface_def)
  next
    case (Some drv)
    have "evq w Map.empty"
      using i [of "Tun []"] inv_events events_ok_evq by blast
    from create_func_ok [OF this n, of drv k] show ?thesis
    proof (elim disjE exE conjE)
      fix l w' e
      assume c: "create_func drv k dev w = Some (Inr (l, w'))" "link_ok l" "evq w' [e \<mapsto> (Fd, Iface_read)]" "evs.more w' = evs.more w"
      note f = evs_frame [OF c(4)]
      have "events_ok Map.empty w' (Map.empty(e \<mapsto> (Fd, Iface_read)))"
        by (rule events_add [OF inv_events [OF i]]) (use c(3) f events_cong [of w' w] in \<open>simp_all add: mine_def own_def\<close>)
      then have i': "daemon_inv l t Map.empty w' [e \<mapsto> (Fd, Iface_read)]"
        using inv_same_rest [OF i] f by (simp add: app_same_def)
      note ld = link_driver_ok [OF c(2)]
      obtain q where q: "icmp_send_na (link_iface l) None w' = send_pkt (link_iface l) q w'" "sendable (link_room l) q"
        using link_driver.icmp_send_na_ok [OF ld, of None w'] by auto
      obtain ns fs where s: "send_pkt (link_iface l) q w' = Some (w'\<lparr>nlist := ns, sent := sent w' @ fs\<rparr>)" "nd_ok (link_iface l) (link_room l) ns"
        using link_driver.send_pkt_ok [OF ld q(2), of w'] w(2) f by auto
      let ?w = "w'\<lparr>nlist := ns, sent := sent w' @ fs\<rparr>"
      have "sys_ok (link_iface l) (link_room l) apps_ok t Map.empty (sess w') ?w [e \<mapsto> (Fd, Iface_read)]"
        by (rule link_driver.frame_keeps [OF ld i' [unfolded daemon_inv_def]]) (use s(2) in \<open>simp_all add: app_same_def\<close>)
      then have ok: "daemon_ok l t ?w"
        using sess_cong [of ?w w'] unfolding daemon_ok_def daemon_inv_def by auto
      obtain cs where "iface_commands (link_name l) prefix plen = Some cs"
        using iface_commands_some [OF p] by blast
      then obtain cmds where "(if type = ''tap'' \<or> type = ''tun'' then iface_commands (link_name l) prefix plen else Some []) = Some cmds"
        by (cases "type = ''tap'' \<or> type = ''tun''") auto
      then have "init_iface k prefix plen type dev w = Some (Inr ((l, cmds), ?w))"
        using Some c(1) q(1) s(1) by (simp add: init_iface_def icmp_init_iface_def)
      then show ?thesis
        unfolding run using c(2) ok by blast
    next
      assume "create_func drv k dev w = Some (Inl 1)"
      then show ?thesis
        unfolding run using Some by (simp add: init_iface_def)
    qed
  qed
qed

subsection \<open>The daemon in an environment that pings it\<close>

lemma delivered_tap:
  assumes h: "length hdr = 12" and n: "length pkt \<le> 1276"
  shows "\<exists>p rest. delivered (Tap name) ([a, b, 0x86, 0xdd] @ hdr @ [0x86, 0xdd] @ pkt) = Some p \<and> pb_d p = pkt @ rest \<and> pb_dlen p = int (length pkt)"
proof -
  let ?b = "snd (pbuf_drop (pbuf_new 1298) 4)" and ?f = "hdr @ [0x86, 0xdd] @ pkt"
  have b: "pbuf_ok ?b" "pb_max ?b = 1294"
    using pbuf_drop_ok [OF pbuf_new_ok [of 1298], of 4] by (simp_all add: pbuf_drop_def pbuf_new_def)
  obtain q where q: "tuntap_do_read (Some ([a, b, 0x86, 0xdd] @ ?f)) ?b = Some (Inr (0, q))" "pbuf_ok q"
      "packet q = ?f" "pb_max q = 1290" "0 \<le> pb_dlen q"
    using tuntap_do_read_ok [OF b(1), of ?f a b] b(2) h n by auto
  obtain rest where rest: "pb_d q = ?f @ rest"
    using packet_d(1) [OF q(2,5)] q(3) by metis
  have l: "pb_dlen q = int (length ?f)"
    using packet_d(2) [OF q(2,5)] q(3) by simp
  have "GET_16 (pb_d q) 12 = Some ETHERNET_IPV6_TYPE"
    using GET_16_mid [of hdr 12 "0x86" "0xdd" "pkt @ rest"] rest h by simp
  then have "delivered (Tap name) ([a, b, 0x86, 0xdd] @ ?f) = Some (snd (pbuf_drop q 14))"
    using q(1) by (simp add: ether_in_def)
  moreover have "pb_d (snd (pbuf_drop q 14)) = pkt @ rest"
    using pbuf_drop_d [OF q(2), of 14] q(4) rest h by simp
  moreover have "pb_dlen (snd (pbuf_drop q 14)) = int (length pkt)"
    using l h q(4) by (simp add: pbuf_drop_def Let_def)
  ultimately show ?thesis
    by blast
qed

text \<open>
  A host on the link sends echo requests of 48 bytes; sockets deliver one byte at a time and take all
  they are given.
\<close>

definition demo_ping :: "byte list" where
  "demo_ping = [0x60, 0, 0, 0, 0, 8, 58, 64] @ otherlladdr @ mylladdr @ [128, 0, 0, 0, 1, 2, 3, 4]"

definition demo_env :: env where
  "demo_env = \<lparr>new_tcb = 16, new_map = 1, new_umap = 1, sock_fd = 5, conn_res = (0, False), usock_fd = 6,
     rd_res = (\<lambda>n. (1, False, [65])), wr_res = (\<lambda>tb. Some (int (length tb), False)), so_error = 0,
     recv_res = Some ([7], [10, 0, 0, 1], 53), stack_pfx = replicate 16 0,
     link_rd = Some ([0, 0, 0x86, 0xdd] @ replicate 12 2 @ [0x86, 0xdd] @ demo_ping)\<rparr>"

lemma demo_env_ok: "daemon_env (Tap name) lt (\<lambda>f w. demo_env)"
proof -
  have l: "length demo_ping = 48" "demo_ping ! 6 = 58" "demo_ping ! 40 = 128"
    by (simp_all add: demo_ping_def otherlladdr_def mylladdr_def)
  then obtain p rest where p: "delivered (Tap name) ([0, 0, 0x86, 0xdd] @ replicate 12 2 @ [0x86, 0xdd] @ demo_ping) = Some p"
      "pb_d p = demo_ping @ rest" "pb_dlen p = 48"
    using delivered_tap [of "replicate 12 2" demo_ping name 0 0] by auto
  have "packet_ok (link_iface (Tap name)) demo_env p w" for w
    using l p(2,3) by (simp add: packet_ok_def nth_append)
  then have "env_ok (Tap name) demo_env f w" for f w
    using p(1) by (cases f) (simp_all add: env_ok_def demo_env_def)
  then show ?thesis
    by (simp add: daemon_env_def)
qed

interpretation demo: loop_handlers "daemon_inv (Tap name) lt" "run_all (Tap name) (\<lambda>f w. demo_env)" for name lt
  by (rule daemon_loop [OF _ demo_env_ok]) simp

text \<open>A tap device that can be opened.\<close>

definition demo_dev :: dev_env where
  "demo_dev = \<lparr>tun_k = \<lparr>open_fd = 3, set_iff = (\<lambda>n tap. (0, ''tap0''))\<rparr>,
     ip_k = \<lparr>m_socket = 3, m_reuse = 0, m_bind = 0, m_join = 0, u_socket = 4, u_ttl = 0, u_loop = 0, u_bind = (\<lambda>p. (0, False))\<rparr>,
     uml_k = \<lparr>d_socket = 3, d_bind = 0, c_socket = 4, c_connect = 0, c_write = 0\<rparr>, pid = 1\<rparr>"

lemma demo_start_any:
  assumes "8 \<le> length prefix"
  shows "\<exists>cmds w. ptrtd_start 8 1 demo_dev prefix plen ''tap'' None (start_world zero_time) = Some (Inr ((Tap ''tap0'', cmds), w))"
proof -
  have c: "create_func Drv_tap demo_dev None w =
      map_option (\<lambda>(_, w). Inr (Tap ''tap0'', w)) (add_fd_event 3 0 Iface_read w)" for w
    by (cases "add_fd_event 3 0 Iface_read w") (auto simp: create_func_def tap_new_if_def get_tun_def demo_dev_def)
  have d: "create_iface ''tap'' (init_iface_drivers []) = Some Drv_tap"
    by (simp add: init_iface_drivers_def tuntap_register_def register_iface_driver_def)
  let ?s = "ptrtd_start 8 1 demo_dev prefix plen ''tap'' None (start_world zero_time)"
  have "?s \<noteq> Some (Inl 1)" "?s = Some (Inr ((l, cmds), w)) \<Longrightarrow> l = Tap ''tap0''" for l cmds w
    by (auto simp: ptrtd_start_def init_iface_def d c bind_eq_Some_conv)
  then show ?thesis
    using daemon_start [of 8 prefix None 1 demo_dev plen "''tap''" zero_time] assms by (auto simp: aligned_def)
qed

lemma demo_start: "\<exists>cmds w. ptrtd_start 8 1 demo_dev (replicate 16 0) 64 ''tap'' None (start_world zero_time) = Some (Inr ((Tap ''tap0'', cmds), w))"
  by (rule demo_start_any) simp

text \<open>An open session, with one byte from the peer in its input buffer.\<close>

definition demo_session :: "ringbuf \<Rightarrow> tcb" where
  "demo_session ib = (fresh_tcb (Some (replicate 16 1)) 80 (Some (replicate 16 2)) 4000 zero_time)
     \<lparr>state := TCP_ESTABLISHED, cb := True, app_data := 1, mss := 1220, inbuf := Some ib, outbuf := Some (rb_new 16384), read_seq := w_seq ib - 1\<rparr>"

lemma rb_new_fields: "buf_size (rb_new n) = n" "used (rb_new n) = 0" "w_seq (rb_new n) = 0"
  by (simp_all add: rb_new_def)

lemma demo_session_ok:
  obtains ib where "content ib = [65]" "tcb_ok (demo_session ib)" "key_of (demo_session ib) = Conn_key 4000 80 (replicate 16 2)"
proof -
  have n: "ringbuf_ok (rb_new 16384)" "content (rb_new 16384) = []"
    using rb_new_ok [of 16384] by auto
  note z = rb_new_fields [of 16384]
  obtain ib where ib: "ringbuf_ok ib" "content ib = [65]" "buf_size ib = 16384"
    using rb_write_ok [OF n(1), of 1 "[65]"] n(2) z by (auto simp: rb_left_def)
  then have "used ib = 1"
    using length_content [OF ib(1)] by simp
  moreover have "seq_ok (demo_session ib)"
    by (rule seq_okI [of _ "rb_new 16384" 1 0 0])
      (use z in \<open>simp_all add: demo_session_def at_seq_def timing_def fresh_tcb_def needle_def zero_tcb_def\<close>)
  ultimately have "tcb_ok (demo_session ib)"
    using n(1) z(1) ib by (simp add: tcb_ok_def conn_ok_def in_ok_def) (simp add: demo_session_def fresh_tcb_def needle_def)
  then show ?thesis
    using that ib(2) by (simp add: demo_session_def key_of_def fresh_tcb_def needle_def)
qed

lemma session_start:
  "\<exists>w Q x c ib. daemon_inv l 8 Map.empty w Q \<and> maps w 1 = Some x \<and> m_tcb x = 16 \<and> m_fd x = 5 \<and> e_fd_read x \<noteq> 0 \<and> e_fd_write x \<noteq> 0 \<and>
    tcbs w 16 = Some c \<and> inbuf c = Some ib \<and> content ib = [65] \<and> outbuf c = Some (rb_new 16384)"
proof -
  obtain w0 where w0: "dom (tcbs w0) = {8}" "maps w0 = Map.empty" "daemon_inv l 8 Map.empty w0 Map.empty"
    using listeners_start [of 8 zero_time 1 l] by (auto simp: aligned_def)
  obtain ib where ib: "content ib = [65]" "tcb_ok (demo_session ib)" "key_of (demo_session ib) = Conn_key 4000 80 (replicate 16 2)"
    using demo_session_ok by blast
  let ?c = "demo_session ib"
  have tc: "tcp_ok 8 w0" and re: "relay_ok (sess w0) w0" and ud: "udp_ok w0" and nd: "nd_ok (link_iface l) (link_room l) (nlist w0)"
    using w0(3) by (simp_all add: daemon_inv_def sys_ok_def apps_ok_def)
  obtain T where T: "table_ok w0 T" "dom (tcbs w0) = set (addrs T)" "conns w0 T listen_key = Some 8"
    using tc by (auto simp: tcp_ok_def)
  have "conns w0 T (Conn_key 4000 80 (replicate 16 2)) = None"
  proof (rule ccontr)
    assume "conns w0 T (Conn_key 4000 80 (replicate 16 2)) \<noteq> None"
    then obtain y where y: "conns w0 T (Conn_key 4000 80 (replicate 16 2)) = Some y"
      by blast
    then have "y = 8"
      using T(2) w0(1) unfolding conns_Some [OF T(1)] by blast
    then show False
      using T(3) y unfolding conns_Some [OF T(1)] by (simp add: listen_key_def)
  qed
  moreover have n: "tcbs w0 16 = None"
    using w0(1) domIff [of 16 "tcbs w0"] by simp
  ultimately obtain s where s: "tcp_ok 8 w'" if "tcbs w' = (tcbs w0)(16 \<mapsto> ?c)" "tcblist w' = s" for w'
    using tcp_ok_insert [OF tc T, of 4000 80 "replicate 16 2" 16 "replicate 16 1"] ib(2,3) by (auto simp: aligned_def)
  let ?x = "\<lparr>m_fd = 5, m_tcb = 16, e_fd_read = 0, e_fd_write = 0\<rparr>"
  let ?w1 = "w0\<lparr>tcbs := (tcbs w0)(16 \<mapsto> ?c), tcblist := s\<rparr>"
  let ?w2 = "?w1\<lparr>maps := [1 \<mapsto> ?x], tlist := 1 # tlist w0, num_tcp_maps := num_tcp_maps w0 + 1\<rparr>"
  have q0: "evq w0 Map.empty"
    using events_ok_evq [OF inv_events [OF w0(3)]] .
  have c0: "e_tcb_send ?c = 0" "e_timeout ?c = 0"
    by (simp_all add: demo_session_def fresh_tcb_def needle_def zero_tcb_def)
  have e1: "events_ok Map.empty ?w1 Map.empty"
    by (rule events_new [OF inv_events [OF w0(3)] n c0]) (use q0 in simp_all)
  have e2: "events_ok Map.empty ?w2 Map.empty"
    by (rule map_new [OF e1, of 1 ?x]) (use q0 w0(2) in simp_all)
  obtain a w3 where a: "a \<noteq> 0" "evq w3 [a \<mapsto> (Fd, Handle_fd_can_read 1)]" "evs.more w3 = evs.more ?w2"
    using evl.fd_law [OF events_ok_evq [OF e2], of 5 0 "Handle_fd_can_read 1"] by blast
  let ?w4 = "w3\<lparr>maps := [1 \<mapsto> ?x\<lparr>e_fd_read := a\<rparr>]\<rparr>"
  note f3 = evs_frame [OF a(3), simplified]
  have e4: "events_ok Map.empty ?w4 (Map.empty(a \<mapsto> (Fd, Handle_fd_can_read 1)))"
    by (rule map_add_read [OF e2, of 1 ?x a]) (use a f3 in simp_all)
  obtain b w5 where b: "b \<noteq> 0" "(Map.empty(a \<mapsto> (Fd, Handle_fd_can_read 1))) b = None" "evq w5 [a \<mapsto> (Fd, Handle_fd_can_read 1), b \<mapsto> (Fd, Handle_fd_can_write 1)]" "evs.more w5 = evs.more ?w4"
    using evl.fd_law [OF events_ok_evq [OF e4], of 5 1 "Handle_fd_can_write 1"] by blast
  let ?y = "?x\<lparr>e_fd_read := a, e_fd_write := b\<rparr>"
  let ?w6 = "w5\<lparr>maps := [1 \<mapsto> ?y]\<rparr>"
  note f5 = evs_frame [OF b(4), simplified]
  have e6: "events_ok Map.empty ?w6 ((Map.empty(a \<mapsto> (Fd, Handle_fd_can_read 1)))(b \<mapsto> (Fd, Handle_fd_can_write 1)))"
    by (rule map_add_write [OF e4, of 1 "?x\<lparr>e_fd_read := a\<rparr>" b]) (use b f5 in simp_all)
  have "tcp_ok 8 ?w6"
    by (rule s) (use f3 f5 in simp_all)
  moreover have "relay_ok (sess ?w6) ?w6"
  proof -
    have z: "tlist w0 = []" "num_tcp_maps w0 = 0" "sess w0 t = None" for t
      using re w0(2) by (auto simp: relay_ok_def)
    have se: "sess ?w6 t = (if t = 16 then Some 1 else None)" for t
      using z(3) [of t] f3 f5 by (simp add: sess_def) (simp add: demo_session_def)
    have "0 < space ?w6 16"
      using f3 f5 by (simp add: space_def demo_session_def rb_left_def rb_new_fields)
    then show ?thesis
      using z(1,2) se f3 f5 by (auto simp: relay_ok_def)
  qed
  moreover have "udp_ok ?w6"
    using ud udp_ok_cong [of ?w6 w0] f3 f5 by simp
  ultimately have "daemon_inv l 8 Map.empty ?w6 ((Map.empty(a \<mapsto> (Fd, Handle_fd_can_read 1)))(b \<mapsto> (Fd, Handle_fd_can_write 1)))"
    using e6 nd f3 f5 by (simp add: daemon_inv_def sys_ok_def apps_ok_def)
  moreover have "tcbs ?w6 16 = Some ?c" "inbuf ?c = Some ib" "outbuf ?c = Some (rb_new 16384)"
    using f3 f5 by (simp_all add: demo_session_def)
  ultimately show ?thesis
    using ib(1) a(1) b(1) by (intro exI [of _ ?w6] exI [of _ "(Map.empty(a \<mapsto> (Fd, Handle_fd_can_read 1)))(b \<mapsto> (Fd, Handle_fd_can_write 1))"] exI [of _ ?y]) simp
qed

end
