(* ===== verification/Ptrtd_Main.thy ===== *)
theory Ptrtd_Main
  imports Daemon
begin

text \<open>
  \<open>main\<close> of \<^verbatim>\<open>src/ptrtd.c\<close>: the options, the configuration file, start-up, the event loop and shutdown.
  What \<open>getopt_long\<close> returns is a parameter, one pair of the option character and \<open>optarg\<close> for each
  call. So is the work of the parser that bison generates from \<^verbatim>\<open>src/grammar.y\<close>: the settings it
  reduces, in order; what is done for each of them is modelled. \<open>None\<close> instead of the settings is a file
  that cannot be opened. The log and the terminal are not modelled. From debug level 5 on \<open>tcb_new\<close> opens
  a log file for every connection and exits when it cannot; the model does not cover this, and a run
  with such a level gives \<open>None\<close>.
\<close>

record globals =
  g_debug :: int
  g_prefix :: "byte list"
  g_plen :: nat
  g_config_file :: string
  g_http_port :: "16 word"

text \<open>\<open>strtoip6\<close> of \<open>"fec0:0:0:ffff::"\<close>\<close>

definition default_prefix :: "byte list" where
  "default_prefix = [0xfe, 0xc0, 0, 0, 0, 0, 0xff, 0xff] @ replicate 8 0"

definition start_globals :: globals where
  "start_globals = \<lparr>g_debug = 0, g_prefix = default_prefix, g_plen = 64, g_config_file = ''/etc/nat64d.conf'', g_http_port = 0\<rparr>"

subsection \<open>Options\<close>

text \<open>\<open>atoi\<close>, which is undefined on a number that is no \<open>int\<close>.\<close>

definition atoi :: "string \<Rightarrow> int option" where
  "atoi s =
     (let s = dropWhile (\<lambda>c. of_char c \<in> {32 :: nat, 9, 10, 11, 12, 13}) s;
          neg = (s \<noteq> [] \<and> hd s = CHR ''-'');
          s = (if s \<noteq> [] \<and> (hd s = CHR ''-'' \<or> hd s = CHR ''+'') then tl s else s);
          ds = takeWhile (\<lambda>c. of_char c \<in> {48 :: nat..57}) s;
          n = foldl (\<lambda>n c. 10 * n + (of_char c - 48)) 0 ds;
          n = (if neg then - n else n)
      in if - (2 ^ 31) \<le> n \<and> n < 2 ^ 31 then Some n else None)"

record options =
  o_itype :: string
  o_iname :: "string option"
  o_globals :: globals
  o_perror :: bool

definition start_options :: options where
  "start_options = \<lparr>o_itype = ''tap'', o_iname = None, o_globals = start_globals, o_perror = False\<rparr>"

text \<open>The \<open>switch\<close>: one option. \<open>Inl n\<close> is \<open>exit (n)\<close>.\<close>

definition main_option :: "char \<Rightarrow> string \<Rightarrow> options \<Rightarrow> (int + options) option" where
  "main_option c optarg opt =
     (if c = CHR ''C'' then Some (Inr (opt\<lparr>o_globals := (o_globals opt)\<lparr>g_config_file := optarg\<rparr>\<rparr>))
      else if c = CHR ''d'' then do {
        n \<leftarrow> atoi optarg;
        Some (Inr (opt\<lparr>o_globals := (o_globals opt)\<lparr>g_debug := n\<rparr>\<rparr>))
      }
      else if c = CHR ''i'' then
        let (itype, iname) = iface_option (o_itype opt) optarg in Some (Inr (opt\<lparr>o_itype := itype, o_iname := Some iname\<rparr>))
      else if c = CHR ''v'' then Some (Inl 0)
      else if c = CHR ''m'' then Some (Inr (if optarg = ''stderr'' then opt\<lparr>o_perror := True\<rparr> else opt))
      else Some (Inl 1))"

fun main_options :: "(char \<times> string) list \<Rightarrow> options \<Rightarrow> (int + options) option" where
  "main_options [] opt = Some (Inr opt)"
| "main_options ((c, optarg) # args) opt = do {
     r \<leftarrow> main_option c optarg opt;
     (case r of Inl n \<Rightarrow> Some (Inl n) | Inr opt \<Rightarrow> main_options args opt)
   }"

subsection \<open>Configuration\<close>

text \<open>
  The two forms of a setting: \<open>ID = PREFIX PLEN;\<close> with the four words of the prefix in host order, and
  \<open>ID = INT;\<close>. A setting of an unknown name ends the program.
\<close>

datatype setting = Prefix_setting string "16 word" "16 word" "16 word" "16 word" nat | Int_setting string int

fun config_setting :: "setting \<Rightarrow> globals \<Rightarrow> int + globals" where
  "config_setting (Prefix_setting name a b c d len) g =
     (if name = ''prefix''
      then Inr (g\<lparr>g_prefix := be16 (uint a) @ be16 (uint b) @ be16 (uint c) @ be16 (uint d) @ drop 8 (g_prefix g), g_plen := len\<rparr>)
      else Inl 1)"
| "config_setting (Int_setting name n) g =
     (if name = ''http_port'' then Inr (g\<lparr>g_http_port := word_of_int n\<rparr>) else Inl 1)"

fun config_settings :: "setting list \<Rightarrow> globals \<Rightarrow> int + globals" where
  "config_settings [] g = Inr g"
| "config_settings (x # xs) g = (case config_setting x g of Inl n \<Rightarrow> Inl n | Inr g \<Rightarrow> config_settings xs g)"

definition read_config :: "setting list option \<Rightarrow> globals \<Rightarrow> int + globals" where
  "read_config file g = (case file of None \<Rightarrow> Inr g | Some xs \<Rightarrow> config_settings xs g)"

subsection \<open>The program\<close>

text \<open>
  \<open>Inl n\<close> is \<open>exit (n)\<close>, \<open>Inr w\<close> the return from \<open>main\<close> with status 0. \<open>svr\<close> is the result of
  \<open>svr_sock\<close> for a port and \<open>dmn\<close> that of \<open>daemon\<close>; \<open>files\<close> gives the settings in a configuration file.
\<close>

definition ptrtd_main ::
    "(char \<times> string) list \<Rightarrow> (string \<Rightarrow> setting list option) \<Rightarrow> ptr \<Rightarrow> nat \<Rightarrow> dev_env \<Rightarrow> int \<Rightarrow> (16 word \<Rightarrow> int) \<Rightarrow>
     round_env list \<Rightarrow> (link_if \<Rightarrow> callback \<Rightarrow> world \<Rightarrow> env) \<Rightarrow> world \<Rightarrow> (int + world) option" where
  "ptrtd_main args files t us k dmn svr rs v w = do {
     r \<leftarrow> main_options args start_options;
     (case r of
        Inl n \<Rightarrow> Some (Inl n)
      | Inr opt \<Rightarrow>
          (case read_config (files (g_config_file (o_globals opt))) (o_globals opt) of
             Inl n \<Rightarrow> Some (Inl n)
           | Inr g \<Rightarrow> do {
               r \<leftarrow> ptrtd_start t us k (g_prefix g) (g_plen g) (o_itype opt) (o_iname opt) w;
               (case r of
                  Inl n \<Rightarrow> Some (Inl n)
                | Inr ((l, cmds), w) \<Rightarrow>
                    if g_debug g \<ge> 5 then None
                    else if g_debug g = 0 \<and> dmn < 0 then Some (Inl 1)
                    else do {
                      let ssock = (if g_http_port g \<noteq> 0 then svr (g_http_port g) else - 1);
                      w \<leftarrow> event_loop ssock rs (\<lambda>f w. run_callback l (v l f w) f w) w;
                      w \<leftarrow> ptrtd_udp_finish w;
                      Some (Inr w)
                    })
             }))
   }"

subsection \<open>Options and settings that are accepted\<close>

text \<open>
  The arguments the code and the model rely on: a debug level that is an \<open>int\<close> and below 5, and a device
  name that fits \<open>ifr_name\<close>.
\<close>

definition arg_ok :: "char \<times> string \<Rightarrow> bool" where
  "arg_ok a \<longleftrightarrow> (fst a = CHR ''d'' \<longrightarrow> (\<exists>n < 5. atoi (snd a) = Some n)) \<and> (fst a = CHR ''i'' \<longrightarrow> length (snd a) < 16)"

definition options_ok :: "options \<Rightarrow> bool" where
  "options_ok opt \<longleftrightarrow> (case o_iname opt of None \<Rightarrow> True | Some d \<Rightarrow> length d < 16) \<and> length (g_prefix (o_globals opt)) = 16 \<and>
     g_debug (o_globals opt) < 5"

lemma start_options_ok: "options_ok start_options"
  by (simp add: options_ok_def start_options_def start_globals_def default_prefix_def)

lemma iface_option_length: "length (snd (iface_option itype arg)) \<le> length arg"
  using length_dropWhile_le [of "\<lambda>c. c \<noteq> CHR '':''" arg] by (auto simp: iface_option_def)

lemma main_option_ok:
  assumes "arg_ok (c, optarg)" "options_ok opt"
  shows "\<exists>r. main_option c optarg opt = Some r \<and> (case r of Inl n \<Rightarrow> n = 0 \<or> n = 1 | Inr opt' \<Rightarrow> options_ok opt')"
  using assms iface_option_length [of "o_itype opt" optarg]
  by (cases "iface_option (o_itype opt) optarg") (auto simp: main_option_def arg_ok_def options_ok_def)

lemma main_options_ok:
  "list_all arg_ok args \<Longrightarrow> options_ok opt \<Longrightarrow>
     \<exists>r. main_options args opt = Some r \<and> (case r of Inl n \<Rightarrow> n = 0 \<or> n = 1 | Inr opt' \<Rightarrow> options_ok opt')"
proof (induction args arbitrary: opt)
  case (Cons a args)
  obtain c optarg where a: "a = (c, optarg)"
    by (cases a)
  obtain r where r: "main_option c optarg opt = Some r" "case r of Inl n \<Rightarrow> n = 0 \<or> n = 1 | Inr opt' \<Rightarrow> options_ok opt'"
    using main_option_ok [of c optarg opt] Cons.prems a by auto
  show ?case
    using r Cons.IH Cons.prems a by (cases r) auto
qed simp

lemma config_settings_ok:
  "length (g_prefix g) = 16 \<Longrightarrow> case config_settings xs g of Inl n \<Rightarrow> n = 1 | Inr g' \<Rightarrow> length (g_prefix g') = 16 \<and> g_debug g' = g_debug g"
proof (induction xs arbitrary: g)
  case (Cons x xs)
  have g: "case config_setting x g of Inl n \<Rightarrow> n = 1 | Inr g' \<Rightarrow> length (g_prefix g') = 16 \<and> g_debug g' = g_debug g"
    using Cons.prems by (cases x) (simp_all add: be16_def)
  show ?case
  proof (cases "config_setting x g")
    case (Inr g')
    then show ?thesis
      using g Cons.IH [of g'] by (cases "config_settings xs g'") simp_all
  qed (use g in simp)
qed simp

lemma read_config_ok:
  "length (g_prefix g) = 16 \<Longrightarrow> case read_config file g of Inl n \<Rightarrow> n = 1 | Inr g' \<Rightarrow> length (g_prefix g') = 16 \<and> g_debug g' = g_debug g"
  using config_settings_ok by (auto simp: read_config_def split: option.splits)

subsection \<open>The run\<close>

text \<open>For the examples: a ping on a tap device, on every other link a frame that is not of IPv6.\<close>

definition other_frame :: "link_if \<Rightarrow> byte list" where
  "other_frame l = (case l of Tun _ \<Rightarrow> [1] | _ \<Rightarrow> replicate 14 0)"

definition example_env :: "link_if \<Rightarrow> env" where
  "example_env l = (case l of Tap _ \<Rightarrow> demo_env | _ \<Rightarrow> demo_env\<lparr>link_rd := Some (other_frame l)\<rparr>)"

lemma socket_read_other:
  assumes "mac_ok i" "0 \<le> mtu ifc"
  shows "\<exists>q. socket_read i ifc (Some (replicate 14 0)) = Some (Inr q) \<and> ether_in q = None"
proof -
  let ?p = "snd (pbuf_drop (pbuf_new (mtu ifc + head_size i)) (head_size i - 14))"
  let ?d = "replicate 14 0 @ drop 14 (pb_d ?p)"
  have p: "pbuf_ok ?p" "pb_max ?p = mtu ifc + 14"
    using assms pbuf_drop_ok [OF pbuf_new_ok, of "mtu ifc + 14" 0] by (simp_all add: mac_ok_def pbuf_drop_def pbuf_new_def Let_def)
  have l: "14 \<le> length (pb_d ?p)"
    using length_pb_d [OF p(1)] p(2) assms(2) by linarith
  then have "length ?d = length (pb_d ?p)" and m: "mem_put (pb_d ?p) 0 (replicate 14 0) = Some ?d"
    by (simp_all add: mem_put_def)
  note s = pb_set_ok [OF p(1) this(1)]
  have n: "\<not> pb_max ?p \<le> 0" "take (nat (pb_max ?p)) (replicate 14 0) = replicate 14 (0 :: byte)"
    using p(2) assms(2) by simp_all
  have "socket_read i ifc (Some (replicate 14 0)) = Some (Inr ((pb_set ?p ?d)\<lparr>pb_dlen := int (length (replicate 14 (0 :: byte)))\<rparr>))"
    unfolding socket_read_def Let_def option.case n(2) m Option.bind.simps using n(1) by simp
  moreover have "GET_16 ?d 12 = Some 0"
    using l by (simp add: GET_16_def mem_simps nth_append)
  ultimately show ?thesis
    using s by (simp add: ether_in_def)
qed

lemma example_env_ok:
  assumes "link_ok l"
  shows "daemon_env l lt (\<lambda>f w. example_env l)"
proof (cases "\<exists>n. l = Tap n")
  case True
  then show ?thesis
    using demo_env_ok by (auto simp: example_env_def)
next
  case False
  have "delivered l (other_frame l) = None"
  proof (cases l)
    case (Tun n)
    then show ?thesis
      by (simp add: other_frame_def tuntap_do_read_def)
  next
    case (Ip802 i)
    then show ?thesis
      using socket_read_other [of "ip_ife i" "ip_iface i"] assms by (auto simp: other_frame_def ip_iface_def)
  next
    case (Uml i)
    then show ?thesis
      using socket_read_other [of "uml_ife i" "uml_sw_iface i"] assms by (auto simp: other_frame_def uml_sw_iface_def)
  qed (use False in simp)
  moreover have "frame_ok l (other_frame l)"
    by (cases l) (simp_all add: other_frame_def)
  moreover have "example_env l = demo_env\<lparr>link_rd := Some (other_frame l)\<rparr>"
    using False by (simp add: example_env_def split: link_if.split)
  ultimately have "env_ok l (example_env l) f w" for f w
    by (cases f) (simp_all add: env_ok_def demo_env_def del: delivered.simps frame_ok.simps)
  then show ?thesis
    by (simp add: daemon_env_def)
qed

text \<open>The loop and what follows it, from a state of the daemon.\<close>

lemma loop_and_finish:
  assumes "link_ok l" and "daemon_ok l t w" and "daemon_env l t v" and "list_all round_ok rs"
  shows "\<exists>w1 w2. event_loop ssock rs (run_all l v) w = Some w1 \<and> ptrtd_udp_finish w1 = Some w2 \<and>
    time_event_list w2 = 0 \<and> fd_event_list w2 = 0 \<and> always_event_list w2 = 0 \<and> socks w2 (udp_listener w2) = None"
proof -
  obtain Q where "daemon_inv l t Map.empty w Q"
    using assms(2) by (auto simp: daemon_ok_def)
  from loop_handlers.event_loop_returns [OF daemon_loop [OF assms(1,3)] this assms(4), of ssock]
  obtain w0 Q0 w1 where w1: "event_loop ssock rs (run_all l v) w = Some w1" "daemon_inv l t Map.empty w0 Q0" "evs.more w1 = evs.more w0"
      "time_event_list w1 = 0" "fd_event_list w1 = 0" "always_event_list w1 = 0"
    by blast
  have "udp_listener w0 \<in> dom (socks w0)"
    using w1(2) by (auto simp: daemon_inv_def sys_ok_def apps_ok_def udp_ok_def)
  then have "udp_listener w1 \<in> dom (socks w1)"
    using evs_frame [OF w1(3)] by simp
  then show ?thesis
    using w1 by (auto simp: ptrtd_udp_finish_def udp_close_def udp_remove_sock_def)
qed

lemma ptrtd_main_run:
  assumes t: "t \<noteq> 0" "aligned t" and a: "list_all arg_ok args" and v: "\<And>l. link_ok l \<Longrightarrow> daemon_env l t (v l)"
    and rs: "list_all round_ok rs"
  shows "\<exists>r. ptrtd_main args files t us k dmn svr rs v (start_world tv) = Some r \<and>
    (case r of Inl n \<Rightarrow> n = 0 \<or> n = 1
     | Inr w \<Rightarrow> time_event_list w = 0 \<and> fd_event_list w = 0 \<and> always_event_list w = 0 \<and> socks w (udp_listener w) = None)"
proof -
  obtain r where r: "main_options args start_options = Some r" "case r of Inl n \<Rightarrow> n = 0 \<or> n = 1 | Inr opt \<Rightarrow> options_ok opt"
    using main_options_ok [OF a start_options_ok] by blast
  show ?thesis
  proof (cases r)
    case (Inl n)
    then show ?thesis
      using r by (simp add: ptrtd_main_def)
  next
    case opt: (Inr opt)
    let ?c = "read_config (files (g_config_file (o_globals opt))) (o_globals opt)"
    have p: "case ?c of Inl n \<Rightarrow> n = 1 | Inr g \<Rightarrow> length (g_prefix g) = 16 \<and> g_debug g = g_debug (o_globals opt)"
      by (rule read_config_ok) (use r(2) opt in \<open>simp add: options_ok_def\<close>)
    show ?thesis
    proof (cases ?c)
      case (Inl n)
      then show ?thesis
        using r(1) opt p by (simp add: ptrtd_main_def)
    next
      case g: (Inr g)
      have n: "case o_iname opt of None \<Rightarrow> True | Some d \<Rightarrow> length d < 16" "8 \<le> length (g_prefix g)" "\<not> g_debug g \<ge> 5"
        using r(2) opt p g by (simp_all add: options_ok_def)
      let ?s = "ptrtd_start t us k (g_prefix g) (g_plen g) (o_itype opt) (o_iname opt) (start_world tv)"
      consider "?s = Some (Inl 1)" | l cmds w where "?s = Some (Inr ((l, cmds), w))" "link_ok l" "daemon_ok l t w"
        using daemon_start [OF t n(2,1), of us k "g_plen g" "o_itype opt" tv] by blast
      then show ?thesis
      proof cases
        case 1
        then show ?thesis
          using r(1) opt g by (simp add: ptrtd_main_def)
      next
        case 2
        obtain w1 w2 where "event_loop (if g_http_port g \<noteq> 0 then svr (g_http_port g) else - 1) rs (run_all l (v l)) w = Some w1"
            "ptrtd_udp_finish w1 = Some w2" "time_event_list w2 = 0" "fd_event_list w2 = 0" "always_event_list w2 = 0" "socks w2 (udp_listener w2) = None"
          using loop_and_finish [OF 2(2,3) v [OF 2(2)] rs] by blast
        then show ?thesis
          using r(1) opt g 2(1) n(3) by (cases "g_debug g = 0 \<and> dmn < 0") (simp_all add: ptrtd_main_def Let_def)
      qed
    qed
  qed
qed

end
