(* ===== verification/Session_Open.thy ===== *)
theory Session_Open
  imports Daemon
begin

text \<open>
  What the relay is for: a \<open>SYN\<close> to an address below the prefix makes the daemon connect to the IPv4
  host whose address is in the last four bytes.
\<close>

lemma session_fields:
  "state (session_tcb la lp ra rp irs0 i wnd b c) = TCP_SYN_RECVD" "laddr (session_tcb la lp ra rp irs0 i wnd b c) = take 16 la"
  "lport (session_tcb la lp ra rp irs0 i wnd b c) = lp" "raddr (session_tcb la lp ra rp irs0 i wnd b c) = take 16 ra"
  "rport (session_tcb la lp ra rp irs0 i wnd b c) = rp" "rcv_nxt (session_tcb la lp ra rp irs0 i wnd b c) = irs0 + 1"
  "cb (session_tcb la lp ra rp irs0 i wnd b c) = b"
  by (simp_all add: session_tcb_def Let_def window_update_def)

lemma tcp_ok_nonzero: "tcp_ok lt w \<Longrightarrow> lt \<noteq> 0"
  using conns_nonzero unfolding tcp_ok_def by blast

lemma incoming_waits:
  assumes q: "evq w Q" and c: "tcbs w t = Some c" "length (laddr c) = 16" and fd: "0 \<le> fd"
  shows "\<exists>e w'. incoming ifc m fd (- 1, True) t w = Some w' \<and> e \<noteq> 0 \<and> tcbs w' = (tcbs w)(t \<mapsto> c\<lparr>app_data := m\<rparr>) \<and>
    maps w' m = Some \<lparr>m_fd = fd, m_tcb = t, e_fd_read = 0, e_fd_write = e\<rparr> \<and>
    calls w' = calls w @ [Connect fd (drop 12 (laddr c)) (lport c)] \<and> sent w' = sent w"
proof -
  let ?x = "\<lparr>m_fd = fd, m_tcb = t, e_fd_read = 0, e_fd_write = 0\<rparr>" and ?c = "c\<lparr>app_data := m\<rparr>"
  let ?w = "w\<lparr>num_tcp_maps := num_tcp_maps w + 1, tlist := m # tlist w, maps := (maps w)(m \<mapsto> ?x), tcbs := (tcbs w)(t \<mapsto> ?c)\<rparr>"
  let ?h = "host (Connect fd (drop 12 (laddr c)) (lport c)) ?w"
  have qh: "evq ?h Q"
    using q by (simp add: host_def)
  obtain e w1 where e: "add_fd_event fd 1 (Handle_fd_did_connect m) ?h = Some (e, w1)" "e \<noteq> 0" "evs.more w1 = evs.more ?h"
    using evl.fd_law [OF qh, of fd 1 "Handle_fd_did_connect m"] by blast
  note f = evs_frame [OF e(3), simplified]
  have a: "mem_sub (laddr ?c) 12 4 = Some (drop 12 (laddr c))"
    using c(2) by (simp add: mem_sub_def)
  have m: "maps w1 m = Some ?x"
    using f by (simp add: host_def)
  let ?v = "w1\<lparr>maps := (maps w1)(m \<mapsto> ?x\<lparr>e_fd_write := e\<rparr>)\<rparr>"
  have "incoming ifc m fd (- 1, True) t w = Some ?v"
    unfolding incoming_def Let_def using c(1) a e(1) fd m by (simp add: t_upd_def tcp_get_laddr_def tcp_get_lport_def m_upd_def)
  then show ?thesis
    using e(2) f by (intro exI [of _ e] exI [of _ ?v]) (simp add: host_def)
qed

lemma syn_opens:
  assumes i: "daemon_inv l lt Map.empty w Q" and p: "60 \<le> length p" "uint (p ! 53) AND 0x3f = 2"
    and g: "GET_16 p 42 = Some lp" "GET_16 p 40 = Some rp" "GET_32 p 44 = Some seq" "0 < lp"
    and free: "\<And>x c. tcbs w x = Some c \<Longrightarrow> key_of c \<noteq> Conn_key rp lp (take 16 (drop 8 p))"
    and t: "tcbs w nt = None" "nt \<noteq> 0" "aligned nt" and fd: "0 \<le> fd"
  shows "\<exists>w' c x. handle_tcp (tcp_map_cb ifc nm fd (- 1, True)) ifc nt p len w = Some w' \<and>
    tcbs w' nt = Some c \<and> state c = TCP_SYN_RECVD \<and> laddr c = take 16 (drop 24 p) \<and> lport c = lp \<and> raddr c = take 16 (drop 8 p) \<and>
    rport c = rp \<and> rcv_nxt c = seq + 1 \<and> app_data c = nm \<and>
    maps w' nm = Some x \<and> m_fd x = fd \<and> m_tcb x = nt \<and> e_fd_write x \<noteq> 0 \<and>
    calls w' = calls w @ [Connect fd (take 4 (drop 36 p)) lp] \<and> sent w' = sent w"
proof -
  let ?la = "take 16 (drop 24 p)" and ?ra = "take 16 (drop 8 p)"
  have m: "mem_sub p 24 16 = Some ?la" "mem_sub p 8 16 = Some ?ra" "length ?la = 16" "length ?ra = 16" "mem_get p 53 = Some (p ! 53)"
    using p by (simp_all add: mem_simps)
  obtain wnd where wnd: "GET_16 p 54 = Some wnd"
    using p by (simp add: GET_16_def mem_simps)
  have ok: "tcp_ok lt w"
    using i by (simp add: daemon_inv_def sys_ok_def)
  then obtain li where li: "tcbs w lt = Some li" "listener li"
    by (auto simp: tcp_ok_def)
  have f: "tcb_find (Some ?la) lp (Some ?ra) rp w = Some lt"
    using tcb_find_tcp [OF ok m(4), of ?la lp rp] free g(4) by auto
  have lt: "lt \<noteq> 0" "nt \<noteq> lt"
    using tcp_ok_nonzero [OF ok] li t(1) by auto
  let ?w0 = "w\<lparr>tcbs := (tcbs w)(lt \<mapsto> li\<lparr>atime := now w\<rparr>)\<rparr>"
  have ok0: "tcp_ok lt ?w0"
    by (rule tcp_ok_set [OF ok li(1), of "li\<lparr>atime := now w\<rparr>"]) (use li(2) in \<open>simp_all add: listener_def\<close>)
  have "\<forall>x c. tcbs ?w0 x = Some c \<longrightarrow> key_of c \<noteq> Conn_key rp lp ?ra"
    using free li(1) by (auto simp: fun_upd_apply)
  then obtain T where T: "table_ok ?w0 T" "dom (tcbs ?w0) = set (addrs T)" "conns ?w0 T listen_key = Some lt" "conns ?w0 T (Conn_key rp lp ?ra) = None"
    using tcp_ok_free [OF ok0] by blast
  have n0: "tcbs ?w0 nt = None"
    using t(1) lt(2) by simp
  obtain s where s: "tcb_new nt (Some ?la) lp (Some ?ra) rp ?w0 =
      Some (?w0\<lparr>tcbs := (tcbs ?w0)(nt \<mapsto> fresh_tcb (Some ?la) lp (Some ?ra) rp (now w)), tcblist := s\<rparr>)"
    using tcp_ok_insert [OF ok0 T(1-3) T(4) m(4) n0 t(2,3), of ?la] by auto
  let ?c = "session_tcb ?la lp ?ra rp seq (push_bit 16 (isn w + 1)) (word_of_int wnd) True (fresh_tcb (Some ?la) lp (Some ?ra) rp (now w))"
  let ?w1 = "?w0\<lparr>tcblist := s, isn := isn w + 1, tcbs := (tcbs ?w0)(nt \<mapsto> ?c)\<rparr>"
  have q: "evq ?w1 Q"
    using events_ok_evq [OF inv_events [OF i]] by simp
  have "handle_tcp (tcp_map_cb ifc nm fd (- 1, True)) ifc nt p len w = incoming ifc nm fd (- 1, True) nt ?w1"
    unfolding handle_tcp_def g(1,2) m(1,2,5) Option.bind.simps Let_def f p(2) using lt li s g(3) wnd m(1,2)
    by (simp add: t_upd_def listener_def handle_listen_def next_isn_def Let_def call_cb_def tcp_map_cb_def session_fields)
  moreover have "length (laddr ?c) = 16" "drop 12 (laddr ?c) = take 4 (drop 36 p)" "tcbs ?w1 nt = Some ?c"
    using m(3) by (simp_all add: session_fields drop_take)
  ultimately show ?thesis
    using incoming_waits [OF q, of nt ?c fd ifc nm] fd m(3,4) by (auto simp: session_fields)
qed

end
