(* ===== verification/Bridge.thy ===== *)
theory Bridge
  imports Link_Socket Event_Queue
begin

text \<open>
  The second program of the repository (\<^verbatim>\<open>src/tap802ipd.c\<close>): it copies ethernet frames between a
  tap device and the multicast group of the 802.3-over-IP driver, its default network. The state is the
  pair of interfaces and the frames written to each side.
\<close>

record bridge =
  tap_side :: iface_ether
  ip_side :: iface_802ip
  to_tap :: "byte list list"
  to_ip :: "(sockaddr_in \<times> byte list) list"

definition handle_tap_frame :: "pbuf \<Rightarrow> bridge \<Rightarrow> (int + bridge) option" where
  "handle_tap_frame p br = do {
     out \<leftarrow> ip_send_frame (ip_side br) p;
     Some (Inr (br\<lparr>to_ip := to_ip br @ [out]\<rparr>))
   }"

definition handle_802ip_frame :: "pbuf \<Rightarrow> bridge \<Rightarrow> (int + bridge) option" where
  "handle_802ip_frame p br = do {
     ty \<leftarrow> GET_16 (pb_d p) 12;
     if ty = ETHERNET_IPV6_TYPE then do {
       src \<leftarrow> mem_sub (pb_d p) 6 6;
       if ife_hwaddr (ip_ife (ip_side br)) \<noteq> src then do {
         out \<leftarrow> tap_send_frame p;
         Some (Inr (br\<lparr>to_tap := to_tap br @ [out]\<rparr>))
       }
       else Some (Inr br)
     }
     else Some (Inr br)
   }"

text \<open>\<open>%02x\<close> of a byte.\<close>

definition hex_digit :: "nat \<Rightarrow> char" where
  "hex_digit n = (if n < 10 then char_of (48 + n) else char_of (87 + n))"

definition hex2 :: "byte \<Rightarrow> string" where
  "hex2 b = [hex_digit (unat b div 16), hex_digit (unat b mod 16)]"

fun mac_string :: "byte list \<Rightarrow> string" where
  "mac_string [] = []"
| "mac_string [b] = hex2 b"
| "mac_string (b # bs) = hex2 b @ '':'' @ mac_string bs"

text \<open>
  \<open>init_ifs\<close>: the two interfaces, with the larger of the two header sizes on both sides, and the
  command that gives the tap device the address of the network side.
\<close>

definition link_command :: "string \<Rightarrow> byte list \<Rightarrow> string" where
  "link_command ifname hwaddr = ''/sbin/ip link set '' @ ifname @ '' address '' @ mac_string hwaddr @ '' up'' @ [CHR 0x0A]"

definition equal_heads :: "iface_ether \<Rightarrow> iface_802ip \<Rightarrow> iface_ether \<times> iface_802ip" where
  "equal_heads tap ip =
     (let ip = (if head_size tap > head_size (ip_ife ip) then ip\<lparr>ip_ife := (ip_ife ip)\<lparr>head_size := head_size tap\<rparr>\<rparr> else ip);
          tap = (if head_size (ip_ife ip) > head_size tap then tap\<lparr>head_size := head_size (ip_ife ip)\<rparr> else tap)
      in (tap, ip))"

definition init_ifs :: "ip_sys \<Rightarrow> tun_dev \<Rightarrow> string option \<Rightarrow> world \<Rightarrow> (int + (bridge \<times> string) \<times> world) option" where
  "init_ifs ki kt dev w = do {
     r \<leftarrow> ip_new_if ki w;
     (case r of
        Inl n \<Rightarrow> Some (Inl n)
      | Inr (ip, w) \<Rightarrow> do {
          r \<leftarrow> tap_new_if kt dev w;
          (case r of
             Inl n \<Rightarrow> Some (Inl n)
           | Inr ((ifname, _), w) \<Rightarrow> do {
               let (tap, ip) = equal_heads tap_ether ip;
               Some (Inr ((\<lparr>tap_side = tap, ip_side = ip, to_tap = [], to_ip = []\<rparr>, link_command ifname (ife_hwaddr (ip_ife ip))), w))
             })
        })
   }"

text \<open>The read callbacks of the two descriptors, with the \<open>recv_frame\<close> functions that \<open>init_ifs\<close> sets.\<close>

datatype side = From_tap | From_ip

definition bridge_read :: "side \<Rightarrow> byte list option \<Rightarrow> bridge \<Rightarrow> (int + int \<times> bridge) option" where
  "bridge_read s rd br =
     (case s of
        From_tap \<Rightarrow> tap_read_callback (tap_side br) tap_iface rd handle_tap_frame br
      | From_ip \<Rightarrow> ip_read_callback (ip_ife (ip_side br)) (ip_iface (ip_side br)) rd handle_802ip_frame br)"

subsection \<open>The state after start-up\<close>

definition bridge_ok :: "bridge \<Rightarrow> bool" where
  "bridge_ok br \<longleftrightarrow> tap_side br = tap_ether \<and> head_size (ip_ife (ip_side br)) = 18 \<and>
     (\<exists>port. 0x6400 \<le> port \<and> port < 0x6500 \<and> ife_hwaddr (ip_ife (ip_side br)) = ife_hwaddr (ip_ether port)) \<and> mcast_addr (ip_side br) = ip_group"

lemma ip_new_if_some:
  assumes "ip_new_if k w = Some (Inr (i, w'))"
  obtains port where "0x6400 \<le> port" "port < 0x6500" "ip_ife i = ip_ether port" "mcast_addr i = ip_group" "0 \<le> fst (u_bind k port)"
proof -
  obtain port where p: "bind_port (u_bind k) 0x6400 = Inr port" "port \<noteq> 0x6500" "ip_ife i = ip_ether port" "mcast_addr i = ip_group"
    using assms by (auto simp: ip_new_if_def bind_eq_Some_conv split: if_splits sum.splits)
  show ?thesis
    by (rule that [of port]) (use bind_port_range [OF p(1,2)] p in auto)
qed

lemma init_ifs_ok:
  assumes "init_ifs ki kt dev w = Some (Inr ((br, cmd), w'))"
  shows "bridge_ok br" "to_tap br = []" "to_ip br = []"
proof -
  obtain ip w1 where ip: "ip_new_if ki w = Some (Inr (ip, w1))"
      and br: "br = (let (tap, ip) = equal_heads tap_ether ip in \<lparr>tap_side = tap, ip_side = ip, to_tap = [], to_ip = []\<rparr>)"
  proof -
    obtain r where r: "ip_new_if ki w = Some r"
      using assms by (auto simp: init_ifs_def bind_eq_Some_conv)
    moreover obtain ip w1 where ip: "r = Inr (ip, w1)"
      using assms r by (cases r) (auto simp: init_ifs_def)
    moreover obtain r' where r': "tap_new_if kt dev w1 = Some r'"
      using assms r ip by (auto simp: init_ifs_def bind_eq_Some_conv)
    moreover obtain n i w2 where "r' = Inr ((n, i), w2)"
      using assms r ip r' by (cases r') (auto simp: init_ifs_def)
    ultimately show thesis
      using assms that [of ip w1] by (simp add: init_ifs_def split_beta)
  qed
  obtain port where port: "0x6400 \<le> port" "port < 0x6500" "ip_ife ip = ip_ether port" "mcast_addr ip = ip_group"
    using ip_new_if_some [OF ip] by blast
  have h: "head_size (ip_ife ip) = 14" "head_size tap_ether = 18"
    using port(3) by (simp_all add: ip_ether_def tap_ether_def)
  then have "br = \<lparr>tap_side = tap_ether, ip_side = ip\<lparr>ip_ife := (ip_ife ip)\<lparr>head_size := 18\<rparr>\<rparr>, to_tap = [], to_ip = []\<rparr>"
    unfolding br equal_heads_def by (simp add: Let_def)
  then show "bridge_ok br" "to_tap br = []" "to_ip br = []"
    using port by (auto simp: bridge_ok_def)
qed

text \<open>Two daemons on one host have different ports and therefore different addresses.\<close>

lemma ports_give_addresses:
  assumes "0x6400 \<le> p" "p < 0x6500" "0x6400 \<le> q" "q < 0x6500" "p \<noteq> q"
  shows "ife_hwaddr (ip_ether p) \<noteq> ife_hwaddr (ip_ether q)"
proof -
  have a: "x AND 0xff = x - 0x6400" if "0x6400 \<le> x" "x < 0x6500" for x :: int
  proof -
    have "x mod 256 = (x - 0x6400) mod 256"
      by (simp add: mod_diff_eq [symmetric])
    then show ?thesis
      using that by (simp add: and_0xff)
  qed
  have "uint (word_of_int i :: byte) = i" if "0 \<le> i" "i < 256" for i
    using that by (simp add: uint_word_of_int)
  from this [of "p - 0x6400"] this [of "q - 0x6400"] have "uint (word_of_int (p - 0x6400) :: byte) \<noteq> uint (word_of_int (q - 0x6400) :: byte)"
    using assms by simp
  then have "(word_of_int (p - 0x6400) :: byte) \<noteq> word_of_int (q - 0x6400)"
    by metis
  then show ?thesis
    using a [of p] a [of q] assms by (simp add: ip_ether_def)
qed

subsection \<open>Copying a frame\<close>

lemma socket_read_ok:
  assumes h: "14 \<le> head_size i" "0 \<le> mtu ifc" and fr: "fr \<noteq> []" "int (length fr) \<le> mtu ifc + 14"
  shows "\<exists>q rest. socket_read i ifc (Some fr) = Some (Inr q) \<and> pbuf_ok q \<and> pb_d q = fr @ rest \<and> packet q = fr \<and>
    pb_offset q = head_size i - 14 \<and> pb_dlen q = int (length fr)"
proof -
  let ?p = "snd (pbuf_drop (pbuf_new (mtu ifc + head_size i)) (head_size i - 14))"
  have p: "pbuf_ok ?p" "pb_max ?p = mtu ifc + 14" "pb_offset ?p = head_size i - 14"
    using h pbuf_drop_ok [OF pbuf_new_ok, of "mtu ifc + head_size i" "head_size i - 14"] by (simp_all add: pbuf_drop_def pbuf_new_def Let_def)
  have len: "int (length (pb_d ?p)) = mtu ifc + 14"
    using length_pb_d [OF p(1)] p(2) by simp
  let ?d = "fr @ drop (length fr) (pb_d ?p)"
  have l: "length fr \<le> length (pb_d ?p)" "take (nat (pb_max ?p)) fr = fr"
    using fr(2) len p(2) by simp_all
  then have d: "mem_put (pb_d ?p) 0 fr = Some ?d" "length ?d = length (pb_d ?p)"
    by (simp_all add: mem_put_def)
  note s = pb_set_ok [OF p(1) d(2)]
  let ?q = "(pb_set ?p ?d)\<lparr>pb_dlen := int (length fr)\<rparr>"
  have "socket_read i ifc (Some fr) = Some (Inr ?q)"
    unfolding socket_read_def Let_def option.case l(2) d(1) Option.bind.simps using fr(1) by simp
  moreover have "pbuf_ok ?q"
    using s(1,4) fr(2) p(2) by (intro pbuf_ok_dlen) simp_all
  moreover have "packet ?q = fr" "pb_d ?q = fr @ drop (length fr) (pb_d ?p)" "pb_offset ?q = head_size i - 14"
    using s p(3) by simp_all
  ultimately show ?thesis
    by (intro exI [of _ ?q]) auto
qed

lemma tap_to_ip:
  assumes br: "bridge_ok br" and eth: "eth \<noteq> []" "length eth \<le> 1290"
  shows "bridge_read From_tap (Some ([a, b, 0x86, 0xdd] @ eth)) br = Some (Inr (1, br\<lparr>to_ip := to_ip br @ [(ip_group, eth)]\<rparr>))"
proof -
  let ?b = "snd (pbuf_drop (pbuf_new 1298) 4)"
  have b: "pbuf_ok ?b" "pb_max ?b = 1294"
    using pbuf_drop_ok [OF pbuf_new_ok [of 1298], of 4] by (simp_all add: pbuf_drop_def pbuf_new_def)
  obtain q where q: "tuntap_do_read (Some ([a, b, 0x86, 0xdd] @ eth)) ?b = Some (Inr (0, q))" "pbuf_ok q" "packet q = eth" "0 \<le> pb_dlen q"
    using tuntap_do_read_ok [OF b(1) _ eth(1), of a b] b(2) eth(2) by auto
  then have "handle_tap_frame q br = Some (Inr (br\<lparr>to_ip := to_ip br @ [(ip_group, eth)]\<rparr>))"
    using pb_write_ok [OF q(2,4)] br by (simp add: handle_tap_frame_def ip_send_frame_def bridge_ok_def)
  then show ?thesis
    using q(1) br by (simp add: bridge_read_def bridge_ok_def tap_read_callback_def tap_ether_def tap_iface_def)
qed

definition eth_src :: "byte list \<Rightarrow> byte list" where
  "eth_src eth = take 6 (drop 6 eth)"

lemma ip_to_tap:
  assumes br: "bridge_ok br" and eth: "eth = h @ [0x86, 0xdd] @ pkt" "length h = 12" "length eth \<le> 1294"
  shows "bridge_read From_ip (Some eth) br = Some (Inr (1,
    if eth_src eth = ife_hwaddr (ip_ife (ip_side br)) then br else br\<lparr>to_tap := to_tap br @ [[0, 0, 0x86, 0xdd] @ eth]\<rparr>))"
proof -
  let ?i = "ip_ife (ip_side br)" and ?f = "ip_iface (ip_side br)"
  have m: "mtu ?f = 1280" "head_size ?i = 18" "eth \<noteq> []"
    using br eth by (auto simp: ip_iface_def bridge_ok_def)
  obtain q rest where q: "socket_read ?i ?f (Some eth) = Some (Inr q)" "pbuf_ok q" "pb_d q = eth @ rest" "packet q = eth" "pb_offset q = 4"
      "pb_dlen q = int (length eth)"
    using socket_read_ok [of ?i ?f eth] m eth(3) by auto
  have "GET_16 (pb_d q) 12 = Some ETHERNET_IPV6_TYPE"
    using GET_16_mid [of h 12 "0x86" "0xdd" "pkt @ rest"] q(3) eth(1,2) by simp
  moreover have "mem_sub (pb_d q) 6 6 = Some (eth_src eth)"
    using q(3) eth(1,2) by (simp add: mem_sub_def eth_src_def)
  moreover have "tap_send_frame q = Some ([0, 0, 0x86, 0xdd] @ eth)"
    using tuntap_do_send_ok [OF q(2)] q(4-6) by (simp add: tap_send_frame_def)
  ultimately show ?thesis
    using q(1) by (auto simp: bridge_read_def ip_read_callback_def handle_802ip_frame_def)
qed

subsection \<open>Properties\<close>

text \<open>
  C38. Two bridges on one host carry IPv6 frames between their tap devices unchanged. A frame of at most
  1290 bytes that the kernel hands to the tap device of one bridge leaves it as a datagram that is the
  frame without the tun header, and the other bridge, which has another port and so another address,
  writes it to its tap device behind a tun header of its own; the header fits, because \<open>init_ifs\<close>
  reserves the larger of the two header sizes on both sides. The first bridge, which gets its own
  datagram back from the multicast group, drops it, so no frame circulates.
\<close>

theorem bridge_carries_frames:
  assumes "init_ifs ki kt dev w = Some (Inr ((br, cmd), w'))" and "init_ifs ki2 kt2 dev2 w2 = Some (Inr ((br2, cmd2), w2'))"
    and "ife_hwaddr (ip_ife (ip_side br2)) \<noteq> ife_hwaddr (ip_ife (ip_side br))"
    and "eth = dst @ ife_hwaddr (ip_ife (ip_side br)) @ [0x86, 0xdd] @ pkt" and "length dst = 6" and "length eth \<le> 1290"
  shows "bridge_read From_tap (Some ([a, b, 0x86, 0xdd] @ eth)) br = Some (Inr (1, br\<lparr>to_ip := [(ip_group, eth)]\<rparr>)) \<and>
    bridge_read From_ip (Some eth) br2 = Some (Inr (1, br2\<lparr>to_tap := [[0, 0, 0x86, 0xdd] @ eth]\<rparr>)) \<and>
    bridge_read From_ip (Some eth) br = Some (Inr (1, br))"
proof -
  note i = init_ifs_ok [OF assms(1)] and j = init_ifs_ok [OF assms(2)]
  let ?src = "ife_hwaddr (ip_ife (ip_side br))"
  have l: "length ?src = 6"
    using i(1) by (auto simp: bridge_ok_def ip_ether_def)
  have e: "eth = (dst @ ?src) @ [0x86, 0xdd] @ pkt" "length (dst @ ?src) = 12" "eth \<noteq> []" "length eth \<le> 1294" "eth_src eth = ?src"
    using assms(4-6) l by (simp_all add: eth_src_def)
  show ?thesis
    using tap_to_ip [OF i(1) e(3) assms(6), of a b] ip_to_tap [OF j(1) e(1,2,4)] ip_to_tap [OF i(1) e(1,2,4)] i(2,3) j(2) e(5) assms(3)
    by simp
qed

definition demo_ip :: "int \<Rightarrow> ip_sys" where
  "demo_ip free = \<lparr>m_socket = 3, m_reuse = 0, m_bind = 0, m_join = 0, u_socket = 4, u_ttl = 0, u_loop = 0,
     u_bind = (\<lambda>p. if p < free then (- 1, True) else (0, False))\<rparr>"

definition demo_tap :: tun_dev where
  "demo_tap = \<lparr>open_fd = 5, set_iff = (\<lambda>n tap. (0, ''tap0''))\<rparr>"

lemma demo_bind: "bind_port (u_bind (demo_ip 0x6401)) 0x6400 = Inr 0x6401" "bind_port (u_bind (demo_ip 0x6400)) 0x6400 = Inr 0x6400"
  by (simp_all add: bind_port.simps demo_ip_def)

lemma demo_bridge:
  assumes "bind_port (u_bind (demo_ip free)) 0x6400 = Inr port" "port \<noteq> 0x6500"
  shows "\<exists>br cmd w. init_ifs (demo_ip free) demo_tap None (start_world zero_time) = Some (Inr ((br, cmd), w)) \<and> ip_ife (ip_side br) = (ip_ether port)\<lparr>head_size := 18\<rparr>"
proof -
  obtain e w1 Q where e: "add_fd_event 3 0 Iface_read (start_world zero_time) = Some (e, w1)" "evq w1 Q"
    using evl.fd_law [OF evq_start, of 3 0 Iface_read zero_time] by blast
  obtain e2 w2 where e2: "add_fd_event 5 0 Iface_read w1 = Some (e2, w2)"
    using evl.fd_law [OF e(2), of 5 0 Iface_read] by blast
  let ?ip = "\<lparr>ip_ife = ip_ether port, mcast_addr = ip_group, mfd = 3, ufd = 4\<rparr>"
  have "ip_new_if (demo_ip free) (start_world zero_time) = Some (Inr (?ip, w1))"
    using assms e(1) by (simp add: ip_new_if_def) (simp add: demo_ip_def)
  moreover have "tap_new_if demo_tap None w1 = Some (Inr ((''tap0'', tap_iface), w2))"
    using e2 by (simp add: tap_new_if_def get_tun_def demo_tap_def)
  ultimately show ?thesis
    by (simp add: init_ifs_def split_beta) (simp add: equal_heads_def ip_ether_def tap_ether_def)
qed

theorem bridge_carries_frames_witness:
  "\<exists>br br2 eth. bridge_read From_tap (Some ([0, 0, 0x86, 0xdd] @ eth)) br = Some (Inr (1, br\<lparr>to_ip := [(ip_group, eth)]\<rparr>)) \<and>
     bridge_read From_ip (Some eth) br2 = Some (Inr (1, br2\<lparr>to_tap := [[0, 0, 0x86, 0xdd] @ eth]\<rparr>)) \<and> br \<noteq> br2"
proof -
  obtain br cmd w where b: "init_ifs (demo_ip 0x6400) demo_tap None (start_world zero_time) = Some (Inr ((br, cmd), w))"
      "ip_ife (ip_side br) = (ip_ether 0x6400)\<lparr>head_size := 18\<rparr>"
    using demo_bridge [OF demo_bind(2)] by auto
  obtain br2 cmd2 w2 where b2: "init_ifs (demo_ip 0x6401) demo_tap None (start_world zero_time) = Some (Inr ((br2, cmd2), w2))"
      "ip_ife (ip_side br2) = (ip_ether 0x6401)\<lparr>head_size := 18\<rparr>"
    using demo_bridge [OF demo_bind(1)] by auto
  have ne: "ife_hwaddr (ip_ife (ip_side br2)) \<noteq> ife_hwaddr (ip_ife (ip_side br))"
    using b(2) b2(2) ports_give_addresses [of "0x6401" "0x6400"] by simp
  let ?eth = "replicate 6 9 @ ife_hwaddr (ip_ife (ip_side br)) @ [0x86, 0xdd] @ [1]"
  have "length ?eth \<le> 1290"
    using b(2) by (simp add: ip_ether_def)
  from bridge_carries_frames [OF b(1) b2(1) ne refl _ this, of 0 0] show ?thesis
    using ne by (intro exI [of _ br] exI [of _ br2] exI [of _ ?eth]) auto
qed

text \<open>
  C39. The 802.3-over-IP driver takes the first port from 0x6400 to 0x64ff that is not in use, as a
  linear search does; any other error of \<open>bind\<close> on the way, and the absence of a free port, end the
  program with status 1. The second byte of the driver's address is the low byte of the port, so
  interfaces with different ports have different addresses.
\<close>

theorem ip_new_if_first_port:
  assumes "evq w Q" and "0 \<le> m_socket k" and "0 \<le> m_reuse k" and "0 \<le> m_bind k" and "0 \<le> m_join k"
    and "0 \<le> u_socket k" and "0 \<le> u_ttl k" and "0 \<le> u_loop k"
  shows "case first_port (u_bind k) 0x6400 of
      None \<Rightarrow> ip_new_if k w = Some (Inl 1)
    | Some q \<Rightarrow> if fst (u_bind k q) < 0 then ip_new_if k w = Some (Inl 1)
        else 0x6400 \<le> q \<and> q < 0x6500 \<and>
          (\<exists>w'. ip_new_if k w = Some (Inr (\<lparr>ip_ife = ip_ether q, mcast_addr = ip_group, mfd = m_socket k, ufd = u_socket k\<rparr>, w'))) \<and>
          (\<forall>q'. 0x6400 \<le> q' \<and> q' < 0x6500 \<and> q' \<noteq> q \<longrightarrow> ife_hwaddr (ip_ether q') \<noteq> ife_hwaddr (ip_ether q))"
proof -
  have new: "ip_new_if k w = (case bind_port (u_bind k) 0x6400 of
      Inl n \<Rightarrow> Some (Inl n)
    | Inr port \<Rightarrow> if port = 0x6500 then Some (Inl 1)
        else do {
          (_, w) \<leftarrow> add_fd_event (m_socket k) 0 Iface_read w;
          Some (Inr (\<lparr>ip_ife = ip_ether port, mcast_addr = ip_group, mfd = m_socket k, ufd = u_socket k\<rparr>, w))
        })"
    using assms(2-8) by (cases "bind_port (u_bind k) 0x6400") (simp_all add: ip_new_if_def Let_def)
  note b = bind_port_first [of "0x6400" "u_bind k", simplified]
  show ?thesis
  proof (cases "first_port (u_bind k) 0x6400")
    case None
    then show ?thesis
      using new b by simp
  next
    case (Some q)
    note r = first_port_range [OF Some]
    obtain e w' where "add_fd_event (m_socket k) 0 Iface_read w = Some (e, w')"
      using evl.fd_law [OF assms(1), of "m_socket k" 0 Iface_read] by blast
    then show ?thesis
      using Some new b r ports_give_addresses [OF _ _ r] by auto
  qed
qed

theorem ip_new_if_first_port_witness:
  "\<exists>i w'. ip_new_if (demo_ip 0x6401) (start_world zero_time) = Some (Inr (i, w')) \<and> ip_ife i = ip_ether 0x6401"
proof -
  have "[0x6400..0x64ff] = 0x6400 # 0x6401 # [0x6402..(0x64ff :: int)]"
    by (simp add: upto_rec1 del: upto_rec_numeral)
  then have "first_port (u_bind (demo_ip 0x6401)) 0x6400 = Some 0x6401"
    unfolding first_port_def by (simp add: demo_ip_def)
  then show ?thesis
    using ip_new_if_first_port [OF evq_start, of "demo_ip 0x6401" zero_time] by (auto simp: demo_ip_def)
qed

end
