(* ===== verification/Alloc.thy ===== *)
theory Alloc
  imports Ptrtd_Prelude "HOL-Library.AList"
begin

text \<open>
  The counting allocator of \<^verbatim>\<open>src/util.c\<close> as built with \<open>TRACK_MEMORY\<close>: every block has a header
  \<open>heap_mem\<close> in front of the bytes its user sees, and \<open>g_allocated\<close> is meant to be the number of
  bytes in use. A block is its header and its bytes; the address is that of the bytes. What \<open>malloc\<close>
  returns is a parameter, 0 for NULL, and so are the bytes \<open>junk\<close> it leaves in the block. A \<open>size_t\<close> has 64 bits and is stored with the low byte first.
\<close>

type_synonym size_t = "64 word"

record heap_mem =
  hm_s :: size_t
  hm_ln :: int
  hm_fn :: string

record heap =
  blocks :: "(nat \<times> heap_mem \<times> byte list) list"
  g_allocated :: "32 word"

definition allocator :: "nat \<Rightarrow> (nat \<Rightarrow> byte) \<Rightarrow> size_t \<Rightarrow> int \<Rightarrow> string \<Rightarrow> heap \<Rightarrow> (nat \<times> heap) option" where
  "allocator p junk s ln fn h =
     (if p = 0 then None
      else let hm = \<lparr>hm_s = s, hm_ln = ln, hm_fn = fn\<rparr> in
        Some (p, h\<lparr>blocks := (p, hm, map junk [0..<unat s]) # blocks h, g_allocated := g_allocated h + ucast (hm_s hm)\<rparr>))"

text \<open>A field of type \<open>size_t\<close> at the start of some bytes.\<close>

definition load_size :: "byte list \<Rightarrow> size_t option" where
  "load_size d = do { m \<leftarrow> mem_sub d 0 8; Some (word_of_int (foldr (\<lambda>b n. uint b + 256 * n) m 0)) }"

text \<open>
  \<open>deallocator\<close> reads \<open>p->s\<close> through the pointer it was given, which is that of the bytes, and only then
  steps back to the header.
\<close>

definition deallocator :: "nat \<Rightarrow> heap \<Rightarrow> heap option" where
  "deallocator p h = do {
     (hm, d) \<leftarrow> map_of (blocks h) p;
     s \<leftarrow> load_size d;
     Some (h\<lparr>g_allocated := g_allocated h - ucast s, blocks := AList.delete p (blocks h)\<rparr>)
   }"

subsection \<open>The counter\<close>

fun block_size :: "nat \<times> heap_mem \<times> byte list \<Rightarrow> 32 word" where
  "block_size (p, hm, d) = ucast (hm_s hm)"

definition counted :: "heap \<Rightarrow> bool" where
  "counted h \<longleftrightarrow> distinct (map fst (blocks h)) \<and> g_allocated h = sum_list (map block_size (blocks h))"

lemma sum_delete:
  fixes f :: "'k \<times> 'v \<Rightarrow> 'a :: len word"
  assumes "distinct (map fst xs)" "map_of xs k = Some v"
  shows "sum_list (map f (AList.delete k xs)) = sum_list (map f xs) - f (k, v)"
  using assms
proof (induction xs)
  case (Cons x xs)
  show ?case
  proof (cases "fst x = k")
    case True
    then have "AList.delete k (x # xs) = xs" "x = (k, v)"
      using Cons.prems by (auto simp: delete_id map_of_eq_None_iff image_iff)
    then show ?thesis
      by simp
  next
    case False
    then show ?thesis
      using Cons by (cases x) auto
  qed
qed simp

lemma allocator_counts:
  assumes "counted h" "p \<noteq> 0" "p \<notin> fst ` set (blocks h)"
  shows "\<exists>h'. allocator p junk s ln fn h = Some (p, h') \<and> counted h' \<and> map_of (blocks h') p = Some (\<lparr>hm_s = s, hm_ln = ln, hm_fn = fn\<rparr>, map junk [0..<unat s])"
  using assms by (auto simp: allocator_def counted_def Let_def)

text \<open>
  C40. With \<open>TRACK_MEMORY\<close> every allocation adds the size of the block to \<open>g_allocated\<close>, so the counter
  is the number of bytes in use as long as nothing is freed. Freeing a block takes off not its size but
  the number that its first eight bytes spell, whatever its user left there, and reads behind a block of
  less than eight bytes; the counter stays right exactly when that number happens to be the size.
\<close>

theorem deallocator_miscounts:
  assumes "counted h" and "map_of (blocks h) p = Some (hm, d)"
  shows "(length d < 8 \<longrightarrow> deallocator p h = None) \<and>
    (8 \<le> length d \<longrightarrow> (\<exists>h' s. load_size d = Some s \<and> deallocator p h = Some h' \<and> map_of (blocks h') p = None \<and>
      (counted h' \<longleftrightarrow> (ucast s :: 32 word) = ucast (hm_s hm))))"
proof (cases "length d < 8")
  case True
  then show ?thesis
    using assms(2) by (simp add: deallocator_def load_size_def mem_sub_def)
next
  case False
  then obtain s where s: "load_size d = Some s"
    by (simp add: load_size_def mem_sub_def)
  let ?h = "h\<lparr>g_allocated := g_allocated h - ucast s, blocks := AList.delete p (blocks h)\<rparr>"
  have "deallocator p h = Some ?h"
    using assms(2) s by (simp add: deallocator_def)
  moreover have "map_of (blocks ?h) p = None"
    by (simp add: delete_conv)
  moreover have "counted ?h \<longleftrightarrow> (ucast s :: 32 word) = ucast (hm_s hm)"
    using assms sum_delete [of "blocks h" p "(hm, d)" block_size] distinct_delete [of "blocks h" p]
    by (auto simp: counted_def)
  ultimately show ?thesis
    using False s by (intro conjI impI exI [of _ ?h] exI [of _ s]) simp_all
qed

theorem deallocator_miscounts_witness:
  "\<exists>h h'. allocator 1 (\<lambda>_. 0) 16 70 ''tcb.c'' \<lparr>blocks = [], g_allocated = 0\<rparr> = Some (1, h) \<and> counted h \<and>
     deallocator 1 h = Some h' \<and> blocks h' = [] \<and> \<not> counted h'"
proof -
  let ?h = "\<lparr>blocks = [(1, \<lparr>hm_s = 16, hm_ln = 70, hm_fn = ''tcb.c''\<rparr>, replicate 16 0)], g_allocated = 16\<rparr>"
  have a: "allocator 1 (\<lambda>_. 0) 16 70 ''tcb.c'' \<lparr>blocks = [], g_allocated = 0\<rparr> = Some (1, ?h)" and c: "counted ?h"
    by (simp_all add: allocator_def counted_def map_replicate_const)
  have l: "load_size (replicate 16 0) = Some 0"
    by (simp add: load_size_def mem_sub_def eval_nat_numeral)
  obtain h' where "deallocator 1 ?h = Some h'" "\<not> counted h'"
    using deallocator_miscounts [OF c, of 1] l by auto
  moreover have "blocks h' = []"
    using calculation(1) l by (auto simp: deallocator_def)
  ultimately show ?thesis
    using a c by blast
qed

end
