(* ===== verification/Spec2Isabelle.thy ===== *)
theory Spec2Isabelle
  imports Ringbuf Ptrtd_Main Session_Open Bridge Alloc
begin

text \<open>
  Verification of ptrtd (nat64d), a userspace relay that lets IPv6 hosts reach IPv4 hosts. The daemon
  owns a network device, runs its own IPv6, ICMPv6, TCP and UDP on the packets it reads from it, and for
  every TCP connection or UDP peer opens a host socket to the IPv4 address in the last four bytes of the
  destination. The sources are under \<^verbatim>\<open>src/\<close>.

  \<^bold>\<open>How the program is put together.\<close> \<open>main\<close> sets up the TCP and UDP listeners and the interface and
  enters \<open>event_loop\<close>, which waits in \<open>select\<close> and runs the callbacks of three lists of events. The read
  callback of the interface strips the link header and hands a packet to \<open>handle_packet\<close>, which passes it
  to \<open>handle_icmp\<close>, \<open>handle_tcp\<close> or \<open>handle_udp\<close>. TCP keeps its connections in a red-black tree and their
  data in ring buffers; it reaches the relay through \<open>struct tcp_callback\<close>, and the relay calls back
  into TCP from the events of its sockets. All packets leave through \<open>send_pkt\<close>, which resolves the link
  address of the next hop. A second program, \<^verbatim>\<open>tap802ipd\<close>, bridges a tap device to a multicast group.

  \<^bold>\<open>How it is modelled.\<close> The state is the record \<open>world\<close> (theory World), which holds the globals of all
  files; a C function is a HOL function on it with the same name. A structure that is reached by pointer
  lives in a partial map from addresses, so that memory which was freed or never allocated is absent.
  Following such a pointer or NULL, leaving a buffer, recursing for ever, waiting for ever in a call that
  blocks and being killed by \<open>SIGPIPE\<close> all give \<open>None\<close>, and so does sending or storing bytes that nobody
  wrote; \<open>exit (n)\<close> gives \<open>Inl n\<close>. That a function returns \<open>Some\<close> therefore means that it terminates and
  is memory safe, and this is part of every theorem here. There is one exception for bytes that nobody
  wrote: the array \<open>pfx\<close> of \<open>handle_udp_read\<close>, which goes into every UDP reply, is a parameter. Loops over pointers are
  \<^theory_text>\<open>partial_function (option)\<close> definitions without fuel, other loops are recursive functions on lists.
  Sequence numbers and addresses are words of their width, bytes are \<open>8 word\<close>, a C \<open>int\<close> is \<open>int\<close>, with its
  bounds proved where a sum runs over a packet (\<open>make_cksum_sound\<close>) and wrapped round in the arithmetic
  on times. What comes from outside, the
  results of system calls, of \<open>ALLOC\<close>, of \<open>select\<close> and of \<open>getopt_long\<close>, is a parameter.

  \<^bold>\<open>The theories\<close>, from the bottom up:
  \<^item> Ptrtd_Prelude: types, checked memory, the byte order macros of \<^verbatim>\<open>defs.h\<close>; Util: \<open>make_cksum\<close> of
    \<^verbatim>\<open>util.c\<close>; Alloc: its counting allocator; Header: execution of the functions that fill in headers.
  \<^item> Ringbuf: \<^verbatim>\<open>buffer.c\<close>. The invariant \<open>ringbuf_ok\<close>, the abstraction \<open>content\<close>, and the locale
    \<open>seq_buffer\<close>, interpreted on the ring buffer, in which it refines a bounded byte queue.
  \<^item> Rbtree, Rbtree_Shape, Rbtree_Insert, Rbtree_Erase, Rbtree_Walk: \<^verbatim>\<open>rbtree.h\<close> and \<^verbatim>\<open>rbtree.c\<close> at
    pointer level with the packed parent and colour word. A tree of addresses represents the memory; the
    rebalancing loops terminate and restore the invariant. Rbtree_Index: the locale \<open>ordered_index\<close>, what
    a client with a comparison of its own gets from the tree.
  \<^item> Pbuf: \<^verbatim>\<open>pbuf.c\<close>. Event, Event_Queue, Event_Loop: \<^verbatim>\<open>event.c\<close>; the three doubly linked lists at
    pointer level, the locale \<open>event_queue\<close> that shows them to their clients as a finite map, and the
    loop. Loop_Safe: the locale \<open>loop_handlers\<close>, the contract between the loop and its callbacks, under
    which every round ends and the lists are emptied at shutdown.
  \<^item> Link: \<^verbatim>\<open>if.c\<close>, \<^verbatim>\<open>ether.c\<close>, \<^verbatim>\<open>if_tuntap.c\<close>; Link_Socket: \<^verbatim>\<open>if_802ip.c\<close>, \<^verbatim>\<open>if_uml_sw.c\<close>. The
    locales \<open>link_driver\<close> (what the protocols rely on) and \<open>ether_driver\<close> (what a driver with an ethernet
    header has to do for it), interpreted on the drivers.
  \<^item> Icmp: \<^verbatim>\<open>icmp.c\<close>, with the neighbour table and \<open>send_pkt\<close>. Tcb: \<^verbatim>\<open>tcb.c\<close>, the connection table as
    a refinement of a finite map. Status: \<^verbatim>\<open>http_status.c\<close>.
  \<^item> Tcp and Tcp_Input: \<^verbatim>\<open>tcp.c\<close>. Ownership: which structure holds which event. Tcp_Session: the
    invariant of a connection and the locale \<open>tcp_app\<close>, the contract of the application behind
    \<open>struct tcp_callback\<close>; Tcp_Safe and Tcp_Handler prove in it, and in its extension \<open>tcp_server\<close>, that
    every operation of TCP keeps the invariant.
  \<^item> Ptrtd_Tcp and Udp: \<^verbatim>\<open>ptrtd-tcp.c\<close>, \<^verbatim>\<open>udp.c\<close>, \<^verbatim>\<open>ptrtd-udp.c\<close>. Relay: the relay meets \<open>tcp_app\<close> and
    \<open>tcp_server\<close> on every link (a sublocale of \<open>link_driver\<close>), and its own handlers keep the invariant.
  \<^item> Ptrtd: \<open>handle_packet\<close> and start-up of \<^verbatim>\<open>ptrtd.c\<close>, and \<open>run_callback\<close>, all callbacks together. Daemon:
    \<open>run_callback\<close> meets \<open>loop_handlers\<close> with the invariant \<open>daemon_inv\<close>. Session_Open: what a \<open>SYN\<close>
    does. Ptrtd_Main: the options, the settings of \<^verbatim>\<open>grammar.y\<close> and \<open>main\<close>. Bridge: \<^verbatim>\<open>tap802ipd.c\<close>.

  \<^bold>\<open>The invariant\<close> \<open>daemon_ok\<close> says that the event lists are well formed and hold exactly the events that
  connections and maps point to; that the connection table is a red-black tree of all connections,
  ordered by their keys, with the listener in it; that the buffers and sequence numbers of every
  connection fit together; that sessions and maps are paired and a map waits for input only if there is
  room for it; and that packets in the neighbour table have room for their headers.

  \<^bold>\<open>What is assumed\<close> of the environment is \<open>env_ok\<close>: \<open>read\<close> returns no more than was asked for, memory
  from \<open>ALLOC\<close> is not in use and is aligned (\<open>ALLOC\<close> never fails), and a received packet is \<open>packet_ok\<close>.
  The last leaves out packets on which the code is not safe or could not be shown to be, and \<open>seg_ok\<close>
  does so for TCP: a neighbour
  advertisement without a link address (\<open>na_without_option_faults\<close>), a packet that makes the daemon
  send an ICMP error (\<open>icmp_send_error_overflows\<close>), a ping without a full header, an acknowledgement
  outside of what was sent (\<open>rb_advance_stale_breaks\<close>), a segment with the key of the listener
  (\<open>tcb_delete_refused_empties\<close>) or one that fills its buffer to the last byte. Errors on which the
  code itself exits from a callback (\<open>recvfrom\<close> or a read of the link that fails, no socket for a UDP
  peer) are excluded as well, and so are \<open>SIGPIPE\<close>, which the program does not ignore, and \<open>EAGAIN\<close> on
  a socket that \<open>select\<close> reported as writable. Of the clients of the status page \<open>round_ok\<close> assumes that
  they send a request and do not reset the connection. Descriptors are below \<open>FD_SETSIZE\<close>: the writes
  of \<open>FD_SET\<close> into its bit set are not modelled.

  \<^bold>\<open>Not modelled\<close>: the lexer and parser that flex and bison generate from \<^verbatim>\<open>scanner.l\<close> and \<^verbatim>\<open>grammar.y\<close>
  (the settings found in a file are a parameter), the text of log messages and of the status page,
  \<open>print_neighbor_status\<close> (it logs the link address of a neighbour also where none was ever stored), the
  log files per connection of debug level 5 (a run with such a level is \<open>None\<close>), \<open>dump_packet\<close>, \<open>usage\<close>, the opening of the status socket, the second \<open>SIGINT\<close> (which aborts), the
  options of \<^verbatim>\<open>tap802ipd\<close>, and builds without \<open>HAVE_LINUX_IF_TUN_H\<close>. Freeing memory that no pointer
  names any more has no effect in the model. Timing other than the order of timers is not covered: the
  clock may show any time after a call of \<open>select\<close>.
\<close>

subsection \<open>Properties of the daemon\<close>

text \<open>
  C17. Start-up. Whatever the devices and sockets answer, \<open>main\<close> either ends with status 1 (an unknown
  driver, or a device that cannot be set up) or reaches the event loop in a state that satisfies the
  invariant of the daemon: the listener is in the connection table, the read event of the interface is
  queued and has no other owner, and the neighbour table and the relays are consistent. The name of the
  device must fit into the 16 bytes of \<open>ifr_name\<close>.
\<close>

theorem ptrtd_start_establishes:
  assumes "t \<noteq> 0" and "aligned t" and "8 \<le> length prefix" and "case iname of None \<Rightarrow> True | Some d \<Rightarrow> length d < 16"
  shows "\<exists>r. ptrtd_start t us k prefix plen itype iname (start_world tv) = Some r \<and>
    (case r of Inl n \<Rightarrow> n = 1 | Inr ((l, cmds), w) \<Rightarrow> link_ok l \<and> daemon_ok l t w)"
  using daemon_start [OF assms, of us k plen itype tv] by auto

theorem ptrtd_start_establishes_witness:
  "\<exists>cmds w. ptrtd_start 8 1 demo_dev (replicate 16 0) 64 ''tap'' None (start_world zero_time) = Some (Inr ((Tap ''tap0'', cmds), w)) \<and>
     daemon_ok (Tap ''tap0'') 8 w"
  using demo_start ptrtd_start_establishes [of 8 "replicate 16 0" None 1 demo_dev 64 "''tap''" zero_time] by (auto simp: aligned_def)

text \<open>
  C1. The daemon does not crash in an environment that keeps to \<open>daemon_env\<close>. From the state after
  start-up the event loop runs through any number of rounds, whatever \<open>select\<close> answers in each, without
  following a bad pointer or leaving a buffer, and every callback returns; the invariant of the daemon
  holds after every round. \<open>daemon_env\<close> requires \<open>env_ok\<close> of every callback in a state that satisfies the
  invariant. It leaves out the packets of which the other properties show that they crash the daemon,
  errors of the link and of \<open>recvfrom\<close> and the lack of a socket for a UDP peer, on which the code exits,
  and of a write to a host the signal \<open>SIGPIPE\<close> and \<open>EAGAIN\<close> after \<open>select\<close> reported the socket. Memory
  is never exhausted and descriptors are below \<open>FD_SETSIZE\<close>. \<open>round_ok\<close> requires that a client of the status page neither
  keeps silent nor resets its connection, since the daemon waits for the one and is killed by the other.
\<close>

theorem daemon_keeps_running:
  assumes "t \<noteq> 0" and "aligned t" and "8 \<le> length prefix" and "case iname of None \<Rightarrow> True | Some d \<Rightarrow> length d < 16"
    and "ptrtd_start t us k prefix plen itype iname (start_world tv) = Some (Inr ((l, cmds), w))" and "daemon_env l t v"
    and "list_all round_ok rs"
  shows "\<exists>w'. event_rounds ssock rs (\<lambda>f w. run_callback l (v f w) f w) w = Some w' \<and> daemon_ok l t w'"
proof -
  have i: "link_ok l" "daemon_ok l t w"
    using daemon_start [OF assms(1-4), of us k plen itype tv] assms(5) by auto
  then show ?thesis
    using loop_handlers.event_rounds_return [OF daemon_loop [OF i(1) assms(6)] _ assms(7), of w] by (auto simp: daemon_ok_def)
qed

theorem daemon_keeps_running_witness:
  "\<exists>cmds w w'. ptrtd_start 8 1 demo_dev (replicate 16 0) 64 ''tap'' None (start_world zero_time) = Some (Inr ((Tap ''tap0'', cmds), w)) \<and>
     event_rounds 4 (replicate 3 (\<lambda>ws n d. (1, (\<lambda>_. True), zero_time), [\<lparr>cl_fd = 9, cl_read = True, cl_write = True\<rparr>], 0)) (\<lambda>f w. run_callback (Tap ''tap0'') demo_env f w) w = Some w'"
proof -
  obtain cmds w where w: "ptrtd_start 8 1 demo_dev (replicate 16 0) 64 ''tap'' None (start_world zero_time) = Some (Inr ((Tap ''tap0'', cmds), w))"
    using demo_start by blast
  show ?thesis
    using daemon_keeps_running [OF _ _ _ _ w demo_env_ok, of "replicate 3 (\<lambda>ws n d. (1, (\<lambda>_. True), zero_time), [\<lparr>cl_fd = 9, cl_read = True, cl_write = True\<rparr>], 0)" 4] w
    by (auto simp: aligned_def list_all_iff round_ok_def client_ok_def served_def)
qed



text \<open>
  C2. TCP input. In every state of the daemon \<open>handle_tcp\<close> returns, follows no bad pointer, stays
  within its buffers and keeps the invariant, for every segment with a full header, whatever its flags
  and its connection: a connection is set up or refused, data is stored and the host socket watched,
  acknowledgements release the output buffer and move the state machine, a reset drops the connection
  and its map. Excluded are a segment that fills its buffer to the last byte, the key of the listener
  as the key of a connection, and acknowledgements that lie outside what was sent.
\<close>

theorem handle_tcp_keeps:
  assumes "link_ok l" and "daemon_ok l t w" and "seg_ok p len w" and "tcbs w nt = None" and "nt \<noteq> 0" and "aligned nt" and "maps w nm = None"
  shows "\<exists>w'. handle_tcp (tcp_map_cb (link_iface l) nm fd conn) (link_iface l) nt p len w = Some w' \<and> daemon_ok l t w'"
proof -
  obtain Q where "sys_ok (link_iface l) (link_room l) apps_ok t Map.empty (sess w) w Q"
    using assms(2) by (auto simp: daemon_ok_def daemon_inv_def)
  from link_driver.tcp_keeps [OF link_driver_ok [OF assms(1)] this assms(3-7), of fd conn] show ?thesis
    by (auto simp: daemon_ok_def daemon_inv_def)
qed

theorem handle_tcp_keeps_witness:
  defines "syn \<equiv> replicate 40 0 @ [0x12, 0x34, 0, 80, 0, 0, 0, 9, 0, 0, 0, 0, 0x50, 2, 0x40, 0, 0, 0, 0, 0, 0 :: byte]"
  shows "\<exists>w w'. daemon_ok (Tap []) 8 w \<and> seg_ok syn 60 w \<and>
    handle_tcp (tcp_map_cb tap_iface 1 5 (0, False)) tap_iface 16 syn 60 w = Some w' \<and> daemon_ok (Tap []) 8 w'"
proof -
  obtain w where w: "dom (tcbs w) = {8}" "maps w = Map.empty" "daemon_inv (Tap []) 8 Map.empty w Map.empty"
    using listeners_start [of 8 zero_time 1 "Tap []"] by (auto simp: aligned_def)
  have "tcbs w 16 = None"
    using w(1) domIff [of 16 "tcbs w"] by simp
  moreover have "seg_ok syn 60 w"
    by (simp add: syn_def seg_ok_def seg_key_def GET_16_def mem_get_def listen_key_def nth_append)
  moreover have "daemon_ok (Tap []) 8 w"
    using w(3) by (auto simp: daemon_ok_def)
  ultimately show ?thesis
    using handle_tcp_keeps [of "Tap []" 8 w syn 60 16 1 5 "(0, False)"] w(2) by (auto simp: aligned_def)
qed

text \<open>
  C3. What the relay is for. A \<open>SYN\<close> to a port that is not zero, of a connection that is not in the
  table, opens a session: a new connection in state \<open>SYN_RECVD\<close> with the addresses and ports of the
  segment, which expects the byte after the \<open>SYN\<close>, and one \<open>connect\<close> of a new socket to the IPv4 host
  whose address is in the last four bytes of the destination, at the same port, with an event that waits
  for the connection. Nothing is sent to the peer before the host has answered; the daemon stays well
  formed.
\<close>

theorem syn_opens_session:
  assumes "link_ok l" and "daemon_ok l t w" and "seg_ok p len w" and "60 \<le> length p" and "uint (p ! 53) AND 0x3f = 2"
    and "GET_16 p 40 = Some rp" and "GET_16 p 42 = Some lp" and "GET_32 p 44 = Some seq" and "0 < lp"
    and "\<And>x c. tcbs w x = Some c \<Longrightarrow> key_of c \<noteq> Conn_key rp lp (take 16 (drop 8 p))"
    and "tcbs w nt = None" and "nt \<noteq> 0" and "aligned nt" and "maps w nm = None" and "0 \<le> fd"
  shows "\<exists>w' c x. handle_tcp (tcp_map_cb (link_iface l) nm fd (- 1, True)) (link_iface l) nt p len w = Some w' \<and> daemon_ok l t w' \<and>
    tcbs w' nt = Some c \<and> state c = TCP_SYN_RECVD \<and> laddr c = take 16 (drop 24 p) \<and> lport c = lp \<and> raddr c = take 16 (drop 8 p) \<and>
    rport c = rp \<and> rcv_nxt c = seq + 1 \<and> app_data c = nm \<and> maps w' nm = Some x \<and> m_fd x = fd \<and> m_tcb x = nt \<and> e_fd_write x \<noteq> 0 \<and>
    calls w' = calls w @ [Connect fd (take 4 (drop 36 p)) lp] \<and> sent w' = sent w"
proof -
  obtain Q where Q: "daemon_inv l t Map.empty w Q"
    using assms(2) by (auto simp: daemon_ok_def)
  obtain w' where "handle_tcp (tcp_map_cb (link_iface l) nm fd (- 1, True)) (link_iface l) nt p len w = Some w'" "daemon_ok l t w'"
    using link_driver.tcp_keeps [OF link_driver_ok [OF assms(1)] Q [unfolded daemon_inv_def] assms(3,11-14), of fd "(- 1, True)"]
    by (auto simp: daemon_ok_def daemon_inv_def)
  with syn_opens [where ifc = "link_iface l" and nm = nm and len = len, OF Q assms(4,5,7,6,8-13,15)] show ?thesis
    by auto
qed

theorem syn_opens_session_witness:
  defines "syn \<equiv> replicate 36 0 @ [192, 0, 2, 1, 0x12, 0x34, 0, 80, 0, 0, 0, 9, 0, 0, 0, 0, 0x50, 2, 0x40, 0, 0, 0, 0, 0, 0 :: byte]"
  shows "\<exists>w w'. daemon_ok (Tap []) 8 w \<and> handle_tcp (tcp_map_cb tap_iface 1 5 (- 1, True)) tap_iface 16 syn 60 w = Some w' \<and>
    daemon_ok (Tap []) 8 w' \<and> calls w' = calls w @ [Connect 5 [192, 0, 2, 1] 80]"
proof -
  obtain w where w: "dom (tcbs w) = {8}" "maps w = Map.empty" "daemon_inv (Tap []) 8 Map.empty w Map.empty"
    using listeners_start [of 8 zero_time 1 "Tap []"] by (auto simp: aligned_def)
  have t: "tcp_ok 8 w"
    using w(3) by (simp add: daemon_inv_def sys_ok_def)
  have "key_of c = listen_key" if "tcbs w x = Some c" for x c
    using w(1) tcp_ok_lt [OF t] that domIff [of x "tcbs w"] by auto
  moreover have "tcbs w 16 = None"
    using w(1) domIff [of 16 "tcbs w"] by simp
  moreover have "seg_ok syn 60 w" "GET_16 syn 40 = Some 4660" "GET_16 syn 42 = Some 80" "GET_32 syn 44 = Some 9" "60 \<le> length syn"
      "uint (syn ! 53) AND 0x3f = 2" "take 4 (drop 36 syn) = [192, 0, 2, 1]"
    by (simp_all add: syn_def seg_ok_def seg_key_def GET_16_def GET_32_def mem_get_def listen_key_def nth_append)
  moreover have "daemon_ok (Tap []) 8 w"
    using w(3) by (auto simp: daemon_ok_def)
  ultimately show ?thesis
    using syn_opens_session [of "Tap []" 8 w syn 60 4660 80 9 16 1 5] w(2) by (fastforce simp: aligned_def listen_key_def)
qed

text \<open>
  C14. From the peer to the host. When the socket of a session can be written and \<open>write\<close> takes at
  least one byte, the handler has passed exactly the bytes that are in the input buffer of the
  connection, all of them and in order, to one call of \<open>write\<close>, and the buffer is empty afterwards; the
  daemon stays well formed. The number \<open>n\<close> of bytes that \<open>write\<close> took is not looked at, so a short write
  loses the rest.
\<close>

theorem handle_fd_can_write_relays:
  assumes "link_ok l" and "daemon_inv l t Map.empty w Q" and "maps w m = Some x" and "e_fd_write x \<noteq> 0"
    and "tcbs w (m_tcb x) = Some c" and "inbuf c = Some ib"
    and "wr (content ib) = Some (n, again)" and "0 < n" and "n \<le> int (length (content ib))"
  shows "\<exists>w' Q' g c' ib'. handle_fd_can_write (link_iface l) wr m w = Some (0, w') \<and> daemon_inv l t [e_fd_write x \<mapsto> (Fd, g)] w' Q' \<and>
    calls w' = calls w @ [Write (m_fd x) (content ib)] \<and> tcbs w' (m_tcb x) = Some c' \<and> inbuf c' = Some ib' \<and> content ib' = []"
proof -
  note ld = link_driver_ok [OF assms(1)]
  have "\<not> (n = - 1 \<and> again)"
    using assms(8) by simp
  from link_driver.handle_fd_can_write_sys [where wr = wr, OF ld assms(2) [unfolded daemon_inv_def] assms(3-7) this] assms(8) show ?thesis
    unfolding link_driver.handled_def [OF ld] daemon_inv_def by auto
qed

theorem handle_fd_can_write_relays_witness:
  "\<exists>w w' m. handle_fd_can_write tap_iface (\<lambda>tb. Some (int (length tb), False)) m w = Some (0, w') \<and> calls w' = calls w @ [Write 5 [65]]"
proof -
  obtain w Q x c ib where w: "daemon_inv (Tap []) 8 Map.empty w Q" "maps w 1 = Some x" "m_tcb x = 16" "m_fd x = 5" "e_fd_write x \<noteq> 0"
      "tcbs w 16 = Some c" "inbuf c = Some ib" "content ib = [65]"
    using session_start [of "Tap []"] by blast
  then show ?thesis
    using handle_fd_can_write_relays [of "Tap []" 8 w Q 1 x c ib "\<lambda>tb. Some (int (length tb), False)" 1 False] by auto
qed

text \<open>
  C15. From the host to the peer. When the socket of a session delivers \<open>n\<close> bytes, exactly these are
  appended to the output buffer of the connection; nothing is lost, because the handler asks for no more
  than the buffer has room for. It keeps its event as long as there is room and gives it up otherwise.
\<close>

theorem handle_fd_can_read_relays:
  assumes "link_ok l" and "daemon_inv l t Map.empty w Q" and "maps w m = Some x" and "e_fd_read x \<noteq> 0"
    and "tcbs w (m_tcb x) = Some c" and "outbuf c = Some ob"
    and "\<And>n. 0 < n \<Longrightarrow> fst (rd n) \<le> n" and "\<And>n. 0 < n \<Longrightarrow> nat (fst (rd n)) \<le> length (snd (snd (rd n)))" and "0 < fst (rd (rb_left ob))"
  shows "\<exists>r w' Q' g c' ob'. handle_fd_can_read (link_iface l) rd m w = Some (r, w') \<and>
    daemon_inv l t (if r = 0 then [e_fd_read x \<mapsto> (Fd, g)] else Map.empty) w' Q' \<and> Q' (e_fd_read x) = Some (Fd, g) \<and>
    tcbs w' (m_tcb x) = Some c' \<and> outbuf c' = Some ob' \<and>
    content ob' = content ob @ take (nat (fst (rd (rb_left ob)))) (snd (snd (rd (rb_left ob))))"
proof -
  note ld = link_driver_ok [OF assms(1)]
  from link_driver.handle_fd_can_read_sys [OF ld assms(2) [unfolded daemon_inv_def] assms(3,4) _ assms(5,6), of rd] assms(7-9)
  obtain r w' where "handle_fd_can_read (link_iface l) rd m w = Some (r, w')" "link_driver.handled (link_iface l) (link_room l) t (e_fd_read x) Fd r w'"
      "\<exists>c' ob'. tcbs w' (m_tcb x) = Some c' \<and> outbuf c' = Some ob' \<and> content ob' = content ob @ take (nat (fst (rd (rb_left ob)))) (snd (snd (rd (rb_left ob))))"
    by blast
  then show ?thesis
    unfolding link_driver.handled_def [OF ld] daemon_inv_def by blast
qed

theorem handle_fd_can_read_relays_witness:
  "\<exists>w r w' m c' ob'. handle_fd_can_read tap_iface (\<lambda>n. (min n 2, False, [66, 67])) m w = Some (r, w') \<and>
     tcbs w' 16 = Some c' \<and> outbuf c' = Some ob' \<and> content ob' = [66, 67]"
proof -
  obtain w Q x c where w: "daemon_inv (Tap []) 8 Map.empty w Q" "maps w 1 = Some x" "m_tcb x = 16" "e_fd_read x \<noteq> 0"
      "tcbs w 16 = Some c" "outbuf c = Some (rb_new 16384)"
    using session_start [of "Tap []"] by blast
  have "content (rb_new 16384) = []" "rb_left (rb_new 16384) = 16384"
    using rb_new_ok [of 16384] by (auto simp: rb_left_def rb_new_fields)
  then show ?thesis
    using handle_fd_can_read_relays [of "Tap []" 8 w Q 1 x c "rb_new 16384" "\<lambda>n. (min n 2, False, [66, 67])"] w by fastforce
qed

text \<open>
  C16. The status page. In every state of the daemon the page of the first client that waits on the
  status socket has one row for every connection, the listener included, in the order of the table, with
  its addresses, ports, buffers and state; the total is their number. The walk over the table is started
  once and not once per client, so every further client that is served by the same call gets an empty
  table under the same total.
\<close>

theorem status_lists_connections:
  assumes "daemon_ok l t w" and "served cl" and "list_all served cls"
  shows "\<exists>xs q qs. distinct xs \<and> set xs = dom (tcbs w) \<and> sorted_wrt (\<lambda>x y. key_at w x < key_at w y) xs \<and>
    write_status_report (cl # cls) u w = Some (q # qs, u + 1 + int (length cls)) \<and> page_fd q = cl_fd cl \<and>
    page_rows q = map (\<lambda>x. row (the (tcbs w x))) xs \<and> page_total q = int (length xs) \<and>
    map page_fd qs = map cl_fd cls \<and> list_all (\<lambda>q. page_rows q = [] \<and> page_total q = int (length xs)) qs"
proof -
  have t: "tcp_ok t w"
    using assms(1) by (auto simp: daemon_ok_def daemon_inv_def sys_ok_def)
  then obtain T where T: "table_ok w T" "dom (tcbs w) = set (addrs T)"
    by (auto simp: tcp_ok_def)
  show ?thesis
    using write_status_report_ok [where cls = cls and u = u, OF T(1) tcp_ok_printable [OF t] assms(2,3)] T table_distinct [OF T(1)]
    by (intro exI [of _ "addrs T"]) (simp add: table_ok_def list_all_iff o_def map_over_nth)
qed

theorem status_lists_connections_witness:
  defines "client \<equiv> \<lambda>fd. \<lparr>cl_fd = fd, cl_read = True, cl_write = True\<rparr>"
  shows "\<exists>w q q'. daemon_ok (Tap []) 8 w \<and> write_status_report [client 7, client 9] 0 w = Some ([q, q'], 2) \<and> map row_state (page_rows q) = [''LISTEN''] \<and> page_rows q' = []"
proof -
  obtain w where w: "dom (tcbs w) = {8}" "daemon_inv (Tap []) 8 Map.empty w Map.empty"
    using listeners_start [of 8 zero_time 1 "Tap []"] by (auto simp: aligned_def)
  then have t: "tcp_ok 8 w" and i: "daemon_ok (Tap []) 8 w"
    by (auto simp: daemon_ok_def daemon_inv_def sys_ok_def)
  obtain c where "tcbs w 8 = Some c"
    using w(1) by blast
  then have c: "row_state (row (the (tcbs w 8))) = ''LISTEN''"
    using tcp_ok_lt [OF t] by (simp add: row_def listener_def stname_def)
  obtain xs q qs where q: "distinct xs" "set xs = {8}" "write_status_report [client 7, client 9] 0 w = Some (q # qs, 2)"
      "page_rows q = map (\<lambda>x. row (the (tcbs w x))) xs" "map page_fd qs = [9]" "list_all (\<lambda>q. page_rows q = []) qs"
    using status_lists_connections [OF i, of "client 7" "[client 9]" 0] w(1) by (auto simp: list_all_iff served_def client_def)
  then have "xs = [8]"
    by (cases xs; cases "tl xs") auto
  then show ?thesis
    using q i c by (intro exI [of _ w]) (auto simp: map_eq_Cons_conv)
qed

end
